(* ===== verification/Raven_Prelude.thy ===== *)
theory Raven_Prelude
  imports Main "HOL-Library.Word" "HOL-Library.AList" "HOL-Library.List_Lexorder"
    "HOL-Library.Char_ord" "HOL-Library.Sublist"
begin

text \<open>
  Shared vocabulary of the development: Go's sized integers as words, byte
  strings, big-endian integers as package \<open>encoding/binary\<close> writes and reads them,
  fallible results as sums with an explicit bind, and the generic list and word
  lemmas the component theories use. Two interfaces live here because every
  component instantiates them: \<open>counted_codec\<close> (a field that is written and read
  back out of a longer buffer) and \<open>invariant_system\<close> (a step relation with an
  invariant).
\<close>

named_theorems codec_simps "round-trip equations of the byte codecs"

section \<open>Go's integer and byte types\<close>

type_synonym byte = "8 word"
type_synonym u16 = "16 word"
type_synonym u32 = "32 word"
type_synonym u64 = "64 word"

text \<open>\<open>int64\<close> and \<open>int32\<close> are words read with \<open>sint\<close>.\<close>

type_synonym i32 = "32 word"
type_synonym i64 = "64 word"

type_synonym bytes = "byte list"

section \<open>Results\<close>

definition bindS :: "'e + 'a \<Rightarrow> ('a \<Rightarrow> 'e + 'b) \<Rightarrow> 'e + 'b" where
  "bindS m f = (case m of Inl e \<Rightarrow> Inl e | Inr x \<Rightarrow> f x)"

lemma bindS_simps [simp]: "bindS (Inl e) f = Inl e" "bindS (Inr x) f = f x"
  by (simp_all add: bindS_def)

lemma bindS_eq_Inr_iff: "bindS m f = Inr y \<longleftrightarrow> (\<exists>x. m = Inr x \<and> f x = Inr y)"
  by (cases m) simp_all

lemma bindS_eq_Inl_iff:
  "bindS m f = Inl e \<longleftrightarrow> m = Inl e \<or> (\<exists>x. m = Inr x \<and> f x = Inl e)"
  by (cases m) simp_all

lemma bindS_assoc: "bindS (bindS m f) g = bindS m (\<lambda>x. bindS (f x) g)"
  by (cases m) simp_all

text \<open>The run-time panics the sources can end in; nothing in them recovers from one, so it ends the process.\<close>

datatype go_panic = IndexOutOfRange | SliceOutOfRange | DivideByZero

type_synonym 'a go = "go_panic + 'a"

section \<open>Big-endian integers\<close>

fun be_bytes :: "nat \<Rightarrow> nat \<Rightarrow> bytes" where
  "be_bytes 0 n = []"
| "be_bytes (Suc k) n = be_bytes k (n div 256) @ [of_nat n]"

definition be_nat :: "bytes \<Rightarrow> nat" where
  "be_nat bs = foldl (\<lambda>a b. a * 256 + unat b) 0 bs"

lemma length_be_bytes [simp]: "length (be_bytes k n) = k"
  by (induction k arbitrary: n) auto

lemma be_nat_snoc: "be_nat (xs @ [b]) = be_nat xs * 256 + unat b"
  by (simp add: be_nat_def)

lemma be_nat_be_bytes: "be_nat (be_bytes k n) = n mod 256 ^ k"
proof (induction k arbitrary: n)
  case 0
  then show ?case by (simp add: be_nat_def)
next
  case (Suc k)
  have "unat (of_nat n :: byte) = n mod 256"
    by (simp add: unat_of_nat)
  then have "be_nat (be_bytes (Suc k) n) = (n div 256 mod 256 ^ k) * 256 + n mod 256"
    by (simp add: be_nat_snoc Suc.IH)
  also have "\<dots> = n mod (256 * 256 ^ k)"
    by (simp add: mod_mult2_eq)
  finally show ?case by simp
qed

lemma unat_byte_less: "unat (b :: byte) < 256"
  using unsigned_less [of b, where 'a = nat] by simp

lemma be_nat_less: "be_nat bs < 256 ^ length bs"
proof (induction bs rule: rev_induct)
  case Nil
  then show ?case by (simp add: be_nat_def)
next
  case (snoc b bs)
  have "unat b < 256" by (rule unat_byte_less)
  with snoc show ?case by (simp add: be_nat_snoc)
qed

lemma be_bytes_be_nat: "be_bytes (length bs) (be_nat bs) = bs"
proof (induction bs rule: rev_induct)
  case Nil
  then show ?case by simp
next
  case (snoc b bs)
  have ub: "unat b < 256" by (rule unat_byte_less)
  have "unat (of_nat (be_nat bs * 256 + unat b) :: byte) = unat b"
    unfolding unat_of_nat using ub by simp
  then have "of_nat (be_nat bs * 256 + unat b) = b"
    by (simp only: word_unat_eq_iff)
  with snoc ub show ?case by (simp add: be_nat_snoc)
qed

text \<open>\<open>binary.BigEndian.AppendUintN\<close> and \<open>binary.BigEndian.UintN\<close>.\<close>

definition AppendUint16 :: "bytes \<Rightarrow> u16 \<Rightarrow> bytes" where
  "AppendUint16 buf v = buf @ be_bytes 2 (unat v)"

definition AppendUint32 :: "bytes \<Rightarrow> u32 \<Rightarrow> bytes" where
  "AppendUint32 buf v = buf @ be_bytes 4 (unat v)"

definition AppendUint64 :: "bytes \<Rightarrow> u64 \<Rightarrow> bytes" where
  "AppendUint64 buf v = buf @ be_bytes 8 (unat v)"

definition Uint16 :: "bytes \<Rightarrow> u16" where
  "Uint16 b = of_nat (be_nat (take 2 b))"

definition Uint32 :: "bytes \<Rightarrow> u32" where
  "Uint32 b = of_nat (be_nat (take 4 b))"

definition Uint64 :: "bytes \<Rightarrow> u64" where
  "Uint64 b = of_nat (be_nat (take 8 b))"

lemma Uint16_be_bytes [codec_simps]: "Uint16 (be_bytes 2 n @ c) = of_nat n"
  by (simp add: Uint16_def be_nat_be_bytes word_unat_eq_iff unat_of_nat)

lemma Uint32_be_bytes [codec_simps]: "Uint32 (be_bytes 4 n @ c) = of_nat n"
  by (simp add: Uint32_def be_nat_be_bytes word_unat_eq_iff unat_of_nat)

lemma Uint64_be_bytes [codec_simps]: "Uint64 (be_bytes 8 n @ c) = of_nat n"
  by (simp add: Uint64_def be_nat_be_bytes word_unat_eq_iff unat_of_nat)

lemma Uint16_take [simp]: "2 \<le> n \<Longrightarrow> Uint16 (take n b) = Uint16 b"
  by (simp add: Uint16_def min_def)

lemma Uint32_take [simp]: "4 \<le> n \<Longrightarrow> Uint32 (take n b) = Uint32 b"
  by (simp add: Uint32_def min_def)

lemma Uint64_take [simp]: "8 \<le> n \<Longrightarrow> Uint64 (take n b) = Uint64 b"
  by (simp add: Uint64_def min_def)

section \<open>Slices and Go strings\<close>

text \<open>\<open>b[i:j]\<close>; every use in the model has \<open>i \<le> j \<le> len(b)\<close>, as the code has.\<close>

definition go_slice :: "'a list \<Rightarrow> nat \<Rightarrow> nat \<Rightarrow> 'a list" where
  "go_slice b i j = take (j - i) (drop i b)"

lemma go_slice_append: "j \<le> length b \<Longrightarrow> go_slice (b @ c) i j = go_slice b i j"
  by (cases "i \<le> j") (simp_all add: go_slice_def)

lemma go_slice_take: "j \<le> n \<Longrightarrow> go_slice (take n b) i j = go_slice b i j"
  by (simp add: go_slice_def drop_take)

lemma length_go_slice [simp]: "j \<le> length b \<Longrightarrow> length (go_slice b i j) = j - i"
  by (simp add: go_slice_def)

lemma go_slice_prefix: "drop pos b = xs @ c \<Longrightarrow> go_slice b pos (pos + length xs) = xs"
  by (simp add: go_slice_def)

lemma drop_after: "drop pos b = xs @ c \<Longrightarrow> drop (pos + length xs) b = c"
  by (metis add.commute append_eq_conv_conj drop_drop)

lemma drop_after_less: "drop pos b = xs @ c \<Longrightarrow> pos \<le> length b \<Longrightarrow> pos + length xs \<le> length b"
  by (metis add_diff_inverse_nat add_le_cancel_left leD le_add1 length_append length_drop)

text \<open>
  A Go string is a sequence of bytes, and so is an Isabelle \<open>string\<close> (its
  characters are the 256 byte values); the two conversions are inverse.
\<close>

definition bytes_of_string :: "string \<Rightarrow> bytes" where
  "bytes_of_string s = map (\<lambda>c. of_nat (of_char c)) s"

definition string_of_bytes :: "bytes \<Rightarrow> string" where
  "string_of_bytes bs = map (\<lambda>b. char_of (unat b)) bs"

lemma length_bytes_of_string [simp]: "length (bytes_of_string s) = length s"
  by (simp add: bytes_of_string_def)

lemma length_string_of_bytes [simp]: "length (string_of_bytes bs) = length bs"
  by (simp add: string_of_bytes_def)

lemma string_of_bytes_of_string [simp]: "string_of_bytes (bytes_of_string s) = s"
proof -
  have "unat (of_nat (of_char c :: nat) :: byte) = of_char c" for c
    unfolding unat_of_nat by simp
  then show ?thesis
    by (simp add: string_of_bytes_def bytes_of_string_def o_def)
qed

lemma bytes_of_string_of_bytes [simp]: "bytes_of_string (string_of_bytes bs) = bs"
proof -
  have "of_nat (of_char (char_of (unat b)) :: nat) = b" for b :: byte
    using unat_byte_less [of b] by (simp add: of_char_of)
  then show ?thesis
    by (simp add: string_of_bytes_def bytes_of_string_def o_def)
qed

lemma upt_join: "a \<le> b \<Longrightarrow> b \<le> c \<Longrightarrow> [a ..< b] @ [b ..< c] = [a ..< c]"
  using upt_add_eq_append [of a b "c - b"] by simp

section \<open>Hashes and maps of slices\<close>

text \<open>\<open>hash/fnv\<close>: 32-bit FNV-1a.\<close>

definition fnv32a :: "bytes \<Rightarrow> u32" where
  "fnv32a bs = foldl (\<lambda>h b. (xor h (ucast b)) * 16777619) 2166136261 bs"

text \<open>\<open>m[k]\<close> on a map of slices: nil for a missing key.\<close>

definition getList :: "('k \<times> 'a list) list \<Rightarrow> 'k \<Rightarrow> 'a list" where
  "getList m k = (case map_of m k of None \<Rightarrow> [] | Some l \<Rightarrow> l)"

lemma getList_update [simp]: "getList (AList.update k v m) x = (if x = k then v else getList m x)"
  by (simp add: getList_def update_conv)

section \<open>Counted fields\<close>

text \<open>
  The decoders read a count and then that many elements, stopping at the first
  failure. A decoder maps a cursor to an error or to the element and the advanced
  cursor; \<open>repeatS\<close> is the loop.
\<close>

fun repeatS :: "('r \<Rightarrow> 'e + ('a \<times> 'r)) \<Rightarrow> nat \<Rightarrow> 'r \<Rightarrow> 'e + ('a list \<times> 'r)" where
  "repeatS f 0 r = Inr ([], r)"
| "repeatS f (Suc n) r =
     bindS (f r) (\<lambda>(x, r'). bindS (repeatS f n r') (\<lambda>(xs, r''). Inr (x # xs, r'')))"

text \<open>
  The interface of one element: when the bytes ahead of the cursor start with the
  encoding of a valid element, decoding returns it and leaves the cursor on what
  follows.
\<close>

locale counted_codec =
  fixes ahead :: "'r \<Rightarrow> bytes \<Rightarrow> bool"
    and enc :: "'a \<Rightarrow> bytes"
    and dec :: "'r \<Rightarrow> 'e + ('a \<times> 'r)"
    and valid :: "'a \<Rightarrow> bool"
  assumes dec_enc: "valid x \<Longrightarrow> ahead r (enc x @ c) \<Longrightarrow> \<exists>r'. dec r = Inr (x, r') \<and> ahead r' c"
begin

lemma repeatS_enc:
  "list_all valid xs \<Longrightarrow> ahead r (concat (map enc xs) @ c) \<Longrightarrow>
   \<exists>r'. repeatS dec (length xs) r = Inr (xs, r') \<and> ahead r' c"
proof (induction xs arbitrary: r)
  case Nil
  then show ?case by simp
next
  case (Cons x xs)
  then have "ahead r (enc x @ (concat (map enc xs) @ c))" "valid x" by simp_all
  then obtain r1 where r1: "dec r = Inr (x, r1)" "ahead r1 (concat (map enc xs) @ c)"
    using dec_enc by blast
  with Cons obtain r2 where "repeatS dec (length xs) r1 = Inr (xs, r2)" "ahead r2 c"
    by force
  with r1 show ?case by simp
qed

end

section \<open>Torn reads\<close>

text \<open>
  \<open>torn_safe e f\<close>: a cursor parser \<open>f\<close> over a byte buffer whose only failure is \<open>e\<close>.
  Once it succeeds, more bytes after the ones it consumed change nothing, and
  cutting the buffer inside the bytes it consumed makes it fail with \<open>e\<close>.
\<close>

definition torn_safe :: "'e \<Rightarrow> (bytes \<times> nat \<Rightarrow> 'e + ('a \<times> bytes \<times> nat)) \<Rightarrow> bool" where
  "torn_safe e f \<longleftrightarrow>
     (\<forall>b pos e'. pos \<le> length b \<longrightarrow> f (b, pos) = Inl e' \<longrightarrow> e' = e) \<and>
     (\<forall>b pos x b' pos'. pos \<le> length b \<longrightarrow> f (b, pos) = Inr (x, b', pos') \<longrightarrow>
        b' = b \<and> pos \<le> pos' \<and> pos' \<le> length b) \<and>
     (\<forall>b pos x b' pos' c. pos \<le> length b \<longrightarrow> f (b, pos) = Inr (x, b', pos') \<longrightarrow>
        f (b @ c, pos) = Inr (x, b @ c, pos')) \<and>
     (\<forall>b pos x b' pos' n. pos \<le> n \<longrightarrow> n \<le> length b \<longrightarrow> f (b, pos) = Inr (x, b', pos') \<longrightarrow>
        f (take n b, pos) = (if n < pos' then Inl e else Inr (x, take n b, pos')))"

lemma torn_safeI:
  assumes "\<And>b pos e'. pos \<le> length b \<Longrightarrow> f (b, pos) = Inl e' \<Longrightarrow> e' = e"
    and "\<And>b pos x b' pos'. pos \<le> length b \<Longrightarrow> f (b, pos) = Inr (x, b', pos') \<Longrightarrow>
      b' = b \<and> pos \<le> pos' \<and> pos' \<le> length b"
    and "\<And>b pos x b' pos' c. pos \<le> length b \<Longrightarrow> f (b, pos) = Inr (x, b', pos') \<Longrightarrow>
      f (b @ c, pos) = Inr (x, b @ c, pos')"
    and "\<And>b pos x b' pos' n. pos \<le> n \<Longrightarrow> n \<le> length b \<Longrightarrow> f (b, pos) = Inr (x, b', pos') \<Longrightarrow>
      f (take n b, pos) = (if n < pos' then Inl e else Inr (x, take n b, pos'))"
  shows "torn_safe e f"
  unfolding torn_safe_def
  by (intro conjI allI impI; (rule assms(1) assms(2) assms(3) assms(4); assumption)?)
    (use assms(2) in blast)+

lemma torn_safe_Inl: "torn_safe e f \<Longrightarrow> pos \<le> length b \<Longrightarrow> f (b, pos) = Inl e' \<Longrightarrow> e' = e"
  unfolding torn_safe_def by (elim conjE) blast

lemma torn_safe_bounds:
  "torn_safe e f \<Longrightarrow> pos \<le> length b \<Longrightarrow> f (b, pos) = Inr (x, b', pos') \<Longrightarrow>
   b' = b \<and> pos \<le> pos' \<and> pos' \<le> length b"
  unfolding torn_safe_def by (elim conjE) blast

lemma torn_safe_append:
  "torn_safe e f \<Longrightarrow> pos \<le> length b \<Longrightarrow> f (b, pos) = Inr (x, b', pos') \<Longrightarrow>
   f (b @ c, pos) = Inr (x, b @ c, pos')"
  unfolding torn_safe_def by (elim conjE) blast

lemma torn_safe_take:
  "torn_safe e f \<Longrightarrow> pos \<le> n \<Longrightarrow> n \<le> length b \<Longrightarrow> f (b, pos) = Inr (x, b', pos') \<Longrightarrow>
   f (take n b, pos) = (if n < pos' then Inl e else Inr (x, take n b, pos'))"
  unfolding torn_safe_def by (elim conjE) blast

lemma torn_safe_return [intro]: "torn_safe e (\<lambda>(b, pos). Inr (x, b, pos))"
  by (rule torn_safeI) auto

lemma torn_safe_bind [intro]:
  assumes f: "torn_safe e f" and g: "\<And>x. torn_safe e (g x)"
  shows "torn_safe e (\<lambda>r. bindS (f r) (\<lambda>(x, r'). g x r'))"
proof (rule torn_safeI)
  fix b pos e' assume pos: "pos \<le> length b"
    and "bindS (f (b, pos)) (\<lambda>(x, r'). g x r') = Inl e'"
  then consider "f (b, pos) = Inl e'"
    | x b1 p1 where "f (b, pos) = Inr (x, b1, p1)" "g x (b1, p1) = Inl e'"
    by (auto simp: bindS_eq_Inl_iff)
  then show "e' = e"
  proof cases
    case 1
    with f pos show ?thesis by (blast dest: torn_safe_Inl)
  next
    case 2
    with torn_safe_bounds [OF f pos] have "g x (b, p1) = Inl e'" "p1 \<le> length b" by auto
    with g show ?thesis by (blast dest: torn_safe_Inl)
  qed
next
  fix b pos y b' pos' assume pos: "pos \<le> length b"
    and "bindS (f (b, pos)) (\<lambda>(x, r'). g x r') = Inr (y, b', pos')"
  then obtain x b1 p1 where 1: "f (b, pos) = Inr (x, b1, p1)" "g x (b1, p1) = Inr (y, b', pos')"
    by (auto simp: bindS_eq_Inr_iff)
  with torn_safe_bounds [OF f pos 1(1)] torn_safe_bounds [OF g, of p1 b1 x y b' pos']
  show "b' = b \<and> pos \<le> pos' \<and> pos' \<le> length b" by auto
next
  fix b pos y b' pos' c assume pos: "pos \<le> length b"
    and "bindS (f (b, pos)) (\<lambda>(x, r'). g x r') = Inr (y, b', pos')"
  then obtain x b1 p1 where 1: "f (b, pos) = Inr (x, b1, p1)" "g x (b1, p1) = Inr (y, b', pos')"
    by (auto simp: bindS_eq_Inr_iff)
  with torn_safe_bounds [OF f pos 1(1)] torn_safe_append [OF f pos 1(1), of c]
    torn_safe_append [OF g, of p1 b x y b' pos' c]
  show "bindS (f (b @ c, pos)) (\<lambda>(x, r'). g x r') = Inr (y, b @ c, pos')" by auto
next
  fix b pos y b' pos' n assume pos: "pos \<le> n" and n: "n \<le> length b"
    and "bindS (f (b, pos)) (\<lambda>(x, r'). g x r') = Inr (y, b', pos')"
  then obtain x b1 p1 where 1: "f (b, pos) = Inr (x, b1, p1)" "g x (b1, p1) = Inr (y, b', pos')"
    by (auto simp: bindS_eq_Inr_iff)
  have b1: "b1 = b" "p1 \<le> length b" using torn_safe_bounds [OF f _ 1(1)] pos n by auto
  have p1: "p1 \<le> pos'" using torn_safe_bounds [OF g _ 1(2)] b1 by simp
  show "bindS (f (take n b, pos)) (\<lambda>(x, r'). g x r') =
    (if n < pos' then Inl e else Inr (y, take n b, pos'))"
    using torn_safe_take [OF f pos n 1(1)] torn_safe_take [OF g, of p1 n b x y b' pos'] 1(2) b1 p1 n
    by (auto split: if_splits)
qed

lemma torn_safe_bindI:
  "torn_safe e f \<Longrightarrow> (\<And>x. torn_safe e (\<lambda>r. h (x, r))) \<Longrightarrow> torn_safe e (\<lambda>r. bindS (f r) h)"
  using torn_safe_bind [of e f "\<lambda>x r. h (x, r)"] by simp

lemma torn_safe_repeatS [intro]: "torn_safe e f \<Longrightarrow> torn_safe e (repeatS f n)"
proof (induction n)
  case 0
  have "repeatS f 0 = (\<lambda>(b, pos). Inr ([], b, pos))" by auto
  then show ?case by (simp only: torn_safe_return)
next
  case (Suc n)
  have "torn_safe e (\<lambda>r. bindS (repeatS f n r) (\<lambda>(xs, r''). Inr (x # xs, r'')))" for x
  proof -
    have "torn_safe e (\<lambda>r. bindS (repeatS f n r) (\<lambda>(xs, r'). (\<lambda>(b, pos). Inr (x # xs, b, pos)) r'))"
      by (rule torn_safe_bind [OF Suc.IH [OF Suc.prems]]) (rule torn_safe_return)
    then show ?thesis by (simp add: prod.case_eq_if)
  qed
  from torn_safe_bind [OF Suc.prems this]
  have "torn_safe e (\<lambda>r. bindS (f r) (\<lambda>(x, r'). bindS (repeatS f n r') (\<lambda>(xs, r''). Inr (x # xs, r''))))" .
  moreover have "repeatS f (Suc n) = (\<lambda>r. bindS (f r) (\<lambda>(x, r'). bindS (repeatS f n r') (\<lambda>(xs, r''). Inr (x # xs, r''))))"
    by (rule ext) simp
  ultimately show ?case by (simp only:)
qed

section \<open>Systems with an invariant\<close>

text \<open>
  A step relation from initial states; an invariant that every step keeps holds in
  every reachable state.
\<close>

inductive reachable :: "('s \<Rightarrow> bool) \<Rightarrow> ('s \<Rightarrow> 's \<Rightarrow> bool) \<Rightarrow> 's \<Rightarrow> bool"
  for init :: "'s \<Rightarrow> bool" and step :: "'s \<Rightarrow> 's \<Rightarrow> bool" where
  reachable_init: "init s \<Longrightarrow> reachable init step s"
| reachable_step: "reachable init step s \<Longrightarrow> step s t \<Longrightarrow> reachable init step t"

locale invariant_system =
  fixes init :: "'s \<Rightarrow> bool" and step :: "'s \<Rightarrow> 's \<Rightarrow> bool" and inv :: "'s \<Rightarrow> bool"
  assumes inv_init: "init s \<Longrightarrow> inv s"
    and inv_step: "inv s \<Longrightarrow> step s t \<Longrightarrow> inv t"
begin

lemma reachable_inv: "reachable init step s \<Longrightarrow> inv s"
  by (induction rule: reachable.induct) (auto intro: inv_init inv_step)

end

end
