(* ===== verification/Crc32c.thy ===== *)
theory Crc32c
  imports Raven_Prelude
begin

text \<open>
  CRC-32 with the Castagnoli polynomial, as \<open>hash/crc32\<close> computes it (reflected,
  register preset to all ones and complemented at the end). The record format
  relies on one property of it: no single-byte change of the covered bytes keeps
  the checksum, because the register update is injective in the register and in
  the input byte.
\<close>

unbundle bit_operations_syntax

definition castagnoli :: u32 where
  "castagnoli = 0x82f63b78"

definition crc_bit :: "u32 \<Rightarrow> u32" where
  "crc_bit c = (if bit c 0 then drop_bit 1 c XOR castagnoli else drop_bit 1 c)"

fun crc_bits :: "nat \<Rightarrow> u32 \<Rightarrow> u32" where
  "crc_bits 0 c = c"
| "crc_bits (Suc n) c = crc_bits n (crc_bit c)"

definition crc_update :: "u32 \<Rightarrow> byte \<Rightarrow> u32" where
  "crc_update c b = crc_bits 8 (c XOR ucast b)"

definition Checksum :: "bytes \<Rightarrow> u32" where
  "Checksum data = NOT (foldl crc_update (NOT 0) data)"

lemma xor_right_eq_iff: "x XOR p = y XOR p \<longleftrightarrow> x = y" for x y p :: u32
  by (auto simp: bit_eq_iff bit_xor_iff)

lemma xor_left_eq_iff: "p XOR x = p XOR y \<longleftrightarrow> x = y" for x y p :: u32
  by (auto simp: bit_eq_iff bit_xor_iff)

lemma not_bit_32: "\<not> bit (c :: u32) 32"
  using bit_imp_le_length [of c 32] by auto

lemma crc_bit_top: "bit (crc_bit c) 31 = bit c 0"
  by (simp add: crc_bit_def castagnoli_def bit_xor_iff bit_drop_bit_eq not_bit_32)

lemma word_drop_bit_eqI:
  fixes x y :: u32
  assumes "bit x 0 = bit y 0" and "drop_bit 1 x = drop_bit 1 y"
  shows "x = y"
proof (rule bit_word_eqI)
  fix n assume "n < LENGTH(32)"
  show "bit x n = bit y n"
  proof (cases n)
    case 0
    with assms(1) show ?thesis by simp
  next
    case (Suc m)
    from assms(2) have "bit (drop_bit 1 x) m = bit (drop_bit 1 y) m" by simp
    with Suc show ?thesis by (simp add: bit_drop_bit_eq)
  qed
qed

lemma inj_crc_bit: "inj crc_bit"
proof (rule injI)
  fix x y assume eq: "crc_bit x = crc_bit y"
  then have par: "bit x 0 = bit y 0" by (metis crc_bit_top)
  with eq have "drop_bit 1 x = drop_bit 1 y"
    unfolding crc_bit_def by (cases "bit x 0") (auto simp: xor_right_eq_iff)
  with par show "x = y" by (rule word_drop_bit_eqI)
qed

lemma inj_crc_bits: "inj (crc_bits n)"
proof (induction n)
  case (Suc n)
  from inj_compose [OF this inj_crc_bit] show ?case by (simp add: o_def)
qed simp

lemma crc_update_reg_inj: "crc_update c b = crc_update c' b \<longleftrightarrow> c = c'"
  unfolding crc_update_def inj_eq [OF inj_crc_bits] by (rule xor_right_eq_iff)

lemma ucast_byte_inj: "(ucast b :: u32) = ucast b' \<longleftrightarrow> b = b'" for b b' :: byte
proof
  assume eq: "(ucast b :: u32) = ucast b'"
  show "b = b'"
  proof (rule bit_word_eqI)
    fix n assume "n < LENGTH(8)"
    moreover from eq have "bit (ucast b :: u32) n = bit (ucast b' :: u32) n" by simp
    ultimately show "bit b n = bit b' n" by (simp add: bit_ucast_iff)
  qed
qed simp

lemma crc_update_byte_inj: "crc_update c b = crc_update c b' \<longleftrightarrow> b = b'"
  unfolding crc_update_def inj_eq [OF inj_crc_bits] by (simp add: xor_left_eq_iff ucast_byte_inj)

lemma foldl_crc_inj: "foldl crc_update c bs = foldl crc_update c' bs \<longleftrightarrow> c = c'"
  by (induction bs arbitrary: c c') (auto simp: crc_update_reg_inj)

lemma Checksum_byte_change:
  "b \<noteq> b' \<Longrightarrow> Checksum (xs @ b # ys) \<noteq> Checksum (xs @ b' # ys)"
  by (simp add: Checksum_def foldl_crc_inj crc_update_byte_inj)

lemma Checksum_list_update:
  assumes "i < length bs" and "x \<noteq> bs ! i"
  shows "Checksum (bs[i := x]) \<noteq> Checksum bs"
proof -
  have "bs = take i bs @ bs ! i # drop (Suc i) bs"
    using assms(1) by (rule id_take_nth_drop)
  moreover have "bs[i := x] = take i bs @ x # drop (Suc i) bs"
    using assms(1) by (rule upd_conv_take_nth_drop)
  ultimately show ?thesis
    using Checksum_byte_change [OF assms(2)] by metis
qed

text \<open>A published check value: the checksum of the one-byte string \<open>a\<close>.\<close>

lemma crc_update_unroll:
  "crc_update c b = crc_bit (crc_bit (crc_bit (crc_bit (crc_bit (crc_bit (crc_bit
     (crc_bit (c XOR ucast b))))))))"
  by (simp add: crc_update_def numeral_eq_Suc)

lemma Checksum_check_value: "Checksum [0x61] = 0xC1D04330"
  by (simp add: Checksum_def crc_update_unroll crc_bit_def castagnoli_def)

end
