(* ===== verification/Record_Codec.thy ===== *)
theory Record_Codec
  imports Crc32c
begin

text \<open>
  The on-disk record format (internal/broker/storage/record.go): \<open>EncodeRecord\<close>
  and \<open>DecodeRecord\<close>. The decoder is a cursor over the buffer whose reads fail with
  \<open>ErrTruncated\<close> when the buffer ends first; the checksum is compared last. The
  lemmas show the round trip, that a strict prefix of an encoded record is always
  reported as truncated (a torn write), and that a changed byte is detected.
\<close>

datatype storage_error =
    ErrCorrupt | ErrTruncated | ErrHeaderTooLarge | ErrOffsetOutOfRange
  | ErrPartitionClosed | ErrEmptyBatch | ErrDivergedAppend | ErrOffsetGap
  | ErrIndexInvalid | ErrIO | ErrTooManyKeys | ErrSwapUnresolvable
  | ErrInvalidDeletionCount | ErrCancelled | ErrNotReturning | ErrPanic | ErrNotExist

record Header =
  h_Key :: string
  h_Value :: bytes

record Record =
  Offset :: u64
  TimestampMs :: i64
  Key :: bytes
  Value :: bytes
  Headers :: "Header list"

definition recordFixedSize :: nat where
  "recordFixedSize = 4 + 8 + 8 + 4"

definition MaxHeaderLen :: nat where
  "MaxHeaderLen = 2 ^ 16 - 1"

section \<open>Encoding\<close>

definition encodeHeader :: "bytes \<Rightarrow> Header \<Rightarrow> bytes" where
  "encodeHeader buf h =
     (let buf = AppendUint16 buf (of_nat (length (h_Key h)));
          buf = buf @ bytes_of_string (h_Key h);
          buf = AppendUint16 buf (of_nat (length (h_Value h)))
      in buf @ h_Value h)"

definition EncodeRecord :: "bytes \<Rightarrow> Record \<Rightarrow> storage_error + bytes" where
  "EncodeRecord buf r =
     (if \<exists>h \<in> set (Headers r). length (h_Key h) > MaxHeaderLen \<or> length (h_Value h) > MaxHeaderLen
      then Inl ErrHeaderTooLarge
      else
        let start = length buf;
            buf = AppendUint32 buf 0;
            buf = AppendUint64 buf (Offset r);
            buf = AppendUint64 buf (TimestampMs r);
            buf = AppendUint32 buf (of_nat (length (Key r)));
            buf = buf @ Key r;
            buf = AppendUint32 buf (of_nat (length (Value r)));
            buf = buf @ Value r;
            buf = AppendUint16 buf (of_nat (length (Headers r)));
            buf = foldl encodeHeader buf (Headers r);
            crc = Checksum (drop (start + 4) buf)
        in Inr (take start buf @ AppendUint32 [] crc @ drop (start + 4) buf))"

section \<open>Decoding\<close>

text \<open>The two read idioms of the decoder: a length check, then the field.\<close>

definition read_u16 :: "bytes \<times> nat \<Rightarrow> storage_error + (nat \<times> bytes \<times> nat)" where
  "read_u16 = (\<lambda>(b, pos).
     if length b - pos < 2 then Inl ErrTruncated
     else Inr (unat (Uint16 (go_slice b pos (pos + 2))), b, pos + 2))"

definition read_u32 :: "bytes \<times> nat \<Rightarrow> storage_error + (nat \<times> bytes \<times> nat)" where
  "read_u32 = (\<lambda>(b, pos).
     if length b - pos < 4 then Inl ErrTruncated
     else Inr (unat (Uint32 (go_slice b pos (pos + 4))), b, pos + 4))"

definition read_bytes :: "nat \<Rightarrow> bytes \<times> nat \<Rightarrow> storage_error + (bytes \<times> bytes \<times> nat)" where
  "read_bytes n = (\<lambda>(b, pos).
     if n > length b - pos then Inl ErrTruncated
     else Inr (go_slice b pos (pos + n), b, pos + n))"

definition decodeHeader :: "bytes \<times> nat \<Rightarrow> storage_error + (Header \<times> bytes \<times> nat)" where
  "decodeHeader r =
     bindS (read_u16 r) (\<lambda>(kLen, r).
     bindS (read_bytes kLen r) (\<lambda>(key, r).
     bindS (read_u16 r) (\<lambda>(vLen, r).
     bindS (read_bytes vLen r) (\<lambda>(val, r).
       Inr (\<lparr>h_Key = string_of_bytes key, h_Value = val\<rparr>, r)))))"

definition DecodeRecord :: "bytes \<Rightarrow> storage_error + (Record \<times> nat)" where
  "DecodeRecord b =
     (if length b < recordFixedSize then Inl ErrTruncated
      else
        let wantCRC = Uint32 (go_slice b 0 4);
            offset = Uint64 (go_slice b 4 12);
            ts = Uint64 (go_slice b 12 20);
            keyLen = unat (Uint32 (go_slice b 20 24))
        in
        bindS (read_bytes keyLen (b, recordFixedSize)) (\<lambda>(key, r).
        bindS (read_u32 r) (\<lambda>(valLen, r).
        bindS (read_bytes valLen r) (\<lambda>(val, r).
        bindS (read_u16 r) (\<lambda>(headerCount, r).
        bindS (repeatS decodeHeader headerCount r) (\<lambda>(hs, (_, pos)).
          if Checksum (go_slice b 4 pos) \<noteq> wantCRC then Inl ErrCorrupt
          else Inr (\<lparr>Offset = offset, TimestampMs = ts, Key = key, Value = val, Headers = hs\<rparr>,
                    pos)))))))"

section \<open>Encodable records and their encoding\<close>

text \<open>
  The length fields are 32 and 16 bits wide and the encoder writes the lengths
  modulo that width; \<open>encodable\<close> says that nothing wraps. A record that arrived in a
  4 MiB frame with a 16-bit header count always is.
\<close>

definition encodable_header :: "Header \<Rightarrow> bool" where
  "encodable_header h \<longleftrightarrow> length (h_Key h) \<le> MaxHeaderLen \<and> length (h_Value h) \<le> MaxHeaderLen"

definition encodable :: "Record \<Rightarrow> bool" where
  "encodable r \<longleftrightarrow> list_all encodable_header (Headers r) \<and> length (Headers r) < 2 ^ 16 \<and>
     length (Key r) < 2 ^ 32 \<and> length (Value r) < 2 ^ 32"

definition enc_header :: "Header \<Rightarrow> bytes" where
  "enc_header h = be_bytes 2 (length (h_Key h)) @ bytes_of_string (h_Key h) @
     be_bytes 2 (length (h_Value h)) @ h_Value h"

definition enc_body :: "Record \<Rightarrow> bytes" where
  "enc_body r = be_bytes 8 (unat (Offset r)) @ be_bytes 8 (unat (TimestampMs r)) @
     be_bytes 4 (length (Key r)) @ Key r @ be_bytes 4 (length (Value r)) @ Value r @
     be_bytes 2 (length (Headers r)) @ concat (map enc_header (Headers r))"

definition enc :: "Record \<Rightarrow> bytes" where
  "enc r = be_bytes 4 (unat (Checksum (enc_body r))) @ enc_body r"

lemma encodeHeader_eq: "encodable_header h \<Longrightarrow> encodeHeader buf h = buf @ enc_header h"
  by (simp add: encodeHeader_def enc_header_def AppendUint16_def Let_def encodable_header_def
      MaxHeaderLen_def unat_of_nat)

lemma foldl_encodeHeader:
  "list_all encodable_header hs \<Longrightarrow> foldl encodeHeader buf hs = buf @ concat (map enc_header hs)"
  by (induction hs arbitrary: buf) (auto simp: encodeHeader_eq)

lemma EncodeRecord_eq:
  assumes "encodable r"
  shows "EncodeRecord buf r = Inr (buf @ enc r)"
proof -
  have hs: "\<not> (\<exists>h \<in> set (Headers r). length (h_Key h) > MaxHeaderLen \<or> length (h_Value h) > MaxHeaderLen)"
    using assms by (fastforce simp: encodable_def list_all_iff encodable_header_def)
  have fold: "foldl encodeHeader b (Headers r) = b @ concat (map enc_header (Headers r))" for b
    using assms by (simp add: encodable_def foldl_encodeHeader)
  have len: "unat (of_nat (length (Key r)) :: u32) = length (Key r)"
    "unat (of_nat (length (Value r)) :: u32) = length (Value r)"
    "unat (of_nat (length (Headers r)) :: u16) = length (Headers r)"
    using assms by (simp_all add: encodable_def unat_of_nat)
  show ?thesis
    using hs by (simp add: EncodeRecord_def Let_def AppendUint16_def AppendUint32_def
        AppendUint64_def fold len enc_def enc_body_def)
qed

lemma EncodeRecord_too_large:
  "h \<in> set (Headers r) \<Longrightarrow> \<not> encodable_header h \<Longrightarrow> EncodeRecord buf r = Inl ErrHeaderTooLarge"
  by (auto simp: EncodeRecord_def encodable_header_def)

lemma length_enc_ge: "30 \<le> length (enc r)"
  by (simp add: enc_def enc_body_def)

section \<open>Torn reads\<close>

text \<open>
  All the reads have one shape: a function of the next \<open>n\<close> bytes. Such a read is
  torn-safe, and so are the header, the header list and all the fields of a record.
\<close>

lemma torn_safe_read:
  "torn_safe e (\<lambda>(b, pos). if length b - pos < n then Inl e
     else Inr (f (go_slice b pos (pos + n)), b, pos + n))"
  by (rule torn_safeI) (auto simp: go_slice_append go_slice_take split: if_splits)

lemma torn_safe_read_u16: "torn_safe ErrTruncated read_u16"
  unfolding read_u16_def by (rule torn_safe_read)

lemma torn_safe_read_u32: "torn_safe ErrTruncated read_u32"
  unfolding read_u32_def by (rule torn_safe_read)

lemma torn_safe_read_bytes: "torn_safe ErrTruncated (read_bytes n)"
  unfolding read_bytes_def by (simp add: torn_safe_read [where f = "\<lambda>x. x"])

lemma torn_safe_Inr_pair: "torn_safe e (\<lambda>r. Inr (x, r))"
  using torn_safe_return [of e x] by (simp add: case_prod_unfold)

lemmas torn_reads = torn_safe_read_u16 torn_safe_read_u32 torn_safe_read_bytes

lemma torn_safe_decodeHeader: "torn_safe ErrTruncated decodeHeader"
  unfolding decodeHeader_def
  by (rule torn_safe_bindI, rule torn_reads, simp only: split_paired_all prod.case)+
    (rule torn_safe_Inr_pair)

definition read_fixed :: "bytes \<times> nat \<Rightarrow> storage_error + ((u32 \<times> u64 \<times> i64 \<times> nat) \<times> bytes \<times> nat)" where
  "read_fixed = (\<lambda>(b, pos).
     if length b - pos < recordFixedSize then Inl ErrTruncated
     else let s = go_slice b pos (pos + recordFixedSize) in
       Inr ((Uint32 (go_slice s 0 4), Uint64 (go_slice s 4 12), Uint64 (go_slice s 12 20),
             unat (Uint32 (go_slice s 20 24))), b, pos + recordFixedSize))"

definition record_fields :: "bytes \<times> nat \<Rightarrow> storage_error + ((u32 \<times> Record) \<times> bytes \<times> nat)" where
  "record_fields r =
     bindS (read_fixed r) (\<lambda>((crc, offset, ts, keyLen), r).
     bindS (read_bytes keyLen r) (\<lambda>(key, r).
     bindS (read_u32 r) (\<lambda>(valLen, r).
     bindS (read_bytes valLen r) (\<lambda>(val, r).
     bindS (read_u16 r) (\<lambda>(headerCount, r).
     bindS (repeatS decodeHeader headerCount r) (\<lambda>(hs, r).
       Inr ((crc, \<lparr>Offset = offset, TimestampMs = ts, Key = key, Value = val, Headers = hs\<rparr>), r)))))))"

lemma torn_safe_read_fixed: "torn_safe ErrTruncated read_fixed"
  unfolding read_fixed_def Let_def by (rule torn_safe_read)

lemmas torn_fields = torn_reads torn_safe_read_fixed torn_safe_repeatS [OF torn_safe_decodeHeader]

lemma torn_safe_record_fields: "torn_safe ErrTruncated record_fields"
  unfolding record_fields_def
  by (rule torn_safe_bindI, rule torn_fields, simp only: split_paired_all prod.case)+
    (rule torn_safe_Inr_pair)

lemma DecodeRecord_fields:
  "DecodeRecord b = bindS (record_fields (b, 0)) (\<lambda>((crc, r), (_, pos)).
     if Checksum (go_slice b 4 pos) \<noteq> crc then Inl ErrCorrupt else Inr (r, pos))"
proof (cases "length b < recordFixedSize")
  case True
  then show ?thesis by (simp add: DecodeRecord_def record_fields_def read_fixed_def)
next
  case False
  have sl: "go_slice (go_slice b 0 24) i j = go_slice b i j" if "j \<le> 24" for i j
    using that by (simp add: go_slice_def drop_take min_def)
  from False show ?thesis
    unfolding DecodeRecord_def record_fields_def read_fixed_def recordFixedSize_def Let_def
      case_prod_unfold bindS_assoc by (simp add: sl cong: if_cong)
qed

lemma DecodeRecord_InrE:
  assumes "DecodeRecord b = Inr (r, n)"
  obtains crc where "record_fields (b, 0) = Inr ((crc, r), b, n)" and "Checksum (go_slice b 4 n) = crc"
    and "n \<le> length b"
proof -
  from assms obtain crc b' where f: "record_fields (b, 0) = Inr ((crc, r), b', n)"
    and crc: "Checksum (go_slice b 4 n) = crc"
    by (auto simp: DecodeRecord_fields bindS_eq_Inr_iff split: if_splits)
  from torn_safe_bounds [OF torn_safe_record_fields _ f] have "b' = b" "n \<le> length b" by simp_all
  with f crc that show ?thesis by blast
qed

text \<open>A record takes at least 30 bytes, so a scan that decodes always advances.\<close>

lemma record_fields_ge_30:
  assumes "record_fields (b, 0) = Inr (x, b', n)"
  shows "30 \<le> n"
proof -
  from assms obtain v1 c1 p1 v2 c2 p2 v3 c3 p3 v4 c4 p4 v5 c5 p5 hs where
    s: "read_fixed (b, 0) = Inr (v1, c1, p1)" "read_bytes (snd (snd (snd v1))) (c1, p1) = Inr (v2, c2, p2)"
      "read_u32 (c2, p2) = Inr (v3, c3, p3)" "read_bytes v3 (c3, p3) = Inr (v4, c4, p4)"
      "read_u16 (c4, p4) = Inr (v5, c5, p5)"
    and hs: "repeatS decodeHeader v5 (c5, p5) = Inr (hs, b', n)"
    unfolding record_fields_def bindS_eq_Inr_iff by (auto simp: bindS_eq_Inr_iff)
  have 1: "p1 = 24" using s(1) by (simp add: read_fixed_def recordFixedSize_def Let_def split: if_splits)
  have 2: "p1 \<le> p2" "p3 = p2 + 4" "p3 \<le> p4" "p5 = p4 + 2"
    using s(2-) by (auto simp: read_bytes_def read_u32_def read_u16_def split: if_splits)
  have "p5 \<le> length c5"
    using s(5) by (auto simp: read_u16_def split: if_splits)
  then have "p5 \<le> n"
    using torn_safe_bounds [OF torn_safe_repeatS [OF torn_safe_decodeHeader] _ hs] by simp
  with 1 2 show ?thesis by linarith
qed

lemma DecodeRecord_bounds: "DecodeRecord b = Inr (r, n) \<Longrightarrow> 30 \<le> n \<and> n \<le> length b"
  by (elim DecodeRecord_InrE) (blast dest: record_fields_ge_30)

lemma DecodeRecord_append:
  "DecodeRecord b = Inr (r, n) \<Longrightarrow> DecodeRecord (b @ c) = Inr (r, n)"
proof -
  assume "DecodeRecord b = Inr (r, n)"
  then obtain crc b' where f: "record_fields (b, 0) = Inr ((crc, r), b', n)"
    and crc: "Checksum (go_slice b 4 n) = crc"
    by (auto simp: DecodeRecord_fields bindS_eq_Inr_iff split: if_splits)
  have "n \<le> length b" using torn_safe_bounds [OF torn_safe_record_fields _ f] by simp
  with torn_safe_append [OF torn_safe_record_fields _ f, of c] crc show ?thesis
    by (simp add: DecodeRecord_fields go_slice_append)
qed

lemma DecodeRecord_corrupt_append:
  "DecodeRecord b = Inl ErrCorrupt \<Longrightarrow> DecodeRecord (b @ c) = Inl ErrCorrupt"
proof -
  assume "DecodeRecord b = Inl ErrCorrupt"
  then obtain crc r b' n where f: "record_fields (b, 0) = Inr ((crc, r), b', n)"
    and crc: "Checksum (go_slice b 4 n) \<noteq> crc"
    using torn_safe_Inl [OF torn_safe_record_fields, of 0 b]
    by (auto simp: DecodeRecord_fields bindS_eq_Inl_iff split: if_splits)
  have "n \<le> length b" using torn_safe_bounds [OF torn_safe_record_fields _ f] by simp
  with torn_safe_append [OF torn_safe_record_fields _ f, of c] crc show ?thesis
    by (simp add: DecodeRecord_fields go_slice_append)
qed

lemma DecodeRecord_errors:
  "DecodeRecord b = Inl e \<Longrightarrow> e = ErrTruncated \<or> e = ErrCorrupt"
  using torn_safe_Inl [OF torn_safe_record_fields, of 0 b]
  by (auto simp: DecodeRecord_fields bindS_eq_Inl_iff split: if_splits)

lemma DecodeRecord_take:
  assumes "DecodeRecord b = Inr (r, n)" and "k \<le> length b"
  shows "DecodeRecord (take k b) = (if k < n then Inl ErrTruncated else Inr (r, n))"
proof -
  from assms(1) obtain crc b' where f: "record_fields (b, 0) = Inr ((crc, r), b', n)"
    and crc: "Checksum (go_slice b 4 n) = crc"
    by (auto simp: DecodeRecord_fields bindS_eq_Inr_iff split: if_splits)
  from torn_safe_take [OF torn_safe_record_fields _ assms(2) f] crc show ?thesis
    by (auto simp: DecodeRecord_fields go_slice_take split: if_splits)
qed

section \<open>Round trip\<close>

text \<open>The cursor stands before the bytes \<open>bs\<close>, which run to the end of the buffer.\<close>

definition ahead_at :: "bytes \<times> nat \<Rightarrow> bytes \<Rightarrow> bool" where
  "ahead_at r bs \<longleftrightarrow> snd r \<le> length (fst r) \<and> drop (snd r) (fst r) = bs"

lemma ahead_atD:
  "ahead_at (b, pos) (xs @ c) \<Longrightarrow>
   length xs \<le> length b - pos \<and> go_slice b pos (pos + length xs) = xs \<and>
   ahead_at (b, pos + length xs) c"
  unfolding ahead_at_def fst_conv snd_conv
  by (metis add_le_imp_le_diff add.commute drop_after drop_after_less go_slice_prefix)

lemma read_u16_ahead:
  assumes "ahead_at r (be_bytes 2 n @ c)" and "n < 2 ^ 16"
  shows "\<exists>r'. read_u16 r = Inr (n, r') \<and> ahead_at r' c"
proof (cases r)
  case (Pair b pos)
  with assms(1) ahead_atD have "2 \<le> length b - pos" "go_slice b pos (pos + 2) = be_bytes 2 n"
    "ahead_at (b, pos + 2) c" by fastforce+
  moreover have "Uint16 (be_bytes 2 n) = of_nat n" using Uint16_be_bytes [of n "[]"] by simp
  ultimately show ?thesis using Pair assms(2) by (simp add: read_u16_def unat_of_nat)
qed

lemma read_u32_ahead:
  assumes "ahead_at r (be_bytes 4 n @ c)" and "n < 2 ^ 32"
  shows "\<exists>r'. read_u32 r = Inr (n, r') \<and> ahead_at r' c"
proof (cases r)
  case (Pair b pos)
  with assms(1) ahead_atD have "4 \<le> length b - pos" "go_slice b pos (pos + 4) = be_bytes 4 n"
    "ahead_at (b, pos + 4) c" by fastforce+
  moreover have "Uint32 (be_bytes 4 n) = of_nat n" using Uint32_be_bytes [of n "[]"] by simp
  ultimately show ?thesis using Pair assms(2) by (simp add: read_u32_def unat_of_nat)
qed

lemma read_bytes_ahead:
  assumes "ahead_at r (xs @ c)"
  shows "\<exists>r'. read_bytes (length xs) r = Inr (xs, r') \<and> ahead_at r' c"
  using assms by (cases r) (auto dest!: ahead_atD simp: read_bytes_def)

lemma decodeHeader_ahead:
  assumes "encodable_header h" and "ahead_at r (enc_header h @ c)"
  shows "\<exists>r'. decodeHeader r = Inr (h, r') \<and> ahead_at r' c"
proof -
  have lens: "length (h_Key h) < 2 ^ 16" "length (h_Value h) < 2 ^ 16"
    using assms(1) by (simp_all add: encodable_header_def MaxHeaderLen_def)
  obtain r1 where r1: "read_u16 r = Inr (length (h_Key h), r1)"
    "ahead_at r1 (bytes_of_string (h_Key h) @ be_bytes 2 (length (h_Value h)) @ h_Value h @ c)"
    using read_u16_ahead [OF _ lens(1), of r] assms(2) unfolding enc_header_def by (metis append.assoc)
  obtain r2 where r2: "read_bytes (length (h_Key h)) r1 = Inr (bytes_of_string (h_Key h), r2)"
    "ahead_at r2 (be_bytes 2 (length (h_Value h)) @ h_Value h @ c)"
    using read_bytes_ahead [OF r1(2)] by auto
  obtain r3 where r3: "read_u16 r2 = Inr (length (h_Value h), r3)" "ahead_at r3 (h_Value h @ c)"
    using read_u16_ahead [OF r2(2) lens(2)] by auto
  obtain r4 where r4: "read_bytes (length (h_Value h)) r3 = Inr (h_Value h, r4)" "ahead_at r4 c"
    using read_bytes_ahead [OF r3(2)] by auto
  from r1(1) r2(1) r3(1) r4 show ?thesis by (simp add: decodeHeader_def)
qed

interpretation disk_header: counted_codec ahead_at enc_header decodeHeader encodable_header
  by unfold_locales (rule decodeHeader_ahead)

lemma read_fixed_ahead:
  assumes "ahead_at (b, 0) (be_bytes 4 c @ be_bytes 8 o' @ be_bytes 8 t @ be_bytes 4 k @ rest)"
    and "k < 2 ^ 32"
  shows "\<exists>r'. read_fixed (b, 0) = Inr ((of_nat c, of_nat o', of_nat t, k), r') \<and> ahead_at r' rest"
proof -
  from assms(1) have b: "b = be_bytes 4 c @ be_bytes 8 o' @ be_bytes 8 t @ be_bytes 4 k @ rest"
    by (simp add: ahead_at_def)
  have codes: "Uint32 (be_bytes 4 c) = of_nat c" "Uint64 (be_bytes 8 o') = of_nat o'"
    "Uint64 (be_bytes 8 t) = of_nat t" "Uint32 (be_bytes 4 k) = of_nat k"
    using Uint32_be_bytes [of _ "[]"] Uint64_be_bytes [of _ "[]"] by simp_all
  have "go_slice b 0 24 = be_bytes 4 c @ be_bytes 8 o' @ be_bytes 8 t @ be_bytes 4 k"
    by (simp add: b go_slice_def)
  then have "read_fixed (b, 0) = Inr ((of_nat c, of_nat o', of_nat t, k), (b, 24))"
    using assms(2) by (simp add: read_fixed_def recordFixedSize_def b go_slice_def codes unat_of_nat codec_simps)
  moreover have "ahead_at (b, 24) rest" by (simp add: ahead_at_def b)
  ultimately show ?thesis by blast
qed

lemma record_fields_body:
  assumes "encodable r"
  shows "record_fields (be_bytes 4 k @ enc_body r @ c, 0) =
    Inr ((of_nat k, r), be_bytes 4 k @ enc_body r @ c, 4 + length (enc_body r))"
proof -
  let ?b = "be_bytes 4 k @ enc_body r @ c"
  have lens: "length (Key r) < 2 ^ 32" "length (Value r) < 2 ^ 32" "length (Headers r) < 2 ^ 16"
    "list_all encodable_header (Headers r)"
    using assms by (simp_all add: encodable_def)
  obtain r1 where r1: "read_fixed (?b, 0) =
      Inr ((of_nat k, Offset r, TimestampMs r, length (Key r)), r1)"
    "ahead_at r1 (Key r @ be_bytes 4 (length (Value r)) @ Value r @
       be_bytes 2 (length (Headers r)) @ concat (map enc_header (Headers r)) @ c)"
    using read_fixed_ahead [OF _ lens(1), of ?b k "unat (Offset r)"
        "unat (TimestampMs r)"]
    by (auto simp: ahead_at_def enc_body_def)
  obtain r2 where r2: "read_bytes (length (Key r)) r1 = Inr (Key r, r2)"
    "ahead_at r2 (be_bytes 4 (length (Value r)) @ Value r @
       be_bytes 2 (length (Headers r)) @ concat (map enc_header (Headers r)) @ c)"
    using read_bytes_ahead [OF r1(2)] by auto
  obtain r3 where r3: "read_u32 r2 = Inr (length (Value r), r3)"
    "ahead_at r3 (Value r @ be_bytes 2 (length (Headers r)) @ concat (map enc_header (Headers r)) @ c)"
    using read_u32_ahead [OF r2(2) lens(2)] by auto
  obtain r4 where r4: "read_bytes (length (Value r)) r3 = Inr (Value r, r4)"
    "ahead_at r4 (be_bytes 2 (length (Headers r)) @ concat (map enc_header (Headers r)) @ c)"
    using read_bytes_ahead [OF r3(2)] by auto
  obtain r5 where r5: "read_u16 r4 = Inr (length (Headers r), r5)"
    "ahead_at r5 (concat (map enc_header (Headers r)) @ c)"
    using read_u16_ahead [OF r4(2) lens(3)] by auto
  obtain b6 n where r6: "repeatS decodeHeader (length (Headers r)) r5 = Inr (Headers r, b6, n)"
    "ahead_at (b6, n) c"
    using disk_header.repeatS_enc [OF lens(4) r5(2)] by auto
  have f: "record_fields (?b, 0) = Inr ((of_nat k, r), b6, n)"
    using r1(1) r2(1) r3(1) r4(1) r5(1) r6(1) by (simp add: record_fields_def)
  have "b6 = ?b" "n \<le> length ?b"
    using torn_safe_bounds [OF torn_safe_record_fields _ f] by simp_all
  moreover from this r6(2) have "length ?b - n = length c"
    unfolding ahead_at_def by (metis fst_conv length_drop snd_conv)
  ultimately have "n = 4 + length (enc_body r)" by simp
  with f \<open>b6 = ?b\<close> show ?thesis by simp
qed

lemma record_fields_enc:
  "encodable r \<Longrightarrow>
   record_fields (enc r @ c, 0) = Inr ((Checksum (enc_body r), r), enc r @ c, length (enc r))"
  using record_fields_body [of r "unat (Checksum (enc_body r))" c] by (simp add: enc_def)

lemma DecodeRecord_enc:
  assumes "encodable r"
  shows "DecodeRecord (enc r @ c) = Inr (r, length (enc r))"
proof -
  have "go_slice (enc r @ c) 4 (length (enc r)) = enc_body r"
    by (simp add: go_slice_def enc_def)
  then show ?thesis by (simp add: DecodeRecord_fields record_fields_enc [OF assms])
qed

lemma enc_inj: "encodable r \<Longrightarrow> encodable s \<Longrightarrow> enc r = enc s \<Longrightarrow> r = s"
  using DecodeRecord_enc [of r "[]"] DecodeRecord_enc [of s "[]"] by simp

lemma DecodeRecord_enc_torn:
  assumes "encodable r" and "n < length (enc r)"
  shows "DecodeRecord (take n (enc r)) = Inl ErrTruncated"
  using DecodeRecord_take [of "enc r" r "length (enc r)" n] DecodeRecord_enc [OF assms(1), of "[]"]
    assms(2) by simp

section \<open>Detection of a changed byte\<close>

text \<open>
  The positions of an encoded record outside its length fields and headers: the
  stored checksum, the offset, the timestamp, the key and the value.
\<close>

definition payload_pos :: "Record \<Rightarrow> nat \<Rightarrow> bool" where
  "payload_pos r i \<longleftrightarrow> i < 20 \<or> (24 \<le> i \<and> i < 24 + length (Key r)) \<or>
     (28 + length (Key r) \<le> i \<and> i < 28 + length (Key r) + length (Value r))"

lemma be_bytes_list_update:
  "\<exists>m < 256 ^ k. (be_bytes k n)[i := x] = be_bytes k m"
  by (rule exI [of _ "be_nat ((be_bytes k n)[i := x])"])
    (use be_nat_less [of "(be_bytes k n)[i := x]"] be_bytes_be_nat [of "(be_bytes k n)[i := x]"] in simp)

lemma enc_body_update:
  assumes r: "encodable r" and i: "i < 16 \<or> (20 \<le> i \<and> i < 20 + length (Key r)) \<or>
    (24 + length (Key r) \<le> i \<and> i < 24 + length (Key r) + length (Value r))"
  shows "\<exists>r'. encodable r' \<and> (enc_body r)[i := x] = enc_body r'"
proof -
  consider (off) "i < 8" | (ts) j where "i = 8 + j" "j < 8"
    | (key) j where "i = 20 + j" "j < length (Key r)"
    | (val) j where "i = 24 + length (Key r) + j" "j < length (Value r)"
  proof -
    have "i < 8 \<or> (\<exists>j. i = 8 + j \<and> j < 8) \<or> (\<exists>j. i = 20 + j \<and> j < length (Key r)) \<or>
      (\<exists>j. i = 24 + length (Key r) + j \<and> j < length (Value r))"
      using i by presburger
    then show thesis using that by blast
  qed
  then show ?thesis
  proof cases
    case off
    obtain m where m: "m < 256 ^ 8" "(be_bytes 8 (unat (Offset r)))[i := x] = be_bytes 8 m"
      using be_bytes_list_update by blast
    then have "unat (of_nat m :: u64) = m" by (simp add: unat_of_nat)
    with off m r show ?thesis
      by (intro exI [of _ "r\<lparr>Offset := of_nat m\<rparr>"])
        (simp add: encodable_def enc_body_def list_update_append)
  next
    case ts
    obtain m where m: "m < 256 ^ 8" "(be_bytes 8 (unat (TimestampMs r)))[j := x] = be_bytes 8 m"
      using be_bytes_list_update by blast
    then have "unat (of_nat m :: u64) = m" by (simp add: unat_of_nat)
    with ts m r show ?thesis
      by (intro exI [of _ "r\<lparr>TimestampMs := of_nat m\<rparr>"])
        (simp add: encodable_def enc_body_def list_update_append)
  next
    case key
    with r show ?thesis
      by (intro exI [of _ "r\<lparr>Key := (Key r)[j := x]\<rparr>"])
        (simp add: encodable_def enc_body_def list_update_append)
  next
    case val
    with r show ?thesis
      by (intro exI [of _ "r\<lparr>Value := (Value r)[j := x]\<rparr>"])
        (simp add: encodable_def enc_body_def list_update_append)
  qed
qed

lemma DecodeRecord_changed_byte:
  assumes r: "encodable r" and i: "payload_pos r i" and x: "x \<noteq> enc r ! i"
  shows "DecodeRecord ((enc r)[i := x] @ c) = Inl ErrCorrupt"
proof (cases "i < 4")
  case True
  let ?k = "unat (Checksum (enc_body r))"
  obtain m where m: "m < 256 ^ 4" "(be_bytes 4 ?k)[i := x] = be_bytes 4 m"
    using be_bytes_list_update by blast
  have "be_bytes 4 m ! i = x" "be_bytes 4 ?k ! i \<noteq> x"
    using True x m(2) by (auto simp: enc_def nth_append simp flip: m(2))
  then have "m \<noteq> ?k" by auto
  then have ne: "(of_nat m :: u32) \<noteq> Checksum (enc_body r)"
    using m(1) by (auto simp: word_unat_eq_iff unat_of_nat)
  have b: "(enc r)[i := x] @ c = be_bytes 4 m @ enc_body r @ c"
    using True by (simp add: enc_def list_update_append m(2))
  have "go_slice (be_bytes 4 m @ enc_body r @ c) 4 (4 + length (enc_body r)) = enc_body r"
    by (simp add: go_slice_def)
  with ne show ?thesis by (simp add: b DecodeRecord_fields record_fields_body [OF r])
next
  case False
  then obtain j where j: "i = 4 + j" by (metis le_add_diff_inverse not_less)
  have jlen: "j < length (enc_body r)"
    using i j by (auto simp: payload_pos_def enc_body_def)
  have jpos: "j < 16 \<or> (20 \<le> j \<and> j < 20 + length (Key r)) \<or>
    (24 + length (Key r) \<le> j \<and> j < 24 + length (Key r) + length (Value r))"
    using i j by (auto simp: payload_pos_def)
  from enc_body_update [OF r jpos] obtain r' where r': "encodable r'" "(enc_body r)[j := x] = enc_body r'"
    by blast
  have "x \<noteq> enc_body r ! j" using x j by (simp add: enc_def nth_append)
  with jlen have ne: "Checksum (enc_body r') \<noteq> Checksum (enc_body r)"
    using Checksum_list_update r'(2) by metis
  have b: "(enc r)[i := x] @ c = be_bytes 4 (unat (Checksum (enc_body r))) @ enc_body r' @ c"
    using j by (simp add: enc_def list_update_append r'(2))
  have "go_slice (be_bytes 4 k @ enc_body r' @ c) 4 (4 + length (enc_body r')) = enc_body r'" for k
    by (simp add: go_slice_def)
  with ne show ?thesis by (simp add: b DecodeRecord_fields record_fields_body [OF r'(1)])
qed

section \<open>The encoding is canonical\<close>

text \<open>
  Whatever decodes is the encoding of what it decodes to, so a scan of arbitrary
  file contents can only deliver encodable records at their own encoding.
\<close>

lemma go_slice_split:
  "pos \<le> p \<Longrightarrow> p \<le> q \<Longrightarrow> go_slice b pos p @ go_slice b p q = go_slice b pos q"
  using take_add [of "p - pos" "q - p" "drop pos b"] by (simp add: go_slice_def)

lemma read_u16_canonical:
  "read_u16 (b, pos) = Inr (v, b', p) \<Longrightarrow> pos \<le> length b \<Longrightarrow>
   v < 2 ^ 16 \<and> p = pos + 2 \<and> b' = b \<and> p \<le> length b \<and> go_slice b pos p = be_bytes 2 v"
proof -
  assume "read_u16 (b, pos) = Inr (v, b', p)" and "pos \<le> length b"
  then have v: "v = unat (Uint16 (go_slice b pos (pos + 2)))" "p = pos + 2" "b' = b" "p \<le> length b"
    by (auto simp: read_u16_def split: if_splits)
  then have len: "length (go_slice b pos p) = 2" by simp
  have "v = be_nat (go_slice b pos p)"
    using be_nat_less [of "go_slice b pos p"] len v by (simp add: Uint16_def unat_of_nat)
  with be_bytes_be_nat [of "go_slice b pos p"] be_nat_less [of "go_slice b pos p"] len v
  show ?thesis by simp
qed

lemma read_u32_canonical:
  "read_u32 (b, pos) = Inr (v, b', p) \<Longrightarrow> pos \<le> length b \<Longrightarrow>
   v < 2 ^ 32 \<and> p = pos + 4 \<and> b' = b \<and> p \<le> length b \<and> go_slice b pos p = be_bytes 4 v"
proof -
  assume "read_u32 (b, pos) = Inr (v, b', p)" and "pos \<le> length b"
  then have v: "v = unat (Uint32 (go_slice b pos (pos + 4)))" "p = pos + 4" "b' = b" "p \<le> length b"
    by (auto simp: read_u32_def split: if_splits)
  then have len: "length (go_slice b pos p) = 4" by simp
  have "v = be_nat (go_slice b pos p)"
    using be_nat_less [of "go_slice b pos p"] len v by (simp add: Uint32_def unat_of_nat)
  with be_bytes_be_nat [of "go_slice b pos p"] be_nat_less [of "go_slice b pos p"] len v
  show ?thesis by simp
qed

lemma read_bytes_canonical:
  "read_bytes n (b, pos) = Inr (v, b', p) \<Longrightarrow> pos \<le> length b \<Longrightarrow>
   length v = n \<and> p = pos + n \<and> b' = b \<and> p \<le> length b \<and> go_slice b pos p = v"
  by (auto simp: read_bytes_def split: if_splits)

lemma decodeHeader_canonical:
  assumes "decodeHeader (b, pos) = Inr (h, b', p)" and pos: "pos \<le> length b"
  shows "encodable_header h \<and> b' = b \<and> pos \<le> p \<and> p \<le> length b \<and> go_slice b pos p = enc_header h"
proof -
  from assms(1) obtain kl b1 p1 k b2 p2 vl b3 p3 v b4 p4 where
    s: "read_u16 (b, pos) = Inr (kl, b1, p1)" "read_bytes kl (b1, p1) = Inr (k, b2, p2)"
      "read_u16 (b2, p2) = Inr (vl, b3, p3)" "read_bytes vl (b3, p3) = Inr (v, b4, p4)"
    and h: "h = \<lparr>h_Key = string_of_bytes k, h_Value = v\<rparr>" "b' = b4" "p = p4"
    unfolding decodeHeader_def bindS_eq_Inr_iff by (auto simp: bindS_eq_Inr_iff)
  note 1 = read_u16_canonical [OF s(1) pos]
  then have 2: "length k = kl \<and> p2 = p1 + kl \<and> b2 = b \<and> p2 \<le> length b \<and> go_slice b p1 p2 = k"
    using read_bytes_canonical [OF s(2)] by metis
  then have 3: "vl < 2 ^ 16 \<and> p3 = p2 + 2 \<and> b3 = b \<and> p3 \<le> length b \<and> go_slice b p2 p3 = be_bytes 2 vl"
    using read_u16_canonical [OF s(3)] by metis
  then have 4: "length v = vl \<and> p4 = p3 + vl \<and> b4 = b \<and> p4 \<le> length b \<and> go_slice b p3 p4 = v"
    using read_bytes_canonical [OF s(4)] by metis
  have e: "go_slice b pos p1 = be_bytes 2 kl" "go_slice b p1 p2 = k"
    "go_slice b p2 p3 = be_bytes 2 vl" "go_slice b p3 p4 = v"
    and l: "length k = kl" "length v = vl" "pos \<le> p1" "p1 \<le> p2" "p2 \<le> p3" "p3 \<le> p4"
    using 1 2 3 4 by (elim conjE; simp only: le_add1)+
  have "go_slice b pos p4 = go_slice b pos p1 @ go_slice b p1 p2 @ go_slice b p2 p3 @ go_slice b p3 p4"
    using l by (simp add: go_slice_split)
  also have "\<dots> = enc_header h"
    unfolding e by (simp add: enc_header_def h l)
  finally show ?thesis
    using 1 2 3 4 h by (auto simp: encodable_header_def MaxHeaderLen_def string_of_bytes_def)
qed

lemma repeatS_decodeHeader_canonical:
  "repeatS decodeHeader n (b, pos) = Inr (hs, b', p) \<Longrightarrow> pos \<le> length b \<Longrightarrow>
   length hs = n \<and> list_all encodable_header hs \<and> b' = b \<and> pos \<le> p \<and> p \<le> length b \<and>
   go_slice b pos p = concat (map enc_header hs)"
proof (induction n arbitrary: pos hs)
  case 0
  then show ?case by (simp add: go_slice_def)
next
  case (Suc n)
  then obtain h b1 p1 hs' where s: "decodeHeader (b, pos) = Inr (h, b1, p1)"
    "repeatS decodeHeader n (b1, p1) = Inr (hs', b', p)" "hs = h # hs'"
    by (auto simp: bindS_eq_Inr_iff)
  note 1 = decodeHeader_canonical [OF s(1) Suc.prems(2)]
  with s(2) have 2: "length hs' = n \<and> list_all encodable_header hs' \<and> b' = b \<and> p1 \<le> p \<and>
    p \<le> length b \<and> go_slice b p1 p = concat (map enc_header hs')"
    using Suc.IH [of p1 hs'] by simp
  with 1 s(3) show ?case by (auto simp: go_slice_split [of pos p1 p b, symmetric])
qed

lemma be_nat_unat:
  "length b = 8 \<Longrightarrow> be_bytes 8 (unat (Uint64 b)) = b"
  "length b = 4 \<Longrightarrow> be_bytes 4 (unat (Uint32 b)) = b"
  using be_bytes_be_nat [of b] be_nat_less [of b]
  by (simp_all add: Uint64_def Uint32_def unat_of_nat)

lemma DecodeRecord_canonical:
  assumes "DecodeRecord b = Inr (r, n)"
  shows "encodable r" "take n b = enc r" "n = length (enc r)"
proof -
  from assms have len: "24 \<le> length b"
    by (auto simp: DecodeRecord_def recordFixedSize_def split: if_splits)
  define kl where "kl = unat (Uint32 (go_slice b 20 24))"
  from assms len obtain k b1 p1 vl b2 p2 v b3 p3 hc b4 p4 hs b5 where
    s: "read_bytes kl (b, 24) = Inr (k, b1, p1)" "read_u32 (b1, p1) = Inr (vl, b2, p2)"
      "read_bytes vl (b2, p2) = Inr (v, b3, p3)" "read_u16 (b3, p3) = Inr (hc, b4, p4)"
      "repeatS decodeHeader hc (b4, p4) = Inr (hs, b5, n)"
    and crc: "Checksum (go_slice b 4 n) = Uint32 (go_slice b 0 4)"
    and r: "r = \<lparr>Offset = Uint64 (go_slice b 4 12), TimestampMs = Uint64 (go_slice b 12 20),
      Key = k, Value = v, Headers = hs\<rparr>"
    by (auto simp: DecodeRecord_def recordFixedSize_def bindS_eq_Inr_iff Let_def kl_def
        split: if_splits)
  have 1: "length k = kl \<and> p1 = 24 + kl \<and> b1 = b \<and> p1 \<le> length b \<and> go_slice b 24 p1 = k"
    using read_bytes_canonical [OF s(1) len] .
  then have 2: "vl < 2 ^ 32 \<and> p2 = p1 + 4 \<and> b2 = b \<and> p2 \<le> length b \<and> go_slice b p1 p2 = be_bytes 4 vl"
    using read_u32_canonical [OF s(2)] by metis
  then have 3: "length v = vl \<and> p3 = p2 + vl \<and> b3 = b \<and> p3 \<le> length b \<and> go_slice b p2 p3 = v"
    using read_bytes_canonical [OF s(3)] by metis
  then have 4: "hc < 2 ^ 16 \<and> p4 = p3 + 2 \<and> b4 = b \<and> p4 \<le> length b \<and> go_slice b p3 p4 = be_bytes 2 hc"
    using read_u16_canonical [OF s(4)] by metis
  then have 5: "length hs = hc \<and> list_all encodable_header hs \<and> p4 \<le> n \<and> n \<le> length b \<and>
    go_slice b p4 n = concat (map enc_header hs)"
    using repeatS_decodeHeader_canonical [OF s(5)] by metis
  have kl: "kl < 2 ^ 32" "be_bytes 4 kl = go_slice b 20 24"
    using len unsigned_less [of "Uint32 (go_slice b 20 24)", where 'a = nat]
    by (simp_all add: kl_def be_nat_unat)
  show enc: "encodable r"
    using 1 2 3 4 5 kl(1) by (simp add: encodable_def r)
  have e: "go_slice b 24 p1 = k" "go_slice b p1 p2 = be_bytes 4 vl" "go_slice b p2 p3 = v"
    "go_slice b p3 p4 = be_bytes 2 hc" "go_slice b p4 n = concat (map enc_header hs)"
    and l: "length k = kl" "length v = vl" "length hs = hc"
    and o: "24 \<le> p1" "p1 \<le> p2" "p2 \<le> p3" "p3 \<le> p4" "p4 \<le> n" "n \<le> length b"
    using 1 2 3 4 5 by (elim conjE; simp only: le_add1)+
  have "go_slice b 4 n = go_slice b 4 12 @ go_slice b 12 20 @ go_slice b 20 24 @ go_slice b 24 p1 @
    go_slice b p1 p2 @ go_slice b p2 p3 @ go_slice b p3 p4 @ go_slice b p4 n"
    using o by (simp add: go_slice_split)
  also have "\<dots> = enc_body r"
    unfolding e kl(2) [symmetric] using len by (simp add: enc_body_def r l be_nat_unat)
  finally have body: "go_slice b 4 n = enc_body r" .
  have "take n b = go_slice b 0 4 @ go_slice b 4 n"
    using o by (simp add: go_slice_split) (simp add: go_slice_def)
  then show *: "take n b = enc r"
    using len crc by (simp add: body enc_def be_nat_unat)
  then show "n = length (enc r)" using o(6) by (metis length_take min.absorb2)
qed

section \<open>Properties of the codec\<close>

text \<open>
  Property C1. Encoding a record whose lengths fit their fields appends bytes to the buffer
  that decode, whatever follows them, to exactly that record and consume exactly
  those bytes; conversely whatever decodes is re-encoded to the bytes it was
  decoded from.
\<close>

theorem record_roundtrip:
  "(encodable r \<longrightarrow>
     (\<exists>b. EncodeRecord buf r = Inr (buf @ b) \<and> DecodeRecord (b @ rest) = Inr (r, length b))) \<and>
   (DecodeRecord c = Inr (s, n) \<longrightarrow> EncodeRecord [] s = Inr (take n c))"
  using EncodeRecord_eq [of r buf] DecodeRecord_enc [of r rest]
    EncodeRecord_eq [of s "[]"] DecodeRecord_canonical [of c s n] by auto

definition sample_header :: Header where
  "sample_header = \<lparr>h_Key = ''t'', h_Value = [1, 2]\<rparr>"

definition sample_record :: Record where
  "sample_record = \<lparr>Offset = 7, TimestampMs = 1000, Key = [65], Value = [66, 67], Headers = [sample_header]\<rparr>"

lemma encodable_sample: "encodable sample_record"
  by (simp add: encodable_def sample_record_def sample_header_def encodable_header_def MaxHeaderLen_def)

theorem record_roundtrip_witness:
  "\<exists>b. EncodeRecord [9] sample_record = Inr ([9] @ b) \<and> DecodeRecord (b @ [8]) = Inr (sample_record, length b)"
  using record_roundtrip [of sample_record "[9]" "[8]"] encodable_sample by blast

text \<open>
  Property C2. A torn write is recognised: every proper prefix of an encoded record is
  reported as truncated, never as corrupt and never as some other record.
\<close>

theorem torn_record_truncated:
  assumes "encodable r" and "EncodeRecord [] r = Inr b" and "n < length b"
  shows "DecodeRecord (take n b) = Inl ErrTruncated"
  using assms EncodeRecord_eq [of r "[]"] DecodeRecord_enc_torn [of r n] by simp

theorem torn_record_truncated_witness:
  "EncodeRecord [] sample_record = Inr (enc sample_record) \<and> 29 < length (enc sample_record) \<and>
   DecodeRecord (take 29 (enc sample_record)) = Inl ErrTruncated"
  using torn_record_truncated [of sample_record "enc sample_record" 29] encodable_sample
    EncodeRecord_eq [of sample_record "[]"] length_enc_ge [of sample_record] by simp

text \<open>
  Property C3. A changed byte is recognised: one byte of the checksum, the offset, the
  timestamp, the key or the value overwritten with another one makes the decoder
  report corruption. (In a length field a change moves the boundaries of the
  later fields, and the decoder may ask for more bytes instead.)
\<close>

theorem changed_byte_corrupt:
  assumes "encodable r" and "EncodeRecord [] r = Inr b" and "payload_pos r i" and "x \<noteq> b ! i"
  shows "DecodeRecord (b[i := x] @ rest) = Inl ErrCorrupt"
  using assms EncodeRecord_eq [of r "[]"] DecodeRecord_changed_byte [of r i x rest] by simp

theorem changed_byte_corrupt_witness:
  "\<exists>x. DecodeRecord ((enc sample_record)[24 := x] @ []) = Inl ErrCorrupt"
proof -
  have "payload_pos sample_record 24"
    by (simp add: payload_pos_def sample_record_def)
  moreover have "enc sample_record ! 24 + 1 \<noteq> enc sample_record ! 24" by simp
  ultimately show ?thesis
    using changed_byte_corrupt [of sample_record "enc sample_record" 24 _ "[]"] encodable_sample
      EncodeRecord_eq [of sample_record "[]"] by fastforce
qed

end
