(* ===== verification/Record_Stream.thy ===== *)
theory Record_Stream
  imports Record_Codec
begin

text \<open>
  The sequential scan of a segment file (\<open>streamRecords\<close> in
  src/internal/broker/storage/partition.go). The scan reads the file in chunks
  through an \<open>io.ReaderAt\<close>, decodes one record at a time from its buffer and hands
  it to a callback; the callback says whether to go on.

  The reader is a function from a position and a length to bytes or an error. The
  callback is a function of an accumulator. The buffer is its contents and its
  capacity, because the code decides by the capacity when to copy the rest of the
  buffer to a fresh array; how far \<open>append\<close> enlarges an array is left to the Go
  implementation, so it is the parameter \<open>growcap\<close>. A scan that never returns is
  \<open>None\<close>.
\<close>

section \<open>The scan\<close>

definition streamChunk :: nat where
  "streamChunk = 256 * 1024"

definition maxRecordSize :: nat where
  "maxRecordSize = 4 * 1024 * 1024"

lemma streamChunk_pos [simp]: "streamChunk \<noteq> 0" "0 < streamChunk"
  by (simp_all add: streamChunk_def)

type_synonym readerAt = "nat \<Rightarrow> nat \<Rightarrow> storage_error + bytes"

type_synonym 'a record_fn = "'a \<Rightarrow> Record \<Rightarrow> nat \<Rightarrow> nat \<Rightarrow> bool \<times> 'a"

text \<open>A slice is its contents and its capacity.\<close>

type_synonym go_buf = "bytes \<times> nat"

definition append_buf :: "(nat \<Rightarrow> nat \<Rightarrow> nat) \<Rightarrow> go_buf \<Rightarrow> bytes \<Rightarrow> go_buf" where
  "append_buf growcap = (\<lambda>(b, c) xs.
     (b @ xs, if length b + length xs \<le> c then c else growcap c (length b + length xs)))"

definition topUp :: "(nat \<Rightarrow> nat \<Rightarrow> nat) \<Rightarrow> readerAt \<Rightarrow> nat \<Rightarrow> nat \<Rightarrow> go_buf \<Rightarrow> storage_error + go_buf" where
  "topUp growcap ra fileSize cur = (\<lambda>(b, c).
     if cur + length b < fileSize \<and> length b < maxRecordSize then
       let want = (if fileSize - cur - length b < streamChunk then fileSize - cur - length b else streamChunk)
       in bindS (ra (cur + length b) want) (\<lambda>tmp. Inr (append_buf growcap (b, c) tmp))
     else Inr (b, c))"

definition discard :: "go_buf \<Rightarrow> nat \<Rightarrow> storage_error + go_buf" where
  "discard = (\<lambda>(b, c) consumed.
     if c div 2 \<le> consumed then
       (if streamChunk < length b - consumed then Inl ErrPanic
        else Inr (drop consumed b, streamChunk))
     else Inr (drop consumed b, c - consumed))"

partial_function (option) streamLoop ::
  "(nat \<Rightarrow> nat \<Rightarrow> nat) \<Rightarrow> readerAt \<Rightarrow> nat \<Rightarrow> bool \<Rightarrow> 'a record_fn \<Rightarrow> go_buf \<Rightarrow> nat \<Rightarrow> 'a \<Rightarrow> (storage_error option \<times> 'a) option"
where
  "streamLoop growcap ra fileSize tolerant fn buf0 cur acc =
     (case topUp growcap ra fileSize cur buf0 of
        Inl e \<Rightarrow> Some (Some e, acc)
      | Inr buf \<Rightarrow>
          if fst buf = [] then Some (None, acc)
          else (case DecodeRecord (fst buf) of
            Inr p \<Rightarrow>
              (let res = fn acc (fst p) cur (snd p) in
               if \<not> fst res then Some (None, snd res)
               else (case discard buf (snd p) of
                   Inl e \<Rightarrow> Some (Some e, snd res)
                 | Inr buf' \<Rightarrow> streamLoop growcap ra fileSize tolerant fn buf' (cur + snd p) (snd res)))
          | Inl e \<Rightarrow>
              if e = ErrTruncated then
                (if cur + length (fst buf) < fileSize \<and> length (fst buf) < maxRecordSize
                 then streamLoop growcap ra fileSize tolerant fn buf cur acc
                 else Some (None, acc))
              else if tolerant then Some (None, acc)
              else Some (Some ErrCorrupt, acc)))"

definition streamRecords ::
  "(nat \<Rightarrow> nat \<Rightarrow> nat) \<Rightarrow> readerAt \<Rightarrow> nat \<Rightarrow> nat \<Rightarrow> bool \<Rightarrow> 'a record_fn \<Rightarrow> 'a \<Rightarrow> (storage_error option \<times> 'a) option"
where
  "streamRecords growcap ra pos fileSize tolerant fn acc =
     streamLoop growcap ra fileSize tolerant fn ([], streamChunk) pos acc"

text \<open>The reader of an open file: bytes up to the end of the file.\<close>

definition file_reader :: "bytes \<Rightarrow> readerAt" where
  "file_reader f pos n = Inr (take n (drop pos f))"

section \<open>The reference parse\<close>

text \<open>
  What a scan is meant to deliver: the records of the file, decoded one after the
  other from the whole of the rest of the file, each with its position and size.
\<close>

function frames :: "bytes \<Rightarrow> nat \<Rightarrow> (Record \<times> nat \<times> nat) list" where
  "frames f pos =
     (case DecodeRecord (drop pos f) of
        Inl _ \<Rightarrow> []
      | Inr (r, n) \<Rightarrow> (r, pos, n) # frames f (pos + n))"
  by pat_completeness auto
termination
  by (relation "measure (\<lambda>(f, pos). length f - pos)") (auto dest!: DecodeRecord_bounds)

declare frames.simps [simp del]

definition frames_end :: "bytes \<Rightarrow> nat \<Rightarrow> nat" where
  "frames_end f pos = pos + sum_list (map (\<lambda>(r, p, n). n) (frames f pos))"

fun feed :: "'a record_fn \<Rightarrow> 'a \<Rightarrow> (Record \<times> nat \<times> nat) list \<Rightarrow> bool \<times> 'a" where
  "feed fn acc [] = (True, acc)"
| "feed fn acc ((r, p, n) # xs) =
     (let res = fn acc r p n in if fst res then feed fn (snd res) xs else (False, snd res))"

lemma frames_Inl: "DecodeRecord (drop pos f) = Inl e \<Longrightarrow> frames f pos = []"
  by (simp add: frames.simps)

lemma frames_Inr:
  "DecodeRecord (drop pos f) = Inr (r, n) \<Longrightarrow> frames f pos = (r, pos, n) # frames f (pos + n)"
  by (simp add: frames.simps)

lemma DecodeRecord_Nil [simp]: "DecodeRecord [] = Inl ErrTruncated"
  by (simp add: DecodeRecord_def recordFixedSize_def)

lemma frames_end_Inl: "DecodeRecord (drop pos f) = Inl e \<Longrightarrow> frames_end f pos = pos"
  by (simp add: frames_end_def frames_Inl)

lemma frames_end_Inr: "DecodeRecord (drop pos f) = Inr (r, n) \<Longrightarrow> frames_end f pos = frames_end f (pos + n)"
  by (simp add: frames_end_def frames_Inr)

section \<open>The scan against the reference\<close>

text \<open>What the Go language promises of \<open>append\<close>: the new capacity holds the new contents.\<close>

definition append_grows :: "(nat \<Rightarrow> nat \<Rightarrow> nat) \<Rightarrow> bool" where
  "append_grows growcap \<longleftrightarrow> (\<forall>c n. n \<le> growcap c n)"

text \<open>The buffer holds the next bytes of the visible part of the file.\<close>

definition buffered :: "bytes \<Rightarrow> nat \<Rightarrow> go_buf \<Rightarrow> bool" where
  "buffered F cur buf \<longleftrightarrow> fst buf = take (length (fst buf)) (drop cur F) \<and> length (fst buf) \<le> snd buf"

lemma buffered_le: "buffered F cur buf \<Longrightarrow> length (fst buf) \<le> length F - cur"
  by (metis buffered_def length_drop length_take min.cobounded1 min.commute)

lemma topUp_file:
  assumes g: "append_grows growcap" and f: "fileSize \<le> length f"
    and b: "buffered (take fileSize f) cur (b, c)"
  obtains b' c' where "topUp growcap (file_reader f) fileSize cur (b, c) = Inr (b', c')"
    and "buffered (take fileSize f) cur (b', c')" and "length b \<le> length b'"
    and "cur + length b < fileSize \<and> length b < maxRecordSize \<Longrightarrow> length b < length b'"
proof (cases "cur + length b < fileSize \<and> length b < maxRecordSize")
  case True
  define w where "w = (if fileSize - cur - length b < streamChunk then fileSize - cur - length b else streamChunk)"
  have w: "0 < w" "w \<le> fileSize - cur - length b"
    using True by (simp_all add: w_def streamChunk_def)
  define t where "t = take w (drop (cur + length b) f)"
  have len: "length t = w" using w f by (simp add: t_def)
  obtain c' where ab: "append_buf growcap (b, c) t = (b @ t, c')" and c': "length (b @ t) \<le> c'"
    using g by (auto simp: append_buf_def append_grows_def)
  have "take (length b + w) (drop cur (take fileSize f)) =
      take (length b) (drop cur (take fileSize f)) @ take w (drop (length b) (drop cur (take fileSize f)))"
    by (rule take_add)
  also have "drop (length b) (drop cur (take fileSize f)) = take (fileSize - cur - length b) (drop (cur + length b) f)"
    by (simp add: drop_take add.commute)
  also have "take w \<dots> = t" using w by (simp add: t_def)
  finally have "buffered (take fileSize f) cur (b @ t, c')"
    using b c' by (simp add: buffered_def len)
  then show thesis
    using that [of "b @ t" c'] True w(1) len ab
    by (simp add: topUp_def file_reader_def w_def [symmetric] t_def [symmetric] Let_def del: diff_diff_left)
next
  case False
  then show thesis using that [of b c] b by (auto simp: topUp_def)
qed

lemma discard_buffered:
  assumes "buffered F cur buf" and "discard buf n = Inr buf'" and "n \<le> length (fst buf)"
  shows "buffered F (cur + n) buf' \<and> fst buf' = drop n (fst buf)"
proof -
  have "drop n (take k (drop cur F)) = take (k - n) (drop (cur + n) F)" for k
    by (simp add: drop_take add.commute)
  then have "drop n (fst buf) = take (length (drop n (fst buf))) (drop (cur + n) F)"
    using assms(1) by (metis buffered_def length_drop)
  moreover have "fst buf' = drop n (fst buf)" and "length (fst buf') \<le> snd buf'"
    using assms by (cases buf; force simp: buffered_def discard_def split: if_splits)+
  ultimately show ?thesis by (metis buffered_def)
qed

lemma discard_small:
  assumes "length (fst buf) \<le> snd buf" and "n \<le> length (fst buf)" and "n < streamChunk"
  obtains buf' where "discard buf n = Inr buf'"
proof (cases "snd buf div 2 \<le> n")
  case True
  with assms have "\<not> streamChunk < length (fst buf) - n" by linarith
  with True show thesis using that [of "(drop n (fst buf), streamChunk)"]
    by (simp add: discard_def case_prod_unfold)
next
  case False
  then show thesis using that [of "(drop n (fst buf), snd buf - n)"]
    by (simp add: discard_def case_prod_unfold)
qed

lemma discard_errors: "discard buf n = Inl e \<Longrightarrow> e = ErrPanic"
  by (cases buf) (auto simp: discard_def split: if_splits)

lemma buffered_split:
  assumes "buffered F cur buf" shows "\<exists>t. drop cur F = fst buf @ t"
  using assms by (metis append_take_drop_id buffered_def)

lemma buffered_decode:
  assumes "buffered F cur buf"
  shows "DecodeRecord (fst buf) = Inr (r, n) \<Longrightarrow> DecodeRecord (drop cur F) = Inr (r, n)"
    and "DecodeRecord (fst buf) = Inl ErrCorrupt \<Longrightarrow> DecodeRecord (drop cur F) = Inl ErrCorrupt"
    and "DecodeRecord (drop cur F) = Inr (r, n) \<Longrightarrow> n \<le> length (fst buf) \<Longrightarrow> DecodeRecord (fst buf) = Inr (r, n)"
  using buffered_split [OF assms] DecodeRecord_append DecodeRecord_corrupt_append
    DecodeRecord_take [of "drop cur F" r n "length (fst buf)"] buffered_le [OF assms] by auto

text \<open>
  One induction carries all the facts. Whatever the file holds, the scan ends, and
  the callback has seen a prefix of the reference parse; where that prefix stops is determined
  by the way the scan ended. If every record of the reference parse is smaller than one chunk,
  the callback has seen all of it, up to where it asked to stop.
\<close>

definition small_frames :: "bytes \<Rightarrow> nat \<Rightarrow> bool" where
  "small_frames f pos \<longleftrightarrow> list_all (\<lambda>(r, p, n). n < streamChunk) (frames f pos)"

abbreviation frame_size :: "Record \<times> nat \<times> nat \<Rightarrow> nat" where
  "frame_size x \<equiv> snd (snd x)"

text \<open>
  The scan ended with the error \<open>e\<close> after the first \<open>k\<close> records of the reference parse: at its
  end, because the callback asked to, before a record above the limit, at a corrupt record, or in a panic
  right after a record of a chunk or more.
\<close>

definition stream_stop :: "bytes \<Rightarrow> bool \<Rightarrow> 'a record_fn \<Rightarrow> nat \<Rightarrow> 'a \<Rightarrow> nat \<Rightarrow> storage_error option \<Rightarrow> bool" where
  "stream_stop F tolerant fn pos acc k e \<longleftrightarrow> k \<le> length (frames F pos) \<and>
     (e = None \<and> (k = length (frames F pos) \<or> \<not> fst (feed fn acc (take k (frames F pos))) \<or>
        k < length (frames F pos) \<and> maxRecordSize < frame_size (frames F pos ! k)) \<or>
      e = Some ErrCorrupt \<and> \<not> tolerant \<and> k = length (frames F pos) \<and> fst (feed fn acc (frames F pos)) \<and>
        DecodeRecord (drop (frames_end F pos) F) = Inl ErrCorrupt \<or>
      e = Some ErrPanic \<and> 0 < k \<and> streamChunk \<le> frame_size (frames F pos ! (k - 1)))"

definition stream_outcome ::
  "bytes \<Rightarrow> bool \<Rightarrow> 'a record_fn \<Rightarrow> nat \<Rightarrow> 'a \<Rightarrow> storage_error option \<Rightarrow> 'a \<Rightarrow> bool" where
  "stream_outcome F tolerant fn pos acc e acc' \<longleftrightarrow>
     (\<exists>k. acc' = snd (feed fn acc (take k (frames F pos))) \<and> stream_stop F tolerant fn pos acc k e)"

lemma stream_outcome_end:
  assumes "DecodeRecord (drop pos F) = Inl x"
  shows "stream_outcome F tolerant fn pos acc None acc"
    and "x = ErrCorrupt \<Longrightarrow> \<not> tolerant \<Longrightarrow> stream_outcome F tolerant fn pos acc (Some ErrCorrupt) acc"
  using assms by (simp_all add: stream_outcome_def stream_stop_def frames_Inl frames_end_Inl)

lemma stream_outcome_stop:
  assumes "DecodeRecord (drop pos F) = Inr (r, n)" and "fn acc r pos n = (False, acc')"
  shows "stream_outcome F tolerant fn pos acc None acc'"
  using assms by (auto simp: stream_outcome_def stream_stop_def frames_Inr intro!: exI [of _ 1])

lemma stream_outcome_panic:
  assumes "DecodeRecord (drop pos F) = Inr (r, n)" and "fn acc r pos n = (True, acc')" and "\<not> n < streamChunk"
  shows "stream_outcome F tolerant fn pos acc (Some ErrPanic) acc'"
  using assms by (auto simp: stream_outcome_def stream_stop_def frames_Inr intro!: exI [of _ 1])

lemma stream_outcome_oversized:
  assumes "DecodeRecord (drop pos F) = Inr (r, n)" and "maxRecordSize < n"
  shows "stream_outcome F tolerant fn pos acc None acc"
  using assms by (auto simp: stream_outcome_def stream_stop_def frames_Inr intro!: exI [of _ 0])

lemma stream_stop_go:
  assumes d: "DecodeRecord (drop pos F) = Inr (r, n)" and fn: "fn acc r pos n = (True, acc')"
    and rest: "stream_stop F tolerant fn (pos + n) acc' k e"
  shows "stream_stop F tolerant fn pos acc (Suc k) e"
  using rest fn by (cases k) (auto simp: stream_stop_def frames_Inr [OF d] frames_end_Inr [OF d])

lemma stream_outcome_go:
  assumes d: "DecodeRecord (drop pos F) = Inr (r, n)" and fn: "fn acc r pos n = (True, acc')"
    and rest: "stream_outcome F tolerant fn (pos + n) acc' e acc''"
  shows "stream_outcome F tolerant fn pos acc e acc''"
proof -
  from rest obtain k where "acc'' = snd (feed fn acc' (take k (frames F (pos + n))))" "stream_stop F tolerant fn (pos + n) acc' k e"
    by (auto simp: stream_outcome_def)
  then show ?thesis
    unfolding stream_outcome_def using stream_stop_go [where fn = fn, OF d fn] fn
    by (intro exI [of _ "Suc k"]) (simp add: frames_Inr [OF d])
qed

lemma feed_stopped: "\<not> fst (feed fn acc (take k xs)) \<Longrightarrow> feed fn acc xs = feed fn acc (take k xs)"
proof (induction xs arbitrary: acc k)
  case (Cons x xs)
  then show ?case by (cases x; cases k) (auto simp: Let_def split: if_splits)
qed simp

lemma stream_outcome_small:
  assumes "stream_outcome F tolerant fn pos acc e acc'" and "small_frames F pos"
  shows "acc' = snd (feed fn acc (frames F pos))"
    and "e = None \<or> e = Some ErrCorrupt \<and> \<not> tolerant \<and> DecodeRecord (drop (frames_end F pos) F) = Inl ErrCorrupt"
proof -
  obtain k where k: "acc' = snd (feed fn acc (take k (frames F pos)))" "stream_stop F tolerant fn pos acc k e"
    using assms(1) by (auto simp: stream_outcome_def)
  have small: "frame_size (frames F pos ! i) < streamChunk" if "i < length (frames F pos)" for i
    using assms(2) that by (auto simp: small_frames_def list_all_length split_beta)
  have "streamChunk \<le> maxRecordSize" by (simp add: streamChunk_def maxRecordSize_def)
  then have big: "\<not> maxRecordSize < frame_size (frames F pos ! k)" if "k < length (frames F pos)"
    using small [OF that] by simp
  have pan: "\<not> streamChunk \<le> frame_size (frames F pos ! (k - 1))" if "0 < k" "k \<le> length (frames F pos)"
    using small [of "k - 1"] that by (simp add: not_le)
  show "acc' = snd (feed fn acc (frames F pos))"
    using k big pan feed_stopped [of fn acc k "frames F pos"] by (auto simp: stream_stop_def)
  show "e = None \<or> e = Some ErrCorrupt \<and> \<not> tolerant \<and> DecodeRecord (drop (frames_end F pos) F) = Inl ErrCorrupt"
    using k(2) pan by (auto simp: stream_stop_def)
qed

lemma streamLoop_end:
  assumes b: "buffered (take fileSize f) cur (b', c')" and d: "DecodeRecord b' = Inl e"
    and f: "fileSize \<le> length f"
    and stop: "\<not> (e = ErrTruncated \<and> cur + length b' < fileSize \<and> length b' < maxRecordSize)"
  shows "stream_outcome (take fileSize f) tolerant fn cur acc
    (if e = ErrTruncated \<or> tolerant then None else Some ErrCorrupt) acc"
proof (cases "DecodeRecord (drop cur (take fileSize f))")
  case (Inl x)
  then show ?thesis
    using stream_outcome_end [OF Inl] buffered_decode(2) [OF b] DecodeRecord_errors [OF d] d by auto
next
  case (Inr p)
  then obtain r n where dF: "DecodeRecord (drop cur (take fileSize f)) = Inr (r, n)" by (cases p) auto
  then have big: "length b' < n" using buffered_decode(3) [OF b] d by fastforce
  have e: "e = ErrTruncated"
    using DecodeRecord_errors [OF d] buffered_decode(2) [OF b] d dF by auto
  have "n \<le> fileSize - cur" using DecodeRecord_bounds [OF dF] f by simp
  with stop e big have "maxRecordSize < n" by auto
  with stream_outcome_oversized [OF dF] e show ?thesis by simp
qed

lemma streamLoop_outcome:
  assumes g: "append_grows growcap" and f: "fileSize \<le> length f"
    and "buffered (take fileSize f) cur (b, c)"
  shows "\<exists>e acc'. streamLoop growcap (file_reader f) fileSize tolerant fn (b, c) cur acc = Some (e, acc') \<and>
     stream_outcome (take fileSize f) tolerant fn cur acc e acc'"
  using assms(3)
proof (induction "2 * (fileSize - cur) - length b" arbitrary: b c cur acc rule: less_induct)
  case less
  let ?F = "take fileSize f" and ?loop = "streamLoop growcap (file_reader f) fileSize tolerant fn"
  obtain b' c' where t: "topUp growcap (file_reader f) fileSize cur (b, c) = Inr (b', c')"
    and b': "buffered ?F cur (b', c')" and le: "length b \<le> length b'"
    and lt: "cur + length b < fileSize \<and> length b < maxRecordSize \<Longrightarrow> length b < length b'"
    using topUp_file [OF g f less.prems] by metis
  have len: "length b' \<le> fileSize - cur" "length b' \<le> c'"
    using buffered_le [OF b'] f b' by (simp_all add: buffered_def)
  note unfold = streamLoop.simps [of growcap "file_reader f" fileSize tolerant fn "(b, c)" cur acc] t
  show ?case
  proof (cases "DecodeRecord b'")
    case (Inr p)
    then obtain r n where d: "DecodeRecord b' = Inr (r, n)" by (cases p) auto
    then have ne: "b' \<noteq> []" by auto
    have dF: "DecodeRecord (drop cur ?F) = Inr (r, n)" using buffered_decode(1) [OF b'] d by simp
    have n: "30 \<le> n" "n \<le> length b'" using DecodeRecord_bounds [OF d] by simp_all
    obtain go acc1 where fn: "fn acc r cur n = (go, acc1)" by fastforce
    show ?thesis
    proof (cases "go \<and> (\<exists>buf2. discard (b', c') n = Inr buf2)")
      case True
      then obtain b2 c2 where dis: "discard (b', c') n = Inr (b2, c2)" by auto
      have b2: "buffered ?F (cur + n) (b2, c2)" "b2 = drop n b'"
        using discard_buffered [OF b' dis] n by (metis fst_conv)+
      have "2 * (fileSize - (cur + n)) - length b2 < 2 * (fileSize - cur) - length b"
        using n len le b2(2) by simp
      from less.hyps [OF this b2(1)] obtain e acc' where
        r: "?loop (b2, c2) (cur + n) acc1 = Some (e, acc')" "stream_outcome ?F tolerant fn (cur + n) acc1 e acc'"
        by blast
      have "stream_outcome ?F tolerant fn cur acc e acc'"
        using stream_outcome_go [OF dF _ r(2)] fn True by simp
      then show ?thesis using True r(1) by (simp add: unfold d ne fn dis Let_def)
    next
      case False
      show ?thesis
      proof (cases go)
        case True
        with False obtain e where dis: "discard (b', c') n = Inl e" by (metis obj_sumE)
        then have "\<not> n < streamChunk" using discard_small [of "(b', c')" n] n len by auto
        with stream_outcome_panic [OF dF, of fn acc acc1] fn True show ?thesis
          by (simp add: unfold d ne fn dis discard_errors [OF dis] Let_def)
      next
        case False
        with stream_outcome_stop [of cur ?F r n fn acc acc1] dF fn show ?thesis
          by (simp add: unfold d ne Let_def)
      qed
    qed
  next
    case (Inl e)
    show ?thesis
    proof (cases "e = ErrTruncated \<and> cur + length b' < fileSize \<and> length b' < maxRecordSize")
      case True
      then have longer: "length b < length b'" using lt le by linarith
      then have "2 * (fileSize - cur) - length b' < 2 * (fileSize - cur) - length b"
        using True by linarith
      from less.hyps [OF this b', of acc] Inl True longer show ?thesis
        by (auto simp: unfold)
    next
      case False
      then have "?loop (b, c) cur acc = Some (if e = ErrTruncated \<or> tolerant then None else Some ErrCorrupt, acc)"
        using Inl by (auto simp: unfold)
      moreover have "stream_outcome ?F tolerant fn cur acc (if e = ErrTruncated \<or> tolerant then None else Some ErrCorrupt) acc"
        by (rule streamLoop_end [OF b' Inl f False])
      ultimately show ?thesis by blast
    qed
  qed
qed

lemma buffered_empty: "buffered F cur ([], c)"
  by (simp add: buffered_def)

lemma streamRecords_outcome:
  assumes "append_grows growcap" and "fileSize \<le> length f"
  obtains e acc' where "streamRecords growcap (file_reader f) pos fileSize tolerant fn acc = Some (e, acc')"
    and "stream_outcome (take fileSize f) tolerant fn pos acc e acc'"
  using streamLoop_outcome [OF assms buffered_empty] by (metis streamRecords_def)

text \<open>A corrupt record is never reported in tolerant mode, nor by a scan of whole records.\<close>

lemma streamRecords_small:
  assumes "append_grows growcap" and "fileSize \<le> length f" and "small_frames (take fileSize f) pos"
    and "tolerant \<or> DecodeRecord (drop (frames_end (take fileSize f) pos) (take fileSize f)) \<noteq> Inl ErrCorrupt"
  shows "streamRecords growcap (file_reader f) pos fileSize tolerant fn acc =
    Some (None, snd (feed fn acc (frames (take fileSize f) pos)))"
proof -
  obtain e acc' where "streamRecords growcap (file_reader f) pos fileSize tolerant fn acc = Some (e, acc')"
    and "stream_outcome (take fileSize f) tolerant fn pos acc e acc'"
    by (rule streamRecords_outcome [OF assms(1,2)])
  with assms(3,4) show ?thesis using stream_outcome_small [of "take fileSize f" tolerant fn pos acc e acc'] by auto
qed

section \<open>Files of whole records\<close>

text \<open>The frames of a file made of encoded records, from position \<open>pos\<close> on.\<close>

fun layout :: "nat \<Rightarrow> Record list \<Rightarrow> (Record \<times> nat \<times> nat) list" where
  "layout pos [] = []"
| "layout pos (r # rs) = (r, pos, length (enc r)) # layout (pos + length (enc r)) rs"

definition enc_all :: "Record list \<Rightarrow> bytes" where
  "enc_all rs = concat (map enc rs)"

lemma enc_all_simps [simp]:
  "enc_all [] = []" "enc_all (r # rs) = enc r @ enc_all rs" "enc_all (rs @ ss) = enc_all rs @ enc_all ss"
  by (simp_all add: enc_all_def)

lemma map_fst_layout [simp]: "map fst (layout pos rs) = rs"
  by (induction rs arbitrary: pos) auto

lemma layout_append: "layout pos (rs @ ss) = layout pos rs @ layout (pos + length (enc_all rs)) ss"
  by (induction rs arbitrary: pos) (auto simp: add.assoc)

lemma frames_enc_all:
  assumes "drop pos f = enc_all rs @ t" and "list_all encodable rs"
  shows "frames f pos = layout pos rs @ frames f (pos + length (enc_all rs))"
  using assms
proof (induction rs arbitrary: pos)
  case (Cons r rs)
  then have "DecodeRecord (drop pos f) = Inr (r, length (enc r))"
    by (simp add: DecodeRecord_enc)
  moreover have "drop (length (enc r)) (drop pos f) = enc_all rs @ t"
    unfolding Cons.prems(1) by simp
  then have "drop (pos + length (enc r)) f = enc_all rs @ t"
    by (simp add: add.commute)
  ultimately show ?case using Cons by (simp add: frames_Inr add.assoc)
qed simp

text \<open>Conversely, the frames of any file are the layout of encodable records.\<close>

lemma frames_layout:
  "\<exists>rs. frames f pos = layout pos rs \<and> list_all encodable rs \<and>
     drop pos f = enc_all rs @ drop (frames_end f pos) f"
proof (induction f pos rule: frames.induct)
  case (1 f pos)
  show ?case
  proof (cases "DecodeRecord (drop pos f)")
    case (Inl e)
    then show ?thesis by (intro exI [of _ "[]"]) (simp add: frames_Inl frames_end_Inl)
  next
    case (Inr p)
    then obtain r n where d: "DecodeRecord (drop pos f) = Inr (r, n)" by (cases p) auto
    note c = DecodeRecord_canonical [OF d]
    from 1 [OF d refl] obtain rs where rs: "frames f (pos + n) = layout (pos + n) rs" "list_all encodable rs"
      "drop (pos + n) f = enc_all rs @ drop (frames_end f (pos + n)) f"
      by blast
    have "drop pos f = take n (drop pos f) @ drop (pos + n) f"
      by (metis append_take_drop_id drop_drop add.commute)
    also have "\<dots> = enc_all (r # rs) @ drop (frames_end f pos) f"
      unfolding rs(3) c(2) frames_end_Inr [OF d] by simp
    finally have "drop pos f = enc_all (r # rs) @ drop (frames_end f pos) f" .
    moreover have "frames f pos = layout pos (r # rs)"
      unfolding frames_Inr [OF d] rs(1) using c(3) by simp
    ultimately show ?thesis using rs(2) c(1) by (intro exI [of _ "r # rs"]) simp
  qed
qed

lemma frames_end_stop: "\<exists>e. DecodeRecord (drop (frames_end f pos) f) = Inl e"
proof (induction f pos rule: frames.induct)
  case (1 f pos)
  then show ?case by (cases "DecodeRecord (drop pos f)") (auto simp: frames_end_Inr frames_end_Inl)
qed

section \<open>Limits of the scan\<close>

text \<open>The buffer never grows beyond \<open>maxRecordSize\<close> when it starts on a chunk boundary.\<close>

lemma topUp_full_chunk:
  assumes "cur + m + streamChunk \<le> fileSize" and "fileSize \<le> length f" and "m < maxRecordSize"
  obtains c' where "topUp growcap (file_reader f) fileSize cur (take m (drop cur f), c) =
      Inr (take (m + streamChunk) (drop cur f), c')"
    and "c' = (if m + streamChunk \<le> c then c else growcap c (m + streamChunk))"
proof -
  have m: "length (take m (drop cur f)) = m" using assms by simp
  have "take m (drop cur f) @ take streamChunk (drop (cur + m) f) = take (m + streamChunk) (drop cur f)"
    by (simp only: take_add drop_drop add.commute [of m cur])
  moreover have "length (take streamChunk (drop (cur + m) f)) = streamChunk" using assms by simp
  moreover have "cur + m < fileSize" "\<not> fileSize - cur - m < streamChunk"
    using assms by (auto simp: streamChunk_def)
  ultimately show thesis
    using that assms(3) by (simp add: topUp_def m file_reader_def append_buf_def del: length_take)
qed

lemma streamLoop_oversized:
  assumes d: "DecodeRecord (drop cur f) = Inr (r, n)" and n: "maxRecordSize < n"
  shows "j \<le> 16 \<Longrightarrow> streamLoop growcap (file_reader f) (length f) tolerant fn
      (take ((16 - j) * streamChunk) (drop cur f), c) cur acc = Some (None, acc)"
proof (induction j arbitrary: c)
  case 0
  have max: "16 * streamChunk = maxRecordSize" by (simp add: streamChunk_def maxRecordSize_def)
  have len: "maxRecordSize < length f - cur" using DecodeRecord_bounds [OF d] n by simp
  have "DecodeRecord (take maxRecordSize (drop cur f)) = Inl ErrTruncated"
    using DecodeRecord_take [OF d, of maxRecordSize] len n by simp
  then show ?case
    using len by (subst streamLoop.simps)
      (auto simp: max topUp_def maxRecordSize_def)
next
  case (Suc j)
  define m k where "m = (16 - Suc j) * streamChunk" and "k = (16 - j) * streamChunk"
  have step: "m + streamChunk = k" and k0: "0 < k"
    using Suc.prems by (simp_all add: m_def k_def algebra_simps Suc_diff_le)
  have k: "k \<le> maxRecordSize" by (simp add: k_def streamChunk_def maxRecordSize_def)
  have len: "maxRecordSize < length f - cur" using DecodeRecord_bounds [OF d] n by simp
  have fit: "cur + m + streamChunk \<le> length f" and m: "m < maxRecordSize"
    using len k step streamChunk_pos(2) by linarith+
  obtain c' where t: "topUp growcap (file_reader f) (length f) cur (take m (drop cur f), c) =
      Inr (take k (drop cur f), c')"
    using topUp_full_chunk [OF fit order_refl m] unfolding step by metis
  have tr: "DecodeRecord (take k (drop cur f)) = Inl ErrTruncated"
    using DecodeRecord_take [OF d, of k] len n k by simp
  have lk: "length (take k (drop cur f)) = k" using len k by simp
  then have ne: "take k (drop cur f) \<noteq> []" using k0 by (metis less_numeral_extra(3) list.size(3))
  have IH: "streamLoop growcap (file_reader f) (length f) tolerant fn (take k (drop cur f), c') cur acc =
    Some (None, acc)"
    using Suc.IH [of c'] Suc.prems by (simp add: k_def)
  show ?case
    unfolding m_def [symmetric]
    by (subst streamLoop.simps) (simp only: t sum.case fst_conv ne if_False tr IH simp_thms if_cancel split: if_splits)
qed

text \<open>Every iteration tops the buffer up, so a run of small records fills it chunk by chunk.\<close>

lemma streamLoop_fill:
  assumes d: "DecodeRecord (drop cur f) = Inr (r, n)" and n: "n \<le> m + streamChunk"
    and m: "cur + m + streamChunk \<le> length f" "m < maxRecordSize"
    and fn: "\<And>a r p n. fst (fn a r p n)"
  obtains c' where "c' = (if m + streamChunk \<le> c then c else growcap c (m + streamChunk))"
    and "streamLoop growcap (file_reader f) (length f) tolerant fn (take m (drop cur f), c) cur acc =
      (case discard (take (m + streamChunk) (drop cur f), c') n of
         Inl e \<Rightarrow> Some (Some e, snd (fn acc r cur n))
       | Inr buf \<Rightarrow> streamLoop growcap (file_reader f) (length f) tolerant fn buf (cur + n) (snd (fn acc r cur n)))"
proof -
  obtain c' where t: "topUp growcap (file_reader f) (length f) cur (take m (drop cur f), c) =
      Inr (take (m + streamChunk) (drop cur f), c')"
    and c': "c' = (if m + streamChunk \<le> c then c else growcap c (m + streamChunk))"
    using topUp_full_chunk [of cur m "length f" f growcap c] m by auto
  have "length (take (m + streamChunk) (drop cur f)) = m + streamChunk" using m by simp
  then have "take (m + streamChunk) (drop cur f) \<noteq> []" by (auto simp: streamChunk_def)
  moreover have "DecodeRecord (take (m + streamChunk) (drop cur f)) = Inr (r, n)"
    using DecodeRecord_take [OF d, of "m + streamChunk"] m n by simp
  ultimately have "streamLoop growcap (file_reader f) (length f) tolerant fn (take m (drop cur f), c) cur acc =
      (case discard (take (m + streamChunk) (drop cur f), c') n of
         Inl e \<Rightarrow> Some (Some e, snd (fn acc r cur n))
       | Inr buf \<Rightarrow> streamLoop growcap (file_reader f) (length f) tolerant fn buf (cur + n) (snd (fn acc r cur n)))"
    using fn by (subst streamLoop.simps) (simp add: t Let_def split: sum.split)
  with that c' show thesis by blast
qed

definition quarter_growth :: "(nat \<Rightarrow> nat \<Rightarrow> nat) \<Rightarrow> bool" where
  "quarter_growth growcap \<longleftrightarrow> (\<forall>c n. streamChunk \<le> n \<longrightarrow> growcap c n \<le> n + n div 3)"

lemma streamLoop_fill_small:
  assumes d: "DecodeRecord (drop cur f) = Inr (r, n)" and n: "2 * n + 2 \<le> streamChunk"
    and m: "cur + m + streamChunk \<le> length f" "m < maxRecordSize"
    and fn: "\<And>a r p n. fst (fn a r p n)" and g: "append_grows growcap" "quarter_growth growcap"
  obtains c' a' where "c' \<le> max c (m + streamChunk + (m + streamChunk) div 3)"
    and "streamLoop growcap (file_reader f) (length f) tolerant fn (take m (drop cur f), c) cur acc =
      streamLoop growcap (file_reader f) (length f) tolerant fn
        (take (m + streamChunk - n) (drop (cur + n) f), c') (cur + n) a'"
proof -
  obtain c' where c': "c' = (if m + streamChunk \<le> c then c else growcap c (m + streamChunk))"
    and l: "streamLoop growcap (file_reader f) (length f) tolerant fn (take m (drop cur f), c) cur acc =
      (case discard (take (m + streamChunk) (drop cur f), c') n of
         Inl e \<Rightarrow> Some (Some e, snd (fn acc r cur n))
       | Inr buf \<Rightarrow> streamLoop growcap (file_reader f) (length f) tolerant fn buf (cur + n) (snd (fn acc r cur n)))"
    using streamLoop_fill [OF d _ m, of fn c growcap tolerant acc] n fn by auto
  have le: "m + streamChunk \<le> c'" "c' \<le> max c (m + streamChunk + (m + streamChunk) div 3)"
    using g c' by (auto simp: append_grows_def quarter_growth_def le_max_iff_disj)
  then have "\<not> c' div 2 \<le> n" using n by linarith
  then have "discard (take (m + streamChunk) (drop cur f), c') n =
      Inr (take (m + streamChunk - n) (drop (cur + n) f), c' - n)"
    by (simp add: discard_def drop_take add.commute)
  with l le(2) show thesis using that [of "c' - n" "snd (fn acc r cur n)"] by simp
qed

lemma streamLoop_panics:
  assumes d: "DecodeRecord (drop 0 f) = Inr (ra, na)" "DecodeRecord (drop (0 + na) f) = Inr (rb, nb)"
      "DecodeRecord (drop (0 + na + nb) f) = Inr (rc, nc)" "DecodeRecord (drop (0 + na + nb + nc) f) = Inr (big, n)"
    and small: "na + nb + nc \<le> 1000" and big: "700000 \<le> n" "n \<le> 750000" and len: "4 * streamChunk \<le> length f"
    and fn: "\<And>a r p n. fst (fn a r p n)" and g: "append_grows growcap" "quarter_growth growcap"
  shows "\<exists>acc'. streamRecords growcap (file_reader f) 0 (length f) tolerant fn acc = Some (Some ErrPanic, acc')"
proof -
  let ?loop = "streamLoop growcap (file_reader f) (length f) tolerant fn"
  note num = streamChunk_def maxRecordSize_def
  note fill = streamLoop_fill_small [where tolerant = tolerant and fn = fn, OF _ _ _ _ fn g]
  let ?m1 = "0 + streamChunk - na" and ?p1 = "0 + na"
  obtain c1 a1 where c1: "c1 \<le> max streamChunk (0 + streamChunk + (0 + streamChunk) div 3)"
    and l1: "?loop (take 0 (drop 0 f), streamChunk) 0 acc = ?loop (take ?m1 (drop ?p1 f), c1) ?p1 a1"
    by (rule fill [OF d(1), where m = 0 and c = streamChunk and acc = acc]) (use small len in \<open>auto simp: num\<close>)
  let ?m2 = "?m1 + streamChunk - nb" and ?p2 = "?p1 + nb"
  obtain c2 a2 where c2: "c2 \<le> max c1 (?m1 + streamChunk + (?m1 + streamChunk) div 3)"
    and l2: "?loop (take ?m1 (drop ?p1 f), c1) ?p1 a1 = ?loop (take ?m2 (drop ?p2 f), c2) ?p2 a2"
    by (rule fill [OF d(2), where m = "?m1" and c = c1 and acc = a1]) (use small len in \<open>auto simp: num\<close>)
  let ?m3 = "?m2 + streamChunk - nc" and ?p3 = "?p2 + nc"
  obtain c3 a3 where c3: "c3 \<le> max c2 (?m2 + streamChunk + (?m2 + streamChunk) div 3)"
    and l3: "?loop (take ?m2 (drop ?p2 f), c2) ?p2 a2 = ?loop (take ?m3 (drop ?p3 f), c3) ?p3 a3"
    by (rule fill [OF d(3), where m = "?m2" and c = c2 and acc = a2]) (use small len in \<open>auto simp: num\<close>)
  have m3: "?m3 + ?p3 = 786432" using small by (simp add: num)
  have c3': "c3 \<le> 1048576" using c1 c2 c3 by (simp add: num) linarith
  obtain c4 where c4: "c4 = (if ?m3 + streamChunk \<le> c3 then c3 else growcap c3 (?m3 + streamChunk))"
    and l4: "?loop (take ?m3 (drop ?p3 f), c3) ?p3 a3 = (case discard (take (?m3 + streamChunk) (drop ?p3 f), c4) n of
         Inl e \<Rightarrow> Some (Some e, snd (fn a3 big ?p3 n)) | Inr buf \<Rightarrow> ?loop buf (?p3 + n) (snd (fn a3 big ?p3 n)))"
    by (rule streamLoop_fill [where fn = fn and m = "?m3" and c = c3 and acc = a3 and growcap = growcap and tolerant = tolerant, OF d(4) _ _ _ fn])
      (use small len big in \<open>auto simp: num\<close>)
  have "growcap c3 (?m3 + streamChunk) \<le> ?m3 + streamChunk + (?m3 + streamChunk) div 3"
    using g(2) by (simp add: quarter_growth_def)
  also have "\<dots> \<le> 1398101" using m3 by (simp add: num)
  finally have "c4 \<le> 1398101" using c4 c3' by (simp split: if_splits)
  then have "c4 div 2 \<le> n" using big by linarith
  moreover have "length (take (?m3 + streamChunk) (drop ?p3 f)) = ?m3 + streamChunk"
    using m3 len by (simp add: num)
  then have "streamChunk < length (take (?m3 + streamChunk) (drop ?p3 f)) - n"
    using m3 small big by (simp only: num) linarith
  ultimately have "discard (take (?m3 + streamChunk) (drop ?p3 f), c4) n = Inl ErrPanic"
    by (simp only: discard_def prod.case if_True)
  then show ?thesis using l1 l2 l3 l4 by (simp add: streamRecords_def)
qed

section \<open>Properties of the scan\<close>

text \<open>
  Property C4. On any file whose records are all smaller than one chunk (256 KiB) the chunked
  scan is the reference parse: it returns, the callback has seen exactly the
  records of the file in order with their positions and sizes, up to where it
  asked to stop, and the only error is a corrupt record in strict mode, reported
  at the position where the reference parse meets one.
\<close>

theorem streamRecords_exact:
  assumes "append_grows growcap" and "fileSize \<le> length f" and "small_frames (take fileSize f) pos"
  shows "\<exists>e. streamRecords growcap (file_reader f) pos fileSize tolerant fn acc =
      Some (e, snd (feed fn acc (frames (take fileSize f) pos))) \<and>
    (e = None \<or> (e = Some ErrCorrupt \<and> \<not> tolerant \<and>
       DecodeRecord (drop (frames_end (take fileSize f) pos) (take fileSize f)) = Inl ErrCorrupt))"
proof -
  obtain e acc' where "streamRecords growcap (file_reader f) pos fileSize tolerant fn acc = Some (e, acc')"
    and "stream_outcome (take fileSize f) tolerant fn pos acc e acc'"
    by (rule streamRecords_outcome [OF assms(1,2)])
  with assms(3) show ?thesis using stream_outcome_small [of "take fileSize f" tolerant fn pos acc e acc'] by auto
qed

definition double_cap :: "nat \<Rightarrow> nat \<Rightarrow> nat" where
  "double_cap c n = max n (2 * c)"

definition collect_fn :: "Record list record_fn" where
  "collect_fn rs r pos n = (True, rs @ [r])"

lemma append_grows_double_cap: "append_grows double_cap"
  by (simp add: append_grows_def double_cap_def)

lemma length_enc_sample: "length (enc sample_record) = 40"
  by (simp add: enc_def enc_body_def sample_record_def sample_header_def enc_header_def)

lemma frames_sample: "frames (enc sample_record) 0 = [(sample_record, 0, 40)]"
  using frames_enc_all [of 0 "enc sample_record" "[sample_record]" "[]"] encodable_sample
  by (simp add: frames_Inl length_enc_sample)

theorem streamRecords_exact_witness:
  "small_frames (enc sample_record) 0 \<and>
   (\<exists>e. streamRecords double_cap (file_reader (enc sample_record)) 0 40 True collect_fn [] = Some (e, [sample_record]))"
proof -
  have F: "take 40 (enc sample_record) = enc sample_record" by (simp add: length_enc_sample)
  have small: "small_frames (enc sample_record) 0"
    by (simp add: small_frames_def frames_sample streamChunk_def)
  have "\<exists>e. streamRecords double_cap (file_reader (enc sample_record)) 0 40 True collect_fn [] =
      Some (e, snd (feed collect_fn [] (frames (take 40 (enc sample_record)) 0)))"
    using streamRecords_exact [OF append_grows_double_cap, of 40 "enc sample_record" 0 True collect_fn "[]"]
      small F by (auto simp: length_enc_sample)
  with small show ?thesis by (simp only: F) (simp add: frames_sample collect_fn_def)
qed

text \<open>
  Property C5. On a file with any contents the scan ends, and the callback has seen exactly the first
  \<open>k\<close> records of the reference parse and nothing else. How it ends says which: without an error only at the end of the
  parse, where the callback asked to stop, or before a record above \<open>maxRecordSize\<close>, which the scan cannot see; with
  a corruption error only in strict mode, after all records, at bytes that do not decode; otherwise it panics, and
  only right after a record of at least one chunk (256 KiB). So no record is skipped and none invented, and
  a scan of smaller records neither panics nor stops early.
\<close>

theorem streamRecords_sound:
  assumes "append_grows growcap" and "fileSize \<le> length f" and "fs = frames (take fileSize f) pos"
  shows "\<exists>e k. streamRecords growcap (file_reader f) pos fileSize tolerant fn acc = Some (e, snd (feed fn acc (take k fs))) \<and> k \<le> length fs \<and>
    (e = None \<and> (k = length fs \<or> \<not> fst (feed fn acc (take k fs)) \<or> k < length fs \<and> maxRecordSize < frame_size (fs ! k)) \<or>
     e = Some ErrCorrupt \<and> \<not> tolerant \<and> k = length fs \<and> fst (feed fn acc fs) \<and>
       DecodeRecord (drop (frames_end (take fileSize f) pos) (take fileSize f)) = Inl ErrCorrupt \<or>
     e = Some ErrPanic \<and> 0 < k \<and> streamChunk \<le> frame_size (fs ! (k - 1)))"
  unfolding assms(3)
  by (rule streamRecords_outcome [OF assms(1,2), of pos tolerant fn acc]) (unfold stream_outcome_def stream_stop_def, blast)

definition torn_file :: bytes where
  "torn_file = enc sample_record @ take 29 (enc sample_record)"

lemma torn_file_fields:
  "length torn_file = 69" "frames torn_file 0 = [(sample_record, 0, 40)]"
  "DecodeRecord (drop (frames_end torn_file 0) torn_file) = Inl ErrTruncated"
proof -
  show "length torn_file = 69" by (simp add: torn_file_def length_enc_sample)
  have d: "DecodeRecord (drop 40 torn_file) = Inl ErrTruncated"
    using DecodeRecord_enc_torn [OF encodable_sample, of 29] by (simp add: torn_file_def length_enc_sample)
  have r: "DecodeRecord (drop 0 torn_file) = Inr (sample_record, 40)"
    using DecodeRecord_enc [OF encodable_sample] by (simp add: torn_file_def length_enc_sample)
  show "frames torn_file 0 = [(sample_record, 0, 40)]" using frames_Inr [OF r] frames_Inl [OF d] by simp
  have "frames_end torn_file 0 = 40" using frames_end_Inr [OF r] frames_end_Inl [OF d] by simp
  with d show "DecodeRecord (drop (frames_end torn_file 0) torn_file) = Inl ErrTruncated" by simp
qed

theorem streamRecords_sound_witness:
  "streamRecords double_cap (file_reader torn_file) 0 69 False collect_fn [] = Some (None, [sample_record])"
proof -
  have F: "take 69 torn_file = torn_file" by (simp add: torn_file_fields)
  have "69 \<le> length torn_file" by (simp add: torn_file_fields)
  from streamRecords_sound [OF append_grows_double_cap this refl, of 0 False collect_fn "[]", unfolded F torn_file_fields(2)]
  obtain e k where r: "streamRecords double_cap (file_reader torn_file) 0 69 False collect_fn [] =
      Some (e, snd (feed collect_fn [] (take k [(sample_record, 0, 40)])))" "k \<le> 1"
    "e = None \<and> (k = 1 \<or> \<not> fst (feed collect_fn [] (take k [(sample_record, 0, 40)])) \<or> k < 1 \<and> maxRecordSize < frame_size ([(sample_record, 0, 40)] ! k)) \<or>
     e = Some ErrPanic \<and> 0 < k \<and> streamChunk \<le> frame_size ([(sample_record, 0, 40)] ! (k - 1))"
    using torn_file_fields(3) by (auto simp: F)
  then have "k = 1" "e = None"
    by (auto simp: maxRecordSize_def streamChunk_def collect_fn_def nth_Cons' le_Suc_eq split: if_splits)
  then show ?thesis using r(1) by (simp add: collect_fn_def)
qed

text \<open>
  The scan cannot see a record larger than \<open>maxRecordSize\<close>: started at such a
  record, intact and with its checksum right, it ends silently as at a torn tail,
  and neither that record nor any after it reaches the callback.
\<close>

theorem streamRecords_oversized_invisible:
  assumes "DecodeRecord (drop pos f) = Inr (r, n)" and "maxRecordSize < n"
  shows "streamRecords growcap (file_reader f) pos (length f) tolerant fn acc = Some (None, acc)"
  using streamLoop_oversized [OF assms, of 16] by (simp add: streamRecords_def)

definition oversized_record :: Record where
  "oversized_record = \<lparr>Offset = 0, TimestampMs = 0, Key = [], Value = replicate 4194304 0, Headers = []\<rparr>"

lemma encodable_oversized: "encodable oversized_record"
  by (simp add: encodable_def oversized_record_def)

lemma length_enc_oversized: "length (enc oversized_record) = 4194334"
  by (simp add: enc_def enc_body_def oversized_record_def)

theorem streamRecords_oversized_invisible_witness:
  "DecodeRecord (enc oversized_record) = Inr (oversized_record, 4194334) \<and>
   streamRecords double_cap (file_reader (enc oversized_record)) 0 (length (enc oversized_record)) True collect_fn [] =
     Some (None, [])"
proof -
  have d: "DecodeRecord (drop 0 (enc oversized_record)) = Inr (oversized_record, 4194334)"
    using DecodeRecord_enc [OF encodable_oversized, of "[]"] by (simp add: length_enc_oversized)
  show ?thesis
    using d streamRecords_oversized_invisible [OF d, of double_cap True collect_fn "[]"]
    by (simp add: maxRecordSize_def)
qed

text \<open>
  The copy of the buffer's rest allocates one chunk of capacity for a rest that may
  be longer. Three small records followed by a record of about 0.7 MiB and by enough
  other data make a scan panic, in either mode, although every record is intact
  and far below \<open>maxRecordSize\<close>. (\<open>quarter_growth\<close> bounds how far \<open>append\<close>
  over-allocates a large array; the Go runtime adds a quarter and rounds up.)
\<close>

theorem streamRecords_large_record_panics:
  assumes "list_all encodable (ra # rb # rc # big # rest)" and "length (enc_all [ra, rb, rc]) \<le> 1000"
    and "700000 \<le> length (enc big)" and "length (enc big) \<le> 750000"
    and "f = enc_all (ra # rb # rc # big # rest)" and "4 * streamChunk \<le> length f"
    and "\<And>a r p n. fst (fn a r p n)" and "append_grows growcap" and "quarter_growth growcap"
  shows "\<exists>acc'. streamRecords growcap (file_reader f) 0 (length f) tolerant fn acc = Some (Some ErrPanic, acc')"
  using assms(1-4,6) unfolding assms(5)
  by (intro streamLoop_panics [where na = "length (enc ra)" and nb = "length (enc rb)" and nc = "length (enc rc)"
        and n = "length (enc big)" and ra = ra and rb = rb and rc = rc and big = big] assms(7-9))
    (simp_all add: DecodeRecord_enc)

definition quarter_cap :: "nat \<Rightarrow> nat \<Rightarrow> nat" where
  "quarter_cap c n = n + n div 4"

lemma quarter_cap_growth: "append_grows quarter_cap" "quarter_growth quarter_cap"
  by (simp_all add: append_grows_def quarter_growth_def quarter_cap_def div_le_mono2)

definition large_record :: Record where
  "large_record = \<lparr>Offset = 0, TimestampMs = 0, Key = [], Value = replicate 720000 0, Headers = []\<rparr>"

lemma encodable_large: "encodable large_record"
  by (simp add: encodable_def large_record_def)

lemma length_enc_large: "length (enc large_record) = 720030"
  by (simp add: enc_def enc_body_def large_record_def)

theorem streamRecords_large_record_panics_witness:
  "\<exists>acc'. streamRecords quarter_cap
     (file_reader (enc_all [sample_record, sample_record, sample_record, large_record, large_record])) 0
     1440180 False collect_fn [] = Some (Some ErrPanic, acc')"
  using streamRecords_large_record_panics [where growcap = quarter_cap and fn = collect_fn and tolerant = False
      and acc = "[]" and ra = sample_record and rb = sample_record and rc = sample_record
      and big = large_record and rest = "[large_record]", OF _ _ _ _ refl]
  by (simp add: encodable_sample encodable_large length_enc_sample length_enc_large collect_fn_def
      quarter_cap_growth streamChunk_def)

end
