(* ===== verification/Disk.thy ===== *)
theory Disk
  imports Record_Stream
begin

text \<open>
  The part of the operating system the storage engine of
  src/internal/broker/storage uses: one directory of files per partition, with the
  calls of Go's \<open>os\<close> package on it. Every call may fail: call number \<open>n\<close>
  succeeds if \<open>fault rt n\<close> is \<open>None\<close>; with \<open>Some k\<close> it fails, and a write has
  written its first \<open>k\<close> bytes by then. An open file is named by its directory
  entry: the engine closes a file before it removes or renames it.

  Operations that change the state and may fail are functions
  \<open>'s \<Rightarrow> (storage_error + 'a) \<times> 's\<close>; \<open>bindR\<close> is Go's \<open>if err != nil { return err }\<close>,
  which keeps what was changed before the error.
\<close>

section \<open>Errors with state\<close>

type_synonym ('s, 'a) res = "'s \<Rightarrow> (storage_error + 'a) \<times> 's"

definition returnR :: "'a \<Rightarrow> ('s, 'a) res" where
  "returnR a s = (Inr a, s)"

definition failR :: "storage_error \<Rightarrow> ('s, 'a) res" where
  "failR e s = (Inl e, s)"

definition bindR :: "('s, 'a) res \<Rightarrow> ('a \<Rightarrow> ('s, 'b) res) \<Rightarrow> ('s, 'b) res" where
  "bindR m f s = (case m s of (Inl e, s') \<Rightarrow> (Inl e, s') | (Inr a, s') \<Rightarrow> f a s')"

fun forR :: "'x list \<Rightarrow> ('x \<Rightarrow> ('s, unit) res) \<Rightarrow> ('s, unit) res" where
  "forR [] f = returnR ()"
| "forR (x # xs) f = bindR (f x) (\<lambda>_. forR xs f)"

lemma bindR_simps [simp]:
  "m s = (Inr a, s') \<Longrightarrow> bindR m f s = f a s'"
  "m s = (Inl e, s') \<Longrightarrow> bindR m f s = (Inl e, s')"
  by (simp_all add: bindR_def)

lemma returnR_apply [simp]: "returnR a s = (Inr a, s)"
  by (simp add: returnR_def)

lemma failR_apply [simp]: "failR e s = (Inl e, s)"
  by (simp add: failR_def)

text \<open>The storage engine's panics are the error \<open>ErrPanic\<close>; its callers do not get to see them as errors.\<close>

definition unrecovered :: "storage_error + 'a \<Rightarrow> (storage_error + 'a) go" where
  "unrecovered r =
     (case r of
        Inl e \<Rightarrow> if e = ErrPanic then Inl SliceOutOfRange else Inr (Inl e)
      | Inr x \<Rightarrow> Inr (Inr x))"

lemma unrecovered_simps [simp]:
  "unrecovered (Inr x) = Inr (Inr x)" "e \<noteq> ErrPanic \<Longrightarrow> unrecovered (Inl e) = Inr (Inl e)" "unrecovered (Inl ErrPanic) = Inl SliceOutOfRange"
  by (simp_all add: unrecovered_def)

lemma unrecovered_eq_Inr_iff: "unrecovered r = Inr r' \<longleftrightarrow> r' = r \<and> r \<noteq> Inl ErrPanic"
  by (auto simp: unrecovered_def split: sum.split)

text \<open>A component's operation acting on one part of a larger state.\<close>

definition on_fst :: "('s, 'a) res \<Rightarrow> ('s \<times> 't, 'a) res" where
  "on_fst m = (\<lambda>(s, t). case m s of (r, s') \<Rightarrow> (r, (s', t)))"

definition on_snd :: "('t, 'a) res \<Rightarrow> ('s \<times> 't, 'a) res" where
  "on_snd m = (\<lambda>(s, t). case m t of (r, t') \<Rightarrow> (r, (s, t')))"

definition modifyR :: "('s \<Rightarrow> 's) \<Rightarrow> ('s, unit) res" where
  "modifyR f s = (Inr (), f s)"

text \<open>A cleanup that runs when the operation fails.\<close>

definition onErr :: "('s, 'a) res \<Rightarrow> ('s \<Rightarrow> 's) \<Rightarrow> ('s, 'a) res" where
  "onErr m clean s = (case m s of (Inl e, s) \<Rightarrow> (Inl e, clean s) | (Inr a, s) \<Rightarrow> (Inr a, s))"

lemma onErr_ok: "m d = (Inr a, d') \<Longrightarrow> onErr m clean d = (Inr a, d')"
  by (simp add: onErr_def)

lemma on_snd_apply: "m t = (r, t') \<Longrightarrow> on_snd m (s, t) = (r, (s, t'))"
  by (simp add: on_snd_def)

lemma modifyR_apply [simp]: "modifyR f s = (Inr (), f s)"
  by (simp add: modifyR_def)

section \<open>The run-time environment and the directory\<close>

record runtime =
  growcap :: "nat \<Rightarrow> nat \<Rightarrow> nat"
  fault :: "nat \<Rightarrow> nat option"
  readFails :: "string \<Rightarrow> nat \<Rightarrow> bool"
  modTimeMs :: "nat \<Rightarrow> i64"

record disk =
  files :: "(string \<times> bytes) list"
  ops :: nat

definition no_faults :: "runtime \<Rightarrow> bool" where
  "no_faults rt \<longleftrightarrow> append_grows (growcap rt) \<and> (\<forall>n. fault rt n = None) \<and> (\<forall>f p. \<not> readFails rt f p)"

definition content :: "disk \<Rightarrow> string \<Rightarrow> bytes" where
  "content d name = (case map_of (files d) name of None \<Rightarrow> [] | Some b \<Rightarrow> b)"

definition exists_file :: "disk \<Rightarrow> string \<Rightarrow> bool" where
  "exists_file d name \<longleftrightarrow> map_of (files d) name \<noteq> None"

definition put :: "string \<Rightarrow> bytes \<Rightarrow> disk \<Rightarrow> disk" where
  "put name b d = d\<lparr>files := AList.update name b (files d)\<rparr>"

definition del :: "string \<Rightarrow> disk \<Rightarrow> disk" where
  "del name d = d\<lparr>files := AList.delete name (files d)\<rparr>"

definition tick :: "disk \<Rightarrow> disk" where
  "tick d = d\<lparr>ops := ops d + 1\<rparr>"

text \<open>One call: its fault, if any, and the directory with the call counted.\<close>

definition call :: "runtime \<Rightarrow> (nat option \<Rightarrow> (disk, 'a) res) \<Rightarrow> (disk, 'a) res" where
  "call rt k d = k (fault rt (ops d)) (tick d)"

definition call_ok :: "runtime \<Rightarrow> (disk, 'a) res \<Rightarrow> (disk, 'a) res" where
  "call_ok rt m = call rt (\<lambda>f. case f of None \<Rightarrow> m | Some _ \<Rightarrow> failR ErrIO)"

definition overwrite :: "bytes \<Rightarrow> nat \<Rightarrow> bytes \<Rightarrow> bytes" where
  "overwrite f pos data =
     (if data = [] then f
      else take pos f @ replicate (pos - length f) 0 @ data @ drop (pos + length data) f)"

definition OpenFile :: "runtime \<Rightarrow> string \<Rightarrow> (disk, unit) res" where
  "OpenFile rt name = call_ok rt (\<lambda>d. (Inr (), if exists_file d name then d else put name [] d))"

text \<open>\<open>O_TRUNC\<close>.\<close>

definition Create :: "runtime \<Rightarrow> string \<Rightarrow> (disk, unit) res" where
  "Create rt name = call_ok rt (\<lambda>d. (Inr (), put name [] d))"

definition FileSize :: "runtime \<Rightarrow> string \<Rightarrow> (disk, nat) res" where
  "FileSize rt name = call_ok rt (\<lambda>d. (Inr (length (content d name)), d))"

definition ReadAll :: "runtime \<Rightarrow> string \<Rightarrow> (disk, bytes) res" where
  "ReadAll rt name = call_ok rt (\<lambda>d. (Inr (content d name), d))"

text \<open>\<open>ReadAt\<close> reports an error when it reads fewer bytes than asked.\<close>

definition ReadAt :: "runtime \<Rightarrow> string \<Rightarrow> nat \<Rightarrow> nat \<Rightarrow> (disk, bytes) res" where
  "ReadAt rt name n pos = call_ok rt (\<lambda>d.
     (if length (content d name) < pos + n then Inl ErrIO
      else Inr (take n (drop pos (content d name))), d))"

definition WriteAt :: "runtime \<Rightarrow> string \<Rightarrow> bytes \<Rightarrow> nat \<Rightarrow> (disk, unit) res" where
  "WriteAt rt name data pos = call rt (\<lambda>f d. case f of
       None \<Rightarrow> (Inr (), put name (overwrite (content d name) pos data) d)
     | Some k \<Rightarrow> (Inl ErrIO, put name (overwrite (content d name) pos (take k data)) d))"

definition Truncate :: "runtime \<Rightarrow> string \<Rightarrow> nat \<Rightarrow> (disk, unit) res" where
  "Truncate rt name n = call_ok rt (\<lambda>d.
     (Inr (), put name (take n (content d name) @ replicate (n - length (content d name)) 0) d))"

text \<open>\<open>Sync\<close>, \<open>Close\<close> and \<open>Seek\<close> change no file contents.\<close>

definition Sync :: "runtime \<Rightarrow> string \<Rightarrow> (disk, unit) res" where
  "Sync rt name = call_ok rt (returnR ())"

definition CloseFile :: "runtime \<Rightarrow> string \<Rightarrow> (disk, unit) res" where
  "CloseFile rt name = call_ok rt (returnR ())"

definition Seek :: "runtime \<Rightarrow> string \<Rightarrow> (disk, unit) res" where
  "Seek rt name = call_ok rt (returnR ())"

definition closeF :: "runtime \<Rightarrow> string \<Rightarrow> disk \<Rightarrow> disk" where
  "closeF rt name d = snd (CloseFile rt name d)"

text \<open>A write to a file opened with \<open>O_APPEND\<close>.\<close>

definition AppendFile :: "runtime \<Rightarrow> string \<Rightarrow> bytes \<Rightarrow> (disk, unit) res" where
  "AppendFile rt name data d = WriteAt rt name data (length (content d name)) d"

definition Remove :: "runtime \<Rightarrow> string \<Rightarrow> (disk, unit) res" where
  "Remove rt name = call_ok rt (\<lambda>d.
     if exists_file d name then (Inr (), del name d) else (Inl ErrNotExist, d))"

definition Rename :: "runtime \<Rightarrow> string \<Rightarrow> string \<Rightarrow> (disk, unit) res" where
  "Rename rt old new = call_ok rt (\<lambda>d.
     if exists_file d old then (Inr (), put new (content d old) (del old d)) else (Inl ErrNotExist, d))"

definition ReadDir :: "runtime \<Rightarrow> (disk, string list) res" where
  "ReadDir rt = call_ok rt (\<lambda>d. (Inr (sort (map fst (files d))), d))"

text \<open>The reader the scans use.\<close>

definition reader :: "runtime \<Rightarrow> disk \<Rightarrow> string \<Rightarrow> readerAt" where
  "reader rt d name pos n =
     (if readFails rt name pos then Inl ErrIO else file_reader (content d name) pos n)"

section \<open>Laws of the directory\<close>

lemma content_put [simp]: "content (put n b d) m = (if m = n then b else content d m)"
  by (simp add: content_def put_def update_conv)

lemma exists_file_put [simp]: "exists_file (put n b d) m \<longleftrightarrow> m = n \<or> exists_file d m"
  by (simp add: exists_file_def put_def update_conv)

lemma content_del [simp]: "content (del n d) m = (if m = n then [] else content d m)"
  by (simp add: content_def del_def delete_conv)

lemma exists_file_del [simp]: "exists_file (del n d) m \<longleftrightarrow> m \<noteq> n \<and> exists_file d m"
  by (simp add: exists_file_def del_def delete_conv)

lemma content_tick [simp]: "content (tick d) = content d"
  by (simp add: fun_eq_iff content_def tick_def)

lemma exists_file_tick [simp]: "exists_file (tick d) = exists_file d"
  by (simp add: fun_eq_iff exists_file_def tick_def)

lemma content_ops_update [simp]: "content (ops_update g d) = content d"
  by (simp add: fun_eq_iff content_def)

lemma exists_file_ops_update [simp]: "exists_file (ops_update g d) = exists_file d"
  by (simp add: fun_eq_iff exists_file_def)

definition file_names :: "disk \<Rightarrow> string set" where
  "file_names d = fst ` set (files d)"

lemma exists_file_iff: "exists_file d n \<longleftrightarrow> n \<in> file_names d"
  by (simp add: exists_file_def file_names_def map_of_eq_None_iff)

lemma content_no_file: "\<not> exists_file d n \<Longrightarrow> content d n = []"
  by (simp add: exists_file_def content_def)

lemma overwrite_end: "length f = pos \<Longrightarrow> overwrite f pos data = f @ data"
  by (simp add: overwrite_def)

lemma overwrite_Nil [simp]: "overwrite [] 0 data = data"
  by (simp add: overwrite_def)

lemma overwrite_take: "pos \<le> length f \<Longrightarrow> take (pos + length data) (overwrite f pos data) = take pos f @ data"
  by (auto simp: overwrite_def)

lemma overwrite_prefix: "n \<le> pos \<Longrightarrow> n \<le> length f \<Longrightarrow> take n (overwrite f pos data) = take n f"
  by (auto simp: overwrite_def min_def)

lemma length_overwrite:
  "length (overwrite f pos data) = (if data = [] then length f else max (length f) (pos + length data))"
  by (auto simp: overwrite_def max_def)

text \<open>With no faults every call succeeds; its result and effect are explicit.\<close>

lemma no_faults_growcap: "no_faults rt \<Longrightarrow> append_grows (growcap rt)"
  by (simp add: no_faults_def)

lemma call_no_faults: "no_faults rt \<Longrightarrow> call rt k d = k None (tick d)"
  by (simp add: no_faults_def call_def)

lemma call_ok_no_faults: "no_faults rt \<Longrightarrow> call_ok rt m d = m (tick d)"
  by (simp add: call_ok_def call_no_faults)

lemma io_no_faults:
  assumes "no_faults rt"
  shows "OpenFile rt n d = (Inr (), if exists_file d n then tick d else put n [] (tick d))"
    and "FileSize rt n d = (Inr (length (content d n)), tick d)"
    and "ReadAll rt n d = (Inr (content d n), tick d)"
    and "WriteAt rt n data pos d = (Inr (), put n (overwrite (content d n) pos data) (tick d))"
    and "Truncate rt n k d =
      (Inr (), put n (take k (content d n) @ replicate (k - length (content d n)) 0) (tick d))"
    and "Sync rt n d = (Inr (), tick d)"
    and "CloseFile rt n d = (Inr (), tick d)"
    and "Seek rt n d = (Inr (), tick d)"
    and "Remove rt n d =
      (if exists_file d n then (Inr (), del n (tick d)) else (Inl ErrNotExist, tick d))"
    and "Rename rt n m d =
      (if exists_file d n then (Inr (), put m (content d n) (del n (tick d))) else (Inl ErrNotExist, tick d))"
    and "ReadDir rt d = (Inr (sort (map fst (files d))), tick d)"
    and "ReadAt rt n len pos d =
      (if length (content d n) < pos + len then Inl ErrIO else Inr (take len (drop pos (content d n))), tick d)"
  using assms
  by (simp_all add: OpenFile_def FileSize_def ReadAll_def WriteAt_def Truncate_def Sync_def
      CloseFile_def Seek_def Remove_def Rename_def ReadDir_def ReadAt_def call_no_faults
      call_ok_no_faults tick_def)

lemma reader_no_faults: "no_faults rt \<Longrightarrow> reader rt d n = file_reader (content d n)"
  by (simp add: fun_eq_iff reader_def no_faults_def)

text \<open>A run-time environment in which nothing fails.\<close>

definition calm_runtime :: runtime where
  "calm_runtime = \<lparr>growcap = double_cap, fault = (\<lambda>_. None), readFails = (\<lambda>_ _. False), modTimeMs = (\<lambda>_. 0)\<rparr>"

lemma no_faults_calm: "no_faults calm_runtime"
  by (simp add: no_faults_def calm_runtime_def append_grows_double_cap)

section \<open>File names\<close>

text \<open>\<open>%020d\<close> of a 64-bit number: exactly twenty digits.\<close>

primrec decimal :: "nat \<Rightarrow> nat \<Rightarrow> string" where
  "decimal 0 n = []"
| "decimal (Suc k) n = decimal k (n div 10) @ [char_of (48 + n mod 10)]"

definition is_digit :: "char \<Rightarrow> bool" where
  "is_digit c \<longleftrightarrow> 48 \<le> (of_char c :: nat) \<and> (of_char c :: nat) \<le> 57"

fun decimal_value :: "nat \<Rightarrow> string \<Rightarrow> nat option" where
  "decimal_value n [] = Some n"
| "decimal_value n (c # cs) = (if is_digit c then decimal_value (10 * n + (of_char c - 48)) cs else None)"

text \<open>\<open>strconv.ParseUint(s, 10, 64)\<close>.\<close>

definition ParseUint :: "string \<Rightarrow> u64 option" where
  "ParseUint s =
     (if s = [] then None
      else case decimal_value 0 s of
        None \<Rightarrow> None
      | Some n \<Rightarrow> if n < 2 ^ 64 then Some (of_nat n) else None)"

definition HasSuffix :: "string \<Rightarrow> string \<Rightarrow> bool" where
  "HasSuffix s suf \<longleftrightarrow> length suf \<le> length s \<and> drop (length s - length suf) s = suf"

definition TrimSuffix :: "string \<Rightarrow> string \<Rightarrow> string" where
  "TrimSuffix s suf = (if HasSuffix s suf then take (length s - length suf) s else s)"

lemma decimal_value_append:
  "decimal_value n (s @ t) = (case decimal_value n s of None \<Rightarrow> None | Some m \<Rightarrow> decimal_value m t)"
  by (induction s arbitrary: n) auto

lemma length_decimal [simp]: "length (decimal k n) = k"
  by (induction k arbitrary: n) auto

lemma decimal_value_decimal: "n < 10 ^ k \<Longrightarrow> decimal_value 0 (decimal k n) = Some n"
proof (induction k arbitrary: n)
  case (Suc k)
  have d: "(of_char (char_of (48 + n mod 10 :: nat)) :: nat) = 48 + n mod 10"
    by (simp add: of_char_of)
  have "decimal_value 0 (decimal k (n div 10)) = Some (n div 10)"
    using Suc by (simp add: less_mult_imp_div_less mult.commute)
  then show ?case by (simp add: decimal_value_append is_digit_def d)
qed simp

lemma HasSuffix_append [simp]: "HasSuffix (s @ t) t" and TrimSuffix_append [simp]: "TrimSuffix (s @ t) t = s"
  by (simp_all add: HasSuffix_def TrimSuffix_def)

lemma ParseUint_decimal: "ParseUint (decimal 20 (unat b)) = Some b"
proof -
  have "unat b < 10 ^ 20" using unsigned_less [of b, where 'a = nat] by simp
  from decimal_value_decimal [OF this] show ?thesis
    using unsigned_less [of b, where 'a = nat] by (auto simp: ParseUint_def length_0_conv [symmetric] simp del: length_0_conv)
qed

text \<open>\<open>strconv.Itoa\<close> of a natural number.\<close>

function itoa :: "nat \<Rightarrow> string" where
  "itoa n = (if n < 10 then [char_of (48 + n)] else itoa (n div 10) @ [char_of (48 + n mod 10)])"
  by auto
termination by (relation "measure id") auto

text \<open>The characters of topic names, group ids and member ids: \<open>[a-zA-Z0-9._-]\<close>.\<close>

definition char_between :: "char \<Rightarrow> char \<Rightarrow> char \<Rightarrow> bool" where
  "char_between lo hi c \<longleftrightarrow> (of_char lo :: nat) \<le> of_char c \<and> (of_char c :: nat) \<le> of_char hi"

definition topicChar :: "char \<Rightarrow> bool" where
  "topicChar c \<longleftrightarrow> char_between CHR ''a'' CHR ''z'' c \<or> char_between CHR ''A'' CHR ''Z'' c \<or> char_between CHR ''0'' CHR ''9'' c \<or>
     c = CHR ''.'' \<or> c = CHR ''_'' \<or> c = CHR ''-''"

end
