(* ===== verification/Segment.thy ===== *)
theory Segment
  imports Disk
begin

text \<open>
  One segment: a log file and its sparse index
  (src/internal/broker/storage/segment.go). The segment record holds what the
  process keeps in memory; the file contents are in the directory.
\<close>

section \<open>State\<close>

record indexEntry =
  relOffset :: u32
  position :: u32

definition indexEntrySize :: nat where
  "indexEntrySize = 8"

record segment =
  baseOffset :: u64
  segSize :: nat
  entries :: "indexEntry list"
  maxTs :: i64
  indexInterval :: int
  bytesSinceIndex :: nat

record recordPos =
  rp_offset :: u64
  rp_pos :: nat
  rp_size :: nat

definition segmentLogName :: "u64 \<Rightarrow> string" where
  "segmentLogName base = decimal 20 (unat base) @ ''.log''"

definition segmentIndexName :: "u64 \<Rightarrow> string" where
  "segmentIndexName base = decimal 20 (unat base) @ ''.index''"

section \<open>The binary search of the standard library\<close>

text \<open>\<open>sort.Search\<close>: the smallest index from which \<open>f\<close> holds, by bisection.\<close>

function search_from :: "(nat \<Rightarrow> bool) \<Rightarrow> nat \<Rightarrow> nat \<Rightarrow> nat" where
  "search_from f i j =
     (if i < j then
        let h = (i + j) div 2 in
        if f h then search_from f i h else search_from f (h + 1) j
      else i)"
  by pat_completeness auto
termination
  by (relation "measure (\<lambda>(f, i, j). j - i)") auto

declare search_from.simps [simp del]

definition sort_Search :: "nat \<Rightarrow> (nat \<Rightarrow> bool) \<Rightarrow> nat" where
  "sort_Search n f = search_from f 0 n"

section \<open>Opening and the index file\<close>

function parseEntries :: "bytes \<Rightarrow> indexEntry list" where
  "parseEntries data =
     (if length data < indexEntrySize then []
      else \<lparr>relOffset = Uint32 (go_slice data 0 4), position = Uint32 (go_slice data 4 8)\<rparr>
        # parseEntries (drop indexEntrySize data))"
  by pat_completeness auto
termination
  by (relation "measure length") (auto simp: indexEntrySize_def)

declare parseEntries.simps [simp del]

fun validateFrom :: "runtime \<Rightarrow> segment \<Rightarrow> int \<Rightarrow> indexEntry list \<Rightarrow> (disk, unit) res" where
  "validateFrom rt s prevPos [] = returnR ()"
| "validateFrom rt s prevPos (e # es) =
     (let pos = unat (position e) in
      if int pos \<le> prevPos then failR ErrIndexInvalid
      else if segSize s < pos + 12 then failR ErrIndexInvalid
      else bindR (ReadAt rt (segmentLogName (baseOffset s)) 12 pos) (\<lambda>head.
        if Uint64 (go_slice head 4 12) \<noteq> baseOffset s + ucast (relOffset e) then failR ErrIndexInvalid
        else validateFrom rt s (int pos) es))"

definition validateEntries :: "runtime \<Rightarrow> segment \<Rightarrow> indexEntry list \<Rightarrow> (disk, unit) res" where
  "validateEntries rt s es = validateFrom rt s (- 1) es"

definition loadIndex :: "runtime \<Rightarrow> segment \<Rightarrow> (disk, indexEntry list) res" where
  "loadIndex rt s =
     bindR (Seek rt (segmentIndexName (baseOffset s))) (\<lambda>_.
     bindR (ReadAll rt (segmentIndexName (baseOffset s))) (\<lambda>data.
       if length data mod indexEntrySize \<noteq> 0 then failR ErrIndexInvalid
       else let es = parseEntries data in
         if \<not> sorted (map relOffset es) then failR ErrIndexInvalid
         else bindR (validateEntries rt s es) (\<lambda>_. returnR es)))"

definition openSegment :: "runtime \<Rightarrow> u64 \<Rightarrow> int \<Rightarrow> (disk, segment) res" where
  "openSegment rt base interval =
     bindR (OpenFile rt (segmentLogName base)) (\<lambda>_ d.
       case OpenFile rt (segmentIndexName base) d of
         (Inl e, d) \<Rightarrow> (Inl e, snd (CloseFile rt (segmentLogName base) d))
       | (Inr _, d) \<Rightarrow>
           (case FileSize rt (segmentLogName base) d of
              (Inl e, d) \<Rightarrow>
                (Inl e, snd (CloseFile rt (segmentIndexName base) (snd (CloseFile rt (segmentLogName base) d))))
            | (Inr sz, d) \<Rightarrow>
                (let s = \<lparr>baseOffset = base, segSize = sz, entries = [],
                          maxTs = (if 0 < sz then modTimeMs rt (ops d) else 0),
                          indexInterval = interval, bytesSinceIndex = 0\<rparr>
                 in case loadIndex rt s d of
                      (Inl _, d) \<Rightarrow> (Inr (s\<lparr>entries := []\<rparr>), d)
                    | (Inr es, d) \<Rightarrow> (Inr (s\<lparr>entries := es\<rparr>), d))))"

section \<open>Writing\<close>

definition encodeEntry :: "indexEntry \<Rightarrow> bytes" where
  "encodeEntry e = be_bytes 4 (unat (relOffset e)) @ be_bytes 4 (unat (position e))"

definition writeIndexEntry :: "runtime \<Rightarrow> indexEntry \<Rightarrow> (segment \<times> disk, unit) res" where
  "writeIndexEntry rt e = (\<lambda>(s, d).
     bindR (on_snd (WriteAt rt (segmentIndexName (baseOffset s)) (encodeEntry e)
              (length (entries s) * indexEntrySize))) (\<lambda>_.
       modifyR (\<lambda>(s, d). (s\<lparr>entries := entries s @ [e]\<rparr>, d))) (s, d))"

definition indexRecord :: "runtime \<Rightarrow> recordPos \<Rightarrow> (segment \<times> disk, unit) res" where
  "indexRecord rt rp = (\<lambda>(s, d).
     bindR
       (if indexInterval s \<le> int (bytesSinceIndex s) then
          bindR (writeIndexEntry rt \<lparr>relOffset = ucast (rp_offset rp - baseOffset s),
                    position = of_nat (segSize s + rp_pos rp)\<rparr>) (\<lambda>_.
            modifyR (\<lambda>(s, d). (s\<lparr>bytesSinceIndex := 0\<rparr>, d)))
        else returnR ())
       (\<lambda>_. modifyR (\<lambda>(s, d). (s\<lparr>bytesSinceIndex := bytesSinceIndex s + rp_size rp\<rparr>, d)))
       (s, d))"

definition seg_append :: "runtime \<Rightarrow> bytes \<Rightarrow> recordPos list \<Rightarrow> (segment \<times> disk, unit) res" where
  "seg_append rt data records = (\<lambda>(s, d).
     bindR (on_snd (WriteAt rt (segmentLogName (baseOffset s)) data (segSize s))) (\<lambda>_.
     bindR (forR records (indexRecord rt)) (\<lambda>_.
       modifyR (\<lambda>(s, d). (s\<lparr>segSize := segSize s + length data\<rparr>, d)))) (s, d))"

section \<open>Lookup, truncation, sync and close\<close>

definition lookup :: "segment \<Rightarrow> u32 \<Rightarrow> nat" where
  "lookup s rel =
     (let i = sort_Search (length (entries s)) (\<lambda>i. relOffset (entries s ! i) > rel) in
      if i = 0 then 0 else unat (position (entries s ! (i - 1))))"

definition rewriteIndex :: "runtime \<Rightarrow> segment \<Rightarrow> (disk, unit) res" where
  "rewriteIndex rt s =
     bindR (Truncate rt (segmentIndexName (baseOffset s)) 0) (\<lambda>_.
       WriteAt rt (segmentIndexName (baseOffset s)) (concat (map encodeEntry (entries s))) 0)"

definition seg_truncate :: "runtime \<Rightarrow> nat \<Rightarrow> (segment \<times> disk, unit) res" where
  "seg_truncate rt n = (\<lambda>(s, d).
     bindR (on_snd (Truncate rt (segmentLogName (baseOffset s)) n)) (\<lambda>_ (s, d).
       let s' = s\<lparr>segSize := n, entries := filter (\<lambda>e. unat (position e) < n) (entries s)\<rparr>
       in on_snd (rewriteIndex rt s') (s', d)) (s, d))"

definition addIndexEntry :: "indexEntry \<Rightarrow> segment \<Rightarrow> segment" where
  "addIndexEntry e s = s\<lparr>entries := entries s @ [e]\<rparr>"

definition seg_sync :: "runtime \<Rightarrow> segment \<Rightarrow> (disk, unit) res" where
  "seg_sync rt s =
     bindR (Sync rt (segmentLogName (baseOffset s))) (\<lambda>_. Sync rt (segmentIndexName (baseOffset s)))"

definition seg_close :: "runtime \<Rightarrow> segment \<Rightarrow> (disk, unit) res" where
  "seg_close rt s d =
     (case CloseFile rt (segmentLogName (baseOffset s)) d of (logErr, d) \<Rightarrow>
      case CloseFile rt (segmentIndexName (baseOffset s)) d of (indexErr, d) \<Rightarrow>
        (case logErr of Inl e \<Rightarrow> (Inl e, d) | Inr _ \<Rightarrow> (indexErr, d)))"

section \<open>Laws of the search, the names and the index file\<close>

lemma search_from_least:
  "(\<And>a b. a \<le> b \<Longrightarrow> b < n \<Longrightarrow> f a \<Longrightarrow> f b) \<Longrightarrow> i \<le> j \<Longrightarrow> j \<le> n \<Longrightarrow>
   (\<And>k. k < i \<Longrightarrow> \<not> f k) \<Longrightarrow> (\<And>k. j \<le> k \<Longrightarrow> k < n \<Longrightarrow> f k) \<Longrightarrow>
   search_from f i j \<le> n \<and> (\<forall>k < n. f k \<longleftrightarrow> search_from f i j \<le> k)"
proof (induction f i j rule: search_from.induct)
  case (1 f i j)
  let ?h = "(i + j) div 2"
  show ?case
  proof (cases "i < j")
    case True
    then have h: "i \<le> ?h" "?h < j" by auto
    show ?thesis
    proof (cases "f ?h")
      case t: True
      have "search_from f i j = search_from f i ?h"
        using True t by (subst search_from.simps) (simp add: Let_def)
      moreover have "f k" if "?h \<le> k" "k < n" for k
        using "1.prems"(1) [of ?h k] that t by blast
      ultimately show ?thesis
        using "1.IH"(1) [OF True refl t "1.prems"(1)] "1.prems"(3,4) h by (simp only:) simp
    next
      case f: False
      have "\<not> f k" if "k < ?h + 1" for k
        using "1.prems"(1) [of k ?h] that h "1.prems"(3) f by auto
      moreover have "search_from f i j = search_from f (?h + 1) j"
        using True f by (subst search_from.simps) (simp add: Let_def)
      ultimately show ?thesis
        using "1.IH"(2) [OF True refl f "1.prems"(1)] "1.prems"(3,5) h by (simp only:) simp
    qed
  next
    case False
    then have "search_from f i j = i" by (subst search_from.simps) simp
    with False "1.prems"(2-5) show ?thesis by (auto simp: not_less) (meson not_le)
  qed
qed

lemma sort_Search_iff:
  assumes "\<And>a b. a \<le> b \<Longrightarrow> b < n \<Longrightarrow> f a \<Longrightarrow> f b"
  shows "sort_Search n f \<le> n" and "k < n \<Longrightarrow> f k \<longleftrightarrow> sort_Search n f \<le> k"
  using search_from_least [of n f 0 n] assms by (auto simp: sort_Search_def)

lemma decimal_inj: "decimal 20 (unat (a :: u64)) = decimal 20 (unat b) \<longleftrightarrow> a = b"
  by (metis ParseUint_decimal option.inject)

lemma segment_names [simp]:
  "segmentLogName a = segmentLogName b \<longleftrightarrow> a = b"
  "segmentIndexName a = segmentIndexName b \<longleftrightarrow> a = b"
  "segmentLogName a \<noteq> segmentIndexName b" "segmentIndexName a \<noteq> segmentLogName b"
proof -
  have "last (segmentLogName a) \<noteq> last (segmentIndexName b)" for a b
    by (simp add: segmentLogName_def segmentIndexName_def)
  then show "segmentLogName a \<noteq> segmentIndexName b" "segmentIndexName a \<noteq> segmentLogName b" by metis+
qed (simp_all add: segmentLogName_def segmentIndexName_def decimal_inj)

lemma length_encodeEntry [simp]: "length (encodeEntry e) = 8"
  by (simp add: encodeEntry_def)

lemma length_encodeEntries: "length (concat (map encodeEntry es)) = 8 * length es"
  by (induction es) auto

lemma parseEntries_encode: "parseEntries (concat (map encodeEntry es)) = es"
proof (induction es)
  case Nil
  then show ?case by (simp add: parseEntries.simps indexEntrySize_def)
next
  case (Cons e es)
  have "go_slice (encodeEntry e @ t) 0 4 = be_bytes 4 (unat (relOffset e))"
    "go_slice (encodeEntry e @ t) 4 8 = be_bytes 4 (unat (position e))" for t
    by (simp_all add: encodeEntry_def go_slice_def)
  with Cons show ?case
    by (subst parseEntries.simps) (simp add: indexEntrySize_def Uint32_be_bytes [of _ "[]", simplified])
qed

section \<open>The invariant of a segment\<close>

text \<open>
  The visible part of the log file, its first \<open>segSize\<close> bytes, is the encoding of
  the segment's records \<open>rs\<close>. The records have increasing offsets from the base
  offset on. The index holds entries of some of the records, in their order.
\<close>

abbreviation roff :: "Record \<Rightarrow> nat" where
  "roff r \<equiv> unat (Offset r)"

definition entry_of :: "u64 \<Rightarrow> Record \<times> nat \<times> nat \<Rightarrow> indexEntry" where
  "entry_of base = (\<lambda>(r, p, n). \<lparr>relOffset = ucast (Offset r - base), position = of_nat p\<rparr>)"

definition increasing :: "Record list \<Rightarrow> bool" where
  "increasing rs \<longleftrightarrow> sorted_wrt (\<lambda>a b. roff a < roff b) rs"

definition segment_records :: "u64 \<Rightarrow> Record list \<Rightarrow> bool" where
  "segment_records base rs \<longleftrightarrow> list_all encodable rs \<and> increasing rs \<and>
     (\<forall>r \<in> set rs. unat base \<le> roff r \<and> roff r - unat base < 2 ^ 32) \<and> length (enc_all rs) < 2 ^ 32"

definition index_of :: "u64 \<Rightarrow> Record list \<Rightarrow> indexEntry list \<Rightarrow> bool" where
  "index_of base rs es \<longleftrightarrow> subseq es (map (entry_of base) (layout 0 rs))"

definition seg_inv :: "disk \<Rightarrow> segment \<Rightarrow> Record list \<Rightarrow> bool" where
  "seg_inv d s rs \<longleftrightarrow>
     exists_file d (segmentLogName (baseOffset s)) \<and> exists_file d (segmentIndexName (baseOffset s)) \<and>
     segSize s = length (enc_all rs) \<and>
     take (length (enc_all rs)) (content d (segmentLogName (baseOffset s))) = enc_all rs \<and>
     segment_records (baseOffset s) rs \<and> index_of (baseOffset s) rs (entries s)"

lemma seg_invD:
  assumes "seg_inv d s rs"
  shows "exists_file d (segmentLogName (baseOffset s))" "exists_file d (segmentIndexName (baseOffset s))"
    "segSize s = length (enc_all rs)"
    "take (length (enc_all rs)) (content d (segmentLogName (baseOffset s))) = enc_all rs"
    "length (enc_all rs) \<le> length (content d (segmentLogName (baseOffset s)))"
    "segment_records (baseOffset s) rs" "index_of (baseOffset s) rs (entries s)"
proof -
  show "take (length (enc_all rs)) (content d (segmentLogName (baseOffset s))) = enc_all rs"
    using assms by (simp add: seg_inv_def)
  then show "length (enc_all rs) \<le> length (content d (segmentLogName (baseOffset s)))"
    by (metis length_take min.cobounded1)
qed (use assms in \<open>simp_all add: seg_inv_def\<close>)

lemma enc_all_take_drop: "enc_all rs = enc_all (take k rs) @ enc_all (drop k rs)"
  by (metis append_take_drop_id enc_all_simps(3))

lemma take_enc_all: "take (length (enc_all (take k rs))) (enc_all rs) = enc_all (take k rs)"
  by (subst (2) enc_all_take_drop [of _ k]) simp

lemma increasing_append:
  "increasing (rs @ ss) \<longleftrightarrow> increasing rs \<and> increasing ss \<and> (\<forall>r \<in> set rs. \<forall>s \<in> set ss. roff r < roff s)"
  by (simp add: increasing_def sorted_wrt_append)

lemma increasing_nth: "increasing rs \<Longrightarrow> i < j \<Longrightarrow> j < length rs \<Longrightarrow> roff (rs ! i) < roff (rs ! j)"
  using sorted_wrt_nth_less [of "\<lambda>a b. roff a < roff b" rs i j] by (simp add: increasing_def)

lemma length_layout [simp]: "length (layout p rs) = length rs"
  by (induction rs arbitrary: p) auto

lemma nth_layout:
  "i < length rs \<Longrightarrow> layout p rs ! i = (rs ! i, p + length (enc_all (take i rs)), length (enc (rs ! i)))"
proof (induction rs arbitrary: p i)
  case (Cons r rs)
  then show ?case by (cases i) auto
qed simp

lemma enc_not_Nil [simp]: "enc r \<noteq> []"
  using length_enc_ge [of r] by auto

lemma length_enc_all_take: "length (enc_all (take i rs)) \<le> length (enc_all rs)"
  by (metis append_take_drop_id enc_all_simps(3) le_add1 length_append)

lemma length_enc_all_mono: "i \<le> j \<Longrightarrow> length (enc_all (take i rs)) \<le> length (enc_all (take j rs))"
  by (metis length_enc_all_take min.absorb1 take_take)

lemma length_enc_all_less:
  assumes "i < j" "i < length rs"
  shows "length (enc_all (take i rs)) < length (enc_all (take j rs))"
proof -
  have "length (enc_all (take i rs)) < length (enc_all (take (Suc i) rs))"
    using assms(2) by (simp add: take_Suc_conv_app_nth)
  also have "\<dots> \<le> length (enc_all (take j rs))" using assms by (intro length_enc_all_mono) simp
  finally show ?thesis .
qed

text \<open>Offsets and positions fit the 32 bits of an index entry.\<close>

lemma ucast_diff32:
  assumes "unat (base :: u64) \<le> unat a" and "unat a - unat base < 2 ^ 32"
  shows "unat (ucast (a - base) :: u32) = unat a - unat base"
proof -
  have "unat (a - base) = unat a - unat base"
    using assms(1) by (simp add: unat_sub word_le_nat_alt)
  then show ?thesis using assms(2) by (simp add: unsigned_ucast_eq take_bit_nat_eq_self)
qed

lemma entry_of_nth:
  assumes "segment_records base rs" and "i < length rs"
  shows "unat (relOffset (entry_of base (layout 0 rs ! i))) = roff (rs ! i) - unat base"
    and "unat (position (entry_of base (layout 0 rs ! i))) = length (enc_all (take i rs))"
proof -
  have "rs ! i \<in> set rs" using assms(2) by simp
  then show "unat (relOffset (entry_of base (layout 0 rs ! i))) = roff (rs ! i) - unat base"
    using assms by (simp add: nth_layout entry_of_def ucast_diff32 segment_records_def)
  have "length (enc_all (take i rs)) < 2 ^ 32"
    using assms(1) length_enc_all_take [of i rs] by (simp add: segment_records_def)
  then show "unat (position (entry_of base (layout 0 rs ! i))) = length (enc_all (take i rs))"
    using assms(2) by (simp add: nth_layout entry_of_def unat_of_nat)
qed

section \<open>Lookup\<close>

lemma subseq_set: "subseq xs ys \<Longrightarrow> set xs \<subseteq> set ys"
  by (induction rule: list_emb.induct) auto

lemma subseq_sorted_wrt: "subseq xs ys \<Longrightarrow> sorted_wrt P ys \<Longrightarrow> sorted_wrt P xs"
proof (induction rule: list_emb.induct)
  case (list_emb_Cons2 x y xs ys)
  then show ?case using subseq_set [of xs ys] by auto
qed auto

lemma index_sorted:
  assumes "segment_records base rs" and "index_of base rs es"
  shows "sorted_wrt (\<lambda>a b. relOffset a < relOffset b) es"
proof (rule subseq_sorted_wrt)
  show "subseq es (map (entry_of base) (layout 0 rs))" using assms(2) by (simp add: index_of_def)
  have "relOffset (entry_of base (layout 0 rs ! i)) < relOffset (entry_of base (layout 0 rs ! j))"
    if "i < j" "j < length rs" for i j
  proof -
    have inc: "roff (rs ! i) < roff (rs ! j)"
      using assms(1) that by (auto simp: segment_records_def intro: increasing_nth)
    moreover have "unat base \<le> roff (rs ! i)"
      using assms(1) that by (auto simp: segment_records_def)
    ultimately show ?thesis
      using entry_of_nth(1) [OF assms(1)] that by (simp add: word_less_nat_alt)
  qed
  then show "sorted_wrt (\<lambda>a b. relOffset a < relOffset b) (map (entry_of base) (layout 0 rs))"
    by (simp add: sorted_wrt_iff_nth_less)
qed

text \<open>
  The position a lookup returns is the position of some record, and every record
  before it is below the target.
\<close>

lemma lookup_correct:
  assumes rs: "segment_records (baseOffset s) rs" and ix: "index_of (baseOffset s) rs (entries s)"
  obtains i where "i \<le> length rs" and "lookup s rel = length (enc_all (take i rs))"
    and "\<And>j. j < i \<Longrightarrow> roff (rs ! j) < unat (baseOffset s) + unat rel"
proof -
  let ?es = "entries s" and ?f = "\<lambda>i. relOffset (entries s ! i) > rel"
  let ?k = "sort_Search (length ?es) ?f"
  have sorted: "relOffset (?es ! a) \<le> relOffset (?es ! b)" if "a \<le> b" "b < length ?es" for a b
    using index_sorted [OF rs ix] that
    by (cases "a = b") (auto simp: sorted_wrt_iff_nth_less intro: less_imp_le)
  have mono: "?f b" if "a \<le> b" "b < length ?es" "?f a" for a b
    using sorted [OF that(1,2)] that(3) by (rule less_le_trans [rotated])
  have k: "?k \<le> length ?es" "j < length ?es \<Longrightarrow> ?f j \<longleftrightarrow> ?k \<le> j" for j
    using sort_Search_iff(1) [of "length ?es" ?f] sort_Search_iff(2) [of "length ?es" ?f j] mono by blast+
  show thesis
  proof (cases "?k = 0")
    case True
    then show thesis using that [of 0] by (simp add: lookup_def)
  next
    case False
    with k(1) have len: "?k - 1 < length ?es" by simp
    moreover have "\<not> ?k \<le> ?k - 1" using False by simp
    ultimately have le: "relOffset (?es ! (?k - 1)) \<le> rel"
      using k(2) [of "?k - 1"] by (meson not_less)
    have "?es ! (?k - 1) \<in> set (map (entry_of (baseOffset s)) (layout 0 rs))"
      using subseq_set [OF ix [unfolded index_of_def]] len by force
    then obtain i where i: "i < length rs" "?es ! (?k - 1) = entry_of (baseOffset s) (layout 0 rs ! i)"
      by (auto simp: in_set_conv_nth)
    have base: "unat (baseOffset s) \<le> roff (rs ! i)"
      using rs i(1) by (auto simp: segment_records_def)
    have "roff (rs ! i) \<le> unat (baseOffset s) + unat rel"
      using le i base entry_of_nth(1) [OF rs i(1)] by (simp add: word_le_nat_alt)
    then have "roff (rs ! j) < unat (baseOffset s) + unat rel" if "j < i" for j
      using increasing_nth [of rs j i] rs that i(1) by (simp add: segment_records_def)
    moreover have "lookup s rel = length (enc_all (take i rs))"
      using False i entry_of_nth(2) [OF rs i(1)] by (simp add: lookup_def Let_def)
    ultimately show thesis using that [of i] i(1) by simp
  qed
qed

section \<open>Append\<close>

text \<open>
  The positions the callers compute for a batch, and what an append leaves alone.
\<close>

definition batch_positions :: "Record list \<Rightarrow> recordPos list" where
  "batch_positions rs = map (\<lambda>(r, p, n). \<lparr>rp_offset = Offset r, rp_pos = p, rp_size = n\<rparr>) (layout 0 rs)"

definition same_files_but :: "string set \<Rightarrow> disk \<Rightarrow> disk \<Rightarrow> bool" where
  "same_files_but N d d' \<longleftrightarrow>
     (\<forall>n. n \<notin> N \<longrightarrow> content d' n = content d n \<and> exists_file d' n = exists_file d n)"

lemma same_files_but_refl [simp]: "same_files_but N d d"
  by (simp add: same_files_but_def)

lemma same_files_but_trans: "same_files_but N d d' \<Longrightarrow> same_files_but N d' d'' \<Longrightarrow> same_files_but N d d''"
  by (simp add: same_files_but_def)

lemma same_files_but_mono: "same_files_but N d d' \<Longrightarrow> N \<subseteq> M \<Longrightarrow> same_files_but M d d'"
  by (auto simp: same_files_but_def)

abbreviation seg_files :: "segment \<Rightarrow> string set" where
  "seg_files s \<equiv> {segmentLogName (baseOffset s), segmentIndexName (baseOffset s)}"

definition index_file_ok :: "disk \<Rightarrow> segment \<Rightarrow> bool" where
  "index_file_ok d s \<longleftrightarrow> content d (segmentIndexName (baseOffset s)) = concat (map encodeEntry (entries s))"

definition pos_entry :: "segment \<Rightarrow> recordPos \<Rightarrow> indexEntry" where
  "pos_entry s rp = \<lparr>relOffset = ucast (rp_offset rp - baseOffset s), position = of_nat (segSize s + rp_pos rp)\<rparr>"

lemma writeIndexEntry_ok:
  assumes "no_faults rt" and "index_file_ok d s"
  shows "writeIndexEntry rt e (s, d) = (Inr (), s\<lparr>entries := entries s @ [e]\<rparr>,
     put (segmentIndexName (baseOffset s)) (concat (map encodeEntry (entries s @ [e]))) (tick d))"
  using assms by (simp add: writeIndexEntry_def bindR_def on_snd_def io_no_faults index_file_ok_def
      overwrite_end length_encodeEntries indexEntrySize_def mult.commute)

lemma forR_indexRecord:
  assumes "no_faults rt" and "index_file_ok d s" and "exists_file d (segmentIndexName (baseOffset s))"
  shows "\<exists>es b d'. forR rps (indexRecord rt) (s, d) =
      (Inr (), s\<lparr>entries := entries s @ es, bytesSinceIndex := b\<rparr>, d') \<and>
    subseq es (map (pos_entry s) rps) \<and> same_files_but {segmentIndexName (baseOffset s)} d d' \<and>
    index_file_ok d' (s\<lparr>entries := entries s @ es, bytesSinceIndex := b\<rparr>) \<and>
    exists_file d' (segmentIndexName (baseOffset s))"
  using assms(2,3)
proof (induction rps arbitrary: s d)
  case Nil
  then show ?case
    by (intro exI [of _ "[]"] exI [of _ "bytesSinceIndex s"] exI [of _ d]) simp
next
  case (Cons rp rps)
  define es1 where "es1 = (if indexInterval s \<le> int (bytesSinceIndex s) then [pos_entry s rp] else [])"
  define b1 where "b1 = (if indexInterval s \<le> int (bytesSinceIndex s) then 0 else bytesSinceIndex s) + rp_size rp"
  define s1 where "s1 = s\<lparr>entries := entries s @ es1, bytesSinceIndex := b1\<rparr>"
  have "\<exists>d1. indexRecord rt rp (s, d) = (Inr (), s1, d1) \<and> same_files_but {segmentIndexName (baseOffset s)} d d1 \<and>
      index_file_ok d1 s1 \<and> exists_file d1 (segmentIndexName (baseOffset s))"
    using assms(1) Cons.prems
    by (cases "indexInterval s \<le> int (bytesSinceIndex s)")
      (auto simp: indexRecord_def bindR_def writeIndexEntry_ok s1_def es1_def b1_def pos_entry_def
        same_files_but_def index_file_ok_def)
  then obtain d1 where step: "indexRecord rt rp (s, d) = (Inr (), s1, d1)"
    and d1: "same_files_but {segmentIndexName (baseOffset s)} d d1" "index_file_ok d1 s1"
      "exists_file d1 (segmentIndexName (baseOffset s))" by blast
  have s1: "baseOffset s1 = baseOffset s" "segSize s1 = segSize s" "entries s1 = entries s @ es1"
    by (simp_all add: s1_def)
  obtain es b d' where r: "forR rps (indexRecord rt) (s1, d1) =
      (Inr (), s1\<lparr>entries := entries s1 @ es, bytesSinceIndex := b\<rparr>, d')"
    and sub: "subseq es (map (pos_entry s1) rps)" and d': "same_files_but {segmentIndexName (baseOffset s1)} d1 d'"
    and ok: "index_file_ok d' (s1\<lparr>entries := entries s1 @ es, bytesSinceIndex := b\<rparr>)"
      "exists_file d' (segmentIndexName (baseOffset s1))"
    using Cons.IH [of d1 s1] d1(2,3) by (auto simp: s1)
  have eq: "s1\<lparr>entries := entries s1 @ es, bytesSinceIndex := b\<rparr> = s\<lparr>entries := entries s @ es1 @ es, bytesSinceIndex := b\<rparr>"
    by (simp add: s1_def)
  have "subseq es1 (map (pos_entry s) [rp])" by (simp add: es1_def)
  moreover have "subseq es (map (pos_entry s) rps)" using sub by (simp add: pos_entry_def [abs_def] s1)
  ultimately have "subseq (es1 @ es) (map (pos_entry s) (rp # rps))"
    using list_emb_append_mono [of "(=)" es1 "[pos_entry s rp]" es "map (pos_entry s) rps"] by simp
  moreover have "forR (rp # rps) (indexRecord rt) (s, d) =
      (Inr (), s\<lparr>entries := entries s @ es1 @ es, bytesSinceIndex := b\<rparr>, d')"
    by (simp add: bindR_def step r eq del: bindR_simps)
  moreover have "same_files_but {segmentIndexName (baseOffset s)} d d'"
    using same_files_but_trans [OF d1(1)] d' s1(1) by simp
  ultimately show ?case
    using ok [unfolded eq s1(1)] by blast
qed

lemma layout_shift: "layout (q + p) rs = map (\<lambda>(r, i, n). (r, q + i, n)) (layout p rs)"
  by (induction rs arbitrary: p) (auto simp: add.assoc)

lemma pos_entry_batch:
  "map (pos_entry s) (batch_positions ns) = map (entry_of (baseOffset s)) (layout (segSize s) ns)"
  using layout_shift [of "segSize s" 0 ns]
  by (auto simp: batch_positions_def pos_entry_def entry_of_def)

lemma index_of_append:
  assumes "index_of base rs es" and "subseq fs (map (entry_of base) (layout (length (enc_all rs)) ns))"
  shows "index_of base (rs @ ns) (es @ fs)"
  using assms by (simp add: index_of_def layout_append list_emb_append_mono)

lemma segment_records_append_left: "segment_records base (rs @ ns) \<Longrightarrow> segment_records base rs"
  by (auto simp: segment_records_def increasing_append)

lemma segment_records_take: "segment_records base rs \<Longrightarrow> segment_records base (take k rs)"
  using segment_records_append_left [of base "take k rs" "drop k rs"] by simp

lemma seg_append_ok:
  assumes nf: "no_faults rt" and inv: "seg_inv d s rs" and ix: "index_file_ok d s"
    and ns: "segment_records (baseOffset s) (rs @ ns)"
  obtains s' d' where "seg_append rt (enc_all ns) (batch_positions ns) (s, d) = (Inr (), s', d')"
    and "seg_inv d' s' (rs @ ns)" and "index_file_ok d' s'" and "same_files_but (seg_files s) d d'"
    and "baseOffset s' = baseOffset s" and "maxTs s' = maxTs s" and "indexInterval s' = indexInterval s"
proof -
  let ?log = "segmentLogName (baseOffset s)" and ?ix = "segmentIndexName (baseOffset s)"
  define d1 where "d1 = put ?log (overwrite (content d ?log) (segSize s) (enc_all ns)) (tick d)"
  have w: "WriteAt rt ?log (enc_all ns) (segSize s) d = (Inr (), d1)"
    using nf by (simp add: io_no_faults d1_def)
  have d1: "index_file_ok d1 s" "exists_file d1 ?ix" "exists_file d1 ?log" "same_files_but (seg_files s) d d1"
    using ix inv by (auto simp: d1_def index_file_ok_def seg_inv_def same_files_but_def)
  have vis: "take (segSize s + length (enc_all ns)) (content d1 ?log) = enc_all (rs @ ns)"
    using overwrite_take [OF seg_invD(5) [OF inv], of "enc_all ns"] seg_invD(3,4) [OF inv]
    by (simp add: d1_def)
  obtain es b d2 where f: "forR (batch_positions ns) (indexRecord rt) (s, d1) =
      (Inr (), s\<lparr>entries := entries s @ es, bytesSinceIndex := b\<rparr>, d2)"
    and es: "subseq es (map (pos_entry s) (batch_positions ns))"
    and d2: "same_files_but {?ix} d1 d2" "index_file_ok d2 (s\<lparr>entries := entries s @ es, bytesSinceIndex := b\<rparr>)"
      "exists_file d2 ?ix"
    using forR_indexRecord [OF nf d1(1,2)] by blast
  define s' where "s' = s\<lparr>entries := entries s @ es, bytesSinceIndex := b, segSize := segSize s + length (enc_all ns)\<rparr>"
  have "seg_append rt (enc_all ns) (batch_positions ns) (s, d) = (Inr (), s', d2)"
    by (simp add: seg_append_def bindR_def on_snd_def w f s'_def del: bindR_simps)
  moreover have "content d2 ?log = content d1 ?log" "exists_file d2 ?log"
    using d2(1) d1(3) by (simp_all add: same_files_but_def)
  then have "seg_inv d2 s' (rs @ ns)"
    using inv d2(3) vis ns index_of_append [of "baseOffset s" rs "entries s" es ns] es
    by (simp add: seg_inv_def s'_def pos_entry_batch)
  moreover have "same_files_but (seg_files s) d d2"
    using same_files_but_trans [OF d1(4)] same_files_but_mono [OF d2(1)] by simp
  moreover have "index_file_ok d2 s'" using d2(2) by (simp add: index_file_ok_def s'_def)
  ultimately show thesis using that [of s' d2] by (simp add: s'_def)
qed

section \<open>Truncation\<close>

lemma layout_take: "layout p (take k rs) = take k (layout p rs)"
proof (induction rs arbitrary: p k)
  case (Cons r rs)
  then show ?case by (cases k) auto
qed simp

lemma filter_take_nth:
  assumes "\<And>i. i < length xs \<Longrightarrow> P (xs ! i) \<longleftrightarrow> i < k"
  shows "filter P xs = take k xs"
  using assms
proof (induction xs arbitrary: k)
  case (Cons x xs)
  have P: "P x \<longleftrightarrow> 0 < k" using Cons.prems [of 0] by simp
  have "P (xs ! i) \<longleftrightarrow> i < k - 1" if "i < length xs" for i
    using Cons.prems [of "Suc i"] that by auto
  from Cons.IH [OF this] show ?case using P by (cases k) auto
qed simp

lemma index_of_truncate:
  assumes rs: "segment_records base rs" and ix: "index_of base rs es" and k: "k \<le> length rs"
  shows "index_of base (take k rs) (filter (\<lambda>e. unat (position e) < length (enc_all (take k rs))) es)"
proof -
  let ?P = "\<lambda>e. unat (position e) < length (enc_all (take k rs))" and ?all = "map (entry_of base) (layout 0 rs)"
  have "?P (?all ! i) \<longleftrightarrow> i < k" if "i < length ?all" for i
    using that entry_of_nth(2) [OF rs, of i] length_enc_all_less [of i k rs] length_enc_all_mono [of k i rs]
    by (cases "i < k") (auto simp: not_less)
  then have "filter ?P ?all = take k ?all" by (rule filter_take_nth)
  moreover have "subseq (filter ?P es) (filter ?P ?all)"
    using ix by (simp add: index_of_def subseq_filter)
  ultimately show ?thesis by (simp add: index_of_def layout_take take_map)
qed

lemma seg_truncate_ok:
  assumes nf: "no_faults rt" and inv: "seg_inv d s rs" and k: "k \<le> length rs"
  obtains s' d' where "seg_truncate rt (length (enc_all (take k rs))) (s, d) = (Inr (), s', d')"
    and "seg_inv d' s' (take k rs)" and "index_file_ok d' s'" and "same_files_but (seg_files s) d d'"
    and "baseOffset s' = baseOffset s" and "maxTs s' = maxTs s" and "indexInterval s' = indexInterval s"
proof -
  let ?log = "segmentLogName (baseOffset s)" and ?ix = "segmentIndexName (baseOffset s)"
  let ?n = "length (enc_all (take k rs))"
  define s' where "s' = s\<lparr>segSize := ?n, entries := filter (\<lambda>e. unat (position e) < ?n) (entries s)\<rparr>"
  have n: "?n \<le> length (enc_all rs)" "?n \<le> length (content d ?log)"
    using length_enc_all_take [of k rs] seg_invD(5) [OF inv] by simp_all
  have "take ?n (content d ?log) = take ?n (take (length (enc_all rs)) (content d ?log))" using n by simp
  then have vis: "take ?n (content d ?log) = enc_all (take k rs)"
    by (simp only: seg_invD(4) [OF inv] take_enc_all)
  define d' where "d' = put ?ix (concat (map encodeEntry (entries s'))) (tick (put ?ix [] (tick
      (put ?log (enc_all (take k rs)) (tick d)))))"
  have "seg_truncate rt ?n (s, d) = (Inr (), s', d')"
    using nf n vis by (simp add: seg_truncate_def bindR_def on_snd_def io_no_faults rewriteIndex_def
        s'_def d'_def Let_def del: bindR_simps)
  moreover have "seg_inv d' s' (take k rs)"
    using inv index_of_truncate [of "baseOffset s" rs "entries s" k] k
    by (simp add: seg_inv_def s'_def d'_def segment_records_take)
  ultimately show thesis
    using that [of s' d'] by (auto simp: s'_def d'_def index_file_ok_def same_files_but_def)
qed

section \<open>Opening\<close>

lemma rewriteIndex_ok:
  assumes "no_faults rt"
  shows "rewriteIndex rt s d = (Inr (), put (segmentIndexName (baseOffset s)) (concat (map encodeEntry (entries s)))
     (tick (put (segmentIndexName (baseOffset s)) [] (tick d))))"
  using assms by (simp add: rewriteIndex_def bindR_def io_no_faults del: bindR_simps)

text \<open>Opening creates missing files and otherwise changes nothing but the call count.\<close>

lemma ops_same [simp]: "\<exists>n. d = d\<lparr>ops := n\<rparr>"
  by (rule exI [of _ "ops d"]) simp

lemma put_tick: "put n b (tick d) = tick (put n b d)" and ops_put [simp]: "ops (put n b d) = ops d"
  and ops_tick: "ops (tick d) = ops d + 1"
  by (simp_all add: put_def tick_def)

lemma tick3: "tick (tick (tick d)) = d\<lparr>ops := ops d + 3\<rparr>"
  by (simp add: tick_def numeral_3_eq_3)

lemma validateFrom_state:
  assumes "no_faults rt"
  shows "\<exists>r n. validateFrom rt s p es d = (r, d\<lparr>ops := n\<rparr>)"
  using assms
proof (induction es arbitrary: p d)
  case Nil
  have "d = d\<lparr>ops := ops d\<rparr>" by simp
  then show ?case by (metis returnR_apply validateFrom.simps(1))
next
  case (Cons e es)
  show ?case
  proof (cases "int (unat (position e)) \<le> p \<or> segSize s < unat (position e) + 12")
    case True
    then show ?thesis by (auto simp: Let_def)
  next
    case False
    then show ?thesis using Cons.IH [of "int (unat (position e))" "tick d"] Cons.prems
      by (auto simp: Let_def bindR_def io_no_faults tick_def split: if_splits simp del: bindR_simps)
  qed
qed

lemma loadIndex_state:
  assumes "no_faults rt"
  shows "\<exists>r n. loadIndex rt s d = (r, d\<lparr>ops := n\<rparr>)"
proof -
  obtain r n where "validateFrom rt s (- 1) (parseEntries (content d (segmentIndexName (baseOffset s)))) (tick (tick d)) = (r, (tick (tick d))\<lparr>ops := n\<rparr>)"
    using validateFrom_state [OF assms] by blast
  then show ?thesis
    using assms by (cases r) (auto simp: loadIndex_def bindR_def io_no_faults validateEntries_def Let_def tick_def simp del: bindR_simps)
qed

definition opened :: "u64 \<Rightarrow> disk \<Rightarrow> disk" where
  "opened base d =
     (let d = (if exists_file d (segmentLogName base) then d else put (segmentLogName base) [] d)
      in if exists_file d (segmentIndexName base) then d else put (segmentIndexName base) [] d)"

lemma content_opened [simp]: "content (opened base d) n = content d n"
  by (auto simp: opened_def Let_def content_no_file)

lemma exists_file_opened [simp]:
  "exists_file (opened base d) n \<longleftrightarrow> exists_file d n \<or> n = segmentLogName base \<or> n = segmentIndexName base"
  by (auto simp: opened_def Let_def)

lemma openSegment_eq:
  assumes "no_faults rt"
  shows "openSegment rt base interval d =
    (let s = \<lparr>baseOffset = base, segSize = length (content d (segmentLogName base)), entries = [],
              maxTs = (if 0 < length (content d (segmentLogName base)) then modTimeMs rt (ops d + 3) else 0),
              indexInterval = interval, bytesSinceIndex = 0\<rparr>
     in case loadIndex rt s ((opened base d)\<lparr>ops := ops d + 3\<rparr>) of
          (Inl _, d) \<Rightarrow> (Inr s, d) | (Inr es, d) \<Rightarrow> (Inr (s\<lparr>entries := es\<rparr>), d))"
  using assms
  by (cases "exists_file d (segmentLogName base)"; cases "exists_file d (segmentIndexName base)")
    (simp_all add: openSegment_def bindR_def io_no_faults opened_def Let_def put_tick tick3 ops_tick
      content_no_file numeral_3_eq_3 del: bindR_simps cong: sum.case_cong)

lemma loadIndex_entries:
  assumes "no_faults rt" and "loadIndex rt s d = (Inr es, d')"
  shows "es = parseEntries (content d (segmentIndexName (baseOffset s)))"
  using assms
  by (auto simp: loadIndex_def bindR_def io_no_faults Let_def simp del: bindR_simps split: prod.splits sum.splits if_splits)

lemma openSegment_fields:
  assumes "no_faults rt"
  obtains es ts n where "openSegment rt base interval d =
     (Inr \<lparr>baseOffset = base, segSize = length (content d (segmentLogName base)), entries = es, maxTs = ts,
           indexInterval = interval, bytesSinceIndex = 0\<rparr>, (opened base d)\<lparr>ops := n\<rparr>)"
    and "content d (segmentLogName base) = [] \<longrightarrow> ts = 0"
    and "es = [] \<or> es = parseEntries (content d (segmentIndexName base))"
proof -
  let ?ts = "if 0 < length (content d (segmentLogName base)) then modTimeMs rt (ops d + 3) else 0"
  let ?s = "\<lparr>baseOffset = base, segSize = length (content d (segmentLogName base)), entries = [],
      maxTs = ?ts, indexInterval = interval, bytesSinceIndex = 0\<rparr>"
  let ?d = "(opened base d)\<lparr>ops := ops d + 3\<rparr>"
  obtain r n where l: "loadIndex rt ?s ?d = (r, ?d\<lparr>ops := n\<rparr>)"
    using loadIndex_state [OF assms] by blast
  show thesis
  proof (cases r)
    case (Inl e)
    then show thesis using that [of "[]" ?ts n] l by (simp add: openSegment_eq [OF assms] Let_def)
  next
    case (Inr es)
    moreover from this l have "es = parseEntries (content d (segmentIndexName base))"
      using loadIndex_entries [OF assms, of ?s ?d es] by simp
    ultimately show thesis using that [of es ?ts n] l by (simp add: openSegment_eq [OF assms] Let_def)
  qed
qed

text \<open>A new segment: no file of its name yet.\<close>

lemma segment_records_Nil [simp]: "segment_records base []"
  by (simp add: segment_records_def increasing_def)

lemma index_of_Nil [simp]: "index_of base rs []"
  by (simp add: index_of_def)

lemma openSegment_new:
  assumes "no_faults rt" and "\<not> exists_file d (segmentLogName base)" and "\<not> exists_file d (segmentIndexName base)"
  obtains s d' where "openSegment rt base interval d = (Inr s, d')" and "baseOffset s = base"
    and "indexInterval s = interval" and "seg_inv d' s []" and "index_file_ok d' s" and "maxTs s = 0"
    and "same_files_but (seg_files s) d d'" and "segSize s = 0"
proof -
  have c: "content d (segmentLogName base) = []" "content d (segmentIndexName base) = []"
    using assms(2,3) by (simp_all add: content_no_file)
  obtain es ts n where o: "openSegment rt base interval d =
     (Inr \<lparr>baseOffset = base, segSize = length (content d (segmentLogName base)), entries = es, maxTs = ts,
           indexInterval = interval, bytesSinceIndex = 0\<rparr>, (opened base d)\<lparr>ops := n\<rparr>)"
    and ts: "content d (segmentLogName base) = [] \<longrightarrow> ts = 0"
    and es: "es = [] \<or> es = parseEntries (content d (segmentIndexName base))"
    by (rule openSegment_fields [OF assms(1), where base = base and interval = interval and d = d])
  from es have "es = []" by (simp add: c parseEntries.simps indexEntrySize_def)
  with o ts c show thesis
    by (intro that [OF o]) (auto simp: seg_inv_def index_file_ok_def same_files_but_def)
qed

text \<open>An existing segment whose index file is right: the index is loaded as it is.\<close>

lemma drop_enc_all:
  assumes "take (length (enc_all rs)) f = enc_all rs" and "i < length rs"
  obtains t where "drop (length (enc_all (take i rs))) f = enc (rs ! i) @ t"
proof -
  obtain t where "f = enc_all rs @ t"
    using assms(1) by (metis append_take_drop_id)
  moreover have "enc_all rs = enc_all (take i rs) @ enc (rs ! i) @ enc_all (drop (Suc i) rs)"
    using assms(2) by (subst enc_all_take_drop [of _ i]) (simp add: Cons_nth_drop_Suc [symmetric])
  ultimately have "f = enc_all (take i rs) @ enc (rs ! i) @ enc_all (drop (Suc i) rs) @ t"
    by simp
  then have "drop (length (enc_all (take i rs))) f = enc (rs ! i) @ enc_all (drop (Suc i) rs) @ t"
    by simp
  then show thesis by (rule that)
qed

lemma unat_ucast_32_64: "unat (ucast (x :: u32) :: u64) = unat x"
  using unsigned_less [of x, where 'a = nat] by (simp add: unsigned_ucast_eq take_bit_nat_eq_self)

lemma rel_offset_back:
  assumes "unat (base :: u64) \<le> unat a" and "unat a - unat base < 2 ^ 32"
  shows "base + ucast (ucast (a - base) :: u32) = a"
proof -
  have "unat (ucast (ucast (a - base) :: u32) :: u64) = unat a - unat base"
    unfolding unat_ucast_32_64 by (rule ucast_diff32 [OF assms])
  moreover have "unat (a - base) = unat a - unat base"
    using assms(1) by (simp add: unat_sub word_le_nat_alt)
  ultimately have "ucast (ucast (a - base) :: u32) = a - base"
    by (simp only: word_unat_eq_iff)
  then show ?thesis by simp
qed

lemma enc_offset_field: "go_slice (take 12 (enc r @ t)) 4 12 = be_bytes 8 (roff r)"
  by (simp add: enc_def enc_body_def go_slice_def)

lemma validateFrom_ok:
  assumes nf: "no_faults rt" and rs: "segment_records (baseOffset s) rs"
    and c: "take (length (enc_all rs)) (content d (segmentLogName (baseOffset s))) = enc_all rs"
    and sz: "length (enc_all rs) \<le> segSize s" "length (enc_all rs) \<le> length (content d (segmentLogName (baseOffset s)))"
  shows "set es \<subseteq> set (map (entry_of (baseOffset s)) (layout 0 rs)) \<Longrightarrow>
     sorted_wrt (\<lambda>a b. unat (position a) < unat (position b)) es \<Longrightarrow>
     (\<forall>e \<in> set es. p < int (unat (position e))) \<Longrightarrow>
     \<exists>n. validateFrom rt s p es (d\<lparr>ops := m\<rparr>) = (Inr (), d\<lparr>ops := n\<rparr>)"
proof (induction es arbitrary: p m)
  case Nil
  then show ?case by auto
next
  case (Cons e es)
  then obtain i where i: "i < length rs" "e = entry_of (baseOffset s) (layout 0 rs ! i)"
    by (auto simp: in_set_conv_nth)
  have pos: "unat (position e) = length (enc_all (take i rs))" using entry_of_nth(2) [OF rs i(1)] i(2) by simp
  obtain t where t: "drop (length (enc_all (take i rs))) (content d (segmentLogName (baseOffset s))) = enc (rs ! i) @ t"
    using drop_enc_all [OF c i(1)] .
  have "length (enc_all (take (Suc i) rs)) \<le> length (enc_all rs)" by (rule length_enc_all_take)
  then have le: "unat (position e) + 12 \<le> length (enc_all rs)"
    using i(1) length_enc_ge [of "rs ! i"] by (simp add: take_Suc_conv_app_nth pos)
  have r: "unat (baseOffset s) \<le> roff (rs ! i)" "roff (rs ! i) - unat (baseOffset s) < 2 ^ 32"
    using rs i(1) by (auto simp: segment_records_def)
  have off: "Uint64 (go_slice (take 12 (enc (rs ! i) @ t)) 4 12) = baseOffset s + ucast (relOffset e)"
    unfolding enc_offset_field using rel_offset_back [OF r] i
    by (simp add: Uint64_be_bytes [of _ "[]", simplified] entry_of_def nth_layout)
  obtain n where "validateFrom rt s (int (unat (position e))) es (d\<lparr>ops := m + 1\<rparr>) = (Inr (), d\<lparr>ops := n\<rparr>)"
    using Cons.IH [of "int (unat (position e))" "m + 1"] Cons.prems(1,2)
    by (auto simp only: sorted_wrt.simps of_nat_less_iff list.set insert_subset)
  then show ?case
    using bspec [OF Cons.prems(3), of e, unfolded pos] le sz nf off t
    by (auto simp: Let_def bindR_def io_no_faults tick_def pos simp del: bindR_simps)
qed

lemma index_positions_sorted:
  assumes "segment_records base rs" and "index_of base rs es"
  shows "sorted_wrt (\<lambda>a b. unat (position a) < unat (position b)) es"
proof (rule subseq_sorted_wrt)
  show "subseq es (map (entry_of base) (layout 0 rs))" using assms(2) by (simp add: index_of_def)
  show "sorted_wrt (\<lambda>a b. unat (position a) < unat (position b)) (map (entry_of base) (layout 0 rs))"
    using entry_of_nth(2) [OF assms(1)] length_enc_all_less by (simp add: sorted_wrt_iff_nth_less)
qed

lemma openSegment_existing:
  assumes nf: "no_faults rt" and rs: "segment_records base rs" and ix: "index_of base rs es"
    and c: "content d (segmentLogName base) = enc_all rs"
    and e: "exists_file d (segmentLogName base)" "exists_file d (segmentIndexName base)"
    and i: "content d (segmentIndexName base) = concat (map encodeEntry es)"
  obtains s n where "openSegment rt base interval d = (Inr s, d\<lparr>ops := n\<rparr>)" and "baseOffset s = base"
    and "entries s = es" and "seg_inv (d\<lparr>ops := n\<rparr>) s rs" and "index_file_ok (d\<lparr>ops := n\<rparr>) s"
    and "indexInterval s = interval"
proof -
  define ts where "ts = (if 0 < length (content d (segmentLogName base)) then modTimeMs rt (ops d + 3) else 0)"
  let ?s = "\<lparr>baseOffset = base, segSize = length (content d (segmentLogName base)), entries = [],
      maxTs = ts, indexInterval = interval, bytesSinceIndex = 0\<rparr>"
  have neg: "\<forall>e \<in> set es. - 1 < int (unat (position e))"
    by (rule ballI, rule less_le_trans [of _ 0], simp, rule of_nat_0_le_iff)
  have op: "opened base d = d" using e by (simp add: opened_def)
  have "\<exists>n. validateFrom rt ?s (- 1) es (d\<lparr>ops := ops d + 5\<rparr>) = (Inr (), d\<lparr>ops := n\<rparr>)"
    using validateFrom_ok [OF nf, of ?s rs d es "- 1" "ops d + 5"] rs c subseq_set [OF ix [unfolded index_of_def]]
      index_positions_sorted [OF rs ix] neg by simp
  then obtain n where v: "validateFrom rt ?s (- 1) es (d\<lparr>ops := ops d + 5\<rparr>) = (Inr (), d\<lparr>ops := n\<rparr>)" by blast
  have tt: "tick (tick (d\<lparr>ops := ops d + 3\<rparr>)) = d\<lparr>ops := ops d + 5\<rparr>" by (simp add: tick_def)
  have "sorted (map relOffset es)"
    using index_sorted [OF rs ix] unfolding sorted_map by (rule sorted_wrt_mono_rel [rotated]) auto
  then have l: "loadIndex rt ?s (d\<lparr>ops := ops d + 3\<rparr>) = (Inr es, d\<lparr>ops := n\<rparr>)"
    using nf i v by (simp add: loadIndex_def bindR_def io_no_faults validateEntries_def Let_def tt
        parseEntries_encode length_encodeEntries indexEntrySize_def del: bindR_simps)
  then have "openSegment rt base interval d = (Inr (?s\<lparr>entries := es\<rparr>), d\<lparr>ops := n\<rparr>)"
    unfolding openSegment_eq [OF nf] op ts_def [symmetric] Let_def by simp
  then show thesis
    using that [of "?s\<lparr>entries := es\<rparr>" n] rs ix c e i by (simp add: seg_inv_def index_file_ok_def)
qed

end
