(* ===== verification/Swap_Recovery.thy ===== *)
theory Swap_Recovery
  imports Segment
begin

text \<open>
  The repair of an interrupted compaction swap, run before a partition is opened
  (\<open>resolveSwapFiles\<close> in src/internal/broker/storage/compaction.go). The code
  visits the bases it found in the unspecified order of a Go map; the model takes
  the order of the directory listing.
\<close>

section \<open>Definitions\<close>

definition compactedMarkerName :: string where
  "compactedMarkerName = ''_compacted''"

definition segmentLogSwapName :: "u64 \<Rightarrow> string" where
  "segmentLogSwapName base = segmentLogName base @ ''.swap''"

definition segmentIndexSwapName :: "u64 \<Rightarrow> string" where
  "segmentIndexSwapName base = segmentIndexName base @ ''.swap''"

definition Stat :: "runtime \<Rightarrow> string \<Rightarrow> (disk, nat) res" where
  "Stat rt name = call_ok rt (\<lambda>d.
     (if exists_file d name then Inr (length (content d name)) else Inl ErrNotExist, d))"

text \<open>\<open>_ = f()\<close>: the result is dropped.\<close>

definition ignoreR :: "('s, 'a) res \<Rightarrow> ('s, unit) res" where
  "ignoreR m s = (Inr (), snd (m s))"

text \<open>The swap files of one base: is there one for the log, for the index.\<close>

record swap_pair =
  sw_log :: bool
  sw_index :: bool

definition swapName :: "string \<Rightarrow> (u64 \<times> bool) option" where
  "swapName name =
     (if HasSuffix name ''.log.swap'' then
        map_option (\<lambda>b. (b, True)) (ParseUint (TrimSuffix name ''.log.swap''))
      else if HasSuffix name ''.index.swap'' then
        map_option (\<lambda>b. (b, False)) (ParseUint (TrimSuffix name ''.index.swap''))
      else None)"

definition noteSwap :: "(u64 \<times> swap_pair) list \<Rightarrow> string \<Rightarrow> (u64 \<times> swap_pair) list" where
  "noteSwap swaps name =
     (case swapName name of
        None \<Rightarrow> swaps
      | Some (base, isLog) \<Rightarrow>
          let sp = (case map_of swaps base of None \<Rightarrow> \<lparr>sw_log = False, sw_index = False\<rparr> | Some sp \<Rightarrow> sp)
          in AList.update base (if isLog then sp\<lparr>sw_log := True\<rparr> else sp\<lparr>sw_index := True\<rparr>) swaps)"

definition collectSwaps :: "string list \<Rightarrow> (u64 \<times> swap_pair) list" where
  "collectSwaps names = foldl noteSwap [] names"

text \<open>One file of the pair: the swap file replaces whatever is left of the real one.\<close>

definition completeSwap :: "runtime \<Rightarrow> bool \<Rightarrow> bool \<Rightarrow> string \<Rightarrow> (disk, unit) res" where
  "completeSwap rt hasSwap realExists name =
     (if hasSwap then
        bindR (if realExists then Remove rt name else returnR ()) (\<lambda>_.
          Rename rt (name @ ''.swap'') name)
      else if \<not> realExists then failR ErrSwapUnresolvable
      else returnR ())"

definition resolveSwap :: "runtime \<Rightarrow> u64 \<times> swap_pair \<Rightarrow> (disk, unit) res" where
  "resolveSwap rt = (\<lambda>(base, sw) d.
     case Stat rt (segmentLogName base) d of (logStat, d) \<Rightarrow>
     case Stat rt (segmentIndexName base) d of (indexStat, d) \<Rightarrow>
       if \<not> isl logStat \<and> \<not> isl indexStat then
         bindR (if sw_log sw then ignoreR (Remove rt (segmentLogSwapName base)) else returnR ()) (\<lambda>_.
           if sw_index sw then ignoreR (Remove rt (segmentIndexSwapName base)) else returnR ()) d
       else
         bindR (completeSwap rt (sw_log sw) (\<not> isl logStat) (segmentLogName base)) (\<lambda>_.
           completeSwap rt (sw_index sw) (\<not> isl indexStat) (segmentIndexName base)) d)"

definition resolveSwapFiles :: "runtime \<Rightarrow> (disk, unit) res" where
  "resolveSwapFiles rt = bindR (ReadDir rt) (\<lambda>names. forR (collectSwaps names) (resolveSwap rt))"

end
