(* ===== verification/Partition.thy ===== *)
theory Partition
  imports Swap_Recovery
begin

text \<open>
  The partition: an ordered log over a list of segments
  (src/internal/broker/storage/partition.go), with opening and crash recovery,
  append, read, flush and close. The mutex of the code makes each operation one
  step; an operation is a function of the partition record and the directory.
\<close>

section \<open>State\<close>

record Options =
  MaxSegmentBytes :: int
  IndexIntervalBytes :: int

record Partition =
  p_topic :: string
  p_id :: i32
  p_opts :: Options
  segments :: "segment list"
  nextOffset :: u64
  recordsSinceFlush :: nat
  dirty :: bool
  dirtySegStart :: int
  gapsAllowed :: bool
  closed :: bool

section \<open>Scans\<close>

text \<open>A scan of a segment from a position: the callback's accumulator, or the error.\<close>

definition scanSegment ::
  "runtime \<Rightarrow> disk \<Rightarrow> segment \<Rightarrow> nat \<Rightarrow> bool \<Rightarrow> 'a record_fn \<Rightarrow> 'a \<Rightarrow> storage_error + 'a" where
  "scanSegment rt d s pos tolerant fn acc =
     (case streamRecords (growcap rt) (reader rt d (segmentLogName (baseOffset s))) pos (segSize s) tolerant fn acc of
        None \<Rightarrow> Inl ErrNotReturning
      | Some (Some e, _) \<Rightarrow> Inl e
      | Some (None, acc') \<Rightarrow> Inr acc')"

definition raiseMaxTs :: "i64 \<Rightarrow> segment \<Rightarrow> segment" where
  "raiseMaxTs ts s = (if sint (maxTs s) < sint ts then s\<lparr>maxTs := ts\<rparr> else s)"

text \<open>The index entry the recovery and rebuild scans add before each interval's first record.\<close>

definition indexScanned :: "Record \<Rightarrow> nat \<Rightarrow> nat \<Rightarrow> segment \<Rightarrow> segment" where
  "indexScanned r pos sz s =
     (let s = (if indexInterval s \<le> int (bytesSinceIndex s)
               then (addIndexEntry \<lparr>relOffset = ucast (Offset r - baseOffset s), position = of_nat pos\<rparr> s)
                      \<lparr>bytesSinceIndex := 0\<rparr>
               else s)
      in s\<lparr>bytesSinceIndex := bytesSinceIndex s + sz\<rparr>)"

section \<open>Opening and crash recovery\<close>

record recovery =
  rec_seg :: segment
  rec_next :: u64
  rec_expected :: u64
  rec_lastGood :: nat

definition recover_fn :: "recovery record_fn" where
  "recover_fn st r pos sz =
     (if Offset r \<noteq> rec_expected st then (False, st)
      else (True, st\<lparr>rec_seg := raiseMaxTs (TimestampMs r) (indexScanned r pos sz (rec_seg st)),
                     rec_expected := rec_expected st + 1,
                     rec_next := Offset r + 1,
                     rec_lastGood := pos + sz\<rparr>))"

definition recoverActive :: "runtime \<Rightarrow> segment \<Rightarrow> (disk, segment \<times> u64) res" where
  "recoverActive rt s d =
     (let s0 = s\<lparr>entries := [], bytesSinceIndex := 0, maxTs := 0\<rparr> in
      case scanSegment rt d s0 0 True recover_fn
             \<lparr>rec_seg = s0, rec_next = baseOffset s, rec_expected = baseOffset s, rec_lastGood = 0\<rparr> of
        Inl e \<Rightarrow> (Inl e, d)
      | Inr st \<Rightarrow>
          (case (if rec_lastGood st < segSize s then seg_truncate rt (rec_lastGood st) else returnR ())
                  (rec_seg st, d) of
             (Inl e, (_, d)) \<Rightarrow> (Inl e, d)
           | (Inr _, (s', d)) \<Rightarrow>
               bindR (rewriteIndex rt s') (\<lambda>_. returnR (s', rec_next st)) d))"

record rebuild =
  rb_seg :: segment
  rb_expected :: u64
  rb_gap :: bool

definition rebuild_fn :: "bool \<Rightarrow> rebuild record_fn" where
  "rebuild_fn gaps st r pos sz =
     (if Offset r \<noteq> rb_expected st \<and> \<not> (gaps \<and> rb_expected st < Offset r) then (False, st\<lparr>rb_gap := True\<rparr>)
      else (True, st\<lparr>rb_seg := raiseMaxTs (TimestampMs r) (indexScanned r pos sz (rb_seg st)),
                     rb_expected := Offset r + 1\<rparr>))"

definition rebuildIndex :: "runtime \<Rightarrow> bool \<Rightarrow> segment \<Rightarrow> (disk, segment) res" where
  "rebuildIndex rt gaps s d =
     (let s0 = s\<lparr>entries := [], bytesSinceIndex := 0, maxTs := 0\<rparr> in
      case scanSegment rt d s0 0 True (rebuild_fn gaps)
             \<lparr>rb_seg = s0, rb_expected = baseOffset s, rb_gap = False\<rparr> of
        Inl e \<Rightarrow> (Inl e, d)
      | Inr st \<Rightarrow>
          if rb_gap st then (Inl ErrOffsetGap, d)
          else bindR (rewriteIndex rt (rb_seg st)) (\<lambda>_. returnR (rb_seg st)) d)"

definition segmentBases :: "string list \<Rightarrow> u64 list" where
  "segmentBases names =
     sort (List.map_filter
       (\<lambda>name. if HasSuffix name ''.log'' then ParseUint (TrimSuffix name ''.log'') else None) names)"

definition listSegmentBases :: "runtime \<Rightarrow> (disk, u64 list) res" where
  "listSegmentBases rt = bindR (ReadDir rt) (\<lambda>names. returnR (segmentBases names))"

fun closeSegments :: "runtime \<Rightarrow> segment list \<Rightarrow> disk \<Rightarrow> disk" where
  "closeSegments rt [] d = d"
| "closeSegments rt (s # ss) d = closeSegments rt ss (snd (seg_close rt s d))"

fun openSegments :: "runtime \<Rightarrow> Partition \<Rightarrow> u64 list \<Rightarrow> (disk, Partition) res" where
  "openSegments rt p [] d = (Inr p, d)"
| "openSegments rt p (base # bases) d =
     (case openSegment rt base (IndexIntervalBytes (p_opts p)) d of
        (Inl e, d) \<Rightarrow> (Inl e, closeSegments rt (segments p) d)
      | (Inr s, d) \<Rightarrow>
          if bases = [] then
            (case recoverActive rt s d of
               (Inl e, d) \<Rightarrow> (Inl e, closeSegments rt (segments p @ [s]) d)
             | (Inr (s', next), d) \<Rightarrow>
                 openSegments rt (p\<lparr>segments := segments p @ [s'], nextOffset := next\<rparr>) bases d)
          else if entries s = [] \<and> 0 < segSize s then
            (case rebuildIndex rt (gapsAllowed p) s d of
               (Inl e, d) \<Rightarrow> (Inl e, closeSegments rt (segments p @ [s]) d)
             | (Inr s', d) \<Rightarrow> openSegments rt (p\<lparr>segments := segments p @ [s']\<rparr>) bases d)
          else openSegments rt (p\<lparr>segments := segments p @ [s]\<rparr>) bases d)"

definition MkdirAll :: "runtime \<Rightarrow> (disk, unit) res" where
  "MkdirAll rt = call_ok rt (returnR ())"

definition OpenPartition :: "runtime \<Rightarrow> string \<Rightarrow> i32 \<Rightarrow> Options \<Rightarrow> (disk, Partition) res" where
  "OpenPartition rt topic pid opts =
     bindR (MkdirAll rt) (\<lambda>_.
     bindR (resolveSwapFiles rt) (\<lambda>_.
     bindR (listSegmentBases rt) (\<lambda>bases d.
       case Stat rt compactedMarkerName d of (marker, d) \<Rightarrow>
         (let p = \<lparr>p_topic = topic, p_id = pid, p_opts = opts, segments = [], nextOffset = 0,
                   recordsSinceFlush = 0, dirty = False, dirtySegStart = 0,
                   gapsAllowed = \<not> isl marker, closed = False\<rparr>
          in bindR (openSegments rt p (if bases = [] then [0] else bases)) (\<lambda>p.
               returnR (p\<lparr>dirtySegStart := int (length (segments p)) - 1\<rparr>)) d))))"

section \<open>Append\<close>

definition stampRecord :: "u64 \<Rightarrow> i64 \<Rightarrow> nat \<Rightarrow> Record \<Rightarrow> Record" where
  "stampRecord base now i r =
     r\<lparr>Offset := base + of_nat i, TimestampMs := (if TimestampMs r = 0 then now else TimestampMs r)\<rparr>"

text \<open>
  The encoding loop \<open>Append\<close> and \<open>AppendReplica\<close> share: they differ in what they
  do to each record first (assign an offset, or check it). It raises the active
  segment's \<open>maxTs\<close> as it goes, also when a later record fails.
\<close>

fun encodeBatch ::
  "(nat \<Rightarrow> Record \<Rightarrow> storage_error + Record) \<Rightarrow> nat \<Rightarrow> Record list \<Rightarrow> bytes \<times> recordPos list \<Rightarrow>
   (segment, bytes \<times> recordPos list) res" where
  "encodeBatch prep i [] acc s = (Inr acc, s)"
| "encodeBatch prep i (r # rs) acc s =
     (case prep i r of
        Inl e \<Rightarrow> (Inl e, s)
      | Inr rec \<Rightarrow>
          (let s = raiseMaxTs (TimestampMs rec) s in
           case EncodeRecord (fst acc) rec of
             Inl e \<Rightarrow> (Inl e, s)
           | Inr buf \<Rightarrow>
               encodeBatch prep (i + 1) rs
                 (buf, snd acc @ [\<lparr>rp_offset = Offset rec, rp_pos = length (fst acc),
                                   rp_size = length buf - length (fst acc)\<rparr>]) s))"

definition setActive :: "segment \<Rightarrow> Partition \<Rightarrow> Partition" where
  "setActive s p = p\<lparr>segments := butlast (segments p) @ [s]\<rparr>"

definition rotate :: "runtime \<Rightarrow> (Partition \<times> disk, unit) res" where
  "rotate rt = (\<lambda>(p, d).
     if segments p = [] then (Inl ErrPanic, (p, d))
     else if MaxSegmentBytes (p_opts p) \<le> int (segSize (last (segments p))) then
       (case openSegment rt (nextOffset p) (IndexIntervalBytes (p_opts p)) d of
          (Inl e, d) \<Rightarrow> (Inl e, (p, d))
        | (Inr ns, d) \<Rightarrow> (Inr (), (p\<lparr>segments := segments p @ [ns]\<rparr>, d)))
     else (Inr (), (p, d)))"

definition noteAppended :: "nat \<Rightarrow> Partition \<Rightarrow> Partition" where
  "noteAppended n p =
     (let activeIdx = int (length (segments p)) - 1 in
      p\<lparr>dirtySegStart := (if activeIdx < dirtySegStart p then activeIdx else dirtySegStart p),
        nextOffset := nextOffset p + of_nat n,
        recordsSinceFlush := recordsSinceFlush p + n,
        dirty := True\<rparr>)"

definition appendActive ::
  "runtime \<Rightarrow> (nat \<Rightarrow> Record \<Rightarrow> storage_error + Record) \<Rightarrow> Record list \<Rightarrow> (Partition \<times> disk, unit) res" where
  "appendActive rt prep records = (\<lambda>(p, d).
     case encodeBatch prep 0 records ([], []) (last (segments p)) of
       (Inl e, s) \<Rightarrow> (Inl e, (setActive s p, d))
     | (Inr (buf, positions), s) \<Rightarrow>
         (case seg_append rt buf positions (s, d) of
            (Inl e, (s, d)) \<Rightarrow> (Inl e, (setActive s p, d))
          | (Inr _, (s, d)) \<Rightarrow> (Inr (), (noteAppended (length records) (setActive s p), d))))"

definition Append :: "runtime \<Rightarrow> i64 \<Rightarrow> Record list \<Rightarrow> (Partition \<times> disk, u64) res" where
  "Append rt now records = (\<lambda>(p, d).
     if closed p then (Inl ErrPartitionClosed, (p, d))
     else if records = [] then (Inl ErrEmptyBatch, (p, d))
     else bindR (rotate rt) (\<lambda>_.
       bindR (appendActive rt (\<lambda>i r. Inr (stampRecord (nextOffset p) now i r)) records) (\<lambda>_.
         returnR (nextOffset p))) (p, d))"

section \<open>Read\<close>

definition read_fn :: "u64 \<Rightarrow> int \<Rightarrow> int \<Rightarrow> (Record list \<times> nat) record_fn" where
  "read_fn offset maxRecords maxBytes acc r pos sz =
     (if Offset r < offset then (True, acc)
      else let out = fst acc @ [r];
               total = snd acc + length (Key r) + length (Value r)
           in (\<not> maxRecords \<le> int (length out) \<and> \<not> maxBytes \<le> int total, (out, total)))"

fun readSegments ::
  "runtime \<Rightarrow> disk \<Rightarrow> u64 \<Rightarrow> int \<Rightarrow> int \<Rightarrow> segment list \<Rightarrow> Record list \<times> nat \<Rightarrow> storage_error + Record list" where
  "readSegments rt d offset maxRecords maxBytes [] acc = Inr (fst acc)"
| "readSegments rt d offset maxRecords maxBytes (s # ss) acc =
     (let pos = (if baseOffset s \<le> offset then lookup s (ucast (offset - baseOffset s)) else 0) in
      bindS (scanSegment rt d s pos False (read_fn offset maxRecords maxBytes) acc) (\<lambda>acc.
        if maxRecords \<le> int (length (fst acc)) \<or> maxBytes \<le> int (snd acc) then Inr (fst acc)
        else readSegments rt d offset maxRecords maxBytes ss acc))"

definition Read :: "runtime \<Rightarrow> Partition \<Rightarrow> disk \<Rightarrow> u64 \<Rightarrow> int \<Rightarrow> int \<Rightarrow> storage_error + Record list" where
  "Read rt p d offset maxRecords maxBytes =
     (if closed p then Inl ErrPartitionClosed
      else if nextOffset p < offset then Inl ErrOffsetOutOfRange
      else if offset = nextOffset p \<or> maxRecords \<le> 0 then Inr []
      else let i = sort_Search (length (segments p)) (\<lambda>i. baseOffset (segments p ! i) > offset) in
        if i = 0 then Inl ErrOffsetOutOfRange
        else readSegments rt d offset maxRecords maxBytes (drop (i - 1) (segments p)) ([], 0))"

section \<open>Queries, flush and close\<close>

definition HighWatermark :: "Partition \<Rightarrow> u64" where
  "HighWatermark p = nextOffset p"

definition FirstOffset :: "Partition \<Rightarrow> u64" where
  "FirstOffset p = (if segments p = [] then 0 else baseOffset (hd (segments p)))"

definition SegmentCount :: "Partition \<Rightarrow> nat" where
  "SegmentCount p = length (segments p)"

definition RecordsSinceFlush :: "Partition \<Rightarrow> nat" where
  "RecordsSinceFlush p = recordsSinceFlush p"

definition DiskUsageBytes :: "runtime \<Rightarrow> disk \<Rightarrow> nat" where
  "DiskUsageBytes rt d =
     (case ReadDir rt d of
        (Inl _, _) \<Rightarrow> 0
      | (Inr names, d) \<Rightarrow>
          sum_list (map (\<lambda>n. length (content d n))
            (filter (\<lambda>n. HasSuffix n ''.log'' \<or> HasSuffix n ''.index'') names)))"

definition dirtySegments :: "Partition \<Rightarrow> segment list" where
  "dirtySegments p = drop (nat (dirtySegStart p)) (segments p)"

definition Flush :: "runtime \<Rightarrow> (Partition \<times> disk, unit) res" where
  "Flush rt = (\<lambda>(p, d).
     if closed p \<or> \<not> dirty p then (Inr (), (p, d))
     else bindR (on_snd (forR (dirtySegments p) (seg_sync rt))) (\<lambda>_.
       modifyR (\<lambda>(p, d). (p\<lparr>dirty := False, recordsSinceFlush := 0,
         dirtySegStart := int (length (segments p)) - 1\<rparr>, d))) (p, d))"

text \<open>A loop that goes on after an error and reports the first one.\<close>

fun forFirstErr :: "'x list \<Rightarrow> ('x \<Rightarrow> ('s, unit) res) \<Rightarrow> storage_error option \<Rightarrow> 's \<Rightarrow> storage_error option \<times> 's" where
  "forFirstErr [] f err s = (err, s)"
| "forFirstErr (x # xs) f err s =
     (case f x s of
        (Inl e, s) \<Rightarrow> forFirstErr xs f (if err = None then Some e else err) s
      | (Inr _, s) \<Rightarrow> forFirstErr xs f err s)"

definition ClosePartition :: "runtime \<Rightarrow> (Partition \<times> disk, unit) res" where
  "ClosePartition rt = (\<lambda>(p, d).
     if closed p then (Inr (), (p, d))
     else
       case (if dirty p then forFirstErr (dirtySegments p) (seg_sync rt) None d else (None, d)) of (err, d) \<Rightarrow>
       case forFirstErr (segments p) (seg_close rt) err d of (err, d) \<Rightarrow>
         (case err of None \<Rightarrow> Inr () | Some e \<Rightarrow> Inl e, (p\<lparr>closed := True\<rparr>, d)))"

end
