(* ===== verification/Partition_Log.thy ===== *)
theory Partition_Log
  imports Partition
begin

text \<open>
  What the partition promises: its segments hold one ordered log. This theory
  proves crash recovery, append and read against the list of records the segments
  hold.
\<close>

section \<open>Scanning a segment\<close>

definition small_records :: "Record list \<Rightarrow> bool" where
  "small_records rs \<longleftrightarrow> list_all (\<lambda>r. length (enc r) < streamChunk) rs"

lemma small_records_simps [simp]:
  "small_records []" "small_records (r # rs) \<longleftrightarrow> length (enc r) < streamChunk \<and> small_records rs"
  "small_records (rs @ ss) \<longleftrightarrow> small_records rs \<and> small_records ss"
  by (simp_all add: small_records_def)

lemma list_all_layout: "list_all (\<lambda>(r, p, n). n < k) (layout p rs) \<longleftrightarrow> list_all (\<lambda>r. length (enc r) < k) rs"
  by (induction rs arbitrary: p) auto

lemma frames_enc_all_end:
  assumes "list_all encodable rs" and "i \<le> length rs"
  shows "frames (enc_all rs) (length (enc_all (take i rs))) = layout (length (enc_all (take i rs))) (drop i rs)"
    and "frames_end (enc_all rs) (length (enc_all (take i rs))) = length (enc_all rs)"
proof -
  let ?p = "length (enc_all (take i rs))"
  have d: "drop ?p (enc_all rs) = enc_all (drop i rs) @ []"
    by (subst (2) enc_all_take_drop [of _ i]) simp
  have e: "list_all encodable (drop i rs)" using assms(1) by (metis append_take_drop_id list_all_append)
  have len: "?p + length (enc_all (drop i rs)) = length (enc_all rs)"
    by (subst (3) enc_all_take_drop [of _ i]) simp
  have "frames (enc_all rs) (length (enc_all rs)) = []" by (simp add: frames_Inl)
  then show fr: "frames (enc_all rs) ?p = layout ?p (drop i rs)"
    using frames_enc_all [OF d e] by (simp add: len)
  have "sum_list (map (\<lambda>(r, p, n). n) (layout q ss)) = length (enc_all ss)" for q ss
    by (induction ss arbitrary: q) auto
  then show "frames_end (enc_all rs) ?p = length (enc_all rs)"
    by (simp add: frames_end_def fr len)
qed

lemma scanSegment_ok:
  assumes nf: "no_faults rt" and inv: "seg_inv d s rs" and sm: "small_records rs" and i: "i \<le> length rs"
  shows "scanSegment rt d s (length (enc_all (take i rs))) tolerant fn acc =
     Inr (snd (feed fn acc (layout (length (enc_all (take i rs))) (drop i rs))))"
proof -
  let ?f = "content d (segmentLogName (baseOffset s))" and ?p = "length (enc_all (take i rs))"
  note s = seg_invD [OF inv]
  have e: "list_all encodable rs" using s(6) by (simp add: segment_records_def)
  have "list_all (\<lambda>r. length (enc r) < streamChunk) (drop i rs)"
    using sm unfolding small_records_def by (metis append_take_drop_id list_all_append)
  then have "small_frames (enc_all rs) ?p"
    by (simp add: small_frames_def frames_enc_all_end [OF e i] list_all_layout)
  then have "streamRecords (growcap rt) (file_reader ?f) ?p (segSize s) tolerant fn acc =
      Some (None, snd (feed fn acc (frames (enc_all rs) ?p)))"
    using streamRecords_small [OF no_faults_growcap [OF nf], of "segSize s" ?f ?p tolerant fn acc] s(3,4,5)
    by (simp add: frames_end_def [symmetric] frames_enc_all_end [OF e i])
  then show ?thesis
    by (simp add: scanSegment_def reader_no_faults [OF nf] frames_enc_all_end [OF e i])
qed

lemma scanSegment_all:
  assumes "no_faults rt" "seg_inv d s rs" "small_records rs"
  shows "scanSegment rt d s 0 tolerant fn acc = Inr (snd (feed fn acc (layout 0 rs)))"
  using scanSegment_ok [OF assms, of 0] by simp

section \<open>The index a scan builds\<close>

definition ts_max :: "i64 \<Rightarrow> Record list \<Rightarrow> i64" where
  "ts_max = foldl (\<lambda>m r. if sint m < sint (TimestampMs r) then TimestampMs r else m)"

lemma ts_max_simps [simp]:
  "ts_max m [] = m"
  "ts_max m (r # rs) = ts_max (if sint m < sint (TimestampMs r) then TimestampMs r else m) rs"
  "ts_max m (rs @ ss) = ts_max (ts_max m rs) ss"
  by (simp_all add: ts_max_def)

definition scanned :: "segment \<Rightarrow> nat \<Rightarrow> Record list \<Rightarrow> segment \<Rightarrow> bool" where
  "scanned s p rs s' \<longleftrightarrow> (\<exists>es b. s' = s\<lparr>entries := entries s @ es, bytesSinceIndex := b, maxTs := ts_max (maxTs s) rs\<rparr> \<and>
     subseq es (map (entry_of (baseOffset s)) (layout p rs)))"

lemma scanned_Nil [simp]: "scanned s p [] s"
  unfolding scanned_def by (intro exI [of _ "[]"] exI [of _ "bytesSinceIndex s"]) simp

lemma scan_step:
  "\<exists>es b. raiseMaxTs (TimestampMs r) (indexScanned r p n s) =
      s\<lparr>entries := entries s @ es, bytesSinceIndex := b, maxTs := ts_max (maxTs s) [r]\<rparr> \<and>
    subseq es [entry_of (baseOffset s) (r, p, n)]"
proof (cases "indexInterval s \<le> int (bytesSinceIndex s)")
  case True
  then show ?thesis
    by (intro exI [of _ "[entry_of (baseOffset s) (r, p, n)]"] exI [of _ n])
      (simp add: raiseMaxTs_def indexScanned_def addIndexEntry_def entry_of_def Let_def)
next
  case False
  then show ?thesis
    by (intro exI [of _ "[]"] exI [of _ "bytesSinceIndex s + n"])
      (simp add: raiseMaxTs_def indexScanned_def Let_def)
qed

lemma scanned_Cons:
  assumes "scanned (raiseMaxTs (TimestampMs r) (indexScanned r p (length (enc r)) s)) (p + length (enc r)) rs s'"
  shows "scanned s p (r # rs) s'"
proof -
  let ?e = "entry_of (baseOffset s) (r, p, length (enc r))"
  obtain es1 b1 where st: "raiseMaxTs (TimestampMs r) (indexScanned r p (length (enc r)) s) =
      s\<lparr>entries := entries s @ es1, bytesSinceIndex := b1, maxTs := ts_max (maxTs s) [r]\<rparr>"
    and es1: "subseq es1 [?e]"
    using scan_step by blast
  from assms [unfolded st] obtain es b where
    "s' = s\<lparr>entries := entries s @ es1 @ es, bytesSinceIndex := b, maxTs := ts_max (maxTs s) (r # rs)\<rparr>"
    and "subseq es (map (entry_of (baseOffset s)) (layout (p + length (enc r)) rs))"
    unfolding scanned_def by auto
  moreover from this es1 have "subseq (es1 @ es) (map (entry_of (baseOffset s)) (layout p (r # rs)))"
    using list_emb_append_mono [of "(=)" es1 "[?e]" es] by simp
  ultimately show ?thesis unfolding scanned_def by blast
qed

section \<open>Crash recovery\<close>

text \<open>The records recovery keeps: those that continue the offsets from the base without a gap.\<close>

fun contiguous :: "u64 \<Rightarrow> Record list \<Rightarrow> Record list" where
  "contiguous b [] = []"
| "contiguous b (r # rs) = (if Offset r = b then r # contiguous (b + 1) rs else [])"

lemma contiguous_take: "contiguous b rs = take (length (contiguous b rs)) rs"
  by (induction rs arbitrary: b) auto

lemma contiguous_append: "contiguous b rs = rs \<Longrightarrow> contiguous b (rs @ ss) = rs @ contiguous (b + of_nat (length rs)) ss"
  by (induction rs arbitrary: b) (auto simp: add.assoc split: if_splits)

lemma recover_feed:
  "\<lbrakk>rec_next st = rec_expected st; rec_lastGood st = p\<rbrakk> \<Longrightarrow>
   \<exists>s'. snd (feed recover_fn st (layout p rs)) =
      \<lparr>rec_seg = s', rec_next = rec_expected st + of_nat (length (contiguous (rec_expected st) rs)),
       rec_expected = rec_expected st + of_nat (length (contiguous (rec_expected st) rs)),
       rec_lastGood = p + length (enc_all (contiguous (rec_expected st) rs))\<rparr> \<and>
     scanned (rec_seg st) p (contiguous (rec_expected st) rs) s'"
proof (induction rs arbitrary: st p)
  case Nil
  then show ?case by (intro exI [of _ "rec_seg st"]) simp
next
  case (Cons r rs)
  show ?case
  proof (cases "Offset r = rec_expected st")
    case True
    let ?st = "st\<lparr>rec_seg := raiseMaxTs (TimestampMs r) (indexScanned r p (length (enc r)) (rec_seg st)),
      rec_expected := rec_expected st + 1, rec_next := Offset r + 1, rec_lastGood := p + length (enc r)\<rparr>"
    have step: "recover_fn st r p (length (enc r)) = (True, ?st)" using True by (simp add: recover_fn_def)
    from Cons.IH [of ?st "p + length (enc r)"] True
    obtain s' where "snd (feed recover_fn ?st (layout (p + length (enc r)) rs)) =
      \<lparr>rec_seg = s', rec_next = rec_expected ?st + of_nat (length (contiguous (rec_expected ?st) rs)),
       rec_expected = rec_expected ?st + of_nat (length (contiguous (rec_expected ?st) rs)),
       rec_lastGood = p + length (enc r) + length (enc_all (contiguous (rec_expected ?st) rs))\<rparr>"
      and "scanned (rec_seg ?st) (p + length (enc r)) (contiguous (rec_expected ?st) rs) s'" by auto
    with step True show ?thesis
      by (intro exI [of _ s']) (simp add: scanned_Cons add.assoc)
  next
    case False
    then show ?thesis using Cons.prems by (intro exI [of _ "rec_seg st"]) (simp add: recover_fn_def)
  qed
qed

lemma unat_add_of_nat: "unat (b :: u64) + n < 2 ^ 64 \<Longrightarrow> unat (b + of_nat n) = unat b + n"
proof -
  assume n: "unat b + n < 2 ^ 64"
  have "unat (of_nat (unat b + n) :: u64) = unat b + n"
    using n unfolding unat_of_nat by simp
  then show ?thesis by simp
qed

lemma contiguous_offsets:
  "unat b + length (contiguous b rs) < 2 ^ 64 \<Longrightarrow>
   map roff (contiguous b rs) = [unat b ..< unat b + length (contiguous b rs)]"
proof (induction rs arbitrary: b)
  case (Cons r rs)
  show ?case
  proof (cases "Offset r = b")
    case True
    with Cons.prems have b: "unat b + 1 + length (contiguous (b + 1) rs) < 2 ^ 64" by simp
    then have "unat (b + 1) = unat b + 1" using unat_add_of_nat [of b 1] by simp
    with Cons.IH [of "b + 1"] b True show ?thesis by (simp add: upt_conv_Cons del: upt_Suc)
  qed simp
qed simp

lemma length_enc_all_ge: "length rs \<le> length (enc_all rs)"
proof (induction rs)
  case (Cons r rs)
  then show ?case using length_enc_ge [of r] by simp
qed simp

lemma offsets_increasing: "map roff rs = [b ..< e] \<Longrightarrow> increasing rs"
proof -
  assume "map roff rs = [b ..< e]"
  then have "sorted_wrt (<) (map roff rs)" by simp
  then show ?thesis by (simp only: increasing_def sorted_wrt_map)
qed

lemma offsets_range:
  assumes "map roff rs = [b ..< e]" and "r \<in> set rs"
  shows "b \<le> roff r \<and> roff r < e"
proof -
  have "roff r \<in> set (map roff rs)" using assms(2) by simp
  then show ?thesis unfolding assms(1) by simp
qed

lemma segment_records_contiguous:
  assumes "list_all encodable rs" and "map roff rs = [unat base ..< unat base + length rs]"
    and "length (enc_all rs) < 2 ^ 32"
  shows "segment_records base rs"
proof -
  have "roff r \<in> {unat base ..< unat base + length rs}" if "r \<in> set rs" for r
    using offsets_range [OF assms(2) that] by simp
  then show ?thesis
    using assms offsets_increasing [OF assms(2)] length_enc_all_ge [of rs]
    by (fastforce simp: segment_records_def)
qed

lemma scanned_index:
  assumes "scanned s 0 rs s'" and "entries s = []"
  shows "index_of (baseOffset s) rs (entries s')" and "baseOffset s' = baseOffset s" and "segSize s' = segSize s"
    and "maxTs s' = ts_max (maxTs s) rs" and "indexInterval s' = indexInterval s"
  using assms by (auto simp: scanned_def index_of_def)

lemma filter_index:
  assumes "segment_records base rs" and "index_of base rs es"
  shows "filter (\<lambda>e. unat (position e) < length (enc_all rs)) es = es"
proof -
  have "unat (position e) < length (enc_all rs)" if "e \<in> set es" for e
  proof -
    have "e \<in> set (map (entry_of base) (layout 0 rs))"
      using subseq_set [OF assms(2) [unfolded index_of_def]] that by blast
    then obtain i where i: "i < length rs" "e = entry_of base (layout 0 rs ! i)"
      by (auto simp: in_set_conv_nth)
    then show ?thesis
      using entry_of_nth(2) [OF assms(1) i(1)] length_enc_all_less [of i "length rs" rs] by simp
  qed
  then show ?thesis by (simp add: filter_id_conv)
qed

lemma seg_truncate_raw:
  assumes "no_faults rt"
  shows "seg_truncate rt n (s, d) =
    (let s' = s\<lparr>segSize := n, entries := filter (\<lambda>e. unat (position e) < n) (entries s)\<rparr>;
         l = segmentLogName (baseOffset s); f = content d l
     in (Inr (), s', snd (rewriteIndex rt s' (put l (take n f @ replicate (n - length f) 0) (tick d)))))"
  using assms by (simp add: seg_truncate_def bindR_def on_snd_def io_no_faults rewriteIndex_ok Let_def del: bindR_simps)

lemma recoverActive_ok:
  assumes nf: "no_faults rt"
    and ex: "exists_file d (segmentLogName (baseOffset s))" "exists_file d (segmentIndexName (baseOffset s))"
    and f: "f = content d (segmentLogName (baseOffset s))" "segSize s = length f"
    and fr: "frames f 0 = layout 0 rs" and sm: "small_records rs" "list_all encodable rs"
    and k: "ks = contiguous (baseOffset s) rs" and lim: "length f < 2 ^ 32" "unat (baseOffset s) + length ks < 2 ^ 64"
  obtains s' d' where "recoverActive rt s d = (Inr (s', baseOffset s + of_nat (length ks)), d')"
    and "seg_inv d' s' ks" and "index_file_ok d' s'" and "same_files_but (seg_files s) d d'"
    and "content d' (segmentLogName (baseOffset s)) = enc_all ks"
    and "baseOffset s' = baseOffset s" and "indexInterval s' = indexInterval s" and "maxTs s' = ts_max 0 ks"
proof -
  let ?log = "segmentLogName (baseOffset s)" and ?ix = "segmentIndexName (baseOffset s)"
  let ?s0 = "s\<lparr>entries := [], bytesSinceIndex := 0, maxTs := 0\<rparr>"
  let ?st0 = "\<lparr>rec_seg = ?s0, rec_next = baseOffset s, rec_expected = baseOffset s, rec_lastGood = 0\<rparr>"
  have "small_frames f 0" using sm(1) by (simp add: small_frames_def fr list_all_layout small_records_def)
  then have "streamRecords (growcap rt) (file_reader f) 0 (length f) True recover_fn ?st0 =
      Some (None, snd (feed recover_fn ?st0 (layout 0 rs)))"
    using streamRecords_small [OF no_faults_growcap [OF nf], of "length f" f 0 True] fr by simp
  moreover obtain s1 where "snd (feed recover_fn ?st0 (layout 0 rs)) =
      \<lparr>rec_seg = s1, rec_next = baseOffset s + of_nat (length ks), rec_expected = baseOffset s + of_nat (length ks),
       rec_lastGood = length (enc_all ks)\<rparr>" and sc: "scanned ?s0 0 ks s1"
    using recover_feed [of ?st0 0 rs] by (auto simp: k)
  ultimately have scan: "scanSegment rt d ?s0 0 True recover_fn ?st0 = Inr
      \<lparr>rec_seg = s1, rec_next = baseOffset s + of_nat (length ks), rec_expected = baseOffset s + of_nat (length ks),
       rec_lastGood = length (enc_all ks)\<rparr>"
    by (simp add: scanSegment_def reader_no_faults [OF nf] f)
  note s1 = scanned_index [OF sc]
  obtain rs' where rs': "frames f 0 = layout 0 rs'" "drop 0 f = enc_all rs' @ drop (frames_end f 0) f"
    using frames_layout by metis
  have "rs' = rs" using rs'(1) fr by (metis map_fst_layout)
  then have fe: "f = enc_all rs @ drop (frames_end f 0) f" using rs'(2) by simp
  have kr: "ks = take (length ks) rs" using contiguous_take [of "baseOffset s" rs] k by simp
  have "take (length (enc_all ks)) (enc_all rs) = enc_all ks"
    using take_enc_all [of "length ks" rs] kr by simp
  then have vis: "take (length (enc_all ks)) f = enc_all ks"
    using length_enc_all_take [of "length ks" rs] kr by (subst fe) simp
  then have le: "length (enc_all ks) \<le> length f" by (metis length_take min.cobounded1)
  have enc: "list_all encodable ks" using sm(2) kr by (metis append_take_drop_id list_all_append)
  have seg: "segment_records (baseOffset s) ks"
    using segment_records_contiguous [OF enc] contiguous_offsets [of "baseOffset s" rs] lim le k by simp
  define s2 where "s2 = s1\<lparr>segSize := length (enc_all ks)\<rparr>"
  obtain d2 where step: "(if length (enc_all ks) < segSize s then seg_truncate rt (length (enc_all ks)) else returnR ())
      (s1, d) = (Inr (), s2, d2)"
    and d2: "content d2 ?log = enc_all ks" "exists_file d2 ?log" "exists_file d2 ?ix"
      "same_files_but (seg_files s) d d2"
  proof (cases "length (enc_all ks) < segSize s")
    case True
    have "s1\<lparr>segSize := length (enc_all ks), entries := filter (\<lambda>e. unat (position e) < length (enc_all ks)) (entries s1)\<rparr> = s2"
      using filter_index [OF seg] s1(1) by (simp add: s2_def)
    with True vis le f s1(2) have "(if length (enc_all ks) < segSize s then seg_truncate rt (length (enc_all ks)) else returnR ())
        (s1, d) = (Inr (), s2, put ?ix (concat (map encodeEntry (entries s2))) (tick (put ?ix []
          (tick (put ?log (enc_all ks) (tick d))))))"
      by (simp add: seg_truncate_raw [OF nf] rewriteIndex_ok [OF nf] Let_def) (simp add: s2_def)
    then show thesis by (rule that) (use ex in \<open>auto simp: same_files_but_def\<close>)
  next
    case False
    with le f(2) have eq: "length (enc_all ks) = length f" by simp
    have "s2 = s1" using s1(3) eq f(2) by (simp add: s2_def)
    moreover have "content d ?log = enc_all ks" using vis eq f(1) by simp
    ultimately show thesis using that [of d] False ex by simp
  qed
  have s2: "baseOffset s2 = baseOffset s" using s1(2) by (simp add: s2_def)
  define d' where "d' = put ?ix (concat (map encodeEntry (entries s2))) (tick (put ?ix [] (tick d2)))"
  have "recoverActive rt s d = (Inr (s2, baseOffset s + of_nat (length ks)), d')"
    by (simp only: recoverActive_def Let_def scan sum.case recovery.select_convs step prod.case bindR_def
        rewriteIndex_ok [OF nf] s2 returnR_apply d'_def)
  moreover have "seg_inv d' s2 ks"
    using d2 seg s1(1) s2 by (simp add: seg_inv_def d'_def) (simp add: s2_def)
  moreover have "same_files_but (seg_files s) d d'"
    using d2(4) by (auto simp: same_files_but_def d'_def)
  ultimately show thesis
    using that [of s2 d'] d2(1) s1 s2 by (simp add: index_file_ok_def d'_def) (simp add: s2_def)
qed

section \<open>The invariant of a partition\<close>

text \<open>
  The segments split the offsets from the first base to the high-water mark into
  consecutive ranges; each holds records of its range only. Unless the partition
  was compacted, a range has no gap. The active segment is the last one.
\<close>

definition range_ok :: "bool \<Rightarrow> nat \<Rightarrow> Record list \<Rightarrow> nat \<Rightarrow> bool" where
  "range_ok gaps b rs e \<longleftrightarrow> b \<le> e \<and> (\<forall>r \<in> set rs. roff r < e) \<and>
     (\<not> gaps \<longrightarrow> map roff rs = [b ..< e])"

fun chain :: "bool \<Rightarrow> segment list \<Rightarrow> Record list list \<Rightarrow> nat \<Rightarrow> bool" where
  "chain gaps [] [] e \<longleftrightarrow> True"
| "chain gaps (s # ss) (rs # rss) e \<longleftrightarrow>
     (let e' = (case ss of [] \<Rightarrow> e | t # _ \<Rightarrow> unat (baseOffset t)) in
      unat (baseOffset s) < e' \<and> range_ok gaps (unat (baseOffset s)) rs e' \<and> chain gaps ss rss e)"
| "chain gaps _ _ e \<longleftrightarrow> False"

definition seg_state :: "disk \<Rightarrow> segment \<Rightarrow> Record list \<Rightarrow> bool" where
  "seg_state d s rs \<longleftrightarrow> seg_inv d s rs \<and> index_file_ok d s \<and> small_records rs"

definition own_files :: "disk \<Rightarrow> segment list \<Rightarrow> bool" where
  "own_files d ss \<longleftrightarrow> (\<forall>b. exists_file d (segmentLogName b) \<or> exists_file d (segmentIndexName b) \<longrightarrow>
     b \<in> set (map baseOffset ss))"

definition part_inv :: "Partition \<Rightarrow> disk \<Rightarrow> Record list list \<Rightarrow> bool" where
  "part_inv p d rss \<longleftrightarrow>
     (\<exists>ss s crs rs. segments p = ss @ [s] \<and> rss = crs @ [rs] \<and>
        list_all2 (seg_state d) ss crs \<and> seg_state d s rs \<and>
        chain (gapsAllowed p) ss crs (unat (baseOffset s)) \<and>
        range_ok (gapsAllowed p) (unat (baseOffset s)) rs (unat (nextOffset p)) \<and>
        own_files d (segments p))"

lemma chain_lengths: "chain g ss rss e \<Longrightarrow> length ss = length rss"
  by (induction g ss rss e rule: chain.induct) (auto simp: Let_def)

lemma chain_snoc:
  "length ss = length rss \<Longrightarrow> chain g (ss @ [s]) (rss @ [rs]) e \<longleftrightarrow>
     chain g ss rss (unat (baseOffset s)) \<and> unat (baseOffset s) < e \<and> range_ok g (unat (baseOffset s)) rs e"
proof (induction ss rss rule: list_induct2)
  case (Cons t ss r rss)
  then show ?case by (cases ss) (auto simp: Let_def)
qed simp

lemma chain_snocE:
  assumes "chain g (ss @ [s]) rss e"
  obtains crs rs where "rss = crs @ [rs]" and "chain g ss crs (unat (baseOffset s))"
    and "unat (baseOffset s) < e" and "range_ok g (unat (baseOffset s)) rs e"
proof -
  obtain crs rs where "rss = crs @ [rs]" "length ss = length crs"
    using chain_lengths [OF assms] by (cases rss rule: rev_exhaust) auto
  with assms that show thesis by (auto simp: chain_snoc)
qed

lemma chain_bases: "chain g ss rss e \<Longrightarrow> t \<in> set ss \<Longrightarrow> unat (baseOffset t) < e"
proof (induction ss arbitrary: rss e rule: rev_induct)
  case (snoc s ss)
  from snoc.prems(1) show ?case
  proof (rule chain_snocE)
    fix crs assume "chain g ss crs (unat (baseOffset s))" and "unat (baseOffset s) < e"
    with snoc.IH [of crs "unat (baseOffset s)"] snoc.prems(2) show ?thesis by auto
  qed
qed simp

lemma chain_sorted: "chain g ss rss e \<Longrightarrow> sorted_wrt (\<lambda>a b. unat (baseOffset a) < unat (baseOffset b)) ss"
proof (induction ss arbitrary: rss e rule: rev_induct)
  case (snoc s ss)
  from snoc.prems show ?case
    by (rule chain_snocE) (use snoc.IH in \<open>auto simp: sorted_wrt_append dest: chain_bases\<close>)
qed simp

lemma chain_records: "chain g ss rss e \<Longrightarrow> r \<in> set (concat rss) \<Longrightarrow> roff r < e"
proof (induction ss arbitrary: rss e rule: rev_induct)
  case Nil
  then show ?case by (cases rss) auto
next
  case (snoc s ss)
  from snoc.prems(1) show ?case
  proof (rule chain_snocE)
    fix crs rs assume "rss = crs @ [rs]" and "chain g ss crs (unat (baseOffset s))"
      and "unat (baseOffset s) < e" and "range_ok g (unat (baseOffset s)) rs e"
    with snoc.IH [of crs "unat (baseOffset s)"] snoc.prems(2) show ?thesis
      by (cases "r \<in> set rs") (auto simp: range_ok_def)
  qed
qed

lemma chain_offsets:
  "chain False ss rss e \<Longrightarrow> ss \<noteq> [] \<Longrightarrow> map roff (concat rss) = [unat (baseOffset (hd ss)) ..< e]"
proof (induction ss arbitrary: rss e rule: rev_induct)
  case (snoc s ss)
  from snoc.prems(1) show ?case
  proof (rule chain_snocE)
    fix crs rs assume c: "rss = crs @ [rs]" "chain False ss crs (unat (baseOffset s))" "unat (baseOffset s) < e"
      "range_ok False (unat (baseOffset s)) rs e"
    show ?thesis
    proof (cases "ss = []")
      case True
      with c show ?thesis by (cases crs) (auto simp: range_ok_def)
    next
      case False
      then have "unat (baseOffset (hd ss)) \<le> unat (baseOffset s)" using chain_bases [OF c(2), of "hd ss"] by simp
      then show ?thesis using snoc.IH [OF c(2) False] c(1,3,4) False
          upt_join [of "unat (baseOffset (hd ss))" "unat (baseOffset s)" e] by (simp add: range_ok_def)
    qed
  qed
qed simp

lemma part_inv_offsets:
  assumes "part_inv p d rss" and "\<not> gapsAllowed p"
  shows "map roff (concat rss) = [unat (FirstOffset p) ..< unat (nextOffset p)]"
proof -
  obtain ss s crs rs where i: "segments p = ss @ [s]" "rss = crs @ [rs]"
    "chain (gapsAllowed p) ss crs (unat (baseOffset s))" "range_ok (gapsAllowed p) (unat (baseOffset s)) rs (unat (nextOffset p))"
    using assms(1) unfolding part_inv_def by blast
  show ?thesis
  proof (cases ss)
    case Nil
    with i assms(2) show ?thesis by (cases crs) (auto simp: range_ok_def FirstOffset_def)
  next
    case (Cons t ts)
    have "unat (baseOffset t) \<le> unat (baseOffset s)" using chain_bases [OF i(3), of t] Cons by simp
    moreover have "map roff (concat crs) = [unat (baseOffset t) ..< unat (baseOffset s)]"
      using chain_offsets [of ss crs "unat (baseOffset s)"] i(3) assms(2) Cons by simp
    ultimately show ?thesis using i(1,2,4) assms(2) Cons upt_join [of "unat (baseOffset t)" "unat (baseOffset s)" "unat (nextOffset p)"]
      by (simp add: range_ok_def FirstOffset_def)
  qed
qed

lemma part_inv_records:
  assumes "part_inv p d rss"
  shows "list_all encodable (concat rss)" and "small_records (concat rss)"
proof -
  have "list_all encodable rs \<and> small_records rs" if rs: "rs \<in> set rss" for rs
  proof -
    obtain ss s crs as where "rss = crs @ [as]" "list_all2 (seg_state d) ss crs" "seg_state d s as"
      using assms unfolding part_inv_def by blast
    then have all: "list_all2 (seg_state d) (ss @ [s]) rss" by (simp add: list_all2_appendI)
    obtain i where i: "i < length rss" "rss ! i = rs" using rs unfolding in_set_conv_nth by blast
    have "seg_state d ((ss @ [s]) ! i) rs" using list_all2_nthD2 [OF all i(1)] i(2) by simp
    then show ?thesis using seg_invD(6) by (auto simp: seg_state_def segment_records_def)
  qed
  then show "list_all encodable (concat rss)" "small_records (concat rss)"
    by (auto simp: list_all_iff small_records_def)
qed

text \<open>A write to the files of one segment keeps the others.\<close>

lemma seg_state_other:
  assumes "seg_state d s rs" and "same_files_but (seg_files t) d d'" and "baseOffset s \<noteq> baseOffset t"
  shows "seg_state d' s rs"
  using assms by (simp add: seg_state_def seg_inv_def index_file_ok_def same_files_but_def)

lemma seg_states_other:
  assumes "list_all2 (seg_state d) ss rss" and "same_files_but (seg_files t) d d'"
    and "baseOffset t \<notin> baseOffset ` set ss"
  shows "list_all2 (seg_state d') ss rss"
  using assms(1,3)
  by (induction rule: list_all2_induct) (auto intro: seg_state_other [OF _ assms(2)])

lemma own_files_write:
  assumes "own_files d ss" and "same_files_but (seg_files t) d d'"
    and "set (map baseOffset ss) \<subseteq> set (map baseOffset us)" and "baseOffset t \<in> set (map baseOffset us)"
  shows "own_files d' us"
  unfolding own_files_def
proof (intro allI impI)
  fix b assume e: "exists_file d' (segmentLogName b) \<or> exists_file d' (segmentIndexName b)"
  show "b \<in> set (map baseOffset us)"
  proof (cases "b = baseOffset t")
    case False
    then have "exists_file d (segmentLogName b) \<or> exists_file d (segmentIndexName b)"
      using e assms(2) by (simp add: same_files_but_def)
    with assms(1,3) show ?thesis unfolding own_files_def by blast
  qed (use assms(4) in simp)
qed

section \<open>Append\<close>

definition layout_positions :: "nat \<Rightarrow> Record list \<Rightarrow> recordPos list" where
  "layout_positions p rs = map (\<lambda>(r, p, n). \<lparr>rp_offset = Offset r, rp_pos = p, rp_size = n\<rparr>) (layout p rs)"

lemma raiseMaxTs_eq: "raiseMaxTs (TimestampMs r) s = s\<lparr>maxTs := ts_max (maxTs s) [r]\<rparr>"
  by (simp add: raiseMaxTs_def)

lemma encodeBatch_ok:
  assumes "list_all2 (\<lambda>(i, r) n. prep i r = Inr n) (zip [k ..< k + length rs] rs) ns" and "list_all encodable ns"
  shows "encodeBatch prep k rs (buf, ps) s =
    (Inr (buf @ enc_all ns, ps @ layout_positions (length buf) ns), s\<lparr>maxTs := ts_max (maxTs s) ns\<rparr>)"
  using assms
proof (induction rs arbitrary: k ns buf ps s)
  case (Cons r rs)
  have "zip [k ..< k + length (r # rs)] (r # rs) = (k, r) # zip [Suc k ..< Suc k + length rs] rs"
    by (simp add: upt_conv_Cons del: upt_Suc)
  with Cons.prems obtain n ns' where ns: "ns = n # ns'" "prep k r = Inr n"
    "list_all2 (\<lambda>(i, r) n. prep i r = Inr n) (zip [Suc k ..< Suc k + length rs] rs) ns'"
    by (auto simp: list_all2_Cons1)
  with Cons.prems(2) Cons.IH [OF ns(3), of "buf @ enc n"] show ?case
    by (simp add: EncodeRecord_eq raiseMaxTs_eq layout_positions_def Let_def del: upt_Suc)
qed (simp add: layout_positions_def)

lemma layout_positions_batch: "layout_positions 0 rs = batch_positions rs"
  by (simp add: layout_positions_def batch_positions_def)

lemma seg_inv_maxTs [simp]: "seg_inv d (s\<lparr>maxTs := t\<rparr>) rs = seg_inv d s rs"
  and index_file_ok_maxTs [simp]: "index_file_ok d (s\<lparr>maxTs := t\<rparr>) = index_file_ok d s"
  by (simp_all add: seg_inv_def index_file_ok_def)

text \<open>
  Writing a batch at the end of the active segment. The batch is what the
  preparation step makes of the records; it must continue the offsets.
\<close>

definition batch_fits :: "Partition \<Rightarrow> Record list list \<Rightarrow> Record list \<Rightarrow> bool" where
  "batch_fits p rss ns \<longleftrightarrow> list_all encodable ns \<and> small_records ns \<and>
     map roff ns = [unat (nextOffset p) ..< unat (nextOffset p) + length ns] \<and>
     unat (nextOffset p) + length ns < 2 ^ 64 \<and>
     unat (nextOffset p) + length ns < unat (baseOffset (last (segments p))) + 2 ^ 32 \<and>
     length (enc_all (last rss)) + length (enc_all ns) < 2 ^ 32"

lemma appendActive_ok:
  assumes nf: "no_faults rt" and inv: "part_inv p d rss" and fits: "batch_fits p rss ns"
    and prep: "list_all2 (\<lambda>(i, r) n. prep i r = Inr n) (zip [0 ..< length rs] rs) ns"
  obtains p' d' where "appendActive rt prep rs (p, d) = (Inr (), p', d')"
    and "part_inv p' d' (butlast rss @ [last rss @ ns])"
    and "nextOffset p' = nextOffset p + of_nat (length rs)" and "closed p' = closed p"
    and "gapsAllowed p' = gapsAllowed p" and "p_opts p' = p_opts p" and "dirty p'"
    and "map baseOffset (segments p') = map baseOffset (segments p)"
proof -
  from inv obtain ss s crs as where segs: "segments p = ss @ [s]" "rss = crs @ [as]"
    and closed: "list_all2 (seg_state d) ss crs" and act: "seg_state d s as"
    and ch: "chain (gapsAllowed p) ss crs (unat (baseOffset s))"
    and rng: "range_ok (gapsAllowed p) (unat (baseOffset s)) as (unat (nextOffset p))"
    and own: "own_files d (segments p)"
    unfolding part_inv_def by blast
  have len: "length rs = length ns" using prep by (auto dest: list_all2_lengthD)
  define s1 where "s1 = s\<lparr>maxTs := ts_max (maxTs s) ns\<rparr>"
  have enc: "encodeBatch prep 0 rs ([], []) s = (Inr (enc_all ns, batch_positions ns), s1)"
    using encodeBatch_ok [of prep 0 rs ns "[]" "[]" s] prep fits
    by (simp add: layout_positions_batch s1_def batch_fits_def)
  have s1: "seg_inv d s1 as" "index_file_ok d s1" "small_records as" "baseOffset s1 = baseOffset s"
    using act by (simp_all add: s1_def seg_state_def)
  have seg_ns: "segment_records (baseOffset s1) (as @ ns)"
  proof -
    have a: "segment_records (baseOffset s) as" using seg_invD(6) [OF s1(1)] s1(4) by simp
    have n: "\<forall>r \<in> set ns. unat (nextOffset p) \<le> roff r \<and> roff r < unat (nextOffset p) + length ns"
      using fits by (auto simp: batch_fits_def dest: offsets_range)
    have "increasing ns" using fits by (auto simp: batch_fits_def intro: offsets_increasing)
    with a n rng fits segs show ?thesis
      by (fastforce simp: segment_records_def s1(4) increasing_append range_ok_def batch_fits_def)
  qed
  obtain s2 d2 where app: "seg_append rt (enc_all ns) (batch_positions ns) (s1, d) = (Inr (), s2, d2)"
    and s2: "seg_inv d2 s2 (as @ ns)" "index_file_ok d2 s2" "same_files_but (seg_files s1) d d2"
      "baseOffset s2 = baseOffset s1"
    using seg_append_ok [OF nf s1(1,2) seg_ns] by metis
  define p' where "p' = noteAppended (length rs) (setActive s2 p)"
  have "appendActive rt prep rs (p, d) = (Inr (), p', d2)"
    by (simp add: appendActive_def segs enc app p'_def)
  moreover have p': "segments p' = ss @ [s2]" "nextOffset p' = nextOffset p + of_nat (length rs)"
    "closed p' = closed p" "gapsAllowed p' = gapsAllowed p" "p_opts p' = p_opts p" "dirty p'"
    by (simp_all add: p'_def noteAppended_def setActive_def segs Let_def)
  moreover have "part_inv p' d2 (crs @ [as @ ns])"
    unfolding part_inv_def
  proof (intro exI conjI)
    show "segments p' = ss @ [s2]" "crs @ [as @ ns] = crs @ [as @ ns]" using p' by simp_all
    have "baseOffset s \<notin> baseOffset ` set ss" using chain_bases [OF ch] by fastforce
    then show "list_all2 (seg_state d2) ss crs"
      using seg_states_other [OF closed s2(3)] s1(4) by simp
    show "seg_state d2 s2 (as @ ns)" using s2 s1(3) fits by (simp add: seg_state_def batch_fits_def)
    show "chain (gapsAllowed p') ss crs (unat (baseOffset s2))" using ch p' s2(4) s1(4) by simp
    have next': "unat (nextOffset p') = unat (nextOffset p) + length ns"
      using p'(2) len unat_add_of_nat fits by (simp add: batch_fits_def)
    have b: "unat (baseOffset s) \<le> unat (nextOffset p)" using rng by (simp add: range_ok_def)
    have up: "[unat (baseOffset s) ..< unat (nextOffset p)] @ [unat (nextOffset p) ..< unat (nextOffset p) + length ns]
        = [unat (baseOffset s) ..< unat (nextOffset p) + length ns]"
      using upt_add_eq_append [OF b, of "length ns"] by simp
    have "roff r < unat (nextOffset p) + length ns" if "r \<in> set ns" for r
      using fits that by (auto simp: batch_fits_def dest: offsets_range)
    then show "range_ok (gapsAllowed p') (unat (baseOffset s2)) (as @ ns) (unat (nextOffset p'))"
      unfolding next' p'(4) s2(4) s1(4) using rng fits up segs by (auto simp: range_ok_def batch_fits_def)
    show "own_files d2 (segments p')"
      by (rule own_files_write [OF own s2(3)]) (auto simp: p' segs s1(4) s2(4))
  qed
  ultimately show thesis using that [of p' d2] segs s2(4) s1(4) by simp
qed

lemma part_invD:
  assumes "part_inv p d rss"
  shows "segments p \<noteq> []" and "length (segments p) = length rss"
    and "list_all2 (seg_state d) (segments p) rss"
    and "sorted_wrt (\<lambda>a b. unat (baseOffset a) < unat (baseOffset b)) (segments p)"
    and "own_files d (segments p)" and "unat (baseOffset (last (segments p))) \<le> unat (nextOffset p)"
proof -
  from assms obtain ss s crs rs where segs: "segments p = ss @ [s]" "rss = crs @ [rs]"
    and "list_all2 (seg_state d) ss crs" "seg_state d s rs"
    and ch: "chain (gapsAllowed p) ss crs (unat (baseOffset s))"
    and "range_ok (gapsAllowed p) (unat (baseOffset s)) rs (unat (nextOffset p))" "own_files d (segments p)"
    unfolding part_inv_def by blast
  then show "segments p \<noteq> []" "own_files d (segments p)" "list_all2 (seg_state d) (segments p) rss"
    "unat (baseOffset (last (segments p))) \<le> unat (nextOffset p)"
    by (auto simp: range_ok_def intro: list_all2_appendI)
  then show "length (segments p) = length rss" by (auto dest: list_all2_lengthD)
  show "sorted_wrt (\<lambda>a b. unat (baseOffset a) < unat (baseOffset b)) (segments p)"
    using chain_sorted [OF ch] chain_bases [OF ch] by (simp add: segs sorted_wrt_append)
qed

lemma full_fresh:
  assumes inv: "part_inv p d rss" and max: "0 < MaxSegmentBytes (p_opts p)"
    and full: "MaxSegmentBytes (p_opts p) \<le> int (segSize (last (segments p)))"
  shows "unat (baseOffset (last (segments p))) < unat (nextOffset p)"
    and "nextOffset p \<notin> set (map baseOffset (segments p))"
proof -
  from inv obtain ss s crs as where segs: "segments p = ss @ [s]"
    and act: "seg_state d s as" and ch: "chain (gapsAllowed p) ss crs (unat (baseOffset s))"
    and rng: "range_ok (gapsAllowed p) (unat (baseOffset s)) as (unat (nextOffset p))"
    unfolding part_inv_def by blast
  have "segSize s = length (enc_all as)" using act seg_invD(3) by (auto simp: seg_state_def)
  with max full segs have "as \<noteq> []" by auto
  then obtain r where r: "r \<in> set as" by (cases as) auto
  have "unat (baseOffset s) \<le> roff r"
    using seg_invD(6) act r by (auto simp: seg_state_def segment_records_def)
  with rng r have lt: "unat (baseOffset s) < unat (nextOffset p)" by (auto simp: range_ok_def)
  then show "unat (baseOffset (last (segments p))) < unat (nextOffset p)" using segs by simp
  show "nextOffset p \<notin> set (map baseOffset (segments p))"
    using lt chain_bases [OF ch] segs by fastforce
qed

lemma rotate_ok:
  assumes nf: "no_faults rt" and inv: "part_inv p d rss" and max: "0 < MaxSegmentBytes (p_opts p)"
  obtains p' d' rss' where "rotate rt (p, d) = (Inr (), p', d')" and "part_inv p' d' rss'"
    and "concat rss' = concat rss" and "nextOffset p' = nextOffset p" and "closed p' = closed p"
    and "gapsAllowed p' = gapsAllowed p" and "p_opts p' = p_opts p"
    and "int (length (enc_all (last rss'))) < MaxSegmentBytes (p_opts p)"
    and "baseOffset (last (segments p')) = nextOffset p \<or> (segments p' = segments p \<and> rss' = rss)"
    and "FirstOffset p' = FirstOffset p"
proof -
  from inv obtain ss s crs as where segs: "segments p = ss @ [s]" "rss = crs @ [as]"
    and closed: "list_all2 (seg_state d) ss crs" and act: "seg_state d s as"
    and ch: "chain (gapsAllowed p) ss crs (unat (baseOffset s))"
    and rng: "range_ok (gapsAllowed p) (unat (baseOffset s)) as (unat (nextOffset p))"
    and own: "own_files d (segments p)"
    unfolding part_inv_def by blast
  have sz: "segSize s = length (enc_all as)" using act seg_invD(3) by (auto simp: seg_state_def)
  show thesis
  proof (cases "MaxSegmentBytes (p_opts p) \<le> int (segSize s)")
    case True
    then have lt: "unat (baseOffset s) < unat (nextOffset p)" and fresh: "nextOffset p \<notin> set (map baseOffset (segments p))"
      using full_fresh [OF inv max] segs by simp_all
    obtain ns d' where o: "openSegment rt (nextOffset p) (IndexIntervalBytes (p_opts p)) d = (Inr ns, d')"
      and ns: "baseOffset ns = nextOffset p" "seg_inv d' ns []" "index_file_ok d' ns" "same_files_but (seg_files ns) d d'"
      using openSegment_new [OF nf, of d "nextOffset p"] own fresh unfolding own_files_def by metis
    define p' where "p' = p\<lparr>segments := segments p @ [ns]\<rparr>"
    have "rotate rt (p, d) = (Inr (), p', d')"
      using True by (simp add: rotate_def segs o p'_def)
    moreover have "part_inv p' d' (rss @ [[]])"
      unfolding part_inv_def
    proof (intro exI conjI)
      show "segments p' = (ss @ [s]) @ [ns]" "rss @ [[]] = (crs @ [as]) @ [[]]"
        using segs by (simp_all add: p'_def)
      have "list_all2 (seg_state d) (ss @ [s]) (crs @ [as])" using closed act by (auto intro: list_all2_appendI)
      then show "list_all2 (seg_state d') (ss @ [s]) (crs @ [as])"
        by (rule seg_states_other [OF _ ns(4)]) (use fresh segs ns(1) in auto)
      show "seg_state d' ns []" using ns by (simp add: seg_state_def)
      show "chain (gapsAllowed p') (ss @ [s]) (crs @ [as]) (unat (baseOffset ns))"
        using ch lt rng ns(1) chain_lengths [OF ch] by (simp add: p'_def chain_snoc)
      show "range_ok (gapsAllowed p') (unat (baseOffset ns)) [] (unat (nextOffset p'))"
        by (simp add: range_ok_def p'_def ns)
      show "own_files d' (segments p')"
        by (rule own_files_write [OF own ns(4)]) (auto simp: p'_def)
    qed
    ultimately show thesis using that [of p' d' "rss @ [[]]"] max ns(1) segs by (simp add: p'_def FirstOffset_def hd_append)
  next
    case False
    then have "rotate rt (p, d) = (Inr (), p, d)" by (simp add: rotate_def segs)
    then show thesis using that [of p d rss] inv False sz segs by simp
  qed
qed

text \<open>
  The limits of the format: index positions and relative offsets are 32 bits wide,
  offsets 64. A segment may pass \<open>MaxSegmentBytes\<close> by one batch.
\<close>

definition within_limits :: "Partition \<Rightarrow> Record list \<Rightarrow> bool" where
  "within_limits p rs \<longleftrightarrow> list_all encodable rs \<and> small_records rs \<and> 0 < MaxSegmentBytes (p_opts p) \<and>
     MaxSegmentBytes (p_opts p) + int (length (enc_all rs)) < 2 ^ 32 \<and>
     unat (nextOffset p) + length rs < 2 ^ 64 \<and>
     unat (nextOffset p) + length rs < unat (baseOffset (last (segments p))) + 2 ^ 32"

definition stampAll :: "u64 \<Rightarrow> i64 \<Rightarrow> Record list \<Rightarrow> Record list" where
  "stampAll base now rs = map (\<lambda>(i, r). stampRecord base now i r) (zip [0 ..< length rs] rs)"

lemma length_enc_stamp [simp]: "length (enc (stampRecord b now i r)) = length (enc r)"
  by (simp add: enc_def enc_body_def stampRecord_def)

lemma encodable_stamp [simp]: "encodable (stampRecord b now i r) = encodable r"
  by (simp add: encodable_def stampRecord_def)

lemma length_stampAll [simp]: "length (stampAll b now rs) = length rs"
  by (simp add: stampAll_def)

lemma stampAll_nth: "i < length rs \<Longrightarrow> stampAll b now rs ! i = stampRecord b now i (rs ! i)"
  by (simp add: stampAll_def)

lemma list_all_stampAll:
  "(\<And>i r. P (stampRecord b now i r) = P r) \<Longrightarrow> list_all P (stampAll b now rs) = list_all P rs"
  by (simp add: list_all_length stampAll_nth)

lemma length_enc_all_sum: "length (enc_all rs) = sum_list (map (\<lambda>r. length (enc r)) rs)"
  by (induction rs) auto

lemma length_enc_stampAll [simp]: "length (enc_all (stampAll b now rs)) = length (enc_all rs)"
proof -
  have "map (\<lambda>r. length (enc r)) (stampAll b now rs) = map (\<lambda>r. length (enc r)) rs"
    by (rule nth_equalityI) (simp_all add: stampAll_nth)
  then show ?thesis by (simp only: length_enc_all_sum)
qed

lemma stampAll_offsets:
  assumes "unat b + length rs < 2 ^ 64"
  shows "map roff (stampAll b now rs) = [unat b ..< unat b + length rs]"
proof (rule nth_equalityI)
  fix i assume "i < length (map roff (stampAll b now rs))"
  with assms show "map roff (stampAll b now rs) ! i = [unat b ..< unat b + length rs] ! i"
    by (simp add: stampAll_nth stampRecord_def unat_add_of_nat)
qed simp

lemma Append_ok:
  assumes nf: "no_faults rt" and inv: "part_inv p d rss" and "\<not> closed p" and "rs \<noteq> []" and lim: "within_limits p rs"
  obtains p' d' rss' where "Append rt now rs (p, d) = (Inr (nextOffset p), p', d')" and "part_inv p' d' rss'"
    and "concat rss' = concat rss @ stampAll (nextOffset p) now rs"
    and "nextOffset p' = nextOffset p + of_nat (length rs)" and "\<not> closed p'" and "p_opts p' = p_opts p"
    and "gapsAllowed p' = gapsAllowed p" and "dirty p'" and "FirstOffset p' = FirstOffset p"
proof -
  let ?ns = "stampAll (nextOffset p) now rs"
  have max: "0 < MaxSegmentBytes (p_opts p)" using lim by (simp add: within_limits_def)
  obtain q e qss where rot: "rotate rt (p, d) = (Inr (), q, e)" and q: "part_inv q e qss" "concat qss = concat rss"
    "nextOffset q = nextOffset p" "closed q = closed p" "gapsAllowed q = gapsAllowed p" "p_opts q = p_opts p"
    "int (length (enc_all (last qss))) < MaxSegmentBytes (p_opts p)"
    "baseOffset (last (segments q)) = nextOffset p \<or> (segments q = segments p \<and> qss = rss)"
    "FirstOffset q = FirstOffset p"
    using rotate_ok [OF nf inv max] .
  have "length rs < 2 ^ 32" using lim length_enc_all_ge [of rs] by (auto simp: within_limits_def)
  then have fits: "batch_fits q qss ?ns"
    using lim q(3,7,8) unfolding batch_fits_def within_limits_def
    by (auto simp: stampAll_offsets list_all_stampAll small_records_def)
  have prep: "list_all2 (\<lambda>(i, r) n. Inr (stampRecord (nextOffset p) now i r) = (Inr n :: storage_error + Record))
      (zip [0 ..< length rs] rs) ?ns"
    by (simp add: list_all2_conv_all_nth stampAll_nth)
  obtain p' d' where app: "appendActive rt (\<lambda>i r. Inr (stampRecord (nextOffset p) now i r)) rs (q, e) = (Inr (), p', d')"
    and p': "part_inv p' d' (butlast qss @ [last qss @ ?ns])" "nextOffset p' = nextOffset q + of_nat (length rs)"
      "closed p' = closed q" "gapsAllowed p' = gapsAllowed q" "p_opts p' = p_opts q" "dirty p'"
      "map baseOffset (segments p') = map baseOffset (segments q)"
    using appendActive_ok [OF nf q(1) fits prep] by metis
  have "FirstOffset p' = FirstOffset p"
    using p'(7) q(9) by (metis FirstOffset_def hd_map list.map_disc_iff)
  have "Append rt now rs (p, d) = (Inr (nextOffset p), p', d')"
    using assms(3,4) by (simp add: Append_def bindR_def rot app del: bindR_simps)
  moreover have "qss \<noteq> []" using q(1) by (auto simp: part_inv_def)
  then have "concat (butlast qss @ [last qss @ ?ns]) = concat rss @ ?ns"
    unfolding q(2) [symmetric] by (metis (no_types, lifting) append.assoc append_butlast_last_id concat.simps concat_append append_Nil2)
  ultimately show thesis using that p' q assms(3) \<open>FirstOffset p' = FirstOffset p\<close> by simp
qed

section \<open>Append under faults\<close>

text \<open>The calls that read leave every file as it is, whatever fails.\<close>

definition keeps_content :: "(disk, 'a) res \<Rightarrow> bool" where
  "keeps_content m \<longleftrightarrow> (\<forall>d. content (snd (m d)) = content d)"

lemma keeps_contentD: "keeps_content m \<Longrightarrow> content (snd (m d)) = content d"
  by (simp add: keeps_content_def)

lemma keeps_content_bind:
  "keeps_content m \<Longrightarrow> (\<And>a. keeps_content (f a)) \<Longrightarrow> keeps_content (bindR m f)"
  by (auto simp: keeps_content_def bindR_def split: prod.splits sum.splits) (metis snd_conv)+

lemma keeps_content_call_ok: "(\<And>d. content (snd (m d)) = content d) \<Longrightarrow> keeps_content (call_ok rt m)"
  by (simp add: keeps_content_def call_ok_def call_def split: option.split)

lemma keeps_content_calls:
  "keeps_content (returnR a)" "keeps_content (failR e)" "keeps_content (OpenFile rt n)"
  "keeps_content (FileSize rt n)" "keeps_content (ReadAll rt n)" "keeps_content (ReadAt rt n k pos)"
  "keeps_content (Seek rt n)" "keeps_content (CloseFile rt n)" "keeps_content (Sync rt n)"
  unfolding OpenFile_def FileSize_def ReadAll_def ReadAt_def Seek_def CloseFile_def Sync_def
  by (rule keeps_content_call_ok, simp add: content_no_file fun_eq_iff | simp add: keeps_content_def)+

lemma keeps_content_loadIndex: "keeps_content (loadIndex rt s)"
proof -
  have v: "keeps_content (validateFrom rt s p es)" for p es
    by (induction es arbitrary: p)
      (auto simp: Let_def keeps_content_calls intro!: keeps_content_bind)
  then show ?thesis
    unfolding loadIndex_def validateEntries_def Let_def
    by (intro keeps_content_bind keeps_content_calls) (simp add: keeps_content_calls keeps_content_bind)
qed

lemma FileSize_result: "FileSize rt n d = (Inr z, d') \<Longrightarrow> z = length (content d n)"
  by (auto simp: FileSize_def call_ok_def call_def split: option.splits)

lemma keeps_content_eq: "keeps_content m \<Longrightarrow> m d = (r, d') \<Longrightarrow> content d' = content d"
  by (metis keeps_contentD snd_conv)

lemma openSegment_faults:
  assumes "openSegment rt base iv d = (r, d')"
  shows "content d' = content d" and "r = Inr s \<Longrightarrow> baseOffset s = base \<and> segSize s = length (content d (segmentLogName base))"
proof -
  obtain r1 d1 where 1: "OpenFile rt (segmentLogName base) d = (r1, d1)" by fastforce
  obtain r2 d2 where 2: "OpenFile rt (segmentIndexName base) d1 = (r2, d2)" by fastforce
  obtain r3 d3 where 3: "FileSize rt (segmentLogName base) d2 = (r3, d3)" by fastforce
  note c1 = keeps_content_eq [OF keeps_content_calls(3) 1] and c2 = keeps_content_eq [OF keeps_content_calls(3) 2]
    and c3 = keeps_content_eq [OF keeps_content_calls(4) 3]
  note close = keeps_contentD [OF keeps_content_calls(8)]
  have "content d' = content d \<and> (\<forall>s. r = Inr s \<longrightarrow> baseOffset s = base \<and> segSize s = length (content d (segmentLogName base)))"
  proof (cases "isl r1 \<or> isl r2 \<or> isl r3")
    case True
    then show ?thesis
      using assms c1 c2 c3 close
      by (cases r1; cases r2; cases r3) (auto simp: openSegment_def bindR_def 1 2 3 simp del: bindR_simps)
  next
    case False
    then obtain z where r: "r1 = Inr ()" "r2 = Inr ()" "r3 = Inr z"
      by (cases r1; cases r2; cases r3) auto
    define s0 where "s0 = \<lparr>baseOffset = base, segSize = z, entries = [], maxTs = (if 0 < z then modTimeMs rt (ops d3) else 0),
      indexInterval = iv, bytesSinceIndex = 0\<rparr>"
    obtain r4 d4 where 4: "loadIndex rt s0 d3 = (r4, d4)" by fastforce
    have c4: "content d4 = content d3" by (rule keeps_content_eq [OF keeps_content_loadIndex 4])
    have z: "z = length (content d (segmentLogName base))"
      using FileSize_result [of rt "segmentLogName base" d2 z d3] 3 r(3) c1 c2 by simp
    have "openSegment rt base iv d = (case r4 of Inl _ \<Rightarrow> (Inr (s0\<lparr>entries := []\<rparr>), d4) | Inr es \<Rightarrow> (Inr (s0\<lparr>entries := es\<rparr>), d4))"
      using 4 r by (simp add: openSegment_def bindR_def 1 2 3 Let_def s0_def del: bindR_simps split: sum.split)
    with assms c1 c2 c3 c4 z show ?thesis by (auto simp: s0_def split: sum.splits)
  qed
  then show "content d' = content d" and "r = Inr s \<Longrightarrow> baseOffset s = base \<and> segSize s = length (content d (segmentLogName base))"
    by blast+
qed

text \<open>A failed append to a segment changes neither its size nor the bytes below it.\<close>

definition visible :: "disk \<Rightarrow> segment \<Rightarrow> bytes" where
  "visible d s = take (segSize s) (content d (segmentLogName (baseOffset s)))"

lemma WriteAt_faults:
  assumes "WriteAt rt n data pos d = (r, d')"
  shows "m \<noteq> n \<Longrightarrow> content d' m = content d m"
    and "k \<le> pos \<Longrightarrow> k \<le> length (content d n) \<Longrightarrow> take k (content d' n) = take k (content d n)"
  using assms by (auto simp: WriteAt_def call_def overwrite_prefix split: option.splits)

lemma indexRecord_faults:
  assumes "indexRecord rt rp (s, d) = (r, s', d')"
  shows "baseOffset s' = baseOffset s \<and> segSize s' = segSize s \<and>
    (\<forall>b. content d' (segmentLogName b) = content d (segmentLogName b))"
proof (cases "indexInterval s \<le> int (bytesSinceIndex s)")
  case True
  let ?e = "\<lparr>relOffset = ucast (rp_offset rp - baseOffset s), position = of_nat (segSize s + rp_pos rp)\<rparr>"
  obtain r1 d1 where w: "WriteAt rt (segmentIndexName (baseOffset s)) (encodeEntry ?e)
      (length (entries s) * indexEntrySize) d = (r1, d1)" by fastforce
  from WriteAt_faults(1) [OF w] have "content d1 (segmentLogName b) = content d (segmentLogName b)" for b by simp
  with assms w True show ?thesis
    by (cases r1) (auto simp: indexRecord_def writeIndexEntry_def bindR_def on_snd_def simp del: bindR_simps)
next
  case False
  with assms show ?thesis by (auto simp: indexRecord_def bindR_def simp del: bindR_simps)
qed

lemma forR_indexRecord_faults:
  "forR rps (indexRecord rt) (s, d) = (r, s', d') \<Longrightarrow>
   baseOffset s' = baseOffset s \<and> segSize s' = segSize s \<and>
   (\<forall>b. content d' (segmentLogName b) = content d (segmentLogName b))"
proof (induction rps arbitrary: s d)
  case (Cons rp rps)
  obtain r1 s1 d1 where 1: "indexRecord rt rp (s, d) = (r1, s1, d1)" by (metis prod_cases3)
  note i = indexRecord_faults [OF 1]
  show ?case
  proof (cases r1)
    case (Inl e)
    then show ?thesis using Cons.prems 1 i by (simp add: bindR_def del: bindR_simps)
  next
    case (Inr u)
    then have "forR rps (indexRecord rt) (s1, d1) = (r, s', d')"
      using Cons.prems 1 by (simp add: bindR_def del: bindR_simps)
    from Cons.IH [OF this] i show ?thesis by simp
  qed
qed simp

lemma seg_append_faults:
  assumes "seg_append rt data rps (s, d) = (Inl e, s', d')"
    and le: "segSize s \<le> length (content d (segmentLogName (baseOffset s)))"
  shows "baseOffset s' = baseOffset s \<and> segSize s' = segSize s \<and> visible d' s' = visible d s"
    and "b \<noteq> baseOffset s \<Longrightarrow> content d' (segmentLogName b) = content d (segmentLogName b)"
proof -
  let ?log = "segmentLogName (baseOffset s)"
  obtain r1 d1 where w: "WriteAt rt ?log data (segSize s) d = (r1, d1)" by fastforce
  have w1: "b \<noteq> baseOffset s \<Longrightarrow> content d1 (segmentLogName b) = content d (segmentLogName b)" for b
    using WriteAt_faults(1) [OF w] by simp
  have w2: "take (segSize s) (content d1 ?log) = take (segSize s) (content d ?log)"
    using WriteAt_faults(2) [OF w _ le] by simp
  obtain r2 s2 d2 where f: "forR rps (indexRecord rt) (s, d1) = (r2, s2, d2)" by (metis prod_cases3)
  note i = forR_indexRecord_faults [OF f]
  have "(s', d') = (s, d1) \<or> (s', d') = (s2, d2)"
    using assms(1) by (cases r1; cases r2) (auto simp: seg_append_def bindR_def on_snd_def w f simp del: bindR_simps)
  then show "baseOffset s' = baseOffset s \<and> segSize s' = segSize s \<and> visible d' s' = visible d s"
    and "b \<noteq> baseOffset s \<Longrightarrow> content d' (segmentLogName b) = content d (segmentLogName b)"
    using w1 w2 i by (auto simp: visible_def)
qed

lemma maxTs_same [simp]: "\<exists>t. s = s\<lparr>maxTs := t\<rparr>"
  by (rule exI [of _ "maxTs s"]) simp

lemma encodeBatch_state: "encodeBatch prep i rs acc s = (r, s') \<Longrightarrow> \<exists>t. s' = s\<lparr>maxTs := t\<rparr>"
proof (induction prep i rs acc s rule: encodeBatch.induct)
  case (1 prep i acc s)
  then show ?case by auto
next
  case (2 prep i x rs acc s)
  show ?case
  proof (cases "prep i x")
    case (Inl e)
    then show ?thesis using "2.prems" by auto
  next
    case (Inr rec)
    then show ?thesis
      using "2.prems" "2.IH" [OF Inr refl]
      by (cases "EncodeRecord (fst acc) rec") (auto simp: Let_def raiseMaxTs_eq)
  qed
qed

lemma appendActive_faults:
  assumes "appendActive rt prep rs (p, d) = (Inl e, p', d')" and ne: "segments p \<noteq> []"
    and le: "segSize (last (segments p)) \<le> length (content d (segmentLogName (baseOffset (last (segments p)))))"
    and dist: "baseOffset (last (segments p)) \<notin> baseOffset ` set (butlast (segments p))"
  shows "map (visible d') (segments p') = map (visible d) (segments p) \<and> nextOffset p' = nextOffset p"
proof -
  let ?s = "last (segments p)"
  obtain r1 s1 where 1: "encodeBatch prep 0 rs ([], []) ?s = (r1, s1)" by fastforce
  obtain t where t: "s1 = ?s\<lparr>maxTs := t\<rparr>" using encodeBatch_state [OF 1] by blast
  have split: "map f (segments p) = map f (butlast (segments p)) @ [f ?s]" for f :: "segment \<Rightarrow> bytes"
    using ne by (metis append_butlast_last_id list.simps(8) list.simps(9) map_append)
  show ?thesis
  proof (cases r1)
    case (Inl x)
    then show ?thesis using assms(1) t by (auto simp: appendActive_def 1 setActive_def split visible_def)
  next
    case (Inr bp)
    obtain buf ps where bp: "bp = (buf, ps)" by fastforce
    obtain r2 s2 d2 where 2: "seg_append rt buf ps (s1, d) = (r2, s2, d2)" by (metis prod_cases3)
    from assms(1) Inr bp obtain x where x: "r2 = Inl x" "p' = setActive s2 p" "d' = d2"
      by (cases r2) (auto simp: appendActive_def 1 2)
    have le1: "segSize s1 \<le> length (content d (segmentLogName (baseOffset s1)))" using le t by simp
    note f = seg_append_faults [OF 2 [unfolded x] le1]
    have "visible d2 u = visible d u" if "u \<in> set (butlast (segments p))" for u
    proof -
      have "baseOffset u \<noteq> baseOffset ?s" using dist that by (metis imageI)
      with f(2) [of "baseOffset u"] t show ?thesis by (simp add: visible_def)
    qed
    with f(1) t x show ?thesis by (simp add: setActive_def split) (simp add: visible_def)
  qed
qed

lemma visible_seg_state: "seg_state d s rs \<Longrightarrow> visible d s = enc_all rs"
  using seg_invD by (auto simp: seg_state_def visible_def)

lemma visible_part_inv:
  assumes "part_inv p d rss" shows "map (visible d) (segments p) = map enc_all rss"
  using part_invD(3) [OF assms] by (induction rule: list_all2_induct) (auto simp: visible_seg_state)

lemma concat_map_enc_all: "concat (map enc_all rss) = enc_all (concat rss)"
  by (induction rss) auto

lemma rotate_faults:
  assumes "rotate rt (p, d) = (r, p', d')" and inv: "part_inv p d rss" and max: "0 < MaxSegmentBytes (p_opts p)"
  shows "content d' = content d" and "nextOffset p' = nextOffset p" and "segments p' \<noteq> []"
    and "segments p' = segments p \<or> (\<exists>ns. segments p' = segments p @ [ns] \<and> segSize ns = 0 \<and>
      baseOffset ns = nextOffset p \<and> nextOffset p \<notin> baseOffset ` set (segments p))"
proof -
  note i = part_invD [OF inv]
  obtain r1 d1 where o: "openSegment rt (nextOffset p) (IndexIntervalBytes (p_opts p)) d = (r1, d1)" by fastforce
  note f = openSegment_faults [OF o]
  have fresh: "nextOffset p \<notin> baseOffset ` set (segments p) \<and> content d (segmentLogName (nextOffset p)) = []"
    if full: "MaxSegmentBytes (p_opts p) \<le> int (segSize (last (segments p)))"
    using full_fresh(2) [OF inv max full] i(5) content_no_file unfolding own_files_def by auto
  show "content d' = content d" "nextOffset p' = nextOffset p" "segments p' \<noteq> []"
    using assms(1) i(1) f(1) by (auto simp: rotate_def o split: if_splits sum.splits)
  show "segments p' = segments p \<or> (\<exists>ns. segments p' = segments p @ [ns] \<and> segSize ns = 0 \<and>
      baseOffset ns = nextOffset p \<and> nextOffset p \<notin> baseOffset ` set (segments p))"
    using assms(1) i(1) f(2) fresh by (auto simp: rotate_def o split: if_splits sum.splits)
qed

lemma Append_faults:
  assumes app: "Append rt now rs (p, d) = (Inl e, p', d')" and inv: "part_inv p d rss"
    and max: "0 < MaxSegmentBytes (p_opts p)"
  shows "concat (map (visible d') (segments p')) = enc_all (concat rss) \<and> nextOffset p' = nextOffset p"
proof -
  note i = part_invD [OF inv]
  have vis: "concat (map (visible d) (segments p)) = enc_all (concat rss)"
    by (simp add: visible_part_inv [OF inv] concat_map_enc_all)
  obtain r1 q e1 where rot: "rotate rt (p, d) = (r1, q, e1)" by (metis prod_cases3)
  note f = rotate_faults [OF rot inv max]
  have same: "visible e1 = visible d" using f(1) by (simp add: visible_def fun_eq_iff)
  have empty: "segSize u = 0 \<Longrightarrow> visible d u = []" for u by (simp add: visible_def)
  have qvis: "concat (map (visible e1) (segments q)) = enc_all (concat rss)"
    using f(4) vis empty by (auto simp: same)
  have le: "segSize u \<le> length (content e1 (segmentLogName (baseOffset u)))" if "u \<in> set (segments q)" for u
  proof -
    have "segSize v \<le> length (content d (segmentLogName (baseOffset v)))" if v: "v \<in> set (segments p)" for v
    proof -
      obtain ps where "seg_state d v ps" using i(3) v by (metis in_set_conv_nth list_all2_nthD)
      then show ?thesis using seg_invD(3,5) by (auto simp: seg_state_def)
    qed
    with f(1,4) that show ?thesis by (auto simp: fun_eq_iff)
  qed
  have "baseOffset (last (segments p)) \<notin> baseOffset ` set (butlast (segments p))"
    using i(1,4) by (cases "segments p" rule: rev_cases) (auto simp: sorted_wrt_append)
  then have dist: "baseOffset (last (segments q)) \<notin> baseOffset ` set (butlast (segments q))"
    using f(4) i(1) by auto
  show ?thesis
  proof (cases "closed p \<or> rs = [] \<or> isl r1")
    case True
    then have "concat (map (visible d') (segments p')) = concat (map (visible d) (segments p)) \<or>
        (p', d') = (q, e1)"
      using app rot by (cases r1) (auto simp: Append_def bindR_def split: if_splits simp del: bindR_simps)
    moreover have "nextOffset p' = nextOffset p"
      using True app rot f(2) by (cases r1) (auto simp: Append_def bindR_def split: if_splits simp del: bindR_simps)
    ultimately show ?thesis using vis qvis by auto
  next
    case False
    then have "appendActive rt (\<lambda>i r. Inr (stampRecord (nextOffset p) now i r)) rs (q, e1) = (Inl e, p', d')"
      using app rot by (cases r1) (auto simp: Append_def bindR_def split: prod.splits sum.splits simp del: bindR_simps)
    from appendActive_faults [OF this f(3) le dist] qvis f(2,3) show ?thesis by simp
  qed
qed

section \<open>Read\<close>

text \<open>
  The reference: the longest run of records allowed by the two limits, with at
  least one record.
\<close>

definition payload :: "Record \<Rightarrow> nat" where
  "payload r = length (Key r) + length (Value r)"

fun batch :: "nat \<Rightarrow> nat \<Rightarrow> Record list \<Rightarrow> Record list" where
  "batch n b [] = []"
| "batch n b (r # rs) = r # (if n \<le> 1 \<or> b \<le> payload r then [] else batch (n - 1) (b - payload r) rs)"

definition at_limit :: "int \<Rightarrow> int \<Rightarrow> Record list \<times> nat \<Rightarrow> bool" where
  "at_limit m b acc \<longleftrightarrow> m \<le> int (length (fst acc)) \<or> b \<le> int (snd acc)"

lemma feed_append:
  "feed fn acc (xs @ ys) = (let res = feed fn acc xs in if fst res then feed fn (snd res) ys else res)"
proof (induction xs arbitrary: acc)
  case (Cons x xs)
  then show ?case by (cases x) (auto simp: Let_def)
qed simp

lemma feed_read_pos: "feed (read_fn off m b) acc (layout p rs) = feed (read_fn off m b) acc (layout q rs)"
  by (induction rs arbitrary: acc p q) (auto simp: Let_def read_fn_def)

lemma feed_read_skip:
  "(\<And>r. r \<in> set rs \<Longrightarrow> Offset r < off) \<Longrightarrow> feed (read_fn off m b) acc (layout p rs) = (True, acc)"
  by (induction rs arbitrary: p) (auto simp: Let_def read_fn_def)

lemma feed_read:
  assumes "\<not> at_limit m b (out, tot)"
  shows "feed (read_fn off m b) (out, tot) (layout p rs) =
    (let xs = batch (nat (m - int (length out))) (nat (b - int tot)) (filter (\<lambda>r. off \<le> Offset r) rs);
         acc = (out @ xs, tot + sum_list (map payload xs))
     in (\<not> at_limit m b acc, acc))"
  using assms
proof (induction rs arbitrary: out tot p)
  case (Cons r rs)
  show ?case
  proof (cases "Offset r < off")
    case True
    then have "read_fn off m b (out, tot) r p n = (True, (out, tot))" for n by (simp add: read_fn_def)
    with True Cons.IH [OF Cons.prems] show ?thesis by (simp add: not_le [symmetric])
  next
    case False
    let ?acc = "(out @ [r], tot + payload r)"
    have step: "read_fn off m b (out, tot) r p n = (\<not> at_limit m b ?acc, ?acc)" for n
      using False by (simp add: read_fn_def payload_def at_limit_def Let_def add.assoc)
    have lim: "at_limit m b ?acc \<longleftrightarrow> nat (m - int (length out)) \<le> 1 \<or> nat (b - int tot) \<le> payload r"
      by (auto simp: at_limit_def)
    have sub: "nat (m - int (length out)) - 1 = nat (m - int (length (out @ [r])))"
      "nat (b - int tot) - payload r = nat (b - int (tot + payload r))"
      by (auto simp: nat_diff_distrib)
    show ?thesis
    proof (cases "at_limit m b ?acc")
      case True
      then show ?thesis using step False lim by (simp add: not_less Let_def)
    next
      case f: False
      show ?thesis
        using Cons.IH [OF f] step False f lim sub by (simp add: not_less Let_def add.assoc)
    qed
  qed
qed (simp add: Let_def)

lemma lookup_below:
  assumes "baseOffset s \<le> offset"
  shows "unat (baseOffset s) + unat (ucast (offset - baseOffset s) :: u32) \<le> unat offset"
proof -
  have "unat (ucast (offset - baseOffset s) :: u32) \<le> unat (offset - baseOffset s)"
    by (simp add: unsigned_ucast_eq take_bit_nat_less_eq_self)
  also have "\<dots> = unat offset - unat (baseOffset s)"
    using assms by (simp add: unat_sub)
  finally show ?thesis using assms by (simp add: word_le_nat_alt)
qed

lemma scan_read:
  assumes nf: "no_faults rt" and st: "seg_state d s rs"
  shows "scanSegment rt d s (if baseOffset s \<le> off then lookup s (ucast (off - baseOffset s)) else 0) False (read_fn off m b) acc
    = Inr (snd (feed (read_fn off m b) acc (layout 0 rs)))"
proof (cases "baseOffset s \<le> off")
  case True
  have inv: "seg_inv d s rs" "small_records rs" using st by (simp_all add: seg_state_def)
  obtain i where i: "i \<le> length rs" "lookup s (ucast (off - baseOffset s)) = length (enc_all (take i rs))"
    "\<And>j. j < i \<Longrightarrow> roff (rs ! j) < unat (baseOffset s) + unat (ucast (off - baseOffset s) :: u32)"
    using lookup_correct [OF seg_invD(6,7) [OF inv(1)]] by metis
  have "Offset r < off" if "r \<in> set (take i rs)" for r
    using that i(1,3) lookup_below [OF True] by (fastforce simp: in_set_conv_nth word_less_nat_alt)
  then have "feed (read_fn off m b) acc (layout 0 (take i rs @ drop i rs)) =
      feed (read_fn off m b) acc (layout (length (enc_all (take i rs))) (drop i rs))"
    unfolding layout_append by (subst feed_append) (simp add: feed_read_skip)
  then show ?thesis using scanSegment_ok [OF nf inv i(1)] True i(2) by simp
next
  case False
  then show ?thesis
    using scanSegment_all [OF nf, of d s rs False "read_fn off m b" acc] st by (simp add: seg_state_def)
qed

lemma readSegments_ok:
  assumes nf: "no_faults rt" and "list_all2 (seg_state d) ss rss" and "\<not> at_limit m b acc"
  shows "readSegments rt d off m b ss acc = Inr (fst (snd (feed (read_fn off m b) acc (layout 0 (concat rss)))))"
  using assms(2,3)
proof (induction arbitrary: acc rule: list_all2_induct)
  case (Cons s ss rs rss)
  obtain out tot where acc: "acc = (out, tot)" by fastforce
  let ?res = "feed (read_fn off m b) acc (layout 0 rs)"
  have go: "fst ?res \<longleftrightarrow> \<not> at_limit m b (snd ?res)"
    using Cons.prems unfolding acc by (simp add: feed_read Let_def)
  have "feed (read_fn off m b) acc (layout 0 (concat (rs # rss))) =
      (if fst ?res then feed (read_fn off m b) (snd ?res) (layout 0 (concat rss)) else ?res)"
    by (simp add: layout_append feed_append Let_def) (metis feed_read_pos)
  moreover have "readSegments rt d off m b (s # ss) acc =
      (if at_limit m b (snd ?res) then Inr (fst (snd ?res)) else readSegments rt d off m b ss (snd ?res))"
    using scan_read [OF nf Cons.hyps(1), of off m b acc] by (simp add: Let_def at_limit_def)
  ultimately show ?case using go Cons.IH [of "snd ?res"] by simp
qed simp

text \<open>The segments before the one that holds the offset have records below it only.\<close>

lemma search_segment:
  assumes srt: "sorted_wrt (\<lambda>a b. unat (baseOffset a) < unat (baseOffset b)) ss"
    and i: "i = sort_Search (length ss) (\<lambda>i. baseOffset (ss ! i) > off)"
  shows "i \<le> length ss" and "k < length ss \<Longrightarrow> off < baseOffset (ss ! k) \<longleftrightarrow> i \<le> k"
proof -
  have "off < baseOffset (ss ! b)" if "a \<le> b" "b < length ss" "off < baseOffset (ss ! a)" for a b
  proof (cases "a = b")
    case False
    then have "unat (baseOffset (ss ! a)) < unat (baseOffset (ss ! b))"
      using srt that(1,2) by (simp add: sorted_wrt_iff_nth_less)
    with that(3) show ?thesis by (simp add: word_less_nat_alt)
  qed (use that in simp)
  then show "i \<le> length ss" "k < length ss \<Longrightarrow> off < baseOffset (ss ! k) \<longleftrightarrow> i \<le> k"
    using sort_Search_iff [of "length ss" "\<lambda>i. baseOffset (ss ! i) > off"] i by blast+
qed

lemma chain_take_records:
  assumes ch: "chain g ss rss e" and k: "k < length ss" and r: "r \<in> set (concat (take k rss))"
  shows "roff r < unat (baseOffset (ss ! k))"
  using ch k r
proof (induction ss arbitrary: rss e rule: rev_induct)
  case (snoc s ss)
  from snoc.prems(1) show ?case
  proof (rule chain_snocE)
    fix crs rs assume rss: "rss = crs @ [rs]" and c: "chain g ss crs (unat (baseOffset s))"
    have len: "length crs = length ss" using chain_lengths [OF c] by simp
    show ?thesis
    proof (cases "k < length ss")
      case True
      then show ?thesis using snoc.IH [OF c True] snoc.prems(3) rss len by (simp add: nth_append)
    next
      case False
      with snoc.prems(2) have "k = length ss" by simp
      then show ?thesis using chain_records [OF c] snoc.prems(3) rss len by simp
    qed
  qed
qed simp

lemma Read_ok:
  assumes nf: "no_faults rt" and inv: "part_inv p d rss" and "\<not> closed p"
    and off: "FirstOffset p \<le> off" "off \<le> nextOffset p" and lim: "0 < m" "0 < b"
  shows "Read rt p d off m b = Inr (batch (nat m) (nat b) (filter (\<lambda>r. off \<le> Offset r) (concat rss)))"
proof -
  note i = part_invD [OF inv]
  obtain ss s crs rs where segs: "segments p = ss @ [s]" "rss = crs @ [rs]"
    and ch: "chain (gapsAllowed p) ss crs (unat (baseOffset s))"
    and rng: "range_ok (gapsAllowed p) (unat (baseOffset s)) rs (unat (nextOffset p))"
    using inv unfolding part_inv_def by blast
  have below: "roff r < unat (nextOffset p)" if "r \<in> set (concat rss)" for r
    using that chain_records [OF ch, of r] rng segs by (cases "r \<in> set rs") (auto simp: range_ok_def)
  show ?thesis
  proof (cases "off = nextOffset p")
    case True
    then have "filter (\<lambda>r. off \<le> Offset r) (concat rss) = []"
      using below by (fastforce simp: filter_empty_conv word_le_nat_alt)
    then show ?thesis using assms(3) True by (simp add: Read_def)
  next
    case False
    define k where "k = sort_Search (length (segments p)) (\<lambda>i. baseOffset (segments p ! i) > off)"
    note k = search_segment [OF i(4) k_def]
    have "\<not> off < baseOffset (segments p ! 0)" using off(1) i(1) by (simp add: FirstOffset_def hd_conv_nth not_less)
    with k(2) [of 0] i(1) have k0: "0 < k" by auto
    have hd: "\<not> off < baseOffset (segments p ! (k - 1))" using k(2) [of "k - 1"] k(1) k0 by auto
    have le: "roff r < unat off" if r: "r \<in> set (concat (take (k - 1) rss))" for r
    proof (cases "k - 1 < length ss")
      case True
      then have "roff r < unat (baseOffset (ss ! (k - 1)))"
        using chain_take_records [OF ch True, of r] r segs chain_lengths [OF ch] by simp
      with hd True segs show ?thesis by (simp add: nth_append not_less word_le_nat_alt)
    next
      case f: False
      with k(1) segs have "k - 1 = length ss" by simp
      with hd segs chain_records [OF ch, of r] r chain_lengths [OF ch] show ?thesis
        by (auto simp: not_less word_le_nat_alt nth_append)
    qed
    let ?suf = "drop (k - 1) rss"
    have "list_all2 (seg_state d) (drop (k - 1) (segments p)) ?suf" using i(3) by (rule list_all2_dropI)
    moreover have nl: "\<not> at_limit m b ([], 0)" using lim by (simp add: at_limit_def)
    ultimately have rd: "readSegments rt d off m b (drop (k - 1) (segments p)) ([], 0) =
        Inr (batch (nat m) (nat b) (filter (\<lambda>r. off \<le> Offset r) (concat ?suf)))"
      using readSegments_ok [OF nf] by (simp add: feed_read [OF nl] Let_def)
    have "filter (\<lambda>r. off \<le> Offset r) (concat (take (k - 1) rss)) = []"
      using le by (fastforce simp: filter_empty_conv word_le_nat_alt)
    then have "filter (\<lambda>r. off \<le> Offset r) (concat rss) = filter (\<lambda>r. off \<le> Offset r) (concat ?suf)"
      by (subst append_take_drop_id [of "k - 1" rss, symmetric]) (simp only: concat_append filter_append append_Nil)
    with rd k0 assms(3) off(2) lim False show ?thesis by (simp add: Read_def k_def [symmetric] Let_def not_less [symmetric])
  qed
qed

section \<open>A concrete partition\<close>

definition sample_options :: Options where
  "sample_options = \<lparr>MaxSegmentBytes = 1048576, IndexIntervalBytes = 4096\<rparr>"

definition fresh_segment :: segment where
  "fresh_segment = \<lparr>baseOffset = 0, segSize = 0, entries = [], maxTs = 0, indexInterval = 4096, bytesSinceIndex = 0\<rparr>"

definition fresh_partition :: Partition where
  "fresh_partition = \<lparr>p_topic = ''t'', p_id = 0, p_opts = sample_options, segments = [fresh_segment],
     nextOffset = 0, recordsSinceFlush = 0, dirty = False, dirtySegStart = 0, gapsAllowed = False, closed = False\<rparr>"

definition fresh_disk :: disk where
  "fresh_disk = \<lparr>files = [(segmentLogName 0, []), (segmentIndexName 0, [])], ops = 0\<rparr>"

lemma fresh_files:
  "exists_file fresh_disk n \<longleftrightarrow> n = segmentLogName 0 \<or> n = segmentIndexName 0" "content fresh_disk n = []"
  by (auto simp: exists_file_def content_def fresh_disk_def)

lemma fresh_part_inv: "part_inv fresh_partition fresh_disk [[]]"
proof -
  have "seg_state fresh_disk fresh_segment []"
    by (simp add: seg_state_def seg_inv_def index_file_ok_def fresh_files fresh_segment_def)
  then show ?thesis
    unfolding part_inv_def
    by (intro exI [of _ "[]"] exI [of _ fresh_segment] exI [of _ "[]"])
      (simp add: fresh_partition_def range_ok_def fresh_segment_def own_files_def fresh_files)
qed

lemma fresh_fields:
  "\<not> closed fresh_partition" "nextOffset fresh_partition = 0" "FirstOffset fresh_partition = 0"
  by (simp_all add: fresh_partition_def FirstOffset_def fresh_segment_def)

lemma sample_within_limits: "within_limits fresh_partition [sample_record]"
  by (simp add: within_limits_def fresh_partition_def sample_options_def encodable_sample length_enc_sample
      streamChunk_def fresh_segment_def)

section \<open>Properties of the partition\<close>

text \<open>
  Property C6. Append refines the append of an abstract log. On a partition that satisfies
  the invariant, with no I/O fault and within the limits of the format, it returns
  the old high-water mark, the log grows by exactly the given records with
  consecutive offsets from there (and the current time where they had none),
  the high-water mark moves behind them, and the invariant holds again: every
  segment's file, size, index and offset range are right, also after a rotation.
\<close>

theorem Append_refines:
  assumes "no_faults rt" and "part_inv p d rss" and "\<not> closed p" and "rs \<noteq> []" and "within_limits p rs"
  shows "\<exists>p' d' rss'. Append rt now rs (p, d) = (Inr (nextOffset p), p', d') \<and> part_inv p' d' rss' \<and>
    concat rss' = concat rss @ stampAll (nextOffset p) now rs \<and>
    nextOffset p' = nextOffset p + of_nat (length rs) \<and> \<not> closed p'"
  by (rule Append_ok [OF assms, of now]) blast

theorem Append_refines_witness:
  "\<exists>p' d' rss'. Append calm_runtime 5 [sample_record] (fresh_partition, fresh_disk) = (Inr 0, p', d') \<and>
    part_inv p' d' rss' \<and> concat rss' = [sample_record\<lparr>Offset := 0\<rparr>]"
proof -
  have "stampAll 0 5 [sample_record] = [sample_record\<lparr>Offset := 0\<rparr>]"
    by (simp add: stampAll_def stampRecord_def sample_record_def)
  then show ?thesis
    using Append_refines [OF no_faults_calm fresh_part_inv _ _ sample_within_limits, of 5]
    by (auto simp: fresh_partition_def)
qed

text \<open>
  Property C7. An append that reports an error has not changed the log, whatever I/O calls
  failed and however much of a write reached the file: the visible bytes of the
  segments and the high-water mark are those of before.
\<close>

theorem Append_error_keeps_log:
  assumes "part_inv p d rss" and "0 < MaxSegmentBytes (p_opts p)" and "Append rt now rs (p, d) = (Inl e, p', d')"
  shows "concat (map (visible d') (segments p')) = enc_all (concat rss) \<and> nextOffset p' = nextOffset p"
  using Append_faults [OF assms(3,1,2)] .

definition failing_runtime :: runtime where
  "failing_runtime = calm_runtime\<lparr>fault := (\<lambda>_. Some 7)\<rparr>"

theorem Append_error_keeps_log_witness:
  "\<exists>e p' d'. Append failing_runtime 5 [sample_record] (fresh_partition, fresh_disk) = (Inl e, p', d') \<and>
     concat (map (visible d') (segments p')) = [] \<and> nextOffset p' = 0"
proof -
  have s: "encodable (stampRecord 0 5 0 sample_record)" by (simp add: encodable_sample)
  have fault: "fault failing_runtime n = Some 7" for n by (simp add: failing_runtime_def)
  have f: "\<not> closed fresh_partition" "nextOffset fresh_partition = 0" by (simp_all add: fresh_partition_def)
  have rot: "rotate failing_runtime (fresh_partition, fresh_disk) = (Inr (), fresh_partition, fresh_disk)"
    by (simp add: rotate_def fresh_partition_def fresh_segment_def sample_options_def)
  have "\<exists>p' d'. Append failing_runtime 5 [sample_record] (fresh_partition, fresh_disk) = (Inl ErrIO, p', d')"
    using s fault f by (simp add: Append_def bindR_def rot appendActive_def EncodeRecord_eq seg_append_def
        on_snd_def WriteAt_def call_def Let_def del: bindR_simps)
  then show ?thesis
    using Append_error_keeps_log [OF fresh_part_inv, of failing_runtime 5 "[sample_record]"]
    by (fastforce simp: fresh_partition_def sample_options_def)
qed

text \<open>
  Property C8. Read returns the records from the offset on, in order, as many as the two limits
  allow and at least one if there is any: the lookup in the sparse index, the walk
  over the segments and the chunked scan together are the filter of the log.
\<close>

theorem Read_refines:
  assumes "no_faults rt" and "part_inv p d rss" and "\<not> closed p" and "FirstOffset p \<le> off" and "off \<le> nextOffset p"
    and "0 < maxRecords" and "0 < maxBytes"
  shows "Read rt p d off maxRecords maxBytes =
    Inr (batch (nat maxRecords) (nat maxBytes) (filter (\<lambda>r. off \<le> Offset r) (concat rss)))"
  by (rule Read_ok [OF assms])

theorem Read_refines_witness:
  "\<exists>p d. Read calm_runtime p d 0 10 100 = Inr [sample_record\<lparr>Offset := 0\<rparr>]"
proof -
  obtain p d rss where p: "part_inv p d rss" "concat rss = stampAll 0 5 [sample_record]" "nextOffset p = 0 + of_nat (length [sample_record])"
    "\<not> closed p" "FirstOffset p = 0"
    using Append_ok [OF no_faults_calm fresh_part_inv fresh_fields(1) _ sample_within_limits, of 5]
    unfolding fresh_fields by (metis append_Nil concat.simps list.distinct(1))
  have st: "stampAll 0 5 [sample_record] = [sample_record\<lparr>Offset := 0\<rparr>]"
    by (simp add: stampAll_def stampRecord_def sample_record_def)
  show ?thesis
    using p(5) Read_refines [OF no_faults_calm p(1,4), of 0 10 100] p(2,3) st
    by (intro exI [of _ p] exI [of _ d]) simp
qed

text \<open>
  Property C9. Crash recovery of the active segment, from any file contents whose records are below
  one chunk: the log is cut behind the longest run of whole, checksummed records
  with consecutive offsets from the segment's base, nothing else is dropped, the
  rebuilt index in memory and on disk is right, and the next offset follows the
  last record kept.
\<close>

theorem recoverActive_longest_prefix:
  assumes "no_faults rt" and "exists_file d (segmentLogName (baseOffset s))" and "exists_file d (segmentIndexName (baseOffset s))"
    and "f = content d (segmentLogName (baseOffset s))" and "segSize s = length f" and "small_frames f 0"
    and "length f < 2 ^ 32" and "unat (baseOffset s) + length f < 2 ^ 64"
    and "ks = contiguous (baseOffset s) (map fst (frames f 0))"
  shows "\<exists>s' d'. recoverActive rt s d = (Inr (s', baseOffset s + of_nat (length ks)), d') \<and> seg_state d' s' ks \<and>
    content d' (segmentLogName (baseOffset s)) = enc_all ks \<and> take (length (enc_all ks)) f = enc_all ks \<and>
    same_files_but (seg_files s) d d'"
proof -
  obtain rs where rs: "frames f 0 = layout 0 rs" "list_all encodable rs" "drop 0 f = enc_all rs @ drop (frames_end f 0) f"
    using frames_layout by blast
  have k: "ks = contiguous (baseOffset s) rs" using assms(9) rs(1) by simp
  have sm: "small_records rs" using assms(6) by (simp add: small_frames_def rs(1) list_all_layout small_records_def)
  have kr: "ks = take (length ks) rs" using contiguous_take [of "baseOffset s" rs] k by simp
  have tk: "take (length (enc_all ks)) (enc_all rs) = enc_all ks" using take_enc_all [of "length ks" rs] kr by simp
  have le: "length (enc_all ks) \<le> length (enc_all rs)" using length_enc_all_take [of "length ks" rs] kr by simp
  have f: "f = enc_all rs @ drop (frames_end f 0) f" using rs(3) by simp
  have vis: "take (length (enc_all ks)) f = enc_all ks" using tk le by (subst f) simp
  then have lf: "length (enc_all ks) \<le> length f" by (metis length_take min.cobounded1)
  have lim: "unat (baseOffset s) + length ks < 2 ^ 64" using lf length_enc_all_ge [of ks] assms(8) by linarith
  have smk: "small_records ks" using sm kr by (metis append_take_drop_id small_records_simps(3))
  show ?thesis
    by (rule recoverActive_ok [OF assms(1-5) rs(1) sm rs(2) k assms(7) lim])
      (use vis smk in \<open>auto simp: seg_state_def\<close>)
qed

definition torn_disk :: disk where
  "torn_disk = \<lparr>files = [(segmentLogName 0, enc (sample_record\<lparr>Offset := 0\<rparr>) @ [1, 2, 3]), (segmentIndexName 0, [])], ops = 0\<rparr>"

definition torn_segment :: segment where
  "torn_segment = fresh_segment\<lparr>segSize := 43\<rparr>"

lemma length_enc_sample0: "length (enc (sample_record\<lparr>Offset := 0\<rparr>)) = 40"
  by (simp add: enc_def enc_body_def sample_record_def sample_header_def enc_header_def)

lemma frames_torn:
  "frames (enc (sample_record\<lparr>Offset := 0\<rparr>) @ [1, 2, 3]) 0 = [(sample_record\<lparr>Offset := 0\<rparr>, 0, 40)]"
proof -
  have "encodable (sample_record\<lparr>Offset := 0\<rparr>)" using encodable_sample by (simp add: encodable_def)
  then show ?thesis
    using frames_enc_all [of 0 _ "[sample_record\<lparr>Offset := 0\<rparr>]" "[1, 2, 3]"]
    by (simp add: length_enc_sample0) (simp add: frames_Inl length_enc_sample0 DecodeRecord_def recordFixedSize_def)
qed

theorem recoverActive_longest_prefix_witness:
  "\<exists>s' d'. recoverActive calm_runtime torn_segment torn_disk = (Inr (s', 1), d') \<and>
     content d' (segmentLogName 0) = enc (sample_record\<lparr>Offset := 0\<rparr>)"
proof -
  let ?r = "sample_record\<lparr>Offset := 0\<rparr>"
  have c: "content torn_disk (segmentLogName 0) = enc ?r @ [1, 2, 3]" "exists_file torn_disk (segmentLogName 0)"
    "exists_file torn_disk (segmentIndexName 0)"
    by (simp_all add: torn_disk_def content_def exists_file_def)
  have b: "baseOffset torn_segment = 0" "segSize torn_segment = length (enc ?r @ [1, 2, 3])"
    by (simp_all add: torn_segment_def fresh_segment_def length_enc_sample0)
  have k: "contiguous 0 (map fst (frames (enc ?r @ [1, 2, 3]) 0)) = [?r]" by (simp add: frames_torn)
  have sm: "small_frames (enc ?r @ [1, 2, 3]) 0"
    by (simp add: small_frames_def frames_torn streamChunk_def)
  show ?thesis
    using recoverActive_longest_prefix [OF no_faults_calm, of torn_disk torn_segment, unfolded b(1) c(1), OF c(2,3) refl b(2) sm _ _ refl]
    unfolding k by (auto simp: length_enc_sample0)
qed

text \<open>The frames of a cut file of records are the layout of the records that fit before the cut.\<close>

lemma frames_cut:
  assumes "drop pos f = take n (enc_all rs)" and "list_all encodable rs"
  shows "\<exists>m \<le> length rs. frames f pos = layout pos (take m rs) \<and> length (enc_all (take m rs)) \<le> n \<and>
    (m < length rs \<longrightarrow> n < length (enc_all (take (Suc m) rs)))"
  using assms
proof (induction rs arbitrary: pos n)
  case Nil
  then show ?case by (simp add: frames_Inl DecodeRecord_def recordFixedSize_def)
next
  case (Cons r rs)
  have e: "encodable r" "list_all encodable rs" using Cons.prems by simp_all
  show ?case
  proof (cases "n < length (enc r)")
    case True
    then have "DecodeRecord (drop pos f) = Inl ErrTruncated" using Cons.prems(1) DecodeRecord_enc_torn [OF e(1) True] by simp
    then show ?thesis using True by (intro exI [of _ 0]) (simp add: frames_Inl)
  next
    case False
    have f: "drop pos f = enc r @ take (n - length (enc r)) (enc_all rs)" using Cons.prems(1) False by simp
    then have d: "DecodeRecord (drop pos f) = Inr (r, length (enc r))" using DecodeRecord_enc [OF e(1)] by simp
    have "drop (length (enc r)) (drop pos f) = take (n - length (enc r)) (enc_all rs)" unfolding f by simp
    then have "drop (pos + length (enc r)) f = take (n - length (enc r)) (enc_all rs)" by (simp add: add.commute)
    from Cons.IH [OF this e(2)] obtain m where m: "m \<le> length rs" "frames f (pos + length (enc r)) = layout (pos + length (enc r)) (take m rs)"
      "length (enc_all (take m rs)) \<le> n - length (enc r)" "m < length rs \<longrightarrow> n - length (enc r) < length (enc_all (take (Suc m) rs))"
      by blast
    then show ?thesis using False by (intro exI [of _ "Suc m"]) (auto simp: frames_Inr [OF d])
  qed
qed

lemma contiguous_prefix: "contiguous b rs = rs \<Longrightarrow> contiguous b (take m rs) = take m rs"
  by (induction rs arbitrary: b m) (auto simp: take_Cons split: if_splits nat.splits)

text \<open>
  Property C10. What was acknowledged survives a crash in the middle of a later append. The segment's file holds the acknowledged
  records \<open>as\<close> and, behind them, the first bytes of an append of \<open>bs\<close> that was cut anywhere (or not at all), all
  records with consecutive offsets from the segment's base and each below one chunk (256 KiB) of the scan. Recovery then keeps
  all of \<open>as\<close> and exactly those records of \<open>bs\<close> that were written in full: it cuts the file behind them, rebuilds the
  index and continues with the offset after the last.
\<close>

theorem recovery_keeps_acknowledged:
  assumes "no_faults rt" and "exists_file d (segmentLogName (baseOffset s))" and "exists_file d (segmentIndexName (baseOffset s))"
    and "content d (segmentLogName (baseOffset s)) = take n (enc_all (as @ bs))" and "length (enc_all as) \<le> n"
    and "segSize s = length (take n (enc_all (as @ bs)))" and "list_all encodable (as @ bs)" and "small_records (as @ bs)"
    and "contiguous (baseOffset s) (as @ bs) = as @ bs"
    and "length (enc_all (as @ bs)) < 2 ^ 32" and "unat (baseOffset s) + length (as @ bs) < 2 ^ 64"
  shows "\<exists>s' d' j. recoverActive rt s d = (Inr (s', baseOffset s + of_nat (length as + j)), d') \<and>
    seg_state d' s' (as @ take j bs) \<and> content d' (segmentLogName (baseOffset s)) = enc_all (as @ take j bs) \<and>
    j \<le> length bs \<and> length (enc_all (as @ take j bs)) \<le> n \<and> (j < length bs \<longrightarrow> n < length (enc_all (as @ take (Suc j) bs)))"
proof -
  let ?f = "take n (enc_all (as @ bs))"
  obtain m where m: "m \<le> length (as @ bs)" "frames ?f 0 = layout 0 (take m (as @ bs))" "length (enc_all (take m (as @ bs))) \<le> n"
    "m < length (as @ bs) \<longrightarrow> n < length (enc_all (take (Suc m) (as @ bs)))"
    using frames_cut [of 0 ?f n "as @ bs"] assms(7) by auto
  have "length as \<le> m"
  proof (rule ccontr)
    assume "\<not> length as \<le> m"
    then have "take (Suc m) (as @ bs) = take (Suc m) as" "m < length (as @ bs)" by simp_all
    then have "n < length (enc_all (take (Suc m) as))" using m(4) by metis
    also have "\<dots> \<le> n" using length_enc_all_take [of "Suc m" as] assms(5) by linarith
    finally show False by simp
  qed
  then obtain j where j: "m = length as + j" using le_Suc_ex by blast
  have t: "take m (as @ bs) = as @ take j bs" "take (Suc m) (as @ bs) = as @ take (Suc j) bs" by (simp_all add: j)
  let ?ks = "as @ take j bs"
  have k: "?ks = contiguous (baseOffset s) ?ks" using contiguous_prefix [OF assms(9), of m] unfolding t by simp
  have sm: "small_records ?ks" "list_all encodable ?ks"
    using assms(7,8) unfolding t(1) [symmetric] by (auto simp: small_records_def list_all_iff dest: in_set_takeD)
  have lf: "length ?f < 2 ^ 32" using assms(10) by simp
  have lk: "unat (baseOffset s) + length ?ks < 2 ^ 64" using assms(11) by simp
  have lj: "length ?ks = length as + j" using m(1) j by simp
  show ?thesis
    by (rule recoverActive_ok [OF assms(1-3) assms(4) [symmetric] assms(6) m(2) [unfolded t] sm k lf lk])
      (use m(1,3,4) j t lj sm(1) in \<open>auto simp: seg_state_def intro!: exI [of _ j]\<close>)
qed

definition torn_append_disk :: disk where
  "torn_append_disk = \<lparr>files = [(segmentLogName 0, enc (sample_record\<lparr>Offset := 0\<rparr>) @ take 30 (enc (sample_record\<lparr>Offset := 1\<rparr>))),
     (segmentIndexName 0, [])], ops = 0\<rparr>"

theorem recovery_keeps_acknowledged_witness:
  "\<exists>s' d'. recoverActive calm_runtime (fresh_segment\<lparr>segSize := 70\<rparr>) torn_append_disk = (Inr (s', 1), d') \<and>
     content d' (segmentLogName 0) = enc (sample_record\<lparr>Offset := 0\<rparr>)"
proof -
  let ?r = "sample_record\<lparr>Offset := 0\<rparr>" and ?q = "sample_record\<lparr>Offset := 1\<rparr>" and ?s = "fresh_segment\<lparr>segSize := 70\<rparr>"
  have l: "length (enc ?q) = 40" by (simp add: enc_def enc_body_def sample_record_def sample_header_def enc_header_def)
  have c: "content torn_append_disk (segmentLogName 0) = take 70 (enc_all ([?r] @ [?q]))" "exists_file torn_append_disk (segmentLogName 0)"
    "exists_file torn_append_disk (segmentIndexName 0)"
    by (simp_all add: torn_append_disk_def content_def exists_file_def length_enc_sample0)
  have b: "baseOffset ?s = 0" "segSize ?s = length (take 70 (enc_all ([?r] @ [?q])))"
    by (simp_all add: fresh_segment_def length_enc_sample0 l)
  have e: "list_all encodable ([?r] @ [?q])" "small_records ([?r] @ [?q])" "contiguous 0 ([?r] @ [?q]) = [?r] @ [?q]"
    using encodable_sample by (simp_all add: encodable_def small_records_def length_enc_sample0 l streamChunk_def)
  obtain s' d' j where r: "recoverActive calm_runtime ?s torn_append_disk = (Inr (s', 0 + of_nat (length [?r] + j)), d')"
    "content d' (segmentLogName 0) = enc_all ([?r] @ take j [?q])" "j \<le> 1" "length (enc_all ([?r] @ take j [?q])) \<le> 70"
    using recovery_keeps_acknowledged [OF no_faults_calm, of torn_append_disk ?s 70 "[?r]" "[?q]", unfolded b(1), OF c(2,3,1) _ b(2) e]
    by (auto simp: length_enc_sample0 l)
  have "j = 0" using r(3,4) by (cases j) (simp_all add: length_enc_sample0 l)
  then show ?thesis using r(1,2) by auto
qed

end
