(* ===== verification/Replica.thy ===== *)
theory Replica
  imports Partition_Log
begin

text \<open>
  The replica side of a partition (src/internal/broker/storage/replica.go): append
  of records that carry the leader's offsets, and truncation to an offset, which
  the replication loop uses to make the logs match.
\<close>

section \<open>Definitions\<close>

definition checkOffset :: "u64 \<Rightarrow> nat \<Rightarrow> Record \<Rightarrow> storage_error + Record" where
  "checkOffset base i r = (if Offset r \<noteq> base + of_nat i then Inl ErrDivergedAppend else Inr r)"

definition AppendReplica :: "runtime \<Rightarrow> Record list \<Rightarrow> (Partition \<times> disk, unit) res" where
  "AppendReplica rt records = (\<lambda>(p, d).
     if closed p then (Inl ErrPartitionClosed, (p, d))
     else if records = [] then (Inr (), (p, d))
     else if Offset (hd records) \<noteq> nextOffset p then (Inl ErrDivergedAppend, (p, d))
     else bindR (rotate rt) (\<lambda>_. appendActive rt (checkOffset (nextOffset p)) records) (p, d))"

text \<open>\<open>os.Remove\<close> where a missing file is no error.\<close>

definition removeIfExists :: "runtime \<Rightarrow> string \<Rightarrow> (disk, unit) res" where
  "removeIfExists rt name d =
     (case Remove rt name d of
        (Inl ErrNotExist, d) \<Rightarrow> (Inr (), d)
      | (r, d) \<Rightarrow> (r, d))"

definition removeSegmentLocked :: "runtime \<Rightarrow> nat \<Rightarrow> (Partition \<times> disk, unit) res" where
  "removeSegmentLocked rt i = (\<lambda>(p, d).
     let s = segments p ! i in
     bindR (on_snd (seg_close rt s)) (\<lambda>_.
     bindR (on_snd (forR [segmentLogName (baseOffset s), segmentIndexName (baseOffset s)] (removeIfExists rt))) (\<lambda>_.
       modifyR (\<lambda>(p, d). (p\<lparr>segments := take i (segments p) @ drop (i + 1) (segments p)\<rparr>, d)))) (p, d))"

definition maxTs_fn :: "i64 record_fn" where
  "maxTs_fn m r pos sz = (True, if sint m < sint (TimestampMs r) then TimestampMs r else m)"

text \<open>An error of the scan is dropped, and the maximum so far kept; a panic is no error.\<close>

definition refreshMaxTsLocked :: "runtime \<Rightarrow> (segment \<times> disk, unit) res" where
  "refreshMaxTsLocked rt = (\<lambda>(s, d).
     case streamRecords (growcap rt) (reader rt d (segmentLogName (baseOffset s))) 0 (segSize s) True maxTs_fn 0 of
       None \<Rightarrow> (Inl ErrNotReturning, (s, d))
     | Some (Some ErrPanic, m) \<Rightarrow> (Inl ErrPanic, (s\<lparr>maxTs := m\<rparr>, d))
     | Some (_, m) \<Rightarrow> (Inr (), (s\<lparr>maxTs := m\<rparr>, d)))"

definition forwardResetLocked :: "runtime \<Rightarrow> u64 \<Rightarrow> (Partition \<times> disk, unit) res" where
  "forwardResetLocked rt offset = (\<lambda>(p, d).
     bindR (forR (rev [0 ..< length (segments p)]) (removeSegmentLocked rt)) (\<lambda>_ (p, d).
       case openSegment rt offset (IndexIntervalBytes (p_opts p)) d of
         (Inl e, d) \<Rightarrow> (Inl e, (p, d))
       | (Inr ns, d) \<Rightarrow> (Inr (), (p\<lparr>segments := [ns], nextOffset := offset, dirty := True, dirtySegStart := 0\<rparr>, d))) (p, d))"

record truncate_scan =
  ts_expected :: u64
  ts_cut :: nat
  ts_gap :: bool

definition truncate_fn :: "bool \<Rightarrow> u64 \<Rightarrow> truncate_scan record_fn" where
  "truncate_fn gaps offset st r pos sz =
     (if Offset r \<noteq> ts_expected st \<and> \<not> (gaps \<and> ts_expected st < Offset r) then (False, st\<lparr>ts_gap := True\<rparr>)
      else let st = st\<lparr>ts_expected := Offset r + 1\<rparr> in
        if Offset r = offset then (False, st\<lparr>ts_cut := pos\<rparr>)
        else if offset < Offset r then (False, st\<lparr>ts_cut := pos\<rparr>)
        else (True, st))"

definition cutPosition :: "runtime \<Rightarrow> bool \<Rightarrow> u64 \<Rightarrow> segment \<Rightarrow> disk \<Rightarrow> storage_error + nat" where
  "cutPosition rt gaps offset s d =
     (if baseOffset s = offset then Inr 0
      else bindS (scanSegment rt d s 0 True (truncate_fn gaps offset)
                    \<lparr>ts_expected = baseOffset s, ts_cut = 0, ts_gap = False\<rparr>) (\<lambda>st.
             if ts_gap st then Inl ErrOffsetGap
             else if ts_cut st = 0 \<and> ts_expected st \<le> offset then Inr (segSize s)
             else Inr (ts_cut st)))"

text \<open>How many leading segments have a base up to the offset: \<open>idx + 1\<close> of the code.\<close>

definition segmentsUpTo :: "u64 \<Rightarrow> segment list \<Rightarrow> nat" where
  "segmentsUpTo offset ss = length (takeWhile (\<lambda>s. baseOffset s \<le> offset) ss)"

definition truncateTail :: "runtime \<Rightarrow> u64 \<Rightarrow> nat \<Rightarrow> nat \<Rightarrow> (Partition \<times> disk, unit) res" where
  "truncateTail rt offset n cutPos = (\<lambda>(p, d).
     if n = 0 then
       (case openSegment rt offset (IndexIntervalBytes (p_opts p)) d of
          (Inl e, d) \<Rightarrow> (Inl e, (p, d))
        | (Inr ns, d) \<Rightarrow> (Inr (), (p\<lparr>segments := [ns]\<rparr>, d)))
     else
       case bindR (seg_truncate rt cutPos) (\<lambda>_. refreshMaxTsLocked rt) (segments p ! (n - 1), d) of
         (r, (s, d)) \<Rightarrow> (r, (p\<lparr>segments := (segments p)[n - 1 := s]\<rparr>, d)))"

definition TruncateTo :: "runtime \<Rightarrow> u64 \<Rightarrow> (Partition \<times> disk, unit) res" where
  "TruncateTo rt offset = (\<lambda>(p, d).
     if closed p then (Inl ErrPartitionClosed, (p, d))
     else if offset = nextOffset p then (Inr (), (p, d))
     else if nextOffset p < offset then forwardResetLocked rt offset (p, d)
     else
       let n = segmentsUpTo offset (segments p) in
       case (if n = 0 then Inr 0 else cutPosition rt (gapsAllowed p) offset (segments p ! (n - 1)) d) of
         Inl e \<Rightarrow> (Inl e, (p, d))
       | Inr cutPos \<Rightarrow>
           bindR (forR (rev [n ..< length (segments p)]) (removeSegmentLocked rt)) (\<lambda>_.
           bindR (truncateTail rt offset n cutPos) (\<lambda>_.
             modifyR (\<lambda>(p, d).
               (p\<lparr>nextOffset := offset, dirty := True,
                  dirtySegStart := (if 0 < n \<and> int n - 1 < dirtySegStart p then int n - 1 else dirtySegStart p)\<rparr>, d)))) (p, d))"

section \<open>Appending the leader's records\<close>

lemma AppendReplica_ok:
  assumes nf: "no_faults rt" and inv: "part_inv p d rss" and "\<not> closed p" and lim: "within_limits p rs"
    and cont: "map Offset rs = map (\<lambda>i. nextOffset p + of_nat i) [0 ..< length rs]"
  obtains p' d' rss' where "AppendReplica rt rs (p, d) = (Inr (), p', d')" and "part_inv p' d' rss'"
    and "concat rss' = concat rss @ rs" and "nextOffset p' = nextOffset p + of_nat (length rs)"
    and "closed p' = closed p" and "p_opts p' = p_opts p"
proof (cases "rs = []")
  case True
  then show thesis using that [of p d rss] inv assms(3) by (simp add: AppendReplica_def)
next
  case False
  have max: "0 < MaxSegmentBytes (p_opts p)" using lim by (simp add: within_limits_def)
  obtain q e qss where rot: "rotate rt (p, d) = (Inr (), q, e)" and q: "part_inv q e qss" "concat qss = concat rss"
    "nextOffset q = nextOffset p" "int (length (enc_all (last qss))) < MaxSegmentBytes (p_opts p)"
    "baseOffset (last (segments q)) = nextOffset p \<or> (segments q = segments p \<and> qss = rss)"
    "closed q = closed p" "p_opts q = p_opts p"
    using rotate_ok [OF nf inv max] by metis
  have off: "Offset (rs ! i) = nextOffset p + of_nat i" if "i < length rs" for i
    using arg_cong [OF cont, of "\<lambda>xs. xs ! i"] that by simp
  have n64: "unat (nextOffset p) + length rs < 2 ^ 64" using lim by (simp add: within_limits_def)
  have offs: "map roff rs = [unat (nextOffset p) ..< unat (nextOffset p) + length rs]"
    by (rule nth_equalityI) (use n64 in \<open>simp_all add: off unat_add_of_nat\<close>)
  have "length rs < 2 ^ 32" using lim length_enc_all_ge [of rs] by (auto simp: within_limits_def)
  then have fits: "batch_fits q qss rs"
    using lim q(3-5) offs unfolding batch_fits_def within_limits_def by auto
  have prep: "list_all2 (\<lambda>(i, r) n. checkOffset (nextOffset p) i r = Inr n) (zip [0 ..< length rs] rs) rs"
    by (simp add: list_all2_conv_all_nth checkOffset_def off)
  obtain p' d' where app: "appendActive rt (checkOffset (nextOffset p)) rs (q, e) = (Inr (), p', d')"
    and p': "part_inv p' d' (butlast qss @ [last qss @ rs])" "nextOffset p' = nextOffset q + of_nat (length rs)"
      "closed p' = closed q" "p_opts p' = p_opts q"
    using appendActive_ok [OF nf q(1) fits prep] by metis
  have "Offset (hd rs) = nextOffset p" using off [of 0] False by (simp add: hd_conv_nth)
  then have "AppendReplica rt rs (p, d) = (Inr (), p', d')"
    using assms(3) False by (simp add: AppendReplica_def bindR_def rot app del: bindR_simps)
  moreover have "qss \<noteq> []" using q(1) by (auto simp: part_inv_def)
  then have "concat (butlast qss @ [last qss @ rs]) = concat rss @ rs"
    unfolding q(2) [symmetric] by (metis (no_types, lifting) append.assoc append_butlast_last_id concat.simps concat_append append_Nil2)
  ultimately show thesis using that p' q(3,6,7) by simp
qed

lemma encodeBatch_diverged:
  assumes "i < length rs" and "\<And>j. j < i \<Longrightarrow> checkOffset b (k + j) (rs ! j) = Inr (rs ! j)"
    and "checkOffset b (k + i) (rs ! i) = Inl ErrDivergedAppend" and "list_all encodable rs"
  shows "\<exists>t. encodeBatch (checkOffset b) k rs acc s = (Inl ErrDivergedAppend, s\<lparr>maxTs := t\<rparr>)"
  using assms
proof (induction rs arbitrary: i k acc s)
  case (Cons r rs)
  show ?case
  proof (cases i)
    case 0
    then show ?thesis using Cons.prems(3) by simp
  next
    case (Suc j)
    have c: "checkOffset b k r = Inr r" using Cons.prems(2) [of 0] Suc by simp
    have ih: "\<exists>t. encodeBatch (checkOffset b) (k + 1) rs acc' s' = (Inl ErrDivergedAppend, s'\<lparr>maxTs := t\<rparr>)" for acc' s'
    proof (rule Cons.IH [of j])
      show "checkOffset b (k + 1 + m) (rs ! m) = Inr (rs ! m)" if "m < j" for m
        using Cons.prems(2) [of "Suc m"] Suc that by simp
    qed (use Cons.prems Suc in auto)
    have "\<exists>t. encodeBatch (checkOffset b) (k + 1) rs acc' (s\<lparr>maxTs := u\<rparr>) = (Inl ErrDivergedAppend, s\<lparr>maxTs := t\<rparr>)" for acc' u
      using ih [of acc' "s\<lparr>maxTs := u\<rparr>"] by simp
    then show ?thesis using c Cons.prems(4) by (simp add: EncodeRecord_eq Let_def raiseMaxTs_eq)
  qed
qed simp

section \<open>Removing segments\<close>

lemma removeIfExists_ok: "no_faults rt \<Longrightarrow> removeIfExists rt n d = (Inr (), if exists_file d n then del n (tick d) else tick d)"
  by (simp add: removeIfExists_def io_no_faults)

lemma seg_close_ok: "no_faults rt \<Longrightarrow> seg_close rt s d = (Inr (), tick (tick d))"
  by (simp add: seg_close_def io_no_faults)

text \<open>The files of the given segments are gone, all others unchanged.\<close>

definition files_removed :: "segment list \<Rightarrow> disk \<Rightarrow> disk \<Rightarrow> bool" where
  "files_removed ss d d' \<longleftrightarrow>
     (\<forall>n. if n \<in> \<Union> (seg_files ` set ss) then \<not> exists_file d' n
          else content d' n = content d n \<and> exists_file d' n = exists_file d n)"

lemma removeSegmentLocked_ok:
  assumes "no_faults rt" and "segments p = ss @ [s]"
  obtains d' where "removeSegmentLocked rt (length ss) (p, d) = (Inr (), p\<lparr>segments := ss\<rparr>, d')"
    and "files_removed [s] d d'"
proof -
  define d1 where "d1 = tick (tick d)"
  define d2 where "d2 = snd (removeIfExists rt (segmentLogName (baseOffset s)) d1)"
  define d3 where "d3 = snd (removeIfExists rt (segmentIndexName (baseOffset s)) d2)"
  have "removeSegmentLocked rt (length ss) (p, d) = (Inr (), p\<lparr>segments := ss\<rparr>, d3)"
    using assms by (simp add: removeSegmentLocked_def bindR_def on_snd_def seg_close_ok removeIfExists_ok d1_def d2_def d3_def
        del: bindR_simps)
  moreover have "files_removed [s] d d3"
    using assms by (auto simp: files_removed_def d3_def d2_def d1_def removeIfExists_ok)
  ultimately show thesis by (rule that)
qed

lemma files_removed_Nil: "files_removed [] d d"
  by (simp add: files_removed_def)

lemma files_removed_trans:
  "files_removed ss d d' \<Longrightarrow> files_removed ts d' d'' \<Longrightarrow> files_removed (ss @ ts) d d''"
  unfolding files_removed_def by (auto split: if_splits)

lemma removeSegments_ok:
  assumes nf: "no_faults rt" and "segments p = ss @ ts"
  obtains d' where "forR (rev [length ss ..< length (segments p)]) (removeSegmentLocked rt) (p, d) = (Inr (), p\<lparr>segments := ss\<rparr>, d')"
    and "files_removed ts d d'"
proof -
  have "\<exists>d'. forR (rev [length ss ..< length (segments p)]) (removeSegmentLocked rt) (p, d) = (Inr (), p\<lparr>segments := ss\<rparr>, d') \<and>
      files_removed ts d d'"
    using assms(2)
  proof (induction ts arbitrary: p d rule: rev_induct)
    case Nil
    then show ?case by (intro exI [of _ d]) (simp add: files_removed_Nil)
  next
    case (snoc t ts)
    then have segs: "segments p = (ss @ ts) @ [t]" by simp
    obtain d1 where d1: "removeSegmentLocked rt (length (ss @ ts)) (p, d) = (Inr (), p\<lparr>segments := ss @ ts\<rparr>, d1)"
      "files_removed [t] d d1"
      using removeSegmentLocked_ok [OF nf segs] .
    obtain d2 where d2: "forR (rev [length ss ..< length ss + length ts]) (removeSegmentLocked rt) (p\<lparr>segments := ss @ ts\<rparr>, d1) =
        (Inr (), p\<lparr>segments := ss\<rparr>, d2)" "files_removed ts d1 d2"
      using snoc.IH [of "p\<lparr>segments := ss @ ts\<rparr>" d1] by auto
    have "files_removed (ts @ [t]) d d2"
      using files_removed_trans [OF d1(2) d2(2)] by (simp add: files_removed_def)
    moreover have "rev [length ss ..< length (segments p)] = length (ss @ ts) # rev [length ss ..< length ss + length ts]"
      using segs by simp
    ultimately show ?case using d1(1) d2(1) by (intro exI [of _ d2]) simp
  qed
  then show thesis using that by blast
qed

lemma files_removed_keeps:
  assumes "files_removed ts d d'" and "b \<notin> baseOffset ` set ts"
  shows "content d' (segmentLogName b) = content d (segmentLogName b)" "exists_file d' (segmentLogName b) = exists_file d (segmentLogName b)"
    "content d' (segmentIndexName b) = content d (segmentIndexName b)" "exists_file d' (segmentIndexName b) = exists_file d (segmentIndexName b)"
proof -
  have "segmentLogName b \<notin> \<Union> (seg_files ` set ts)" "segmentIndexName b \<notin> \<Union> (seg_files ` set ts)"
    using assms(2) by auto
  with assms(1) show "content d' (segmentLogName b) = content d (segmentLogName b)"
    "exists_file d' (segmentLogName b) = exists_file d (segmentLogName b)"
    "content d' (segmentIndexName b) = content d (segmentIndexName b)"
    "exists_file d' (segmentIndexName b) = exists_file d (segmentIndexName b)"
    unfolding files_removed_def by presburger+
qed

lemma files_removed_gone:
  assumes "files_removed ts d d'" and "b \<in> baseOffset ` set ts"
  shows "\<not> exists_file d' (segmentLogName b)" "\<not> exists_file d' (segmentIndexName b)"
proof -
  have "segmentLogName b \<in> \<Union> (seg_files ` set ts)" "segmentIndexName b \<in> \<Union> (seg_files ` set ts)"
    using assms(2) by auto
  with assms(1) show "\<not> exists_file d' (segmentLogName b)" "\<not> exists_file d' (segmentIndexName b)"
    unfolding files_removed_def by presburger+
qed

lemma seg_state_removed:
  assumes "seg_state d s rs" and "files_removed ts d d'" and "baseOffset s \<notin> baseOffset ` set ts"
  shows "seg_state d' s rs"
  using assms(1) by (simp add: seg_state_def seg_inv_def index_file_ok_def files_removed_keeps [OF assms(2,3)])

lemma seg_states_removed:
  assumes "list_all2 (seg_state d) ss rss" and "files_removed ts d d'" and "baseOffset ` set ss \<inter> baseOffset ` set ts = {}"
  shows "list_all2 (seg_state d') ss rss"
  using assms(1,3) by (induction rule: list_all2_induct) (auto intro: seg_state_removed [OF _ assms(2)])

lemma own_files_removed:
  assumes "own_files d (ss @ ts)" and "files_removed ts d d'"
  shows "own_files d' ss"
  unfolding own_files_def
proof (intro allI impI)
  fix b assume e: "exists_file d' (segmentLogName b) \<or> exists_file d' (segmentIndexName b)"
  have "b \<notin> baseOffset ` set ts" using e files_removed_gone [OF assms(2)] by blast
  with e assms(1) show "b \<in> set (map baseOffset ss)"
    unfolding own_files_def using files_removed_keeps [OF assms(2), of b] by auto
qed

section \<open>A prefix of the segments\<close>

definition end_after :: "segment list \<Rightarrow> nat \<Rightarrow> nat" where
  "end_after ts e = (case ts of [] \<Rightarrow> e | t # _ \<Rightarrow> unat (baseOffset t))"

lemma chain_split:
  "chain g (ss @ s # ts) rss e \<Longrightarrow>
   \<exists>crs rs trs. rss = crs @ rs # trs \<and> length crs = length ss \<and> chain g ss crs (unat (baseOffset s)) \<and>
     range_ok g (unat (baseOffset s)) rs (end_after ts e) \<and> unat (baseOffset s) < end_after ts e"
proof (induction ss arbitrary: rss)
  case Nil
  then show ?case
    by (cases rss) (auto simp: Let_def end_after_def split: list.splits)
next
  case (Cons u ss)
  from Cons.prems obtain us rss' where rss: "rss = us # rss'" by (cases rss) auto
  with Cons.prems have "chain g (ss @ s # ts) rss' e" by (simp add: Let_def)
  then obtain crs rs trs where "rss' = crs @ rs # trs" "length crs = length ss" "chain g ss crs (unat (baseOffset s))"
    "range_ok g (unat (baseOffset s)) rs (end_after ts e)" "unat (baseOffset s) < end_after ts e"
    using Cons.IH by blast
  with Cons.prems rss show ?case
    by (intro exI [of _ "us # crs"] exI [of _ rs] exI [of _ trs])
      (cases ss, auto simp: Let_def)
qed

lemma end_after_snoc: "end_after (ts @ [s]) e = end_after ts (unat (baseOffset s))"
  by (cases ts) (simp_all add: end_after_def)

lemma part_inv_split:
  assumes inv: "part_inv p d rss" and segs: "segments p = ss @ s # ts"
  obtains crs rs trs where "rss = crs @ rs # trs" and "length crs = length ss"
    and "list_all2 (seg_state d) ss crs" and "seg_state d s rs" and "list_all2 (seg_state d) ts trs"
    and "chain (gapsAllowed p) ss crs (unat (baseOffset s))"
    and "range_ok (gapsAllowed p) (unat (baseOffset s)) rs (end_after ts (unat (nextOffset p)))"
proof -
  from inv obtain us u crs as where p: "segments p = us @ [u]" "rss = crs @ [as]"
    and ch: "chain (gapsAllowed p) us crs (unat (baseOffset u))"
    and rng: "range_ok (gapsAllowed p) (unat (baseOffset u)) as (unat (nextOffset p))"
    unfolding part_inv_def by blast
  note all = part_invD(3) [OF inv]
  show thesis
  proof (cases ts rule: rev_cases)
    case Nil
    with p segs have "us = ss" "u = s" by simp_all
    moreover from this all p have "list_all2 (seg_state d) ss crs" "seg_state d s as" "length crs = length ss"
      using chain_lengths [OF ch] by (auto simp: list_all2_append)
    ultimately show thesis using that [of crs as "[]"] p ch rng Nil by (simp add: end_after_def)
  next
    case (snoc ts' v)
    with p segs have us: "us = ss @ s # ts'" "v = u" by simp_all
    from chain_split [OF ch [unfolded us(1)]] obtain xrs rs trs where x: "crs = xrs @ rs # trs" "length xrs = length ss"
      "chain (gapsAllowed p) ss xrs (unat (baseOffset s))"
      "range_ok (gapsAllowed p) (unat (baseOffset s)) rs (end_after ts' (unat (baseOffset u)))" by blast
    have "list_all2 (seg_state d) (ss @ s # ts) (xrs @ rs # trs @ [as])"
      using all x(1) p(2) unfolding segs by simp
    then have "list_all2 (seg_state d) ss xrs" "list_all2 (seg_state d) (s # ts) (rs # trs @ [as])"
      using x(2) by (auto simp: list_all2_append)
    then show thesis
      using that [of xrs rs "trs @ [as]"] x p us snoc by (simp add: end_after_snoc)
  qed
qed

section \<open>Where to cut\<close>

fun follows :: "bool \<Rightarrow> u64 \<Rightarrow> Record list \<Rightarrow> bool" where
  "follows g e [] \<longleftrightarrow> True"
| "follows g e (r # rs) \<longleftrightarrow> (Offset r = e \<or> g \<and> e < Offset r) \<and> follows g (Offset r + 1) rs"

abbreviation below :: "u64 \<Rightarrow> Record \<Rightarrow> bool" where
  "below off r \<equiv> Offset r < off"

lemma truncate_feed:
  assumes "follows g (ts_expected st) rs" and "\<not> ts_gap st"
  shows "snd (feed (truncate_fn g off) st (layout p rs)) =
    (if list_all (below off) rs
     then st\<lparr>ts_expected := (if rs = [] then ts_expected st else Offset (last rs) + 1)\<rparr>
     else st\<lparr>ts_expected := Offset (hd (dropWhile (below off) rs)) + 1,
             ts_cut := p + length (enc_all (takeWhile (below off) rs))\<rparr>)"
  using assms
proof (induction rs arbitrary: st p)
  case (Cons r rs)
  define st' where "st' = st\<lparr>ts_expected := Offset r + 1\<rparr>"
  have ok: "\<not> (Offset r \<noteq> ts_expected st \<and> \<not> (g \<and> ts_expected st < Offset r))" using Cons.prems(1) by auto
  show ?case
  proof (cases "below off r")
    case True
    then have "Offset r \<noteq> off" "\<not> off < Offset r" by (metis less_irrefl, metis less_asym)
    then have step: "truncate_fn g off st r p n = (True, st')" for n
      unfolding truncate_fn_def if_not_P [OF ok] Let_def st'_def by simp
    have ih: "snd (feed (truncate_fn g off) st' (layout (p + length (enc r)) rs)) =
      (if list_all (below off) rs
       then st'\<lparr>ts_expected := (if rs = [] then ts_expected st' else Offset (last rs) + 1)\<rparr>
       else st'\<lparr>ts_expected := Offset (hd (dropWhile (below off) rs)) + 1,
               ts_cut := p + length (enc r) + length (enc_all (takeWhile (below off) rs))\<rparr>)"
      by (rule Cons.IH) (use Cons.prems in \<open>simp_all add: st'_def\<close>)
    have "snd (feed (truncate_fn g off) st (layout p (r # rs))) = snd (feed (truncate_fn g off) st' (layout (p + length (enc r)) rs))"
      by (simp add: step)
    then show ?thesis unfolding ih using True by (simp add: st'_def)
  next
    case False
    then have "Offset r = off \<or> off < Offset r" by (metis linorder_neqE)
    then have "truncate_fn g off st r p n = (False, st'\<lparr>ts_cut := p\<rparr>)" for n
      unfolding truncate_fn_def if_not_P [OF ok] Let_def st'_def by (elim disjE) simp_all
    with False show ?thesis by (simp add: st'_def)
  qed
qed simp

lemma follows_mono: "follows False e rs \<Longrightarrow> follows g e rs"
  by (induction rs arbitrary: e) auto

lemma follows_offsets:
  "map roff rs = [unat b ..< e] \<Longrightarrow> e < 2 ^ 64 \<Longrightarrow> follows False b rs"
proof (induction rs arbitrary: b)
  case (Cons r rs)
  from Cons.prems(1) have lt: "unat b < e" by (metis list.distinct(1) list.simps(9) upt_eq_Nil_conv not_less)
  then have eq: "roff r = unat b" "map roff rs = [Suc (unat b) ..< e]"
    using Cons.prems(1) by (simp_all add: upt_conv_Cons del: upt_Suc)
  have "unat (b + 1) = Suc (unat b)" using unat_add_of_nat [of b 1] lt Cons.prems(2) by simp
  then have "follows False (b + 1) rs" using Cons.IH [of "b + 1"] eq(2) Cons.prems(2) by simp
  moreover have "Offset r = b" using eq(1) by (simp add: word_unat_eq_iff)
  ultimately show ?case by simp
qed simp

lemma follows_increasing:
  "increasing rs \<Longrightarrow> \<forall>r \<in> set rs. unat b \<le> roff r \<and> roff r < e \<Longrightarrow> e < 2 ^ 64 \<Longrightarrow> follows True b rs"
proof (induction rs arbitrary: b)
  case (Cons r rs)
  have u: "unat (Offset r + 1) = roff r + 1" using unat_add_of_nat [of "Offset r" 1] Cons.prems by auto
  have "follows True (Offset r + 1) rs"
    using Cons u by (intro Cons.IH) (auto simp: increasing_def Suc_le_eq)
  with Cons.prems show ?case by (auto simp: word_less_nat_alt word_unat_eq_iff)
qed simp

lemma range_follows:
  assumes "range_ok g (unat b) rs e" and "segment_records b rs" and "e < 2 ^ 64"
  shows "follows g b rs"
proof (cases g)
  case True
  then show ?thesis using assms follows_increasing [of rs b e] by (auto simp: range_ok_def segment_records_def)
next
  case False
  then show ?thesis using assms follows_offsets [of rs b e] by (auto simp: range_ok_def)
qed

lemma takeWhile_all: "list_all P xs \<Longrightarrow> takeWhile P xs = xs"
  by (simp add: list_all_iff takeWhile_eq_all_conv)

lemma cutPosition_ok:
  assumes nf: "no_faults rt" and st: "seg_state d s rs" and rng: "range_ok g (unat (baseOffset s)) rs e" and e: "e < 2 ^ 64"
    and off: "baseOffset s \<le> off"
  shows "cutPosition rt g off s d = Inr (length (enc_all (takeWhile (below off) rs)))"
proof -
  have inv: "seg_inv d s rs" "small_records rs" using st by (simp_all add: seg_state_def)
  note s = seg_invD [OF inv(1)]
  have fol: "follows g (baseOffset s) rs" by (rule range_follows [OF rng s(6) e])
  have lo: "baseOffset s \<le> Offset r" if "r \<in> set rs" for r
    using s(6) that by (auto simp: segment_records_def word_le_nat_alt)
  have lt: "roff r < e" if "r \<in> set rs" for r using rng that by (simp add: range_ok_def)
  show ?thesis
  proof (cases "baseOffset s = off")
    case True
    then have "\<not> below off r" if "r \<in> set rs" for r using lo [OF that] by (simp add: not_less)
    then have "takeWhile (below off) rs = []" by (cases rs) simp_all
    with True show ?thesis by (simp add: cutPosition_def)
  next
    case ne: False
    define st where "st = \<lparr>ts_expected = baseOffset s, ts_cut = 0, ts_gap = False\<rparr>"
    have cp: "cutPosition rt g off s d = (let st = snd (feed (truncate_fn g off) st (layout 0 rs)) in
        if ts_gap st then Inl ErrOffsetGap
        else if ts_cut st = 0 \<and> ts_expected st \<le> off then Inr (segSize s) else Inr (ts_cut st))"
      using ne by (simp add: cutPosition_def scanSegment_all [OF nf inv] st_def Let_def)
    have fd: "snd (feed (truncate_fn g off) st (layout 0 rs)) =
      (if list_all (below off) rs
       then st\<lparr>ts_expected := (if rs = [] then ts_expected st else Offset (last rs) + 1)\<rparr>
       else st\<lparr>ts_expected := Offset (hd (dropWhile (below off) rs)) + 1,
               ts_cut := 0 + length (enc_all (takeWhile (below off) rs))\<rparr>)"
      by (rule truncate_feed) (simp_all add: fol st_def)
    show ?thesis
    proof (cases "list_all (below off) rs")
      case True
      have "Offset (last rs) + 1 \<le> off" if "rs \<noteq> []"
      proof -
        have "Offset (last rs) < off" using True that by (simp add: list_all_iff)
        then show ?thesis by (rule inc_le)
      qed
      then show ?thesis
        unfolding cp fd Let_def if_P [OF True] takeWhile_all [OF True] using off s(3) by (simp add: st_def)
    next
      case False
      let ?r = "hd (dropWhile (below off) rs)"
      have dw: "dropWhile (below off) rs \<noteq> []" using False by (auto simp: list_all_iff dropWhile_eq_Nil_conv)
      have "?r \<in> set rs" using dw by (meson hd_in_set set_dropWhileD)
      moreover have "off \<le> Offset ?r" using hd_dropWhile [OF dw] by (simp add: not_less)
      ultimately have "\<not> Offset ?r + 1 \<le> off"
        using lt [of ?r] e unat_add_of_nat [of "Offset ?r" 1] by (simp add: word_le_nat_alt)
      then show ?thesis unfolding cp fd Let_def if_not_P [OF False] by (simp add: st_def)
    qed
  qed
qed

section \<open>Truncation\<close>

lemma feed_maxTs: "feed maxTs_fn m (layout p rs) = (True, ts_max m rs)"
  by (induction rs arbitrary: m p) (simp_all add: maxTs_fn_def)

lemma refreshMaxTs_ok:
  assumes nf: "no_faults rt" and st: "seg_state d s rs"
  shows "refreshMaxTsLocked rt (s, d) = (Inr (), s\<lparr>maxTs := ts_max 0 rs\<rparr>, d)"
proof -
  have inv: "seg_inv d s rs" "small_records rs" using st by (simp_all add: seg_state_def)
  from scanSegment_all [OF nf inv, of True maxTs_fn 0]
  have "streamRecords (growcap rt) (reader rt d (segmentLogName (baseOffset s))) 0 (segSize s) True maxTs_fn 0 = Some (None, ts_max 0 rs)"
    by (auto simp: scanSegment_def feed_maxTs split: option.splits prod.splits)
  then show ?thesis by (simp add: refreshMaxTsLocked_def)
qed

lemma filter_takeWhile_offsets: "increasing rs \<Longrightarrow> filter (below off) rs = takeWhile (below off) rs"
proof (induction rs)
  case (Cons r rs)
  then have lt: "Offset r < Offset x" if "x \<in> set rs" for x
    using that by (auto simp: increasing_def word_less_nat_alt)
  show ?case
  proof (cases "below off r")
    case True
    with Cons show ?thesis by (simp add: increasing_def)
  next
    case False
    then have "\<not> below off x" if "x \<in> set rs" for x using lt [OF that] by (metis less_trans)
    with False show ?thesis by (simp add: filter_empty_conv)
  qed
qed simp

lemma range_ok_cut:
  assumes rng: "range_ok g (unat b) rs e" and "unat b \<le> unat off" "unat off \<le> e"
  shows "range_ok g (unat b) (filter (below off) rs) (unat off)"
proof -
  have "map roff (filter (below off) rs) = [unat b ..< unat off]" if "\<not> g"
  proof -
    have "map roff (filter (below off) rs) = filter (\<lambda>n. n < unat off) (map roff rs)"
      by (simp add: filter_map o_def word_less_nat_alt)
    also have "map roff rs = [unat b ..< unat off] @ [unat off ..< e]"
      using rng that upt_add_eq_append [OF assms(2), of "e - unat off"] assms(3) by (simp add: range_ok_def)
    also have "filter (\<lambda>n. n < unat off) ([unat b ..< unat off] @ [unat off ..< e]) = [unat b ..< unat off]"
      by (simp add: filter_id_conv filter_empty_conv)
    finally show ?thesis .
  qed
  then show ?thesis using rng assms(2,3) by (auto simp: range_ok_def word_less_nat_alt)
qed

text \<open>The segment that holds the offset, and the cut of the log there.\<close>

lemma segmentsUpTo_split:
  assumes srt: "sorted_wrt (\<lambda>a b. unat (baseOffset a) < unat (baseOffset b)) ss" and n: "segmentsUpTo off ss = Suc n"
  obtains us s ts where "ss = us @ s # ts" and "length us = n" and "baseOffset s \<le> off"
    and "\<And>t. t \<in> set ts \<Longrightarrow> off < baseOffset t"
proof -
  define P where "P = (\<lambda>s :: segment. baseOffset s \<le> off)"
  have len: "length (takeWhile P ss) = Suc n" using n by (simp add: segmentsUpTo_def P_def)
  then obtain us s where us: "takeWhile P ss = us @ [s]" "length us = n"
    by (metis append_butlast_last_id diff_Suc_1 length_0_conv length_butlast nat.distinct(1))
  have ss: "ss = us @ s # dropWhile P ss" using takeWhile_dropWhile_id [of P ss] us(1) by simp
  have "P s" using us(1) by (metis in_set_conv_decomp set_takeWhileD)
  moreover have "off < baseOffset t" if t: "t \<in> set (dropWhile P ss)" for t
  proof -
    obtain v vs where v: "dropWhile P ss = v # vs" using t by (cases "dropWhile P ss") auto
    then have "off < baseOffset v" using hd_dropWhile [of P ss] by (simp add: P_def not_le)
    moreover have "sorted_wrt (\<lambda>a b. unat (baseOffset a) < unat (baseOffset b)) (v # vs)"
      using srt ss v by (metis sorted_wrt_append sorted_wrt.simps(2))
    ultimately show ?thesis using t v by (auto simp: word_less_nat_alt)
  qed
  ultimately show thesis using that [OF ss us(2)] by (simp add: P_def)
qed

lemma filter_split_log:
  assumes "\<And>r. r \<in> set (concat crs) \<Longrightarrow> below off r" and "\<And>r. r \<in> set (concat trs) \<Longrightarrow> \<not> below off r"
  shows "filter (below off) (concat (crs @ rs # trs)) = concat (crs @ [filter (below off) rs])"
proof -
  have "filter (below off) (concat crs) = concat crs" "filter (below off) (concat trs) = []"
    using assms by (simp_all only: filter_id_conv filter_empty_conv) blast+
  then show ?thesis by simp
qed

lemma fresh_part:
  assumes "segments p = [ns]" and "seg_state d ns []" and "baseOffset ns = nextOffset p" and "own_files d [ns]"
  shows "part_inv p d [[]]"
  unfolding part_inv_def
  by (intro exI [of _ "[]"] exI [of _ ns] exI [of _ "[]"]) (simp add: assms range_ok_def)

lemma open_fresh:
  assumes nf: "no_faults rt" and own: "own_files d []"
  obtains ns d' where "openSegment rt off iv d = (Inr ns, d')" and "baseOffset ns = off" and "seg_state d' ns []"
    and "own_files d' [ns]"
proof -
  have nex: "\<not> exists_file d (segmentLogName off)" "\<not> exists_file d (segmentIndexName off)"
    using own by (auto simp: own_files_def)
  obtain ns d' where o: "openSegment rt off iv d = (Inr ns, d')" "baseOffset ns = off"
    "seg_inv d' ns []" "index_file_ok d' ns" "same_files_but (seg_files ns) d d'"
    using openSegment_new [OF nf nex] by metis
  moreover have "own_files d' [ns]" by (rule own_files_write [OF own o(5)]) simp_all
  ultimately show thesis using that by (simp add: seg_state_def)
qed

lemma forwardReset_ok:
  assumes nf: "no_faults rt" and inv: "part_inv p d rss"
  obtains p' d' where "forwardResetLocked rt off (p, d) = (Inr (), p', d')" and "part_inv p' d' [[]]"
    and "nextOffset p' = off" and "FirstOffset p' = off"
proof -
  obtain d1 where d1: "forR (rev [0 ..< length (segments p)]) (removeSegmentLocked rt) (p, d) = (Inr (), p\<lparr>segments := []\<rparr>, d1)"
    "files_removed (segments p) d d1"
    using removeSegments_ok [OF nf, of p "[]" "segments p" d] by auto
  have own: "own_files d1 []" using own_files_removed [OF _ d1(2), of "[]"] part_invD(5) [OF inv] by simp
  obtain ns d2 where o: "openSegment rt off (IndexIntervalBytes (p_opts p)) d1 = (Inr ns, d2)" "baseOffset ns = off"
    "seg_state d2 ns []" "own_files d2 [ns]"
    using open_fresh [OF nf own] .
  define p' where "p' = p\<lparr>segments := [ns], nextOffset := off, dirty := True, dirtySegStart := 0\<rparr>"
  have "forwardResetLocked rt off (p, d) = (Inr (), p', d2)"
    by (simp add: forwardResetLocked_def d1(1) o(1) p'_def)
  moreover have "part_inv p' d2 [[]]" by (rule fresh_part) (use o in \<open>simp_all add: p'_def\<close>)
  ultimately show thesis using that [of p' d2] o(2) by (simp add: p'_def FirstOffset_def)
qed

lemma record_above_base:
  assumes "list_all2 (seg_state d) ss rss" and "r \<in> set (concat rss)"
  shows "\<exists>s \<in> set ss. baseOffset s \<le> Offset r"
  using assms
proof (induction rule: list_all2_induct)
  case (Cons s ss rs rss)
  then show ?case
    using seg_invD(6) by (cases "r \<in> set rs") (auto simp: seg_state_def segment_records_def word_le_nat_alt)
qed simp

lemma records_below_end:
  assumes inv: "part_inv p d rss" and r: "r \<in> set (concat rss)"
  shows "Offset r < nextOffset p"
proof -
  obtain ss s crs rs where "segments p = ss @ [s]" "rss = crs @ [rs]"
    and ch: "chain (gapsAllowed p) ss crs (unat (baseOffset s))"
    and rng: "range_ok (gapsAllowed p) (unat (baseOffset s)) rs (unat (nextOffset p))"
    using inv unfolding part_inv_def by blast
  then show ?thesis
    using r chain_records [OF ch, of r] by (cases "r \<in> set rs") (auto simp: range_ok_def word_less_nat_alt)
qed

lemma truncate_below_all:
  assumes nf: "no_faults rt" and inv: "part_inv p d rss" and "\<not> closed p" and off: "off < nextOffset p"
    and n: "segmentsUpTo off (segments p) = 0"
  obtains p' d' where "TruncateTo rt off (p, d) = (Inr (), p', d')" and "part_inv p' d' [[]]"
    and "nextOffset p' = off" and "filter (below off) (concat rss) = []"
proof -
  note i = part_invD [OF inv]
  obtain d1 where d1: "forR (rev [0 ..< length (segments p)]) (removeSegmentLocked rt) (p, d) = (Inr (), p\<lparr>segments := []\<rparr>, d1)"
    "files_removed (segments p) d d1"
    using removeSegments_ok [OF nf, of p "[]" "segments p" d] by auto
  have own: "own_files d1 []" using own_files_removed [OF _ d1(2), of "[]"] i(5) by simp
  obtain ns d2 where o: "openSegment rt off (IndexIntervalBytes (p_opts p)) d1 = (Inr ns, d2)" "baseOffset ns = off"
    "seg_state d2 ns []" "own_files d2 [ns]"
    using open_fresh [OF nf own] .
  define p' where "p' = p\<lparr>segments := [ns], nextOffset := off, dirty := True\<rparr>"
  have "\<not> nextOffset p < off" "off \<noteq> nextOffset p" using off by auto
  then have "TruncateTo rt off (p, d) = (Inr (), p', d2)"
    using assms(3) n d1(1) o(1) by (simp add: TruncateTo_def truncateTail_def bindR_def p'_def Let_def del: bindR_simps)
  moreover have "part_inv p' d2 [[]]" by (rule fresh_part) (use o in \<open>simp_all add: p'_def\<close>)
  moreover have "\<not> below off r" if r: "r \<in> set (concat rss)" for r
  proof -
    obtain t where t: "t \<in> set (segments p)" "baseOffset t \<le> Offset r"
      using record_above_base [OF i(3) r] by blast
    have "off < baseOffset (hd (segments p))"
      using n i(1) by (cases "segments p") (auto simp: segmentsUpTo_def not_le split: if_splits)
    moreover have "unat (baseOffset (hd (segments p))) \<le> unat (baseOffset t)"
      using i(1,4) t(1) by (cases "segments p") auto
    ultimately show ?thesis using t(2) by (simp add: word_less_nat_alt word_le_nat_alt)
  qed
  then have "filter (below off) (concat rss) = []" by (simp only: filter_empty_conv) blast
  ultimately show thesis using that [of p' d2] by (simp add: p'_def)
qed

lemma truncate_segment_ok:
  assumes nf: "no_faults rt" and st: "seg_state d s rs"
  obtains s' d' where "bindR (seg_truncate rt (length (enc_all (takeWhile (below off) rs)))) (\<lambda>_. refreshMaxTsLocked rt) (s, d) = (Inr (), s', d')"
    and "seg_state d' s' (filter (below off) rs)" and "same_files_but (seg_files s) d d'" and "baseOffset s' = baseOffset s"
proof -
  have inv: "seg_inv d s rs" "small_records rs" "increasing rs"
    using st seg_invD(6) by (auto simp: seg_state_def segment_records_def)
  let ?k = "length (takeWhile (below off) rs)"
  have tk: "take ?k rs = takeWhile (below off) rs" by (metis takeWhile_eq_take)
  obtain s1 d1 where t: "seg_truncate rt (length (enc_all (take ?k rs))) (s, d) = (Inr (), s1, d1)"
    "seg_inv d1 s1 (take ?k rs)" "index_file_ok d1 s1" "same_files_but (seg_files s) d d1" "baseOffset s1 = baseOffset s"
    using seg_truncate_ok [OF nf inv(1), of ?k] length_takeWhile_le by metis
  have "small_records (take ?k rs)" using inv(2) by (metis append_take_drop_id small_records_simps(3))
  then have s1: "seg_state d1 s1 (filter (below off) rs)"
    using t(2,3) by (simp add: seg_state_def tk filter_takeWhile_offsets [OF inv(3)])
  define s2 where "s2 = s1\<lparr>maxTs := ts_max 0 (filter (below off) rs)\<rparr>"
  have "bindR (seg_truncate rt (length (enc_all (takeWhile (below off) rs)))) (\<lambda>_. refreshMaxTsLocked rt) (s, d) = (Inr (), s2, d1)"
    using t(1) refreshMaxTs_ok [OF nf s1] by (simp add: tk s2_def)
  moreover have "seg_state d1 s2 (filter (below off) rs)" using s1 by (simp add: s2_def seg_state_def)
  ultimately show thesis using that [of s2 d1] t(4,5) by (simp add: s2_def)
qed

lemma truncate_cut:
  assumes nf: "no_faults rt" and inv: "part_inv p d rss" and "\<not> closed p" and off: "off < nextOffset p"
    and n: "segmentsUpTo off (segments p) = Suc n"
  obtains p' d' rss' where "TruncateTo rt off (p, d) = (Inr (), p', d')" and "part_inv p' d' rss'"
    and "nextOffset p' = off" and "concat rss' = filter (below off) (concat rss)"
proof -
  note i = part_invD [OF inv]
  obtain us s ts where segs: "segments p = us @ s # ts" and us: "length us = n" and base: "baseOffset s \<le> off"
    and above: "\<And>t. t \<in> set ts \<Longrightarrow> off < baseOffset t"
    by (rule segmentsUpTo_split [OF i(4) n]) blast
  obtain crs rs trs where rss: "rss = crs @ rs # trs" "length crs = length us"
    and st: "list_all2 (seg_state d) us crs" "seg_state d s rs" "list_all2 (seg_state d) ts trs"
    and ch: "chain (gapsAllowed p) us crs (unat (baseOffset s))"
    and rng: "range_ok (gapsAllowed p) (unat (baseOffset s)) rs (end_after ts (unat (nextOffset p)))"
    using part_inv_split [OF inv segs] .
  have ea: "unat off \<le> end_after ts (unat (nextOffset p))"
    using above off by (cases ts) (force simp: end_after_def word_less_nat_alt)+
  have ea2: "end_after ts (unat (nextOffset p)) < 2 ^ 64"
    using unsigned_less [of "nextOffset p", where 'a = nat] unsigned_less [of "baseOffset (hd ts)", where 'a = nat]
    by (cases ts) (simp_all add: end_after_def)
  have cp: "cutPosition rt (gapsAllowed p) off s d = Inr (length (enc_all (takeWhile (below off) rs)))"
    by (rule cutPosition_ok [OF nf st(2) rng ea2 base])
  have seg': "segments p = (us @ [s]) @ ts" using segs by simp
  obtain d1 where d1: "forR (rev [Suc n ..< length (segments p)]) (removeSegmentLocked rt) (p, d) = (Inr (), p\<lparr>segments := us @ [s]\<rparr>, d1)"
    "files_removed ts d d1"
    using removeSegments_ok [OF nf seg', of d] us by auto
  have dist: "baseOffset ` set (us @ [s]) \<inter> baseOffset ` set ts = {}" "baseOffset s \<notin> baseOffset ` set us"
    using i(4) segs by (force simp: sorted_wrt_append)+
  have st1: "list_all2 (seg_state d1) us crs" "seg_state d1 s rs"
    using seg_states_removed [OF st(1) d1(2)] seg_state_removed [OF st(2) d1(2)] dist by auto
  have own1: "own_files d1 (us @ [s])" using own_files_removed [OF _ d1(2)] i(5) seg' by metis
  obtain s2 d2 where t: "bindR (seg_truncate rt (length (enc_all (takeWhile (below off) rs)))) (\<lambda>_. refreshMaxTsLocked rt) (s, d1) = (Inr (), s2, d2)"
    "seg_state d2 s2 (filter (below off) rs)" "same_files_but (seg_files s) d1 d2" "baseOffset s2 = baseOffset s"
    using truncate_segment_ok [OF nf st1(2)] .
  define p' where "p' = p\<lparr>segments := us @ [s2], nextOffset := off, dirty := True,
    dirtySegStart := (if int n < dirtySegStart p then int n else dirtySegStart p)\<rparr>"
  have tail: "truncateTail rt off (Suc n) (length (enc_all (takeWhile (below off) rs))) (p\<lparr>segments := us @ [s]\<rparr>, d1) =
      (Inr (), p\<lparr>segments := us @ [s2]\<rparr>, d2)"
    using t(1) us by (auto simp: truncateTail_def nth_append list_update_append)
  have "\<not> nextOffset p < off" "off \<noteq> nextOffset p" using off by auto
  moreover have "segments p ! n = s" using segs us by (simp add: nth_append)
  ultimately have "TruncateTo rt off (p, d) = (Inr (), p', d2)"
    using assms(3) by (simp add: TruncateTo_def n Let_def cp bindR_def d1(1) tail p'_def del: bindR_simps)
  moreover have "part_inv p' d2 (crs @ [filter (below off) rs])"
    unfolding part_inv_def
  proof (intro exI conjI)
    show "segments p' = us @ [s2]" "crs @ [filter (below off) rs] = crs @ [filter (below off) rs]" by (simp_all add: p'_def)
    show "list_all2 (seg_state d2) us crs" by (rule seg_states_other [OF st1(1) t(3) dist(2)])
    show "seg_state d2 s2 (filter (below off) rs)" by (rule t(2))
    show "chain (gapsAllowed p') us crs (unat (baseOffset s2))" using ch t(4) by (simp add: p'_def)
    show "range_ok (gapsAllowed p') (unat (baseOffset s2)) (filter (below off) rs) (unat (nextOffset p'))"
      using range_ok_cut [OF rng _ ea] base t(4) by (simp add: p'_def word_le_nat_alt)
    show "own_files d2 (segments p')"
      by (rule own_files_write [OF own1 t(3)]) (auto simp: p'_def t(4))
  qed
  moreover have "concat (crs @ [filter (below off) rs]) = filter (below off) (concat rss)"
    unfolding rss(1)
  proof (rule filter_split_log [symmetric])
    show "below off r" if "r \<in> set (concat crs)" for r
      using chain_records [OF ch that] base by (simp add: word_less_nat_alt word_le_nat_alt)
    show "\<not> below off r" if r: "r \<in> set (concat trs)" for r
    proof -
      obtain t where "t \<in> set ts" "baseOffset t \<le> Offset r" using record_above_base [OF st(3) r] by blast
      with above [of t] show ?thesis by simp
    qed
  qed
  ultimately show thesis using that [of p' d2 "crs @ [filter (below off) rs]"] by (simp add: p'_def)
qed

section \<open>Properties of the replica side\<close>

text \<open>
  A follower that appends a batch continuing its log stores exactly the leader's
  records, with the leader's offsets and timestamps, and the partition invariant
  holds again, through a rotation of the active segment.
\<close>

theorem AppendReplica_refines:
  assumes "no_faults rt" and "part_inv p d rss" and "\<not> closed p" and "within_limits p rs"
    and "map Offset rs = map (\<lambda>i. nextOffset p + of_nat i) [0 ..< length rs]"
  shows "\<exists>p' d' rss'. AppendReplica rt rs (p, d) = (Inr (), p', d') \<and> part_inv p' d' rss' \<and>
    concat rss' = concat rss @ rs \<and> nextOffset p' = nextOffset p + of_nat (length rs)"
  by (rule AppendReplica_ok [OF assms]) blast

theorem AppendReplica_refines_witness:
  "\<exists>p' d' rss'. AppendReplica calm_runtime [sample_record\<lparr>Offset := 0\<rparr>] (fresh_partition, fresh_disk) = (Inr (), p', d') \<and>
     part_inv p' d' rss' \<and> concat rss' = [sample_record\<lparr>Offset := 0\<rparr>] \<and> nextOffset p' = 1"
proof -
  have "within_limits fresh_partition [sample_record\<lparr>Offset := 0\<rparr>]"
    using encodable_sample by (simp add: within_limits_def fresh_partition_def sample_options_def encodable_def
        length_enc_sample0 streamChunk_def fresh_segment_def)
  from AppendReplica_refines [OF no_faults_calm fresh_part_inv fresh_fields(1) this]
  show ?thesis by (simp add: fresh_fields)
qed

text \<open>
  A batch that does not continue the log is refused: when its first record is not
  at the high-water mark nothing changes at all, and when it has a gap inside, the
  error is the divergence error and the log's records and high-water mark stay.
\<close>

theorem AppendReplica_diverged:
  assumes "part_inv p d rss" and "no_faults rt" and "\<not> closed p" and "list_all encodable rs"
    and "0 < MaxSegmentBytes (p_opts p)"
    and "i < length rs" and "Offset (rs ! i) \<noteq> nextOffset p + of_nat i"
    and "\<forall>j < i. Offset (rs ! j) = nextOffset p + of_nat j"
  shows "\<exists>p' d'. AppendReplica rt rs (p, d) = (Inl ErrDivergedAppend, p', d') \<and> (i = 0 \<longrightarrow> (p', d') = (p, d)) \<and>
    nextOffset p' = nextOffset p \<and> concat (map (visible d') (segments p')) = enc_all (concat rss)"
proof -
  have vis: "concat (map (visible d) (segments p)) = enc_all (concat rss)"
    by (simp add: visible_part_inv [OF assms(1)] concat_map_enc_all)
  have ne: "rs \<noteq> []" using assms(6) by auto
  show ?thesis
  proof (cases "i = 0")
    case True
    then have "Offset (hd rs) \<noteq> nextOffset p" using assms(7) ne by (simp add: hd_conv_nth)
    then show ?thesis using assms(3) ne True vis by (simp add: AppendReplica_def)
  next
    case False
    then have hd: "Offset (hd rs) = nextOffset p" using assms(8) ne by (auto simp: hd_conv_nth)
    obtain q e qss where rot: "rotate rt (p, d) = (Inr (), q, e)" and q: "part_inv q e qss" "concat qss = concat rss"
      "nextOffset q = nextOffset p"
      using rotate_ok [OF assms(2,1,5)] by metis
    obtain ss s where segs: "segments q = ss @ [s]" using q(1) unfolding part_inv_def by blast
    obtain t where enc: "encodeBatch (checkOffset (nextOffset p)) 0 rs ([], []) s = (Inl ErrDivergedAppend, s\<lparr>maxTs := t\<rparr>)"
      using encodeBatch_diverged [of i rs "nextOffset p" 0 "([], [])" s] assms(4,6-8) by (auto simp: checkOffset_def)
    have "AppendReplica rt rs (p, d) = (Inl ErrDivergedAppend, setActive (s\<lparr>maxTs := t\<rparr>) q, e)"
      using assms(3) ne hd segs enc by (simp add: AppendReplica_def bindR_def rot appendActive_def del: bindR_simps)
    moreover have "concat (map (visible e) (segments q)) = enc_all (concat rss)"
      by (simp add: visible_part_inv [OF q(1)] concat_map_enc_all q(2))
    then have "concat (map (visible e) (segments (setActive (s\<lparr>maxTs := t\<rparr>) q))) = enc_all (concat rss)"
      using segs by (simp add: setActive_def visible_def)
    ultimately show ?thesis using False q(3) by (simp add: setActive_def)
  qed
qed

theorem AppendReplica_diverged_witness:
  "\<exists>p' d'. AppendReplica calm_runtime [sample_record\<lparr>Offset := 0\<rparr>, sample_record\<lparr>Offset := 2\<rparr>] (fresh_partition, fresh_disk) =
     (Inl ErrDivergedAppend, p', d') \<and> nextOffset p' = 0"
proof -
  have e: "list_all encodable [sample_record\<lparr>Offset := 0\<rparr>, sample_record\<lparr>Offset := 2\<rparr>]"
    using encodable_sample by (simp add: encodable_def)
  have m: "0 < MaxSegmentBytes (p_opts fresh_partition)" by (simp add: fresh_partition_def sample_options_def)
  show ?thesis
    using AppendReplica_diverged [OF fresh_part_inv no_faults_calm fresh_fields(1) e m, of 1]
    by (auto simp: fresh_fields)
qed

text \<open>
  Property C11. Truncation to an offset: afterwards the partition holds exactly the records below it and
  the next record gets that offset. The segments above are gone from the directory, the
  one that holds the offset is cut at a record boundary with its index, also where
  compaction left gaps; an offset above the log empties it and restarts there.
\<close>

theorem TruncateTo_refines:
  assumes "no_faults rt" and "part_inv p d rss" and "\<not> closed p"
  shows "\<exists>p' d' rss'. TruncateTo rt off (p, d) = (Inr (), p', d') \<and> part_inv p' d' rss' \<and> nextOffset p' = off \<and>
    concat rss' = (if nextOffset p < off then [] else filter (\<lambda>r. Offset r < off) (concat rss))"
proof -
  consider "off = nextOffset p" | "nextOffset p < off" | "off < nextOffset p" by (metis linorder_neqE)
  then show ?thesis
  proof cases
    case 1
    have "below off r" if "r \<in> set (concat rss)" for r
      using records_below_end [OF assms(2) that] 1 by simp
    then have "filter (below off) (concat rss) = concat rss" by (simp only: filter_id_conv) blast
    with 1 assms show ?thesis by (intro exI [of _ p] exI [of _ d] exI [of _ rss]) (simp add: TruncateTo_def)
  next
    case 2
    then have "TruncateTo rt off (p, d) = forwardResetLocked rt off (p, d)"
      using assms(3) by (auto simp: TruncateTo_def)
    with 2 show ?thesis by (rule_tac forwardReset_ok [OF assms(1,2), of off]) force
  next
    case 3
    then have lt: "\<not> nextOffset p < off" by auto
    show ?thesis
    proof (cases "segmentsUpTo off (segments p)")
      case 0
      obtain p' d' where "TruncateTo rt off (p, d) = (Inr (), p', d')" "part_inv p' d' [[]]"
        "nextOffset p' = off" "filter (below off) (concat rss) = []"
        using truncate_below_all [OF assms 3 0] .
      with lt show ?thesis by (intro exI [of _ p'] exI [of _ d'] exI [of _ "[[]]"]) simp
    next
      case (Suc n)
      obtain p' d' rss' where "TruncateTo rt off (p, d) = (Inr (), p', d')" "part_inv p' d' rss'"
        "nextOffset p' = off" "concat rss' = filter (below off) (concat rss)"
        using truncate_cut [OF assms 3 Suc] .
      with lt show ?thesis by (intro exI [of _ p'] exI [of _ d'] exI [of _ rss']) simp
    qed
  qed
qed

theorem TruncateTo_refines_witness:
  "\<exists>p d p' d' rss'. TruncateTo calm_runtime 0 (p, d) = (Inr (), p', d') \<and> nextOffset p = 1 \<and> part_inv p' d' rss' \<and>
     concat rss' = [] \<and> nextOffset p' = 0"
proof -
  obtain p d rss where p: "part_inv p d rss" "concat rss = stampAll 0 5 [sample_record]"
    "nextOffset p = 0 + of_nat (length [sample_record])" "\<not> closed p"
    using Append_ok [OF no_faults_calm fresh_part_inv fresh_fields(1) _ sample_within_limits, of 5]
    unfolding fresh_fields by (metis append_Nil concat.simps list.distinct(1))
  obtain p' d' rss' where "TruncateTo calm_runtime 0 (p, d) = (Inr (), p', d')" "part_inv p' d' rss'" "nextOffset p' = 0"
    "concat rss' = filter (\<lambda>r. Offset r < 0) (concat rss)"
    using TruncateTo_refines [OF no_faults_calm p(1,4), of 0] by auto
  moreover from this(4) have "concat rss' = []" by simp
  ultimately show ?thesis using p(3) by (metis add_0 length_Cons list.size(3) of_nat_1 One_nat_def)
qed

end
