(* ===== verification/Retention.thy ===== *)
theory Retention
  imports Replica
begin

text \<open>
  Retention (src/internal/broker/storage/retention.go): deletion of the oldest
  closed segments by age or size, bounded by the smallest committed offset.
  Durations and instants are nanoseconds; \<open>time.Time.Sub\<close> saturates at the range of
  an int64.
\<close>

section \<open>Definitions\<close>

record Policy =
  RetentionMaxAge :: int
  RetentionMaxBytes :: int
  pol_Compact :: bool

record RetentionStats =
  SegmentsDeleted :: nat
  BytesFreed :: nat

definition noSafeOffset :: u64 where
  "noSafeOffset = - 1"

definition timeSub :: "int \<Rightarrow> int \<Rightarrow> int" where
  "timeSub a b = max (- (2 ^ 63)) (min (2 ^ 63 - 1) (a - b))"

definition unixMilli :: "i64 \<Rightarrow> int" where
  "unixMilli ms = sint ms * 1000000"

definition expired :: "Policy \<Rightarrow> int \<Rightarrow> segment \<Rightarrow> bool" where
  "expired pol now s \<longleftrightarrow> 0 < RetentionMaxAge pol \<and> RetentionMaxAge pol < timeSub now (unixMilli (maxTs s))"

definition overSize :: "Policy \<Rightarrow> int \<Rightarrow> bool" where
  "overSize pol totalLogBytes \<longleftrightarrow> 0 < RetentionMaxBytes pol \<and> RetentionMaxBytes pol < totalLogBytes"

text \<open>The selection loop: how many segments from the front are deleted.\<close>

fun selectDeletions :: "Policy \<Rightarrow> u64 \<Rightarrow> int \<Rightarrow> int \<Rightarrow> segment list \<Rightarrow> nat" where
  "selectDeletions pol minSafe now tot (s # t # ss) =
     (if minSafe < baseOffset t then 0
      else if \<not> expired pol now s \<and> \<not> overSize pol tot then 0
      else Suc (selectDeletions pol minSafe now (tot - int (segSize s)) (t # ss)))"
| "selectDeletions pol minSafe now tot ss = 0"

definition totalLogBytes :: "segment list \<Rightarrow> int" where
  "totalLogBytes ss = sum_list (map (\<lambda>s. int (segSize s)) ss)"

type_synonym deletion = "nat \<times> storage_error option"

definition noteErr :: "storage_error \<Rightarrow> deletion \<Rightarrow> deletion" where
  "noteErr e = (\<lambda>(freed, firstErr). (freed, if firstErr = None then Some e else firstErr))"

definition deleteFile :: "runtime \<Rightarrow> string \<Rightarrow> deletion \<times> disk \<Rightarrow> deletion \<times> disk" where
  "deleteFile rt name = (\<lambda>((freed, firstErr), d).
     case Stat rt name d of (st, d) \<Rightarrow>
     let freed = (case st of Inl _ \<Rightarrow> freed | Inr sz \<Rightarrow> freed + sz) in
     case removeIfExists rt name d of
       (Inl e, d) \<Rightarrow> (noteErr e (freed, firstErr), d)
     | (Inr _, d) \<Rightarrow> ((freed, firstErr), d))"

definition deleteSegment :: "runtime \<Rightarrow> deletion \<times> disk \<Rightarrow> segment \<Rightarrow> deletion \<times> disk" where
  "deleteSegment rt = (\<lambda>(acc, d) s.
     case seg_close rt s d of (r, d) \<Rightarrow>
     let acc = (case r of Inl e \<Rightarrow> noteErr e acc | Inr _ \<Rightarrow> acc) in
     deleteFile rt (segmentIndexName (baseOffset s)) (deleteFile rt (segmentLogName (baseOffset s)) (acc, d)))"

definition deleteSegmentsLocked :: "runtime \<Rightarrow> nat \<Rightarrow> Partition \<times> disk \<Rightarrow> deletion \<times> Partition \<times> disk" where
  "deleteSegmentsLocked rt n = (\<lambda>(p, d).
     if n = 0 \<or> length (segments p) \<le> n then ((0, Some ErrInvalidDeletionCount), p, d)
     else case foldl (deleteSegment rt) ((0, None), d) (take n (segments p)) of (res, d) \<Rightarrow>
       (res, p\<lparr>segments := drop n (segments p),
               dirtySegStart := (if dirtySegStart p - int n < 0 then 0 else dirtySegStart p - int n)\<rparr>, d))"

definition ApplyRetention :: "runtime \<Rightarrow> Policy \<Rightarrow> u64 \<Rightarrow> int \<Rightarrow> (Partition \<times> disk, RetentionStats) res" where
  "ApplyRetention rt pol minSafeOffset now = (\<lambda>(p, d).
     if closed p then (Inl ErrPartitionClosed, (p, d))
     else
       let deleteUpTo = selectDeletions pol minSafeOffset now (totalLogBytes (segments p)) (segments p) in
       if deleteUpTo = 0 then (Inr \<lparr>SegmentsDeleted = 0, BytesFreed = 0\<rparr>, (p, d))
       else case deleteSegmentsLocked rt deleteUpTo (p, d) of
         ((freed, Some e), p, d) \<Rightarrow> (Inl e, (p, d))
       | ((freed, None), p, d) \<Rightarrow> (Inr \<lparr>SegmentsDeleted = deleteUpTo, BytesFreed = freed\<rparr>, (p, d)))"

section \<open>The selection\<close>

lemma selectDeletions_less: "ss \<noteq> [] \<Longrightarrow> selectDeletions pol m now tot ss < length ss"
  by (induction pol m now tot ss rule: selectDeletions.induct) auto

lemma selectDeletions_safe:
  "n \<le> selectDeletions pol m now tot ss \<Longrightarrow> 0 < n \<Longrightarrow> baseOffset (ss ! n) \<le> m"
proof (induction pol m now tot ss arbitrary: n rule: selectDeletions.induct)
  case (1 pol m now tot s t ss)
  then obtain k where k: "n = Suc k" by (cases n) auto
  with "1.prems" have sel: "\<not> m < baseOffset t" "expired pol now s \<or> overSize pol tot"
    "k \<le> selectDeletions pol m now (tot - int (segSize s)) (t # ss)"
    by (auto split: if_splits)
  show ?case
  proof (cases "k = 0")
    case True
    then show ?thesis using k sel(1) by simp
  next
    case False
    then show ?thesis using "1.IH" [OF sel(1) _ sel(3)] sel(2) k by simp
  qed
qed auto

text \<open>Where the selection stops.\<close>

lemma selectDeletions_stop:
  "n = selectDeletions pol m now tot ss \<Longrightarrow> Suc n < length ss \<Longrightarrow>
   m < baseOffset (ss ! Suc n) \<or>
   \<not> expired pol now (ss ! n) \<and> \<not> overSize pol (tot - totalLogBytes (take n ss))"
proof (induction pol m now tot ss arbitrary: n rule: selectDeletions.induct)
  case (1 pol m now tot s t ss)
  show ?case
  proof (cases "m < baseOffset t \<or> \<not> expired pol now s \<and> \<not> overSize pol tot")
    case True
    then show ?thesis using "1.prems" by (auto simp: totalLogBytes_def)
  next
    case False
    then obtain k where k: "n = Suc k" "k = selectDeletions pol m now (tot - int (segSize s)) (t # ss)"
      using "1.prems" by auto
    then show ?thesis using "1.IH" [OF _ _ k(2)] False "1.prems"(2) by (auto simp: totalLogBytes_def algebra_simps)
  qed
qed auto

text \<open>Every selected segment broke a rule when its turn came.\<close>

lemma selectDeletions_due:
  "i < selectDeletions pol m now tot ss \<Longrightarrow>
   baseOffset (ss ! Suc i) \<le> m \<and> (expired pol now (ss ! i) \<or> overSize pol (tot - totalLogBytes (take i ss)))"
proof (induction pol m now tot ss arbitrary: i rule: selectDeletions.induct)
  case (1 pol m now tot s t ss)
  from "1.prems" have sel: "\<not> m < baseOffset t" "expired pol now s \<or> overSize pol tot"
    by (auto split: if_splits)
  show ?case
  proof (cases i)
    case 0
    then show ?thesis using sel by (auto simp: totalLogBytes_def)
  next
    case (Suc k)
    then have k: "k < selectDeletions pol m now (tot - int (segSize s)) (t # ss)" using "1.prems" sel by auto
    show ?thesis using "1.IH" [OF sel(1) _ k] sel(2) Suc by (auto simp: totalLogBytes_def algebra_simps)
  qed
qed auto

section \<open>What deletion leaves alone\<close>

text \<open>Whatever fails, the files of the segments that stay are not touched.\<close>

lemma Stat_keeps: "content (snd (Stat rt n d)) = content d \<and> exists_file (snd (Stat rt n d)) = exists_file d"
  by (simp add: Stat_def call_ok_def call_def split: option.split)

lemma removeIfExists_keeps:
  assumes "m \<noteq> n"
  shows "content (snd (removeIfExists rt n d)) m = content d m \<and> exists_file (snd (removeIfExists rt n d)) m = exists_file d m"
  using assms by (auto simp: removeIfExists_def Remove_def call_ok_def call_def split: option.split)

lemma seg_close_keeps: "content (snd (seg_close rt s d)) = content d \<and> exists_file (snd (seg_close rt s d)) = exists_file d"
  by (auto simp: seg_close_def CloseFile_def call_ok_def call_def split: option.split)

lemma deleteFile_keeps:
  assumes "m \<noteq> n"
  shows "content (snd (deleteFile rt n (acc, d))) m = content d m \<and> exists_file (snd (deleteFile rt n (acc, d))) m = exists_file d m"
proof -
  obtain st d1 where st: "Stat rt n d = (st, d1)" by fastforce
  obtain r d2 where r: "removeIfExists rt n d1 = (r, d2)" by fastforce
  have "snd (deleteFile rt n (acc, d)) = d2"
    by (cases acc; cases r) (simp_all add: deleteFile_def st r Let_def)
  then show ?thesis using Stat_keeps [of rt n d] removeIfExists_keeps [OF assms, of rt d1] by (simp add: st r)
qed

lemma deleteSegment_keeps:
  assumes "m \<notin> seg_files s"
  shows "content (snd (deleteSegment rt (acc, d) s)) m = content d m \<and> exists_file (snd (deleteSegment rt (acc, d) s)) m = exists_file d m"
proof -
  obtain r d1 where r: "seg_close rt s d = (r, d1)" by fastforce
  obtain acc' where a: "deleteSegment rt (acc, d) s =
      deleteFile rt (segmentIndexName (baseOffset s)) (deleteFile rt (segmentLogName (baseOffset s)) (acc', d1))"
    by (simp add: deleteSegment_def r Let_def)
  obtain acc2 d2 where d2: "deleteFile rt (segmentLogName (baseOffset s)) (acc', d1) = (acc2, d2)" by fastforce
  show ?thesis
    using deleteFile_keeps [of m "segmentLogName (baseOffset s)" rt acc' d1] deleteFile_keeps [of m "segmentIndexName (baseOffset s)" rt acc2 d2]
      seg_close_keeps [of rt s d] assms
    by (simp add: a d2 r)
qed

lemma deleteSegments_keeps:
  "m \<notin> \<Union> (seg_files ` set ss) \<Longrightarrow> foldl (deleteSegment rt) (acc, d) ss = (acc', d') \<Longrightarrow>
   content d' m = content d m \<and> exists_file d' m = exists_file d m"
proof (induction ss arbitrary: acc d)
  case (Cons s ss)
  obtain acc1 d1 where 1: "deleteSegment rt (acc, d) s = (acc1, d1)" by fastforce
  have "m \<notin> seg_files s" using Cons.prems(1) by simp
  then show ?case
    using deleteSegment_keeps [of m s rt acc d] Cons.IH [of acc1 d1] Cons.prems 1 by simp
qed simp

lemma deleteSegment_ok:
  assumes "no_faults rt"
  obtains f' d' where "deleteSegment rt ((f, None), d) s = ((f', None), d')" and "files_removed [s] d d'"
proof -
  have del1: "\<exists>f' d'. deleteFile rt n ((f, None), d) = ((f', None), d') \<and>
      (\<forall>m. content d' m = (if m = n then [] else content d m)) \<and> (\<forall>m. exists_file d' m \<longleftrightarrow> m \<noteq> n \<and> exists_file d m)" for n f d
    using assms by (auto simp: deleteFile_def Stat_def call_ok_no_faults removeIfExists_ok Let_def content_no_file)
  obtain f1 d1 where 1: "deleteFile rt (segmentLogName (baseOffset s)) ((f, None), tick (tick d)) = ((f1, None), d1)"
    "\<forall>m. content d1 m = (if m = segmentLogName (baseOffset s) then [] else content d m)"
    "\<forall>m. exists_file d1 m \<longleftrightarrow> m \<noteq> segmentLogName (baseOffset s) \<and> exists_file d m"
    using del1 [of "segmentLogName (baseOffset s)" f "tick (tick d)"] by auto
  obtain f2 d2 where 2: "deleteFile rt (segmentIndexName (baseOffset s)) ((f1, None), d1) = ((f2, None), d2)"
    "\<forall>m. content d2 m = (if m = segmentIndexName (baseOffset s) then [] else content d1 m)"
    "\<forall>m. exists_file d2 m \<longleftrightarrow> m \<noteq> segmentIndexName (baseOffset s) \<and> exists_file d1 m"
    using del1 [of "segmentIndexName (baseOffset s)" f1 d1] by auto
  have "deleteSegment rt ((f, None), d) s = ((f2, None), d2)"
    using assms by (simp add: deleteSegment_def seg_close_ok Let_def 1(1) 2(1))
  moreover have "files_removed [s] d d2" using 1(2,3) 2(2,3) by (auto simp: files_removed_def)
  ultimately show thesis by (rule that)
qed

lemma deleteSegments_ok:
  assumes "no_faults rt"
  shows "\<exists>f' d'. foldl (deleteSegment rt) ((f, None), d) ss = ((f', None), d') \<and> files_removed ss d d'"
proof (induction ss arbitrary: f d)
  case Nil
  then show ?case by (simp add: files_removed_Nil)
next
  case (Cons s ss)
  obtain f1 d1 where 1: "deleteSegment rt ((f, None), d) s = ((f1, None), d1)" "files_removed [s] d d1"
    using deleteSegment_ok [OF assms] .
  obtain f2 d2 where 2: "foldl (deleteSegment rt) ((f1, None), d1) ss = ((f2, None), d2)" "files_removed ss d1 d2"
    using Cons.IH by blast
  show ?case using 1 2 files_removed_trans [OF 1(2) 2(2)] by simp
qed

section \<open>Deleting a prefix of the segments\<close>

lemma chain_suffix: "chain g (us @ ss) (crs @ rss) e \<Longrightarrow> length us = length crs \<Longrightarrow> chain g ss rss e"
proof (induction us arbitrary: crs)
  case (Cons u us)
  then obtain c crs' where "crs = c # crs'" by (cases crs) auto
  with Cons.prems have "chain g (us @ ss) (crs' @ rss) e" "length us = length crs'" by (simp_all add: Let_def)
  then show ?case by (rule Cons.IH)
qed simp

lemma part_inv_suffix:
  assumes inv: "part_inv p d rss" and n: "n < length (segments p)" and rm: "files_removed (take n (segments p)) d d'"
    and p': "segments p' = drop n (segments p)" "gapsAllowed p' = gapsAllowed p" "nextOffset p' = nextOffset p"
  shows "part_inv p' d' (drop n rss)"
proof -
  obtain ss s crs rs where segs: "segments p = ss @ [s]" "rss = crs @ [rs]"
    and st: "list_all2 (seg_state d) ss crs" "seg_state d s rs"
    and ch: "chain (gapsAllowed p) ss crs (unat (baseOffset s))"
    and rng: "range_ok (gapsAllowed p) (unat (baseOffset s)) rs (unat (nextOffset p))"
    and own: "own_files d (segments p)"
    using inv unfolding part_inv_def by blast
  have n': "n \<le> length ss" "length crs = length ss" using n segs st(1) by (auto dest: list_all2_lengthD)
  have srt: "sorted_wrt (\<lambda>a b. unat (baseOffset a) < unat (baseOffset b)) (take n (segments p) @ drop n (segments p))"
    using part_invD(4) [OF inv] by simp
  then have dist: "baseOffset ` set (drop n (segments p)) \<inter> baseOffset ` set (take n (segments p)) = {}"
    unfolding sorted_wrt_append by fastforce
  have "list_all2 (seg_state d') (drop n (ss @ [s])) (drop n (crs @ [rs]))"
    using seg_states_removed [OF list_all2_dropI [OF part_invD(3) [OF inv]] rm dist] segs by simp
  then have st': "list_all2 (seg_state d') (drop n ss) (drop n crs)" "seg_state d' s rs"
    using n' by (auto simp: list_all2_append)
  show ?thesis
    unfolding part_inv_def
  proof (intro exI conjI)
    show "segments p' = drop n ss @ [s]" "drop n rss = drop n crs @ [rs]" using p' segs n' by simp_all
    show "list_all2 (seg_state d') (drop n ss) (drop n crs)" "seg_state d' s rs" by (fact st')+
    show "chain (gapsAllowed p') (drop n ss) (drop n crs) (unat (baseOffset s))"
      using chain_suffix [of _ "take n ss" "drop n ss" "take n crs" "drop n crs"] ch p' n' by simp
    show "range_ok (gapsAllowed p') (unat (baseOffset s)) rs (unat (nextOffset p'))" using rng p' by simp
    have "own_files d (drop n (segments p) @ take n (segments p))"
      using own unfolding own_files_def by (metis (no_types, lifting) Un_commute append_take_drop_id map_append set_append)
    then show "own_files d' (segments p')" using own_files_removed [OF _ rm] p' by simp
  qed
qed

lemma deleted_below:
  assumes inv: "part_inv p d rss" and n: "n < length (segments p)" and r: "r \<in> set (concat (take n rss))"
  shows "Offset r < baseOffset (segments p ! n)"
proof -
  obtain ss s crs rs where segs: "segments p = ss @ [s]" "rss = crs @ [rs]"
    and ch: "chain (gapsAllowed p) ss crs (unat (baseOffset s))"
    using inv unfolding part_inv_def by blast
  have len: "length crs = length ss" using chain_lengths [OF ch] by simp
  show ?thesis
  proof (cases "n < length ss")
    case True
    then show ?thesis using chain_take_records [OF ch True, of r] r segs len by (simp add: nth_append word_less_nat_alt)
  next
    case False
    then have "n = length ss" using n segs by simp
    then show ?thesis using chain_records [OF ch, of r] r segs len by (simp add: word_less_nat_alt)
  qed
qed

lemma ApplyRetention_open:
  assumes "\<not> closed p" and "n = selectDeletions pol m now (totalLogBytes (segments p)) (segments p)"
  shows "ApplyRetention rt pol m now (p, d) =
    (if n = 0 then (Inr \<lparr>SegmentsDeleted = 0, BytesFreed = 0\<rparr>, (p, d))
     else case deleteSegmentsLocked rt n (p, d) of
         ((freed, Some e), p, d) \<Rightarrow> (Inl e, (p, d))
       | ((freed, None), p, d) \<Rightarrow> (Inr \<lparr>SegmentsDeleted = n, BytesFreed = freed\<rparr>, (p, d)))"
  unfolding assms(2) using assms(1) by (simp add: ApplyRetention_def Let_def)

lemma ApplyRetention_cases:
  assumes "ApplyRetention rt pol m now (p, d) = (r, p', d')" and "\<not> closed p" and "segments p \<noteq> []"
    and "n = selectDeletions pol m now (totalLogBytes (segments p)) (segments p)"
  shows "segments p' = drop n (segments p)" and "n < length (segments p)" and "nextOffset p' = nextOffset p"
    and "gapsAllowed p' = gapsAllowed p" and "closed p' = closed p"
    and "\<And>f. f \<notin> \<Union> (seg_files ` set (take n (segments p))) \<Longrightarrow> content d' f = content d f \<and> exists_file d' f = exists_file d f"
proof -
  show n: "n < length (segments p)" using selectDeletions_less [OF assms(3)] assms(4) by simp
  obtain acc e where fold: "foldl (deleteSegment rt) ((0, None), d) (take n (segments p)) = (acc, e)" by fastforce
  define q where "q = p\<lparr>segments := drop n (segments p),
    dirtySegStart := (if dirtySegStart p - int n < 0 then 0 else dirtySegStart p - int n)\<rparr>"
  have del: "deleteSegmentsLocked rt n (p, d) = (acc, q, e)" if "n \<noteq> 0"
    using that n by (simp add: deleteSegmentsLocked_def fold q_def)
  have "(p', d') = (p, d) \<and> n = 0 \<or> (p', d') = (q, e)"
  proof (cases "n = 0")
    case False
    then show ?thesis
      using assms(1) del unfolding ApplyRetention_open [OF assms(2,4)]
      by (cases acc; cases "snd acc") auto
  qed (use assms(1) in \<open>simp add: ApplyRetention_open [OF assms(2,4)]\<close>)
  then show "segments p' = drop n (segments p)" "nextOffset p' = nextOffset p"
    "gapsAllowed p' = gapsAllowed p" "closed p' = closed p"
    "\<And>f. f \<notin> \<Union> (seg_files ` set (take n (segments p))) \<Longrightarrow> content d' f = content d f \<and> exists_file d' f = exists_file d f"
    using deleteSegments_keeps [OF _ fold] by (auto simp: q_def)
qed

lemma totalLogBytes_drop: "totalLogBytes ss - totalLogBytes (take n ss) = totalLogBytes (drop n ss)"
  unfolding totalLogBytes_def by (subst append_take_drop_id [of n ss, symmetric]) (simp only: map_append sum_list_append)

lemma ApplyRetention_ok:
  assumes "no_faults rt" and "part_inv p d rss" and "\<not> closed p"
    and n_def: "n = selectDeletions pol minSafe now (totalLogBytes (segments p)) (segments p)"
  shows "\<exists>stats p' d'. ApplyRetention rt pol minSafe now (p, d) = (Inr stats, p', d') \<and> SegmentsDeleted stats = n \<and>
    part_inv p' d' (drop n rss) \<and> files_removed (take n (segments p)) d d' \<and>
    (Suc n < length (segments p) \<longrightarrow> minSafe < baseOffset (segments p ! Suc n) \<or>
       \<not> expired pol now (segments p ! n) \<and> \<not> overSize pol (totalLogBytes (segments p')))"
proof -
  note i = part_invD [OF assms(2)]
  have n: "n < length (segments p)" using selectDeletions_less [OF i(1)] n_def by simp
  obtain f d' where fold: "foldl (deleteSegment rt) ((0, None), d) (take n (segments p)) = ((f, None), d')"
    and rm: "files_removed (take n (segments p)) d d'"
    using deleteSegments_ok [OF assms(1)] by blast
  define q where "q = p\<lparr>segments := drop n (segments p),
    dirtySegStart := (if dirtySegStart p - int n < 0 then 0 else dirtySegStart p - int n)\<rparr>"
  have stop: "Suc n < length (segments p) \<longrightarrow> minSafe < baseOffset (segments p ! Suc n) \<or>
       \<not> expired pol now (segments p ! n) \<and> \<not> overSize pol (totalLogBytes (drop n (segments p)))"
    using selectDeletions_stop [OF n_def] by (simp add: totalLogBytes_drop)
  show ?thesis
  proof (cases "n = 0")
    case True
    then have "ApplyRetention rt pol minSafe now (p, d) = (Inr \<lparr>SegmentsDeleted = 0, BytesFreed = 0\<rparr>, p, d)"
      using assms(3) n_def by (simp add: ApplyRetention_def)
    then show ?thesis using True assms(2) stop by (intro exI) (auto simp: files_removed_Nil)
  next
    case False
    then have "ApplyRetention rt pol minSafe now (p, d) = (Inr \<lparr>SegmentsDeleted = n, BytesFreed = f\<rparr>, q, d')"
      unfolding ApplyRetention_open [OF assms(3) n_def]
      using n by (simp add: deleteSegmentsLocked_def fold q_def del: take_eq_Nil drop_eq_Nil)
    moreover have "part_inv q d' (drop n rss)" by (rule part_inv_suffix [OF assms(2) n rm]) (simp_all add: q_def)
    ultimately show ?thesis
      using rm stop by (intro exI [of _ "\<lparr>SegmentsDeleted = n, BytesFreed = f\<rparr>"] exI [of _ q] exI [of _ d'])
        (simp add: q_def)
  qed
qed

section \<open>Properties of retention\<close>

text \<open>
  Property C12. Retention never strands a committed reader, whatever file operation fails: the
  active segment stays, every record at or above the smallest committed offset
  stays readable in an untouched file, and the high-water mark does not move.
\<close>

theorem retention_safe:
  assumes "part_inv p d rss" and "\<not> closed p" and "ApplyRetention rt pol minSafe now (p, d) = (r, p', d')"
  shows "\<exists>n. segments p' = drop n (segments p) \<and> last (segments p') = last (segments p) \<and>
    nextOffset p' = nextOffset p \<and>
    list_all2 (\<lambda>s rs. visible d' s = enc_all rs) (segments p') (drop n rss) \<and>
    filter (\<lambda>r. minSafe \<le> Offset r) (concat (drop n rss)) = filter (\<lambda>r. minSafe \<le> Offset r) (concat rss)"
proof -
  note i = part_invD [OF assms(1)]
  define n where "n = selectDeletions pol minSafe now (totalLogBytes (segments p)) (segments p)"
  note c = ApplyRetention_cases [OF assms(3,2) i(1) n_def]
  have vis: "visible d' s = visible d s" if "s \<in> set (segments p')" for s
  proof -
    have srt: "sorted_wrt (\<lambda>a b. unat (baseOffset a) < unat (baseOffset b)) (take n (segments p) @ drop n (segments p))"
      using i(4) by simp
    have "segmentLogName (baseOffset s) \<notin> \<Union> (seg_files ` set (take n (segments p)))"
      using srt that c(1) unfolding sorted_wrt_append by fastforce
    with c(6) show ?thesis by (simp add: visible_def)
  qed
  have "list_all2 (seg_state d) (segments p') (drop n rss)" unfolding c(1) using i(3) by (rule list_all2_dropI)
  then have "list_all2 (\<lambda>s rs. visible d' s = enc_all rs) (segments p') (drop n rss)"
    using vis by (auto simp: list_all2_conv_all_nth visible_seg_state)
  moreover have "\<not> minSafe \<le> Offset r" if r: "r \<in> set (concat (take n rss))" for r
  proof -
    have "0 < n" using r by (cases n) auto
    then have "baseOffset (segments p ! n) \<le> minSafe"
      by (rule selectDeletions_safe [OF eq_refl [OF n_def]])
    with deleted_below [OF assms(1) c(2) r] show ?thesis by auto
  qed
  then have "filter (\<lambda>r. minSafe \<le> Offset r) (concat (take n rss)) = []" by (simp only: filter_empty_conv) blast
  then have "filter (\<lambda>r. minSafe \<le> Offset r) (concat (drop n rss)) = filter (\<lambda>r. minSafe \<le> Offset r) (concat rss)"
    by (subst (2) append_take_drop_id [of n rss, symmetric]) (simp only: concat_append filter_append append_Nil)
  ultimately show ?thesis using c(1-3) i(1) by (intro exI [of _ n]) simp
qed

definition sample_policy :: Policy where
  "sample_policy = \<lparr>RetentionMaxAge = 1000, RetentionMaxBytes = 100, pol_Compact = False\<rparr>"

theorem retention_safe_witness:
  "\<exists>r p' d'. ApplyRetention failing_runtime sample_policy 7 5 (fresh_partition, fresh_disk) = (r, p', d') \<and>
     last (segments p') = fresh_segment"
proof -
  obtain r p' d' where a: "ApplyRetention failing_runtime sample_policy 7 5 (fresh_partition, fresh_disk) = (r, p', d')"
    by (metis prod_cases3)
  have "last (segments fresh_partition) = fresh_segment" by (simp add: fresh_partition_def)
  then show ?thesis
    using a retention_safe [OF fresh_part_inv fresh_fields(1) a] by auto
qed

text \<open>
  Property C13. With no fault, retention deletes exactly the segments its rules name. It deletes the files of the first
  \<open>n\<close> segments and no others, and the rest keeps the partition invariant. Every deleted segment was expired or
  the log from it on was over the size cap, and it ends at or below the smallest committed offset. It
  stops only where it must: the next segment is the active one, still
  needed by a committed reader, or neither expired nor in a log over the size cap. Together these conditions determine \<open>n\<close>.
\<close>

theorem retention_complete:
  assumes "no_faults rt" and "part_inv p d rss" and "\<not> closed p"
  shows "\<exists>n stats p' d'. ApplyRetention rt pol minSafe now (p, d) = (Inr stats, p', d') \<and> SegmentsDeleted stats = n \<and>
    n < length (segments p) \<and> segments p' = drop n (segments p) \<and> part_inv p' d' (drop n rss) \<and> files_removed (take n (segments p)) d d' \<and>
    (\<forall>i < n. baseOffset (segments p ! Suc i) \<le> minSafe \<and>
       (expired pol now (segments p ! i) \<or> overSize pol (totalLogBytes (drop i (segments p))))) \<and>
    (Suc n < length (segments p) \<longrightarrow> minSafe < baseOffset (segments p ! Suc n) \<or>
       \<not> expired pol now (segments p ! n) \<and> \<not> overSize pol (totalLogBytes (segments p')))"
proof -
  let ?n = "selectDeletions pol minSafe now (totalLogBytes (segments p)) (segments p)"
  note ne = part_invD(1) [OF assms(2)]
  have due: "\<forall>i < ?n. baseOffset (segments p ! Suc i) \<le> minSafe \<and>
       (expired pol now (segments p ! i) \<or> overSize pol (totalLogBytes (drop i (segments p))))"
    using selectDeletions_due [of _ pol minSafe now "totalLogBytes (segments p)" "segments p"] by (simp add: totalLogBytes_drop)
  obtain stats p' d' where r: "ApplyRetention rt pol minSafe now (p, d) = (Inr stats, p', d')" "SegmentsDeleted stats = ?n"
    "part_inv p' d' (drop ?n rss)" "files_removed (take ?n (segments p)) d d'"
    "Suc ?n < length (segments p) \<longrightarrow> minSafe < baseOffset (segments p ! Suc ?n) \<or>
       \<not> expired pol now (segments p ! ?n) \<and> \<not> overSize pol (totalLogBytes (segments p'))"
    using ApplyRetention_ok [OF assms refl, of pol minSafe now] by blast
  show ?thesis
    using r due ApplyRetention_cases(1,2) [OF r(1) assms(3) ne refl] by blast
qed

text \<open>A partition of three closed segments of one record each, and an empty active one.\<close>

definition one_record_segment :: "u64 \<Rightarrow> segment" where
  "one_record_segment b = fresh_segment\<lparr>baseOffset := b, segSize := 40\<rparr>"

definition four_partition :: Partition where
  "four_partition = fresh_partition\<lparr>segments := [one_record_segment 0, one_record_segment 1, one_record_segment 2,
     fresh_segment\<lparr>baseOffset := 3\<rparr>], nextOffset := 3\<rparr>"

definition four_disk :: disk where
  "four_disk = \<lparr>files = [(segmentLogName 0, enc (sample_record\<lparr>Offset := 0\<rparr>)), (segmentIndexName 0, []),
     (segmentLogName 1, enc (sample_record\<lparr>Offset := 1\<rparr>)), (segmentIndexName 1, []),
     (segmentLogName 2, enc (sample_record\<lparr>Offset := 2\<rparr>)), (segmentIndexName 2, []), (segmentLogName 3, []), (segmentIndexName 3, [])], ops = 0\<rparr>"

lemma four_part_inv:
  "part_inv four_partition four_disk [[sample_record\<lparr>Offset := 0\<rparr>], [sample_record\<lparr>Offset := 1\<rparr>], [sample_record\<lparr>Offset := 2\<rparr>], []]"
proof -
  have enc: "encodable (sample_record\<lparr>Offset := k\<rparr>)" "length (enc (sample_record\<lparr>Offset := k\<rparr>)) = 40" for k
    using encodable_sample by (simp_all add: encodable_def enc_def enc_body_def sample_record_def sample_header_def enc_header_def)
  have files: "exists_file four_disk (segmentLogName b) \<longleftrightarrow> b \<in> {0, 1, 2, 3}" "exists_file four_disk (segmentIndexName b) \<longleftrightarrow> b \<in> {0, 1, 2, 3}"
    "content four_disk (segmentIndexName b) = []" "b \<in> {0, 1, 2} \<Longrightarrow> content four_disk (segmentLogName b) = enc (sample_record\<lparr>Offset := b\<rparr>)" for b
    by (auto simp: four_disk_def content_def exists_file_def)
  have st: "seg_state four_disk (one_record_segment b) [sample_record\<lparr>Offset := b\<rparr>]" if "b \<in> {0, 1, 2}" for b
    using that enc by (auto simp: seg_state_def seg_inv_def index_file_ok_def files one_record_segment_def fresh_segment_def
        segment_records_def increasing_def index_of_def streamChunk_def)
  moreover have "seg_state four_disk (fresh_segment\<lparr>baseOffset := 3\<rparr>) []"
    by (simp add: seg_state_def seg_inv_def index_file_ok_def files fresh_segment_def segment_records_def increasing_def index_of_def)
  moreover have "own_files four_disk (segments four_partition)"
    by (auto simp: own_files_def files four_partition_def one_record_segment_def fresh_segment_def)
  ultimately show ?thesis
    unfolding part_inv_def
    by (intro exI [of _ "[one_record_segment 0, one_record_segment 1, one_record_segment 2]"] exI [of _ "fresh_segment\<lparr>baseOffset := 3\<rparr>"]
        exI [of _ "[[sample_record\<lparr>Offset := 0\<rparr>], [sample_record\<lparr>Offset := 1\<rparr>], [sample_record\<lparr>Offset := 2\<rparr>]]"] exI [of _ "[]"])
      (auto simp: four_partition_def fresh_partition_def one_record_segment_def fresh_segment_def range_ok_def Let_def upt_rec)
qed

theorem retention_complete_witness:
  "\<exists>stats p' d'. ApplyRetention calm_runtime sample_policy 3 5 (four_partition, four_disk) = (Inr stats, p', d') \<and>
     SegmentsDeleted stats = 1 \<and> part_inv p' d' [[sample_record\<lparr>Offset := 1\<rparr>], [sample_record\<lparr>Offset := 2\<rparr>], []]"
proof -
  let ?ss = "segments four_partition"
  have op: "\<not> closed four_partition" by (simp add: four_partition_def fresh_partition_def)
  obtain n stats p' d' where r: "ApplyRetention calm_runtime sample_policy 3 5 (four_partition, four_disk) = (Inr stats, p', d')"
    "SegmentsDeleted stats = n" "n < length ?ss" "segments p' = drop n ?ss"
    "part_inv p' d' (drop n [[sample_record\<lparr>Offset := 0\<rparr>], [sample_record\<lparr>Offset := 1\<rparr>], [sample_record\<lparr>Offset := 2\<rparr>], []])"
    "\<forall>i < n. expired sample_policy 5 (?ss ! i) \<or> overSize sample_policy (totalLogBytes (drop i ?ss))"
    "Suc n < length ?ss \<longrightarrow> 3 < baseOffset (?ss ! Suc n) \<or>
       \<not> expired sample_policy 5 (?ss ! n) \<and> \<not> overSize sample_policy (totalLogBytes (segments p'))"
    using retention_complete [OF no_faults_calm four_part_inv op, of sample_policy 3 5] by blast
  note eval = four_partition_def one_record_segment_def fresh_segment_def sample_policy_def expired_def overSize_def totalLogBytes_def
    timeSub_def unixMilli_def
  have "\<not> 1 < n" using r(6) [rule_format, of 1] by (auto simp: eval)
  moreover have "n \<noteq> 0"
  proof
    assume "n = 0"
    then show False using r(4,7) by (simp add: eval)
  qed
  ultimately have "n = 1" by simp
  then show ?thesis using r(1,2,5) by simp
qed

end
