(* ===== verification/Compaction.thy ===== *)
theory Compaction
  imports Retention
begin

text \<open>
  Log compaction (src/internal/broker/storage/compaction.go): the closed segments
  are rewritten with the latest record of every key, first to swap files and then
  in place. The scan and the swap files are written without the partition lock:
  \<open>others\<close> is what other threads do to the partition in that time, \<open>cancelled i\<close>
  the context's state at its \<open>i\<close>-th check. On an error the code also returns the
  statistics so far; the model returns the error.
\<close>

section \<open>Definitions\<close>

definition maxCompactionKeys :: nat where
  "maxCompactionKeys = 4 * 2 ^ 20"

record CompactionStats =
  SegmentsRewritten :: nat
  cs_SegmentsDeleted :: nat
  RecordsKept :: nat
  RecordsDropped :: nat
  cs_BytesFreed :: int

type_synonym offset_map = "(bytes \<times> u64) list"

definition last_fn :: "nat \<Rightarrow> (offset_map \<times> bool) record_fn" where
  "last_fn maxKeys = (\<lambda>(latest, full) r pos sz.
     if Key r = [] then (True, (latest, full))
     else if map_of latest (Key r) = None \<and> maxKeys \<le> length latest then (False, (latest, True))
     else (True, (AList.update (Key r) (Offset r) latest, full)))"

fun buildOffsetMap ::
  "runtime \<Rightarrow> disk \<Rightarrow> nat \<Rightarrow> (nat \<Rightarrow> bool) \<Rightarrow> nat \<Rightarrow> segment list \<Rightarrow> offset_map \<Rightarrow> storage_error + offset_map" where
  "buildOffsetMap rt d maxKeys cancelled i [] latest = Inr latest"
| "buildOffsetMap rt d maxKeys cancelled i (s # ss) latest =
     (if cancelled i then Inl ErrCancelled
      else bindS (scanSegment rt d s 0 False (last_fn maxKeys) (latest, False)) (\<lambda>(latest, full).
        if full then Inl ErrTooManyKeys
        else buildOffsetMap rt d maxKeys cancelled (i + 1) ss latest))"

record rewriting =
  rw_log :: bytes
  rw_index :: bytes
  rw_kept :: nat
  rw_dropped :: nat
  rw_maxTs :: i64
  rw_since :: nat
  rw_err :: "storage_error option"

definition superseded :: "offset_map \<Rightarrow> Record \<Rightarrow> bool" where
  "superseded latest r \<longleftrightarrow> Key r \<noteq> [] \<and> (case map_of latest (Key r) of None \<Rightarrow> 0 | Some off \<Rightarrow> off) \<noteq> Offset r"

definition appendIndexEntry :: "bytes \<Rightarrow> u32 \<Rightarrow> u32 \<Rightarrow> bytes" where
  "appendIndexEntry buf rel pos = buf @ encodeEntry \<lparr>relOffset = rel, position = pos\<rparr>"

definition rewrite_fn :: "offset_map \<Rightarrow> segment \<Rightarrow> rewriting record_fn" where
  "rewrite_fn latest s st r pos sz =
     (if superseded latest r then (True, st\<lparr>rw_dropped := rw_dropped st + 1\<rparr>)
      else case EncodeRecord (rw_log st) r of
        Inl e \<Rightarrow> (False, st\<lparr>rw_err := Some e\<rparr>)
      | Inr buf \<Rightarrow>
          (let start = length (rw_log st);
               recSize = length buf - start;
               st = st\<lparr>rw_log := buf\<rparr>;
               st = (if indexInterval s \<le> int (rw_since st)
                     then st\<lparr>rw_index := appendIndexEntry (rw_index st) (ucast (Offset r - baseOffset s)) (of_nat start),
                             rw_since := 0\<rparr>
                     else st)
           in (True, st\<lparr>rw_since := rw_since st + recSize, rw_kept := rw_kept st + 1,
                        rw_maxTs := (if sint (rw_maxTs st) < sint (TimestampMs r) then TimestampMs r else rw_maxTs st)\<rparr>)))"

text \<open>What the third phase hands to the swap: the rewritten segments and the empty ones.\<close>

record plan =
  pl_rewrites :: "(u64 \<times> i64) list"
  emptyBases :: "u64 list"
  recordsKept :: nat
  recordsDropped :: nat

definition removeF :: "runtime \<Rightarrow> string \<Rightarrow> disk \<Rightarrow> disk" where
  "removeF rt name d = snd (Remove rt name d)"

definition removeSwaps :: "runtime \<Rightarrow> plan \<Rightarrow> disk \<Rightarrow> disk" where
  "removeSwaps rt pl d =
     foldl (\<lambda>d (base, _). removeF rt (segmentIndexSwapName base) (removeF rt (segmentLogSwapName base) d)) d (pl_rewrites pl)"

text \<open>A call whose failure is followed by a cleanup.\<close>

definition writeSwapFiles :: "runtime \<Rightarrow> plan \<Rightarrow> u64 \<Rightarrow> bytes \<Rightarrow> bytes \<Rightarrow> (disk, unit) res" where
  "writeSwapFiles rt pl base logBuf indexBuf =
     (let logSwap = segmentLogSwapName base; indexSwap = segmentIndexSwapName base;
          both = (\<lambda>d. removeSwaps rt pl (closeF rt indexSwap (closeF rt logSwap d)))
      in bindR (onErr (WriteAt rt logSwap logBuf 0) both) (\<lambda>_.
         bindR (onErr (WriteAt rt indexSwap indexBuf 0) both) (\<lambda>_.
         bindR (onErr (Sync rt logSwap) both) (\<lambda>_.
         bindR (onErr (Sync rt indexSwap) both) (\<lambda>_.
         bindR (onErr (CloseFile rt logSwap) (\<lambda>d. removeSwaps rt pl (closeF rt indexSwap d))) (\<lambda>_.
           onErr (CloseFile rt indexSwap) (removeSwaps rt pl)))))))"

text \<open>Closing and removing the swap files of a segment that is not rewritten.\<close>

definition discardSwap :: "runtime \<Rightarrow> u64 \<Rightarrow> disk \<Rightarrow> disk" where
  "discardSwap rt base d =
     (let logSwap = segmentLogSwapName base; indexSwap = segmentIndexSwapName base
      in removeF rt indexSwap (removeF rt logSwap (closeF rt indexSwap (closeF rt logSwap d))))"

definition rewriteStart :: rewriting where
  "rewriteStart = \<lparr>rw_log = [], rw_index = [], rw_kept = 0, rw_dropped = 0, rw_maxTs = 0, rw_since = 0, rw_err = None\<rparr>"

definition compactTarget :: "runtime \<Rightarrow> offset_map \<Rightarrow> plan \<Rightarrow> segment \<Rightarrow> (disk, plan) res" where
  "compactTarget rt latest pl s =
     (let base = baseOffset s; logSwap = segmentLogSwapName base; indexSwap = segmentIndexSwapName base;
          both = (\<lambda>d. removeSwaps rt pl (closeF rt indexSwap (closeF rt logSwap d)))
      in bindR (onErr (Create rt logSwap) (removeSwaps rt pl)) (\<lambda>_.
         bindR (onErr (Create rt indexSwap) (\<lambda>d. removeSwaps rt pl (closeF rt logSwap d))) (\<lambda>_ d.
           case scanSegment rt d s 0 False (rewrite_fn latest s) rewriteStart of
             Inl ErrPanic \<Rightarrow> (Inl ErrPanic, d)
           | Inl e \<Rightarrow> (Inl e, both d)
           | Inr st \<Rightarrow>
               (case rw_err st of
                  Some e \<Rightarrow> (Inl e, both d)
                | None \<Rightarrow>
                    let pl' = pl\<lparr>recordsKept := recordsKept pl + rw_kept st, recordsDropped := recordsDropped pl + rw_dropped st\<rparr>
                    in if rw_kept st = 0 then (Inr (pl'\<lparr>emptyBases := emptyBases pl @ [base]\<rparr>), discardSwap rt base d)
                       else if rw_dropped st = 0 then (Inr pl', discardSwap rt base d)
                       else bindR (writeSwapFiles rt pl base (rw_log st) (rw_index st)) (\<lambda>_.
                         returnR (pl'\<lparr>pl_rewrites := pl_rewrites pl @ [(base, rw_maxTs st)]\<rparr>)) d))))"

fun compactTargets :: "runtime \<Rightarrow> offset_map \<Rightarrow> (nat \<Rightarrow> bool) \<Rightarrow> nat \<Rightarrow> plan \<Rightarrow> segment list \<Rightarrow> (disk, plan) res" where
  "compactTargets rt latest cancelled i pl [] = returnR pl"
| "compactTargets rt latest cancelled i pl (s # ss) =
     (if cancelled i then (\<lambda>d. (Inl ErrCancelled, removeSwaps rt pl d))
      else bindR (compactTarget rt latest pl s) (\<lambda>pl. compactTargets rt latest cancelled (i + 1) pl ss))"

definition markerText :: bytes where
  "markerText = bytes_of_string ''compaction v1: segments may have offset gaps'' @ [10]"

definition writeMarker :: "runtime \<Rightarrow> (disk, unit) res" where
  "writeMarker rt =
     bindR (Create rt compactedMarkerName) (\<lambda>_.
     bindR (onErr (WriteAt rt compactedMarkerName markerText 0) (closeF rt compactedMarkerName)) (\<lambda>_.
     bindR (onErr (Sync rt compactedMarkerName) (closeF rt compactedMarkerName)) (\<lambda>_.
       CloseFile rt compactedMarkerName)))"

text \<open>Removal of one file, adding its size to what was freed.\<close>

definition removeCounted :: "runtime \<Rightarrow> string \<Rightarrow> nat \<Rightarrow> (disk, nat) res" where
  "removeCounted rt name freed d =
     (case Stat rt name d of (st, d) \<Rightarrow>
      let freed = (case st of Inl _ \<Rightarrow> freed | Inr sz \<Rightarrow> freed + sz)
      in bindR (removeIfExists rt name) (\<lambda>_. returnR freed) d)"

definition removeSegmentPair :: "runtime \<Rightarrow> u64 \<Rightarrow> (disk, nat) res" where
  "removeSegmentPair rt base =
     bindR (removeCounted rt (segmentLogName base) 0) (\<lambda>freed. removeCounted rt (segmentIndexName base) freed)"

definition removeSegmentFiles :: "runtime \<Rightarrow> segment \<Rightarrow> (disk, nat) res" where
  "removeSegmentFiles rt s = bindR (seg_close rt s) (\<lambda>_. removeSegmentPair rt (baseOffset s))"

definition swapFiles :: "runtime \<Rightarrow> plan \<Rightarrow> segment \<Rightarrow> (disk, nat) res" where
  "swapFiles rt pl s =
     (let base = baseOffset s in
      bindR (onErr (seg_close rt s) (removeSwaps rt pl)) (\<lambda>_.
      bindR (onErr (removeSegmentPair rt base) (removeSwaps rt pl)) (\<lambda>oldBytes.
      bindR (Rename rt (segmentLogSwapName base) (segmentLogName base)) (\<lambda>_.
      bindR (Rename rt (segmentIndexSwapName base) (segmentIndexName base)) (\<lambda>_.
        returnR oldBytes)))))"

definition swapIn :: "runtime \<Rightarrow> plan \<Rightarrow> int \<Rightarrow> segment \<Rightarrow> i64 \<Rightarrow> (disk, segment \<times> nat) res" where
  "swapIn rt pl interval s newMaxTs =
     bindR (swapFiles rt pl s) (\<lambda>oldBytes.
     bindR (openSegment rt (baseOffset s) interval) (\<lambda>ns.
       returnR (ns\<lparr>maxTs := newMaxTs\<rparr>, oldBytes)))"

record swapping =
  newSegs :: "segment list"
  sw_rewritten :: nat
  sw_deleted :: nat
  sw_freed :: int
  removedBeforeDirty :: nat

definition sizeOf :: "(u64 \<times> nat) list \<Rightarrow> u64 \<Rightarrow> nat" where
  "sizeOf sizes base = (case map_of sizes base of None \<Rightarrow> 0 | Some n \<Rightarrow> n)"

definition swapSegment ::
  "runtime \<Rightarrow> plan \<Rightarrow> (u64 \<times> nat) list \<Rightarrow> int \<Rightarrow> int \<Rightarrow> nat \<Rightarrow> segment \<Rightarrow> swapping \<Rightarrow> (disk, swapping) res" where
  "swapSegment rt pl sizes interval dirtyStart i s sw =
     (if baseOffset s \<in> set (emptyBases pl) \<and> sizeOf sizes (baseOffset s) = segSize s then
        bindR (onErr (removeSegmentFiles rt s) (removeSwaps rt pl)) (\<lambda>freed.
          returnR (sw\<lparr>sw_freed := sw_freed sw + int freed, sw_deleted := sw_deleted sw + 1,
                      removedBeforeDirty := removedBeforeDirty sw + (if int i < dirtyStart then 1 else 0)\<rparr>))
      else case map_of (pl_rewrites pl) (baseOffset s) of
        None \<Rightarrow> returnR (sw\<lparr>newSegs := newSegs sw @ [s]\<rparr>)
      | Some newMaxTs \<Rightarrow>
          if sizeOf sizes (baseOffset s) \<noteq> segSize s then returnR (sw\<lparr>newSegs := newSegs sw @ [s]\<rparr>)
          else bindR (swapIn rt pl interval s newMaxTs) (\<lambda>(ns, oldBytes).
            returnR (sw\<lparr>newSegs := newSegs sw @ [ns], sw_rewritten := sw_rewritten sw + 1,
              sw_freed := sw_freed sw + (int oldBytes - int (segSize ns + length (entries ns) * indexEntrySize))\<rparr>)))"

fun swapSegments ::
  "runtime \<Rightarrow> plan \<Rightarrow> (u64 \<times> nat) list \<Rightarrow> int \<Rightarrow> int \<Rightarrow> nat \<Rightarrow> segment list \<Rightarrow> swapping \<Rightarrow> (disk, swapping) res" where
  "swapSegments rt pl sizes interval dirtyStart i [] sw = returnR sw"
| "swapSegments rt pl sizes interval dirtyStart i [s] sw = returnR (sw\<lparr>newSegs := newSegs sw @ [s]\<rparr>)"
| "swapSegments rt pl sizes interval dirtyStart i (s # t # ss) sw =
     bindR (swapSegment rt pl sizes interval dirtyStart i s sw)
       (\<lambda>sw. swapSegments rt pl sizes interval dirtyStart (i + 1) (t # ss) sw)"

definition swapStart :: swapping where
  "swapStart = \<lparr>newSegs = [], sw_rewritten = 0, sw_deleted = 0, sw_freed = 0, removedBeforeDirty = 0\<rparr>"

definition compactSwap :: "runtime \<Rightarrow> plan \<Rightarrow> (u64 \<times> nat) list \<Rightarrow> (Partition \<times> disk, CompactionStats) res" where
  "compactSwap rt pl sizes = (\<lambda>(p, d).
     if closed p then (Inl ErrPartitionClosed, (p, d))
     else
       case (if gapsAllowed p then returnR () else onErr (writeMarker rt) (removeSwaps rt pl)) d of
         (Inl e, d) \<Rightarrow> (Inl e, (p, d))
       | (Inr _, d) \<Rightarrow>
           (let p = p\<lparr>gapsAllowed := True\<rparr> in
            case swapSegments rt pl sizes (IndexIntervalBytes (p_opts p)) (dirtySegStart p) 0 (segments p) swapStart d of
              (Inl e, d) \<Rightarrow> (Inl e, (p, d))
            | (Inr sw, d) \<Rightarrow>
                (Inr \<lparr>SegmentsRewritten = sw_rewritten sw, cs_SegmentsDeleted = sw_deleted sw,
                      RecordsKept = recordsKept pl, RecordsDropped = recordsDropped pl, cs_BytesFreed = sw_freed sw\<rparr>,
                 (p\<lparr>segments := newSegs sw, dirtySegStart := max 0 (dirtySegStart p - int (removedBeforeDirty sw))\<rparr>,
                  removeSwaps rt pl d))))"

definition noCompaction :: CompactionStats where
  "noCompaction = \<lparr>SegmentsRewritten = 0, cs_SegmentsDeleted = 0, RecordsKept = 0, RecordsDropped = 0, cs_BytesFreed = 0\<rparr>"

definition compactionTargets :: "segment list \<Rightarrow> segment list" where
  "compactionTargets ss = filter (\<lambda>s. 0 < segSize s) (butlast ss)"

definition emptyPlan :: plan where
  "emptyPlan = \<lparr>pl_rewrites = [], emptyBases = [], recordsKept = 0, recordsDropped = 0\<rparr>"

definition Compact ::
  "runtime \<Rightarrow> nat \<Rightarrow> (nat \<Rightarrow> bool) \<Rightarrow> (Partition \<times> disk \<Rightarrow> Partition \<times> disk) \<Rightarrow> (Partition \<times> disk, CompactionStats) res" where
  "Compact rt maxKeys cancelled others = (\<lambda>(p, d).
     if closed p then (Inl ErrPartitionClosed, (p, d))
     else if segments p = [] then (Inl ErrPanic, (p, d))
     else
       let targets = compactionTargets (segments p);
           sizes = map (\<lambda>s. (baseOffset s, segSize s)) targets
       in if targets = [] then (Inr noCompaction, (p, d))
          else case buildOffsetMap rt d maxKeys cancelled 0 targets [] of
            Inl e \<Rightarrow> (Inl e, (p, d))
          | Inr latest \<Rightarrow>
              if latest = [] then (Inr noCompaction, (p, d))
              else (case compactTargets rt latest cancelled (length targets) emptyPlan targets d of
                 (Inl e, d) \<Rightarrow> (Inl e, (p, d))
               | (Inr pl, d) \<Rightarrow>
                   if pl_rewrites pl = [] \<and> emptyBases pl = []
                   then (Inr (noCompaction\<lparr>RecordsKept := recordsKept pl, RecordsDropped := recordsDropped pl\<rparr>), (p, d))
                   else compactSwap rt pl sizes (others (p, d))))"

end
