(* ===== verification/Compaction_Log.thy ===== *)
theory Compaction_Log
  imports Compaction
begin

text \<open>
  What compaction does to the log: every record without a key and the latest record
  of every key in the closed segments survive, at their offsets; the active segment
  and the high-water mark are untouched.
\<close>

section \<open>File names\<close>

abbreviation swap_files :: "segment \<Rightarrow> string set" where
  "swap_files s \<equiv> {segmentLogSwapName (baseOffset s), segmentIndexSwapName (baseOffset s)}"

lemma name_lengths [simp]:
  "length (segmentLogName b) = 24" "length (segmentIndexName b) = 26"
  "length (segmentLogSwapName b) = 29" "length (segmentIndexSwapName b) = 31" "length compactedMarkerName = 10"
  by (simp_all add: segmentLogName_def segmentIndexName_def segmentLogSwapName_def segmentIndexSwapName_def compactedMarkerName_def)

lemma names_differ [simp]:
  "segmentLogSwapName a \<noteq> segmentLogName b" "segmentLogName b \<noteq> segmentLogSwapName a"
  "segmentLogSwapName a \<noteq> segmentIndexName b" "segmentIndexName b \<noteq> segmentLogSwapName a"
  "segmentIndexSwapName a \<noteq> segmentLogName b" "segmentLogName b \<noteq> segmentIndexSwapName a"
  "segmentIndexSwapName a \<noteq> segmentIndexName b" "segmentIndexName b \<noteq> segmentIndexSwapName a"
  "segmentLogSwapName a \<noteq> segmentIndexSwapName b" "segmentIndexSwapName b \<noteq> segmentLogSwapName a"
  "compactedMarkerName \<noteq> segmentLogName b" "segmentLogName b \<noteq> compactedMarkerName"
  "compactedMarkerName \<noteq> segmentIndexName b" "segmentIndexName b \<noteq> compactedMarkerName"
  "compactedMarkerName \<noteq> segmentLogSwapName b" "segmentLogSwapName b \<noteq> compactedMarkerName"
  "compactedMarkerName \<noteq> segmentIndexSwapName b" "segmentIndexSwapName b \<noteq> compactedMarkerName"
  by (auto dest: arg_cong [of _ _ length])

lemma swap_names_inj [simp]:
  "segmentLogSwapName a = segmentLogSwapName b \<longleftrightarrow> a = b"
  "segmentIndexSwapName a = segmentIndexSwapName b \<longleftrightarrow> a = b"
  by (simp_all add: segmentLogSwapName_def segmentIndexSwapName_def)

section \<open>Which records survive\<close>

definition latest_of :: "offset_map \<Rightarrow> Record list \<Rightarrow> offset_map" where
  "latest_of = foldl (\<lambda>m r. if Key r = [] then m else AList.update (Key r) (Offset r) m)"

lemma latest_of_simps [simp]:
  "latest_of m [] = m"
  "latest_of m (r # rs) = latest_of (if Key r = [] then m else AList.update (Key r) (Offset r) m) rs"
  "latest_of m (rs @ ss) = latest_of (latest_of m rs) ss"
  by (simp_all add: latest_of_def)

text \<open>A record survives if it has no key or no later record has its key.\<close>

definition newest :: "Record list \<Rightarrow> Record \<Rightarrow> bool" where
  "newest rs r \<longleftrightarrow> Key r = [] \<or> list_all (\<lambda>x. Key x = Key r \<longrightarrow> Offset x \<le> Offset r) rs"

lemma map_of_update: "map_of (AList.update k v m) x = (if x = k then Some v else map_of m x)"
  by (simp add: update_conv)

lemma map_of_latest:
  "k \<noteq> [] \<Longrightarrow> map_of (latest_of m rs) k =
     (let xs = filter (\<lambda>r. Key r = k) rs in if xs = [] then map_of m k else Some (Offset (last xs)))"
proof (induction rs arbitrary: m)
  case (Cons r rs)
  then show ?case by (auto simp: Let_def map_of_update)
qed simp

lemma increasing_last:
  assumes "increasing xs" and "x \<in> set xs" shows "Offset x \<le> Offset (last xs)"
  using assms
proof (induction xs)
  case (Cons y xs)
  show ?case
  proof (cases "xs = []")
    case False
    then have "Offset y \<le> Offset (last xs)"
      using Cons.prems(1) by (simp add: increasing_def word_le_nat_alt less_imp_le)
    moreover have "increasing xs" using Cons.prems(1) by (simp add: increasing_def)
    ultimately show ?thesis using Cons.IH Cons.prems(2) False by (cases "x = y") simp_all
  qed (use Cons in simp)
qed simp

lemma increasing_filter: "increasing rs \<Longrightarrow> increasing (filter P rs)"
  by (simp add: increasing_def sorted_wrt_filter)

lemma superseded_latest:
  assumes inc: "increasing rs" and r: "r \<in> set rs"
  shows "superseded (latest_of [] rs) r \<longleftrightarrow> \<not> newest rs r"
proof (cases "Key r = []")
  case False
  let ?xs = "filter (\<lambda>x. Key x = Key r) rs"
  have ne: "?xs \<noteq> []" using r by (auto simp: filter_empty_conv)
  have inx: "increasing ?xs" using inc by (rule increasing_filter)
  have "last ?xs \<in> set ?xs" using ne by (rule last_in_set)
  then have l: "last ?xs \<in> set rs" "Key (last ?xs) = Key r" by auto
  have le: "Offset x \<le> Offset (last ?xs)" if "x \<in> set rs" "Key x = Key r" for x
    using increasing_last [OF inx, of x] that by simp
  have "newest rs r \<longleftrightarrow> Offset (last ?xs) = Offset r"
    using l le r False by (auto simp: newest_def list_all_iff intro: antisym)
  then show ?thesis using False ne by (auto simp: superseded_def map_of_latest Let_def)
qed (simp add: superseded_def newest_def)

section \<open>Building the offset map\<close>

lemma length_update_ge: "length m \<le> length (AList.update k v m)"
  by (induction m) auto

lemma length_update_new: "map_of m k = None \<Longrightarrow> length (AList.update k v m) = Suc (length m)"
  by (induction m) (auto split: if_splits)

lemma length_latest_ge: "length m \<le> length (latest_of m rs)"
proof (induction rs arbitrary: m)
  case (Cons r rs)
  show ?case
  proof (cases "Key r = []")
    case False
    have "length m \<le> length (AList.update (Key r) (Offset r) m)" by (rule length_update_ge)
    also have "\<dots> \<le> length (latest_of (AList.update (Key r) (Offset r) m) rs)" by (rule Cons.IH)
    finally show ?thesis using False by simp
  qed (use Cons in simp)
qed simp

lemma feed_last:
  "length (latest_of m rs) \<le> K \<Longrightarrow> feed (last_fn K) (m, False) (layout p rs) = (True, (latest_of m rs, False))"
proof (induction rs arbitrary: m p)
  case (Cons r rs)
  show ?case
  proof (cases "Key r = []")
    case True
    then show ?thesis using Cons by (simp add: last_fn_def)
  next
    case False
    let ?m = "AList.update (Key r) (Offset r) m"
    have "length ?m \<le> K" using Cons.prems False length_latest_ge [of ?m rs] by simp
    then have "\<not> (map_of m (Key r) = None \<and> K \<le> length m)" using length_update_new [of m "Key r"] by auto
    then have "last_fn K (m, False) r p n = (True, (?m, False))" for n using False by (simp add: last_fn_def)
    then show ?thesis using Cons.IH [of ?m] Cons.prems False by simp
  qed
qed simp

lemma buildOffsetMap_ok:
  assumes nf: "no_faults rt" and "list_all2 (seg_state d) ss rss" and "\<And>i. \<not> cancelled i"
    and "length (latest_of m (concat rss)) \<le> K"
  shows "buildOffsetMap rt d K cancelled i ss m = Inr (latest_of m (concat rss))"
  using assms(2,4)
proof (induction arbitrary: i m rule: list_all2_induct)
  case (Cons s ss rs rss)
  have inv: "seg_inv d s rs" "small_records rs" using Cons.hyps by (simp_all add: seg_state_def)
  have "length (latest_of m rs) \<le> K"
    using Cons.prems length_latest_ge [of "latest_of m rs" "concat rss"] by simp
  then show ?case
    using assms(3) scanSegment_all [OF nf inv, of False "last_fn K" "(m, False)"] Cons.IH [of "latest_of m rs"] Cons.prems
    by (simp add: feed_last)
qed simp

section \<open>Rewriting a segment\<close>

abbreviation survivors :: "offset_map \<Rightarrow> Record list \<Rightarrow> Record list" where
  "survivors m rs \<equiv> filter (\<lambda>r. \<not> superseded m r) rs"

lemma feed_rewrite:
  assumes "list_all encodable rs" and "rw_err st = None"
  shows "\<exists>es b. feed (rewrite_fn m s) st (layout p rs) =
      (True, st\<lparr>rw_log := rw_log st @ enc_all (survivors m rs), rw_index := rw_index st @ concat (map encodeEntry es),
                rw_kept := rw_kept st + length (survivors m rs),
                rw_dropped := rw_dropped st + (length rs - length (survivors m rs)),
                rw_maxTs := ts_max (rw_maxTs st) (survivors m rs), rw_since := b\<rparr>) \<and>
    subseq es (map (entry_of (baseOffset s)) (layout (length (rw_log st)) (survivors m rs)))"
  using assms
proof (induction rs arbitrary: st p)
  case Nil
  show ?case by (intro exI [of _ "[]"] exI [of _ "rw_since st"]) simp
next
  case (Cons r rs)
  have le: "length (survivors m rs) \<le> length rs" by simp
  show ?case
  proof (cases "superseded m r")
    case True
    define st1 where "st1 = st\<lparr>rw_dropped := rw_dropped st + 1\<rparr>"
    have step: "rewrite_fn m s st r p n = (True, st1)" for n using True by (simp add: rewrite_fn_def st1_def)
    from Cons.IH [of st1 "p + length (enc r)"] Cons.prems obtain es b where
      "feed (rewrite_fn m s) st1 (layout (p + length (enc r)) rs) =
        (True, st1\<lparr>rw_log := rw_log st1 @ enc_all (survivors m rs), rw_index := rw_index st1 @ concat (map encodeEntry es),
                rw_kept := rw_kept st1 + length (survivors m rs),
                rw_dropped := rw_dropped st1 + (length rs - length (survivors m rs)),
                rw_maxTs := ts_max (rw_maxTs st1) (survivors m rs), rw_since := b\<rparr>)"
      and "subseq es (map (entry_of (baseOffset s)) (layout (length (rw_log st1)) (survivors m rs)))"
      by (auto simp: st1_def)
    then show ?thesis
      using step True le by (intro exI [of _ es] exI [of _ b]) (simp add: st1_def Suc_diff_le)
  next
    case False
    define es1 where "es1 = (if indexInterval s \<le> int (rw_since st)
      then [entry_of (baseOffset s) (r, length (rw_log st), length (enc r))] else [])"
    define b1 where "b1 = (if indexInterval s \<le> int (rw_since st) then 0 else rw_since st) + length (enc r)"
    define st1 where "st1 = st\<lparr>rw_log := rw_log st @ enc r, rw_index := rw_index st @ concat (map encodeEntry es1),
      rw_since := b1, rw_kept := rw_kept st + 1, rw_maxTs := ts_max (rw_maxTs st) [r]\<rparr>"
    have step: "rewrite_fn m s st r p n = (True, st1)" for n
      using False Cons.prems
      by (simp add: rewrite_fn_def EncodeRecord_eq Let_def st1_def es1_def b1_def appendIndexEntry_def entry_of_def)
    from Cons.IH [of st1 "p + length (enc r)"] Cons.prems obtain es b where
      f: "feed (rewrite_fn m s) st1 (layout (p + length (enc r)) rs) =
        (True, st1\<lparr>rw_log := rw_log st1 @ enc_all (survivors m rs), rw_index := rw_index st1 @ concat (map encodeEntry es),
                rw_kept := rw_kept st1 + length (survivors m rs),
                rw_dropped := rw_dropped st1 + (length rs - length (survivors m rs)),
                rw_maxTs := ts_max (rw_maxTs st1) (survivors m rs), rw_since := b\<rparr>)"
      and sub: "subseq es (map (entry_of (baseOffset s)) (layout (length (rw_log st1)) (survivors m rs)))"
      by (auto simp: st1_def)
    have "subseq (es1 @ es) (map (entry_of (baseOffset s)) (layout (length (rw_log st)) (survivors m (r # rs))))"
      using sub False list_emb_append_mono [of "(=)" es1 "[entry_of (baseOffset s) (r, length (rw_log st), length (enc r))]" es]
      by (simp add: st1_def es1_def)
    then show ?thesis
      using step f False by (intro exI [of _ "es1 @ es"] exI [of _ b]) (simp add: st1_def)
  qed
qed

section \<open>Writing the swap files\<close>

lemma seg_state_same:
  assumes "seg_state d s rs" and "\<And>n. n \<in> seg_files s \<Longrightarrow> content d' n = content d n \<and> exists_file d' n = exists_file d n"
  shows "seg_state d' s rs"
  using assms by (simp add: seg_state_def seg_inv_def index_file_ok_def)

lemma seg_state_swap:
  assumes "seg_state d s rs" and "same_files_but (\<Union> (swap_files ` T)) d d'"
  shows "seg_state d' s rs"
  by (rule seg_state_same [OF assms(1)]) (use assms(2) in \<open>auto simp: same_files_but_def\<close>)

lemma io_calm:
  assumes "no_faults rt"
  shows "Create rt n d = (Inr (), put n [] (tick d))" and "closeF rt n d = tick d"
    and "content (removeF rt n d) = (content d)(n := [])" and "exists_file (removeF rt n d) = (exists_file d)(n := False)"
  using assms
  by (auto simp: Create_def closeF_def removeF_def call_ok_no_faults io_no_faults fun_eq_iff content_no_file)

definition swap_ready :: "disk \<Rightarrow> u64 \<Rightarrow> Record list \<Rightarrow> bool" where
  "swap_ready d b rs \<longleftrightarrow> exists_file d (segmentLogSwapName b) \<and> exists_file d (segmentIndexSwapName b) \<and>
     content d (segmentLogSwapName b) = enc_all rs \<and>
     (\<exists>es. content d (segmentIndexSwapName b) = concat (map encodeEntry es) \<and> index_of b rs es)"

lemma discardSwap_ok:
  assumes "no_faults rt"
  shows "same_files_but {segmentLogSwapName b, segmentIndexSwapName b} d (discardSwap rt b d)"
  using assms by (simp add: same_files_but_def discardSwap_def Let_def io_calm)

lemma writeSwapFiles_ok:
  assumes "no_faults rt"
  obtains d' where "writeSwapFiles rt pl b l i (put (segmentIndexSwapName b) [] (tick (put (segmentLogSwapName b) [] (tick d)))) = (Inr (), d')"
    and "same_files_but {segmentLogSwapName b, segmentIndexSwapName b} d d'"
    and "exists_file d' (segmentLogSwapName b)" "exists_file d' (segmentIndexSwapName b)"
    and "content d' (segmentLogSwapName b) = l" "content d' (segmentIndexSwapName b) = i"
proof -
  let ?d = "put (segmentIndexSwapName b) [] (tick (put (segmentLogSwapName b) [] (tick d)))"
  define d' where "d' = tick (tick (tick (tick (put (segmentIndexSwapName b) i (tick (put (segmentLogSwapName b) l (tick ?d)))))))"
  have "writeSwapFiles rt pl b l i ?d = (Inr (), d')"
    using assms by (simp add: writeSwapFiles_def Let_def bindR_def onErr_def io_no_faults d'_def del: bindR_simps)
  then show thesis by (rule that) (auto simp: d'_def same_files_but_def)
qed

definition thinned :: "offset_map \<Rightarrow> Record list \<Rightarrow> bool" where
  "thinned m rs \<longleftrightarrow> survivors m rs \<noteq> [] \<and> survivors m rs \<noteq> rs"

lemma compactTarget_ok:
  assumes nf: "no_faults rt" and st: "seg_state d s rs"
  obtains pl' d' where "compactTarget rt m pl s d = (Inr pl', d')" and "same_files_but (swap_files s) d d'"
    and "pl_rewrites pl' = pl_rewrites pl @ (if thinned m rs then [(baseOffset s, ts_max 0 (survivors m rs))] else [])"
    and "emptyBases pl' = emptyBases pl @ (if survivors m rs = [] then [baseOffset s] else [])"
    and "recordsKept pl' = recordsKept pl + length (survivors m rs)"
    and "recordsDropped pl' = recordsDropped pl + (length rs - length (survivors m rs))"
    and "thinned m rs \<Longrightarrow> swap_ready d' (baseOffset s) (survivors m rs)"
proof -
  let ?L = "segmentLogSwapName (baseOffset s)" and ?I = "segmentIndexSwapName (baseOffset s)"
  define d1 where "d1 = put ?I [] (tick (put ?L [] (tick d)))"
  have d1: "same_files_but (swap_files s) d d1" by (auto simp: same_files_but_def d1_def)
  have st1: "seg_state d1 s rs" by (rule seg_state_swap [OF st, of "{s}"]) (use d1 in simp)
  then have inv: "seg_inv d1 s rs" "small_records rs" by (simp_all add: seg_state_def)
  have enc: "list_all encodable rs" using seg_invD(6) [OF inv(1)] by (simp add: segment_records_def)
  obtain es b where fd: "feed (rewrite_fn m s) rewriteStart (layout 0 rs) =
      (True, rewriteStart\<lparr>rw_log := enc_all (survivors m rs), rw_index := concat (map encodeEntry es),
         rw_kept := length (survivors m rs), rw_dropped := length rs - length (survivors m rs),
         rw_maxTs := ts_max 0 (survivors m rs), rw_since := b\<rparr>)"
    and es: "index_of (baseOffset s) (survivors m rs) es"
    using feed_rewrite [OF enc, of rewriteStart m s 0] by (auto simp: rewriteStart_def index_of_def)
  define st where "st = rewriteStart\<lparr>rw_log := enc_all (survivors m rs), rw_index := concat (map encodeEntry es),
         rw_kept := length (survivors m rs), rw_dropped := length rs - length (survivors m rs),
         rw_maxTs := ts_max 0 (survivors m rs), rw_since := b\<rparr>"
  have scan: "scanSegment rt d1 s 0 False (rewrite_fn m s) rewriteStart = Inr st"
    using scanSegment_all [OF nf inv, of False "rewrite_fn m s" rewriteStart] fd by (simp add: st_def)
  have st: "rw_err st = None" "rw_kept st = length (survivors m rs)" "rw_dropped st = length rs - length (survivors m rs)"
    "rw_log st = enc_all (survivors m rs)" "rw_index st = concat (map encodeEntry es)" "rw_maxTs st = ts_max 0 (survivors m rs)"
    by (simp_all add: st_def rewriteStart_def)
  define pl1 where "pl1 = pl\<lparr>recordsKept := recordsKept pl + rw_kept st, recordsDropped := recordsDropped pl + rw_dropped st\<rparr>"
  have run: "compactTarget rt m pl s d =
      (if rw_kept st = 0 then (Inr (pl1\<lparr>emptyBases := emptyBases pl @ [baseOffset s]\<rparr>), discardSwap rt (baseOffset s) d1)
       else if rw_dropped st = 0 then (Inr pl1, discardSwap rt (baseOffset s) d1)
       else bindR (writeSwapFiles rt pl (baseOffset s) (rw_log st) (rw_index st)) (\<lambda>_.
              returnR (pl1\<lparr>pl_rewrites := pl_rewrites pl @ [(baseOffset s, rw_maxTs st)]\<rparr>)) d1)"
    using nf scan st(1) by (simp add: compactTarget_def Let_def bindR_def onErr_def io_calm d1_def [symmetric] pl1_def del: bindR_simps)
  have drop0: "length rs - length (survivors m rs) = 0 \<longleftrightarrow> survivors m rs = rs"
  proof -
    have "length (survivors m rs) \<le> length rs" by simp
    then show ?thesis by (metis diff_is_0_eq' dual_order.antisym filter_id_conv diff_is_0_eq length_filter_less order_refl less_irrefl)
  qed
  have disc: "same_files_but (swap_files s) d (discardSwap rt (baseOffset s) d1)"
    by (rule same_files_but_trans [OF d1 discardSwap_ok [OF nf]])
  show thesis
  proof (cases "thinned m rs")
    case True
    obtain d2 where d2: "writeSwapFiles rt pl (baseOffset s) (rw_log st) (rw_index st) d1 = (Inr (), d2)"
      "same_files_but (swap_files s) d d2" "exists_file d2 ?L" "exists_file d2 ?I"
      "content d2 ?L = rw_log st" "content d2 ?I = rw_index st"
      unfolding d1_def using writeSwapFiles_ok [OF nf] by metis
    have "swap_ready d2 (baseOffset s) (survivors m rs)" using d2(3-6) es st by (auto simp: swap_ready_def)
    with True d2(1,2) run st drop0 show thesis
      by (intro that [of "pl1\<lparr>pl_rewrites := pl_rewrites pl @ [(baseOffset s, rw_maxTs st)]\<rparr>" d2]) (simp_all add: thinned_def pl1_def)
  next
    case False
    show thesis
    proof (cases "survivors m rs = []")
      case True
      with False run st disc show thesis
        by (intro that [of "pl1\<lparr>emptyBases := emptyBases pl @ [baseOffset s]\<rparr>" "discardSwap rt (baseOffset s) d1"]) (simp_all add: pl1_def)
    next
      case ne: False
      with False have eq: "survivors m rs = rs" by (simp add: thinned_def)
      then have "compactTarget rt m pl s d = (Inr pl1, discardSwap rt (baseOffset s) d1)"
        using run st drop0 ne by simp
      with False ne eq st disc show thesis
        by (intro that [of pl1 "discardSwap rt (baseOffset s) d1"]) (simp_all add: pl1_def)
    qed
  qed
qed

type_synonym seg_log = "segment \<times> Record list"

abbreviation base_of :: "seg_log \<Rightarrow> u64" where
  "base_of \<equiv> \<lambda>(s, rs). baseOffset s"

definition states :: "disk \<Rightarrow> seg_log list \<Rightarrow> bool" where
  "states d ps \<longleftrightarrow> list_all (\<lambda>(s, rs). seg_state d s rs) ps"

lemma states_simps [simp]:
  "states d []" "states d ((s, rs) # ps) \<longleftrightarrow> seg_state d s rs \<and> states d ps"
  "states d (ps @ qs) \<longleftrightarrow> states d ps \<and> states d qs"
  by (simp_all add: states_def)

lemma states_mono: "(\<And>s rs. (s, rs) \<in> set ps \<Longrightarrow> seg_state d s rs \<Longrightarrow> seg_state d' s rs) \<Longrightarrow> states d ps \<Longrightarrow> states d' ps"
  by (auto simp: states_def list_all_iff)

lemma states_list_all2: "states d ps \<Longrightarrow> list_all2 (seg_state d) (map fst ps) (map snd ps)"
  by (induction ps) auto

lemma swap_ready_same:
  "swap_ready d b rs \<Longrightarrow> same_files_but N d d' \<Longrightarrow> segmentLogSwapName b \<notin> N \<Longrightarrow> segmentIndexSwapName b \<notin> N \<Longrightarrow> swap_ready d' b rs"
  by (simp add: swap_ready_def same_files_but_def)

lemma compactTargets_ok:
  assumes nf: "no_faults rt" and "states d ps" and "distinct (map base_of ps)" and nc: "\<And>i. \<not> cancelled i"
  shows "\<exists>pl' d'. compactTargets rt m cancelled i pl (map fst ps) d = (Inr pl', d') \<and>
    same_files_but (\<Union> (swap_files ` fst ` set ps)) d d' \<and>
    pl_rewrites pl' = pl_rewrites pl @ map (\<lambda>(s, rs). (baseOffset s, ts_max 0 (survivors m rs))) (filter (\<lambda>(s, rs). thinned m rs) ps) \<and>
    emptyBases pl' = emptyBases pl @ map base_of (filter (\<lambda>(s, rs). survivors m rs = []) ps) \<and>
    recordsKept pl' = recordsKept pl + length (survivors m (concat (map snd ps))) \<and>
    list_all (\<lambda>(s, rs). thinned m rs \<longrightarrow> swap_ready d' (baseOffset s) (survivors m rs)) ps"
  using assms(2,3)
proof (induction ps arbitrary: d i pl)
  case Nil
  show ?case by (intro exI [of _ pl] exI [of _ d]) simp
next
  case (Cons q ps)
  obtain s rs where q: "q = (s, rs)" by fastforce
  have st: "seg_state d s rs" "states d ps" using Cons.prems q by simp_all
  obtain pl1 d1 where 1: "compactTarget rt m pl s d = (Inr pl1, d1)" "same_files_but (swap_files s) d d1"
    "pl_rewrites pl1 = pl_rewrites pl @ (if thinned m rs then [(baseOffset s, ts_max 0 (survivors m rs))] else [])"
    "emptyBases pl1 = emptyBases pl @ (if survivors m rs = [] then [baseOffset s] else [])"
    "recordsKept pl1 = recordsKept pl + length (survivors m rs)"
    "thinned m rs \<Longrightarrow> swap_ready d1 (baseOffset s) (survivors m rs)"
    using compactTarget_ok [OF nf st(1)] by metis
  have st1: "states d1 ps"
    by (rule states_mono [OF _ st(2)]) (rule seg_state_swap [of _ _ _ "{s}"], use 1(2) in simp_all)
  have dis: "distinct (map base_of ps)" "baseOffset s \<notin> base_of ` set ps" using Cons.prems(2) q by auto
  obtain pl2 d2 where 2: "compactTargets rt m cancelled (i + 1) pl1 (map fst ps) d1 = (Inr pl2, d2)"
    "same_files_but (\<Union> (swap_files ` fst ` set ps)) d1 d2"
    "pl_rewrites pl2 = pl_rewrites pl1 @ map (\<lambda>(s, rs). (baseOffset s, ts_max 0 (survivors m rs))) (filter (\<lambda>(s, rs). thinned m rs) ps)"
    "emptyBases pl2 = emptyBases pl1 @ map base_of (filter (\<lambda>(s, rs). survivors m rs = []) ps)"
    "recordsKept pl2 = recordsKept pl1 + length (survivors m (concat (map snd ps)))"
    "list_all (\<lambda>(s, rs). thinned m rs \<longrightarrow> swap_ready d2 (baseOffset s) (survivors m rs)) ps"
    using Cons.IH [OF st1 dis(1)] by blast
  have "same_files_but (\<Union> (swap_files ` fst ` set (q # ps))) d d2"
    by (rule same_files_but_trans [OF same_files_but_mono [OF 1(2)] same_files_but_mono [OF 2(2)]]) (auto simp: q)
  moreover have "thinned m rs \<Longrightarrow> swap_ready d2 (baseOffset s) (survivors m rs)"
    by (rule swap_ready_same [OF 1(6) 2(2)]) (use dis(2) in \<open>force+\<close>)
  ultimately show ?case
    using 1(1,3-5) 2(1,3-6) nc [of i] q by (intro exI [of _ pl2] exI [of _ d2]) simp
qed

section \<open>The swap\<close>

definition pair_gone :: "u64 \<Rightarrow> disk \<Rightarrow> disk \<Rightarrow> bool" where
  "pair_gone b d d' \<longleftrightarrow> \<not> exists_file d' (segmentLogName b) \<and> \<not> exists_file d' (segmentIndexName b) \<and>
     same_files_but {segmentLogName b, segmentIndexName b} d d'"

lemma removeSegmentPair_ok:
  assumes "no_faults rt"
  obtains n d' where "removeSegmentPair rt b d = (Inr n, d')" and "pair_gone b d d'"
proof -
  have rc: "\<exists>k d'. removeCounted rt n f d = (Inr k, d') \<and> \<not> exists_file d' n \<and> same_files_but {n} d d'" for n f d
    using assms by (auto simp: removeCounted_def Stat_def call_ok_no_faults bindR_def removeIfExists_ok same_files_but_def
        simp del: bindR_simps)
  obtain k1 d1 where 1: "removeCounted rt (segmentLogName b) 0 d = (Inr k1, d1)" "\<not> exists_file d1 (segmentLogName b)"
    "same_files_but {segmentLogName b} d d1" using rc by blast
  obtain k2 d2 where 2: "removeCounted rt (segmentIndexName b) k1 d1 = (Inr k2, d2)" "\<not> exists_file d2 (segmentIndexName b)"
    "same_files_but {segmentIndexName b} d1 d2" using rc by blast
  have "removeSegmentPair rt b d = (Inr k2, d2)" using 1(1) 2(1) by (simp add: removeSegmentPair_def)
  moreover have "pair_gone b d d2" using 1(2,3) 2(2,3) by (auto simp: pair_gone_def same_files_but_def)
  ultimately show thesis by (rule that)
qed

lemma pair_gone_tick: "pair_gone b (tick (tick d)) d' \<Longrightarrow> pair_gone b d d'"
  by (simp add: pair_gone_def same_files_but_def)

lemma removeSegmentFiles_ok:
  assumes "no_faults rt"
  obtains n d' where "removeSegmentFiles rt s d = (Inr n, d')" and "pair_gone (baseOffset s) d d'"
  using removeSegmentPair_ok [OF assms, of "baseOffset s" "tick (tick d)"] pair_gone_tick
  by (metis bindR_simps(1) removeSegmentFiles_def seg_close_ok [OF assms])

lemma swapIn_ok:
  assumes nf: "no_faults rt" and rs: "segment_records (baseOffset s) rs" "small_records rs"
    and rdy: "swap_ready d (baseOffset s) rs"
  obtains ns n d' where "swapIn rt pl iv s t d = (Inr (ns, n), d')" and "seg_state d' ns rs" and "baseOffset ns = baseOffset s"
    and "same_files_but (seg_files s \<union> swap_files s) d d'"
proof -
  let ?b = "baseOffset s"
  from rdy obtain es where es: "content d (segmentIndexSwapName ?b) = concat (map encodeEntry es)" "index_of ?b rs es"
    and r: "exists_file d (segmentLogSwapName ?b)" "exists_file d (segmentIndexSwapName ?b)" "content d (segmentLogSwapName ?b) = enc_all rs"
    by (auto simp: swap_ready_def)
  obtain n d1 where d1: "removeSegmentPair rt ?b (tick (tick d)) = (Inr n, d1)" "pair_gone ?b (tick (tick d)) d1"
    using removeSegmentPair_ok [OF nf] .
  have k: "content d1 m = content d m" "exists_file d1 m = exists_file d m" if "m \<notin> seg_files s" for m
    using d1(2) that by (auto simp: pair_gone_def same_files_but_def)
  define d2 where "d2 = put (segmentLogName ?b) (content d1 (segmentLogSwapName ?b)) (del (segmentLogSwapName ?b) (tick d1))"
  define d3 where "d3 = put (segmentIndexName ?b) (content d2 (segmentIndexSwapName ?b)) (del (segmentIndexSwapName ?b) (tick d2))"
  have ren: "Rename rt (segmentLogSwapName ?b) (segmentLogName ?b) d1 = (Inr (), d2)"
    "Rename rt (segmentIndexSwapName ?b) (segmentIndexName ?b) d2 = (Inr (), d3)"
    using nf r k by (simp_all add: io_no_faults d2_def d3_def)
  have c: "content d3 (segmentLogName ?b) = enc_all rs" "exists_file d3 (segmentLogName ?b)" "exists_file d3 (segmentIndexName ?b)"
    "content d3 (segmentIndexName ?b) = concat (map encodeEntry es)"
    using r es k by (simp_all add: d3_def d2_def)
  obtain ns k where o: "openSegment rt ?b iv d3 = (Inr ns, d3\<lparr>ops := k\<rparr>)" "baseOffset ns = ?b"
    "seg_inv (d3\<lparr>ops := k\<rparr>) ns rs" "index_file_ok (d3\<lparr>ops := k\<rparr>) ns"
    using openSegment_existing [OF nf rs(1) es(2) c] by metis
  have "swapIn rt pl iv s t d = (Inr (ns\<lparr>maxTs := t\<rparr>, n), d3\<lparr>ops := k\<rparr>)"
    by (simp add: swapIn_def swapFiles_def Let_def bindR_def onErr_def seg_close_ok [OF nf] d1(1) ren o(1) del: bindR_simps)
  moreover have "seg_state (d3\<lparr>ops := k\<rparr>) (ns\<lparr>maxTs := t\<rparr>) rs" using o(3,4) rs(2) by (simp add: seg_state_def)
  moreover have "same_files_but (seg_files s \<union> swap_files s) d (d3\<lparr>ops := k\<rparr>)"
    using d1(2) by (auto simp: same_files_but_def pair_gone_def d3_def d2_def)
  ultimately show thesis using that o(2) by simp
qed

lemma length_enc_all_filter: "length (enc_all (filter P rs)) \<le> length (enc_all rs)"
  by (induction rs) auto

lemma segment_records_filter: "segment_records b rs \<Longrightarrow> segment_records b (filter P rs)"
  using length_enc_all_filter [of P rs] by (auto simp: segment_records_def increasing_filter list_all_iff)

lemma small_records_filter: "small_records rs \<Longrightarrow> small_records (filter P rs)"
  by (auto simp: small_records_def list_all_iff)

definition gone :: "plan \<Rightarrow> (u64 \<times> nat) list \<Rightarrow> segment \<Rightarrow> bool" where
  "gone pl sizes s \<longleftrightarrow> baseOffset s \<in> set (emptyBases pl) \<and> sizeOf sizes (baseOffset s) = segSize s"

definition renewed :: "plan \<Rightarrow> (u64 \<times> nat) list \<Rightarrow> segment \<Rightarrow> bool" where
  "renewed pl sizes s \<longleftrightarrow> \<not> gone pl sizes s \<and> map_of (pl_rewrites pl) (baseOffset s) \<noteq> None \<and> sizeOf sizes (baseOffset s) = segSize s"

definition outcome :: "offset_map \<Rightarrow> plan \<Rightarrow> (u64 \<times> nat) list \<Rightarrow> seg_log \<Rightarrow> (u64 \<times> Record list) list" where
  "outcome m pl sizes = (\<lambda>(s, rs). if gone pl sizes s then []
     else [(baseOffset s, if renewed pl sizes s then survivors m rs else rs)])"

definition log_of :: "seg_log list \<Rightarrow> (u64 \<times> Record list) list" where
  "log_of = map (\<lambda>(s, rs). (baseOffset s, rs))"

lemma swapSegment_ok:
  assumes nf: "no_faults rt" and st: "seg_state d s rs"
    and rdy: "renewed pl sizes s \<Longrightarrow> swap_ready d (baseOffset s) (survivors m rs)"
  obtains sw' d' qs where "swapSegment rt pl sizes iv ds i s sw d = (Inr sw', d')"
    and "newSegs sw' = newSegs sw @ map fst qs" and "log_of qs = outcome m pl sizes (s, rs)" and "states d' qs"
    and "same_files_but (seg_files s \<union> swap_files s) d d'"
    and "gone pl sizes s \<Longrightarrow> \<not> exists_file d' (segmentLogName (baseOffset s)) \<and> \<not> exists_file d' (segmentIndexName (baseOffset s))"
proof (cases "gone pl sizes s")
  case True
  then have c: "baseOffset s \<in> set (emptyBases pl) \<and> sizeOf sizes (baseOffset s) = segSize s" by (simp add: gone_def)
  obtain n d' where r: "removeSegmentFiles rt s d = (Inr n, d')" "pair_gone (baseOffset s) d d'"
    using removeSegmentFiles_ok [OF nf] .
  define sw' where "sw' = sw\<lparr>sw_freed := sw_freed sw + int n, sw_deleted := sw_deleted sw + 1,
    removedBeforeDirty := removedBeforeDirty sw + (if int i < ds then 1 else 0)\<rparr>"
  have "swapSegment rt pl sizes iv ds i s sw d = (Inr sw', d')"
    using c r(1) by (simp add: swapSegment_def onErr_ok sw'_def)
  then show thesis
    using that [of sw' d' "[]"] True r(2)
    by (auto simp: outcome_def log_of_def pair_gone_def sw'_def same_files_but_def)
next
  case ng: False
  then have c: "\<not> (baseOffset s \<in> set (emptyBases pl) \<and> sizeOf sizes (baseOffset s) = segSize s)" by (simp add: gone_def)
  show thesis
  proof (cases "renewed pl sizes s")
    case True
    then obtain t where t: "map_of (pl_rewrites pl) (baseOffset s) = Some t" "sizeOf sizes (baseOffset s) = segSize s"
      by (auto simp: renewed_def)
    have rs: "segment_records (baseOffset s) (survivors m rs)" "small_records (survivors m rs)"
      using st seg_invD(6) by (auto simp: seg_state_def segment_records_filter small_records_filter)
    obtain ns n d' where r: "swapIn rt pl iv s t d = (Inr (ns, n), d')" "seg_state d' ns (survivors m rs)"
      "baseOffset ns = baseOffset s" "same_files_but (seg_files s \<union> swap_files s) d d'"
      using swapIn_ok [OF nf rs rdy [OF True]] .
    have "\<exists>sw'. swapSegment rt pl sizes iv ds i s sw d = (Inr sw', d') \<and> newSegs sw' = newSegs sw @ [ns]"
      using c t r(1) by (auto simp: swapSegment_def)
    then show thesis
      using that [of _ d' "[(ns, survivors m rs)]"] True ng r(2-4) by (auto simp: outcome_def log_of_def)
  next
    case False
    then have "swapSegment rt pl sizes iv ds i s sw d = (Inr (sw\<lparr>newSegs := newSegs sw @ [s]\<rparr>), d)"
      using c ng by (auto simp: swapSegment_def renewed_def split: option.split)
    then show thesis
      using that [of _ d "[(s, rs)]"] False ng st by (simp add: outcome_def log_of_def)
  qed
qed

abbreviation all_files :: "seg_log list \<Rightarrow> string set" where
  "all_files ps \<equiv> \<Union> ((\<lambda>(s, rs). seg_files s \<union> swap_files s) ` set ps)"

lemma not_in_all_files:
  assumes "b \<notin> base_of ` set ps"
  shows "segmentLogName b \<notin> all_files ps" "segmentIndexName b \<notin> all_files ps"
    "segmentLogSwapName b \<notin> all_files ps" "segmentIndexSwapName b \<notin> all_files ps"
  using assms by force+

lemma seg_state_outside:
  assumes "seg_state d s rs" and "same_files_but N d d'" and "seg_files s \<inter> N = {}"
  shows "seg_state d' s rs"
  by (rule seg_state_same [OF assms(1)]) (use assms(2,3) in \<open>auto simp: same_files_but_def\<close>)

lemma swapSegments_ok:
  assumes nf: "no_faults rt" and "states d ps" and "distinct (map base_of ps)"
    and "\<And>s rs. (s, rs) \<in> set ps \<Longrightarrow> renewed pl sizes s \<Longrightarrow> swap_ready d (baseOffset s) (survivors m rs)"
  shows "\<exists>sw' d' qs. swapSegments rt pl sizes iv ds i (map fst ps @ [a]) sw d = (Inr sw', d') \<and>
    newSegs sw' = newSegs sw @ map fst qs @ [a] \<and> log_of qs = concat (map (outcome m pl sizes) ps) \<and> states d' qs \<and>
    same_files_but (all_files ps) d d' \<and>
    (\<forall>(s, rs) \<in> set ps. gone pl sizes s \<longrightarrow> \<not> exists_file d' (segmentLogName (baseOffset s)) \<and> \<not> exists_file d' (segmentIndexName (baseOffset s)))"
  using assms(2-4)
proof (induction ps arbitrary: d i sw)
  case Nil
  show ?case by (intro exI [of _ "sw\<lparr>newSegs := newSegs sw @ [a]\<rparr>"] exI [of _ d] exI [of _ "[]"]) (simp add: log_of_def)
next
  case (Cons q ps)
  obtain s rs where q: "q = (s, rs)" by fastforce
  have st: "seg_state d s rs" "states d ps" using Cons.prems(1) q by simp_all
  have dis: "distinct (map base_of ps)" "baseOffset s \<notin> base_of ` set ps" using Cons.prems(2) q by auto
  have rdy0: "renewed pl sizes s \<Longrightarrow> swap_ready d (baseOffset s) (survivors m rs)" using Cons.prems(3) [of s rs] q by simp
  obtain sw1 d1 q1 where 1: "swapSegment rt pl sizes iv ds i s sw d = (Inr sw1, d1)"
    "newSegs sw1 = newSegs sw @ map fst q1" "log_of q1 = outcome m pl sizes (s, rs)" "states d1 q1"
    "same_files_but (seg_files s \<union> swap_files s) d d1"
    "gone pl sizes s \<Longrightarrow> \<not> exists_file d1 (segmentLogName (baseOffset s)) \<and> \<not> exists_file d1 (segmentIndexName (baseOffset s))"
    using swapSegment_ok [OF nf st(1) rdy0, where i = i and sw = sw and iv = iv and ds = ds] by blast
  have other: "baseOffset t \<noteq> baseOffset s" if "(t, ts) \<in> set ps" for t ts using dis(2) that by force
  have st1: "states d1 ps"
    by (rule states_mono [OF _ st(2)]) (rule seg_state_outside [OF _ 1(5)], use other in auto)
  have rdy1: "swap_ready d1 (baseOffset t) (survivors m ts)" if "(t, ts) \<in> set ps" "renewed pl sizes t" for t ts
    by (rule swap_ready_same [OF Cons.prems(3) 1(5)]) (use that other [OF that(1)] q in auto)
  obtain sw2 d2 q2 where 2: "swapSegments rt pl sizes iv ds (i + 1) (map fst ps @ [a]) sw1 d1 = (Inr sw2, d2)"
    "newSegs sw2 = newSegs sw1 @ map fst q2 @ [a]" "log_of q2 = concat (map (outcome m pl sizes) ps)" "states d2 q2"
    "same_files_but (all_files ps) d1 d2"
    "\<forall>(s, rs) \<in> set ps. gone pl sizes s \<longrightarrow> \<not> exists_file d2 (segmentLogName (baseOffset s)) \<and> \<not> exists_file d2 (segmentIndexName (baseOffset s))"
    using Cons.IH [OF st1 dis(1) rdy1] by blast
  note out = not_in_all_files [OF dis(2)]
  have "states d2 q1"
  proof (rule states_mono [OF _ 1(4)])
    fix t ts assume t: "(t, ts) \<in> set q1" "seg_state d1 t ts"
    have "baseOffset t \<in> fst ` set (log_of q1)" using t(1) by (force simp: log_of_def)
    then have "baseOffset t = baseOffset s" by (auto simp: 1(3) outcome_def split: if_splits)
    then show "seg_state d2 t ts" using seg_state_outside [OF t(2) 2(5)] out by auto
  qed
  moreover have "swapSegments rt pl sizes iv ds i (map fst (q # ps) @ [a]) sw d = (Inr sw2, d2)"
    using 1(1) 2(1) q by (cases ps) simp_all
  moreover have "same_files_but (all_files (q # ps)) d d2"
    by (rule same_files_but_trans [OF same_files_but_mono [OF 1(5)] same_files_but_mono [OF 2(5)]]) (auto simp: q)
  moreover have "gone pl sizes s \<Longrightarrow> \<not> exists_file d2 (segmentLogName (baseOffset s)) \<and> \<not> exists_file d2 (segmentIndexName (baseOffset s))"
    using 1(6) 2(5) out by (simp add: same_files_but_def)
  ultimately show ?case
    using 1(2,3) 2(2-4,6) q by (intro exI [of _ sw2] exI [of _ d2] exI [of _ "q1 @ q2"]) (auto simp: log_of_def)
qed

section \<open>Ranges with gaps\<close>

definition spread :: "(u64 \<times> Record list) list \<Rightarrow> nat \<Rightarrow> bool" where
  "spread xs e \<longleftrightarrow> sorted_wrt (\<lambda>x y. fst x < fst y \<and> list_all (\<lambda>r. Offset r < fst y) (snd x)) xs \<and>
     list_all (\<lambda>x. unat (fst x) < e \<and> list_all (\<lambda>r. roff r < e) (snd x)) xs"

lemma spread_mono: "spread xs e \<Longrightarrow> e \<le> e' \<Longrightarrow> spread xs e'"
  unfolding spread_def by (auto simp: list_all_iff intro: order.strict_trans2)

lemma spread_snoc:
  "spread (xs @ [x]) e \<longleftrightarrow> spread xs (unat (fst x)) \<and> unat (fst x) < e \<and> list_all (\<lambda>r. roff r < e) (snd x)"
proof
  assume "spread (xs @ [x]) e"
  then show "spread xs (unat (fst x)) \<and> unat (fst x) < e \<and> list_all (\<lambda>r. roff r < e) (snd x)"
    by (auto simp: spread_def sorted_wrt_append list_all_iff word_less_nat_alt)
next
  assume a: "spread xs (unat (fst x)) \<and> unat (fst x) < e \<and> list_all (\<lambda>r. roff r < e) (snd x)"
  then have "spread xs e" using spread_mono by (meson less_imp_le)
  with a show "spread (xs @ [x]) e"
    unfolding spread_def by (auto simp: sorted_wrt_append list_all_iff word_less_nat_alt)
qed

lemma chain_spread: "chain g ss rss e \<Longrightarrow> spread (log_of (zip ss rss)) e"
proof (induction ss arbitrary: rss e rule: rev_induct)
  case Nil
  show ?case by (simp add: spread_def log_of_def)
next
  case (snoc s ss)
  from snoc.prems show ?case
  proof (rule chain_snocE)
    fix crs rs assume "rss = crs @ [rs]" and c: "chain g ss crs (unat (baseOffset s))" and "unat (baseOffset s) < e"
      and "range_ok g (unat (baseOffset s)) rs e"
    then show ?thesis
      using snoc.IH [OF c] chain_lengths [OF c] by (simp add: log_of_def spread_snoc range_ok_def list_all_iff)
  qed
qed

lemma spread_chain: "spread (log_of qs) e \<Longrightarrow> chain True (map fst qs) (map snd qs) e"
proof (induction qs arbitrary: e rule: rev_induct)
  case (snoc q qs)
  then have "spread (log_of qs) (unat (baseOffset (fst q)))" "unat (baseOffset (fst q)) < e" "list_all (\<lambda>r. roff r < e) (snd q)"
    by (auto simp: log_of_def spread_snoc case_prod_beta)
  then show ?case using snoc.IH by (simp add: chain_snoc range_ok_def list_all_iff)
qed simp

lemma spread_thin:
  assumes "spread (map g xs) e"
    and "\<And>x. x \<in> set xs \<Longrightarrow> f x = [] \<or> (\<exists>rs. f x = [(fst (g x), rs)] \<and> set rs \<subseteq> set (snd (g x)))"
  shows "spread (concat (map f xs)) e"
  using assms
proof (induction xs arbitrary: e rule: rev_induct)
  case (snoc x xs)
  have sp: "spread (map g xs) (unat (fst (g x)))" "unat (fst (g x)) < e" "list_all (\<lambda>r. roff r < e) (snd (g x))"
    using snoc.prems(1) by (simp_all add: spread_snoc)
  have ih: "spread (concat (map f xs)) (unat (fst (g x)))" by (rule snoc.IH [OF sp(1) snoc.prems(2)]) simp
  consider "f x = []" | rs where "f x = [(fst (g x), rs)]" "set rs \<subseteq> set (snd (g x))" using snoc.prems(2) [of x] by auto
  then show ?case
  proof cases
    case 1
    have "spread (concat (map f xs)) e"
      using ih sp(2) spread_mono by (meson less_imp_le)
    then show ?thesis using 1 by simp
  next
    case 2
    then show ?thesis using ih sp(2,3) by (auto simp: spread_snoc list_all_iff)
  qed
qed (simp add: spread_def)

lemma spread_bases: "spread xs e \<Longrightarrow> distinct (map fst xs)"
proof -
  assume "spread xs e"
  then have "sorted_wrt (<) (map fst xs)" by (auto simp: spread_def sorted_wrt_map elim: sorted_wrt_mono_rel [rotated])
  then show ?thesis by (simp add: strict_sorted_iff)
qed

lemma spread_increasing:
  assumes "spread (log_of ps) e" and "states d ps"
  shows "increasing (concat (map snd ps))"
  using assms
proof (induction ps arbitrary: e rule: rev_induct)
  case (snoc q ps)
  obtain s rs where q: "q = (s, rs)" by fastforce
  have sp: "spread (log_of ps) (unat (baseOffset s))" using snoc.prems(1) q by (simp add: log_of_def spread_snoc)
  have st: "seg_state d s rs" "states d ps" using snoc.prems(2) q by simp_all
  have r: "increasing rs" "\<forall>r \<in> set rs. unat (baseOffset s) \<le> roff r"
    using st(1) seg_invD(6) by (auto simp: seg_state_def segment_records_def)
  have "roff x < unat (baseOffset s)" if x: "x \<in> set (concat (map snd ps))" for x
  proof -
    from x obtain t ts where "(t, ts) \<in> set ps" "x \<in> set ts" by auto
    with sp show ?thesis by (fastforce simp: spread_def log_of_def list_all_iff)
  qed
  then have "roff x < roff y" if "x \<in> set (concat (map snd ps))" "y \<in> set rs" for x y
    using that r(2) by (meson le_less_trans less_le_trans)
  with snoc.IH [OF sp st(2)] r(1) q show ?case by (auto simp: increasing_def sorted_wrt_append)
qed (simp add: increasing_def)

section \<open>The whole pass\<close>

abbreviation targets_of :: "seg_log list \<Rightarrow> seg_log list" where
  "targets_of ps \<equiv> filter (\<lambda>(s, rs). rs \<noteq> []) ps"

definition plan_for :: "offset_map \<Rightarrow> seg_log list \<Rightarrow> plan \<Rightarrow> bool" where
  "plan_for m ps pl \<longleftrightarrow>
     pl_rewrites pl = map (\<lambda>(s, rs). (baseOffset s, ts_max 0 (survivors m rs))) (filter (\<lambda>(s, rs). thinned m rs) (targets_of ps)) \<and>
     emptyBases pl = map base_of (filter (\<lambda>(s, rs). survivors m rs = []) (targets_of ps))"

lemma same_base:
  assumes "distinct (map base_of ps)" and "(s, rs) \<in> set ps" and "(t, ts) \<in> set ps" and "baseOffset s = baseOffset t"
  shows "(s, rs) = (t, ts)"
proof -
  have "inj_on base_of (set ps)" using assms(1) by (simp add: distinct_map)
  then show ?thesis by (rule inj_onD) (use assms(2-4) in auto)
qed

lemma map_of_mem: "map_of xs k \<noteq> None \<longleftrightarrow> k \<in> fst ` set xs"
  by (metis map_of_eq_None_iff)

lemma plan_outcome:
  assumes pl: "plan_for m ps pl" and dis: "distinct (map base_of ps)"
    and sizes: "sizes = map (\<lambda>s. (baseOffset s, segSize s)) (map fst (targets_of ps))"
  shows "(s, rs) \<in> set ps \<Longrightarrow> gone pl sizes s \<longleftrightarrow> rs \<noteq> [] \<and> survivors m rs = []"
    and "(s, rs) \<in> set ps \<Longrightarrow> renewed pl sizes s \<longleftrightarrow> thinned m rs"
    and "(s, rs) \<in> set ps \<Longrightarrow> outcome m pl sizes (s, rs) = (if rs \<noteq> [] \<and> survivors m rs = [] then [] else [(baseOffset s, survivors m rs)])"
    and "baseOffset t \<notin> base_of ` set ps \<Longrightarrow> outcome m pl sizes (t, ts) = [(baseOffset t, ts)] \<and> \<not> gone pl sizes t \<and> \<not> renewed pl sizes t"
proof -
  have size: "sizeOf sizes (baseOffset s) = segSize s" if "(s, rs) \<in> set ps" "rs \<noteq> []" for s rs
  proof -
    have "(baseOffset s, segSize s) \<in> set sizes" using that by (force simp: sizes)
    moreover have "map fst sizes = map base_of (targets_of ps)" by (simp add: sizes case_prod_beta)
    then have "distinct (map fst sizes)" using dis by (simp add: distinct_map_filter)
    ultimately have "map_of sizes (baseOffset s) = Some (segSize s)" by simp
    then show ?thesis by (simp add: sizeOf_def)
  qed
  have eb: "emptyBases pl = map base_of (filter (\<lambda>(s, rs). survivors m rs = []) (targets_of ps))"
    and rb: "fst ` set (pl_rewrites pl) = base_of ` set (filter (\<lambda>(s, rs). thinned m rs) (targets_of ps))"
    using pl by (auto simp: plan_for_def image_image case_prod_beta)
  have pick: "baseOffset s \<in> base_of ` set (filter (\<lambda>(s, rs). P rs) (targets_of ps)) \<longleftrightarrow> rs \<noteq> [] \<and> P rs"
    if p: "(s, rs) \<in> set ps" for P s rs
  proof
    assume "baseOffset s \<in> base_of ` set (filter (\<lambda>(s, rs). P rs) (targets_of ps))"
    then obtain t ts where t: "(t, ts) \<in> set ps" "ts \<noteq> []" "P ts" "baseOffset s = baseOffset t" by auto
    from same_base [OF dis p t(1,4)] t show "rs \<noteq> [] \<and> P rs" by simp
  next
    assume "rs \<noteq> [] \<and> P rs"
    with p show "baseOffset s \<in> base_of ` set (filter (\<lambda>(s, rs). P rs) (targets_of ps))"
      by (intro image_eqI [of _ _ "(s, rs)"]) simp_all
  qed
  have empty: "baseOffset s \<in> set (emptyBases pl) \<longleftrightarrow> rs \<noteq> [] \<and> survivors m rs = []" if "(s, rs) \<in> set ps" for s rs
    unfolding eb set_map by (rule pick [OF that])
  have rew: "map_of (pl_rewrites pl) (baseOffset s) \<noteq> None \<longleftrightarrow> thinned m rs" if "(s, rs) \<in> set ps" for s rs
    unfolding map_of_mem rb pick [OF that] by (auto simp: thinned_def)
  show g: "gone pl sizes s \<longleftrightarrow> rs \<noteq> [] \<and> survivors m rs = []" if "(s, rs) \<in> set ps" for s rs
    using empty [OF that] size [OF that] by (auto simp: gone_def)
  show r: "renewed pl sizes s \<longleftrightarrow> thinned m rs" if "(s, rs) \<in> set ps" for s rs
    using rew [OF that] g [OF that] size [OF that] by (cases "rs = []") (auto simp: renewed_def thinned_def)
  show "outcome m pl sizes (s, rs) = (if rs \<noteq> [] \<and> survivors m rs = [] then [] else [(baseOffset s, survivors m rs)])"
    if "(s, rs) \<in> set ps" for s rs
    using g [OF that] r [OF that] by (auto simp: outcome_def thinned_def)
  show "outcome m pl sizes (t, ts) = [(baseOffset t, ts)] \<and> \<not> gone pl sizes t \<and> \<not> renewed pl sizes t"
    if t: "baseOffset t \<notin> base_of ` set ps" for t ts
  proof -
    have "baseOffset t \<notin> set (emptyBases pl)" unfolding eb set_map using t by auto
    moreover have "baseOffset t \<notin> fst ` set (pl_rewrites pl)" unfolding rb using t by auto
    then have "map_of (pl_rewrites pl) (baseOffset t) = None" using map_of_mem [of "pl_rewrites pl" "baseOffset t"] by blast
    ultimately show ?thesis by (simp add: outcome_def gone_def renewed_def)
  qed
qed

text \<open>
  What other threads may do while the swap files are written: append, which may
  rotate. The closed segments and the swap files are not theirs.
\<close>

definition others_append ::
  "(Partition \<times> disk \<Rightarrow> Partition \<times> disk) \<Rightarrow> Partition \<Rightarrow> Record list list \<Rightarrow> Record list list \<Rightarrow> bool" where
  "others_append others p rss mrss \<longleftrightarrow> mrss \<noteq> [] \<and> (\<forall>d. part_inv p d rss \<longrightarrow>
     (\<exists>q d' more. others (p, d) = (q, d') \<and> \<not> closed q \<and> segments q = butlast (segments p) @ more \<and>
        length more = length mrss \<and> part_inv q d' (butlast rss @ mrss) \<and>
        (\<forall>b. content d' (segmentLogSwapName b) = content d (segmentLogSwapName b) \<and>
             exists_file d' (segmentLogSwapName b) = exists_file d (segmentLogSwapName b) \<and>
             content d' (segmentIndexSwapName b) = content d (segmentIndexSwapName b) \<and>
             exists_file d' (segmentIndexSwapName b) = exists_file d (segmentIndexSwapName b))))"

lemma removeSwaps_ok:
  assumes "no_faults rt"
  shows "same_files_but {n. \<exists>b. n = segmentLogSwapName b \<or> n = segmentIndexSwapName b} d (removeSwaps rt pl d)"
proof -
  have "same_files_but {n. \<exists>b. n = segmentLogSwapName b \<or> n = segmentIndexSwapName b} d
    (foldl (\<lambda>d (base, _). removeF rt (segmentIndexSwapName base) (removeF rt (segmentLogSwapName base) d)) d xs)"
    for xs :: "(u64 \<times> i64) list"
  proof (induction xs arbitrary: d)
    case (Cons x xs)
    obtain b t where x: "x = (b, t)" by fastforce
    have "same_files_but {n. \<exists>b. n = segmentLogSwapName b \<or> n = segmentIndexSwapName b} d
        (removeF rt (segmentIndexSwapName b) (removeF rt (segmentLogSwapName b) d))"
      using assms by (auto simp: same_files_but_def io_calm)
    from same_files_but_trans [OF this Cons.IH] show ?case by (simp add: x)
  qed simp
  then show ?thesis by (simp add: removeSwaps_def)
qed

lemma part_inv_swap:
  assumes "part_inv p d rss" and "same_files_but N d d'" and "\<And>b. segmentLogName b \<notin> N" "\<And>b. segmentIndexName b \<notin> N"
  shows "part_inv p d' rss"
proof -
  have same: "content d' (segmentLogName b) = content d (segmentLogName b)" "exists_file d' (segmentLogName b) = exists_file d (segmentLogName b)"
    "content d' (segmentIndexName b) = content d (segmentIndexName b)" "exists_file d' (segmentIndexName b) = exists_file d (segmentIndexName b)" for b
    using assms(2-4) by (auto simp: same_files_but_def)
  have "seg_state d' = seg_state d" by (simp add: fun_eq_iff seg_state_def seg_inv_def index_file_ok_def same)
  moreover have "own_files d' = own_files d" by (simp add: fun_eq_iff own_files_def same)
  ultimately show ?thesis using assms(1) by (simp add: part_inv_def)
qed

lemma writeMarker_ok:
  assumes "no_faults rt"
  obtains d' where "writeMarker rt d = (Inr (), d')" and "same_files_but {compactedMarkerName} d d'"
proof -
  define d' where "d' = tick (tick (put compactedMarkerName markerText (tick (put compactedMarkerName [] (tick d)))))"
  have "writeMarker rt d = (Inr (), d')"
    using assms by (simp add: writeMarker_def bindR_def onErr_def io_calm io_no_faults d'_def del: bindR_simps)
  then show thesis by (rule that) (auto simp: d'_def same_files_but_def)
qed

lemma concat_outcome:
  assumes "\<And>s rs. (s, rs) \<in> set ps \<Longrightarrow> concat (map snd (f (s, rs))) = g rs"
  shows "concat (map snd (concat (map f ps))) = concat (map (\<lambda>(s, rs). g rs) ps)"
  using assms by (induction ps) auto

lemma compactSwap_ok:
  assumes nf: "no_faults rt" and inv: "part_inv q d (crs @ mrss)" and open_q: "\<not> closed q"
    and segs: "segments q = ss @ ms" and len: "length ss = length crs" "length ms = length mrss" and ne: "mrss \<noteq> []"
    and pl: "plan_for m (zip ss crs) pl"
    and sizes: "sizes = map (\<lambda>s. (baseOffset s, segSize s)) (map fst (targets_of (zip ss crs)))"
    and rdy: "list_all (\<lambda>(s, rs). thinned m rs \<longrightarrow> swap_ready d (baseOffset s) (survivors m rs)) (zip ss crs)"
  obtains stats q' d' rss' where "compactSwap rt pl sizes (q, d) = (Inr stats, q', d')" and "part_inv q' d' rss'"
    and "concat rss' = survivors m (concat crs) @ concat mrss" and "nextOffset q' = nextOffset q" and "\<not> closed q'"
proof -
  obtain us a urs as where u: "segments q = us @ [a]" "crs @ mrss = urs @ [as]"
    and st: "list_all2 (seg_state d) us urs" "seg_state d a as"
    and ch: "chain (gapsAllowed q) us urs (unat (baseOffset a))"
    and rng: "range_ok (gapsAllowed q) (unat (baseOffset a)) as (unat (nextOffset q))"
    and own: "own_files d (segments q)"
    using inv unfolding part_inv_def by blast
  define cps where "cps = zip ss crs"
  define xps where "xps = zip (butlast ms) (butlast mrss)"
  have mne: "ms \<noteq> []" using ne len(2) by auto
  have us: "us = ss @ butlast ms" "urs = crs @ butlast mrss" "as = last mrss"
    using segs u mne ne by (metis butlast_append butlast_snoc, metis butlast_append butlast_snoc, metis last_appendR last_snoc)
  have ups: "zip us urs = cps @ xps" using us len by (simp add: cps_def xps_def)
  have lu: "length us = length urs" using st(1) by (rule list_all2_lengthD)
  have mf: "map fst (cps @ xps) = us" "map snd (cps @ xps) = urs" unfolding ups [symmetric] using lu by simp_all
  have states: "states d (cps @ xps)"
    unfolding states_def ups [symmetric] using st(1) by (auto simp: list_all2_iff list_all_iff)
  have sp: "spread (log_of (cps @ xps)) (unat (baseOffset a))" using chain_spread [OF ch] by (simp only: ups)
  have "map fst (log_of (cps @ xps)) = map base_of (cps @ xps)" by (simp add: log_of_def case_prod_beta)
  then have dis: "distinct (map base_of (cps @ xps))" using spread_bases [OF sp] by simp
  have act: "baseOffset a \<notin> base_of ` set (cps @ xps)"
    using chain_bases [OF ch] mf(1) by (metis (no_types, lifting) case_prod_beta image_iff imageI less_irrefl list.set_map)
  have dc: "distinct (map base_of cps)" and disj: "base_of ` set cps \<inter> base_of ` set xps = {}" using dis by simp_all
  have ext: "baseOffset t \<notin> base_of ` set cps" if "(t, ts) \<in> set xps" for t ts
  proof -
    have "baseOffset t \<in> base_of ` set xps" using that by (intro image_eqI [of _ _ "(t, ts)"]) simp_all
    with disj show ?thesis by blast
  qed
  note o = plan_outcome [OF pl [folded cps_def] dc sizes [folded cps_def]]
  obtain d1 where mk: "(if gapsAllowed q then returnR () else onErr (writeMarker rt) (removeSwaps rt pl)) d = (Inr (), d1)"
    and d1: "same_files_but {compactedMarkerName} d d1"
  proof (cases "gapsAllowed q")
    case False
    obtain e where "writeMarker rt d = (Inr (), e)" "same_files_but {compactedMarkerName} d e" using writeMarker_ok [OF nf] .
    then show thesis using that [of e] False by (simp add: onErr_ok)
  qed (use that [of d] in simp)
  have states1: "states d1 (cps @ xps)" and a1: "seg_state d1 a as"
    using states_mono [OF _ states] seg_state_outside [OF _ d1] st(2) by auto
  have rdy1: "swap_ready d1 (baseOffset s) (survivors m rs)" if "(s, rs) \<in> set (cps @ xps)" "renewed pl sizes s" for s rs
  proof (cases "(s, rs) \<in> set cps")
    case True
    then have "swap_ready d (baseOffset s) (survivors m rs)" using rdy that(2) o(2) [OF True] by (auto simp: cps_def list_all_iff)
    then show ?thesis by (rule swap_ready_same [OF _ d1]) simp_all
  next
    case False
    with that o(4) [OF ext] show ?thesis by auto
  qed
  obtain sw d2 qs where sw: "swapSegments rt pl sizes (IndexIntervalBytes (p_opts q)) (dirtySegStart q) 0 (us @ [a]) swapStart d1 = (Inr sw, d2)"
    "newSegs sw = map fst qs @ [a]" "log_of qs = concat (map (outcome m pl sizes) (cps @ xps))" "states d2 qs"
    "same_files_but (all_files (cps @ xps)) d1 d2"
    "\<forall>(s, rs) \<in> set (cps @ xps). gone pl sizes s \<longrightarrow> \<not> exists_file d2 (segmentLogName (baseOffset s)) \<and> \<not> exists_file d2 (segmentIndexName (baseOffset s))"
  proof -
    have "\<exists>sw' d' qs. swapSegments rt pl sizes (IndexIntervalBytes (p_opts q)) (dirtySegStart q) 0 (map fst (cps @ xps) @ [a]) swapStart d1 = (Inr sw', d') \<and>
      newSegs sw' = newSegs swapStart @ map fst qs @ [a] \<and> log_of qs = concat (map (outcome m pl sizes) (cps @ xps)) \<and> states d' qs \<and>
      same_files_but (all_files (cps @ xps)) d1 d' \<and>
      (\<forall>(s, rs) \<in> set (cps @ xps). gone pl sizes s \<longrightarrow> \<not> exists_file d' (segmentLogName (baseOffset s)) \<and> \<not> exists_file d' (segmentIndexName (baseOffset s)))"
      by (rule swapSegments_ok [OF nf states1 dis]) (rule rdy1)
    then obtain sw' d' qs where x: "swapSegments rt pl sizes (IndexIntervalBytes (p_opts q)) (dirtySegStart q) 0 (map fst (cps @ xps) @ [a]) swapStart d1 = (Inr sw', d')"
      "newSegs sw' = newSegs swapStart @ map fst qs @ [a]" "log_of qs = concat (map (outcome m pl sizes) (cps @ xps))" "states d' qs"
      "same_files_but (all_files (cps @ xps)) d1 d'"
      "\<forall>(s, rs) \<in> set (cps @ xps). gone pl sizes s \<longrightarrow> \<not> exists_file d' (segmentLogName (baseOffset s)) \<and> \<not> exists_file d' (segmentIndexName (baseOffset s))"
      by (elim exE conjE)
    have "newSegs sw' = map fst qs @ [a]" using x(2) by (simp add: swapStart_def)
    then show thesis using x(1) unfolding mf(1) by (rule_tac that [OF _ _ x(3-6)])
  qed
  define d3 where "d3 = removeSwaps rt pl d2"
  have d3: "same_files_but {n. \<exists>b. n = segmentLogSwapName b \<or> n = segmentIndexSwapName b} d2 d3"
    unfolding d3_def by (rule removeSwaps_ok [OF nf])
  define q' where "q' = q\<lparr>gapsAllowed := True, segments := map fst qs @ [a],
    dirtySegStart := max 0 (dirtySegStart q - int (removedBeforeDirty sw))\<rparr>"
  have "\<exists>stats. compactSwap rt pl sizes (q, d) = (Inr stats, q', d3)"
    using open_q by (simp add: compactSwap_def mk Let_def u(1) sw(1,2) q'_def d3_def)
  moreover have "part_inv q' d3 (map snd qs @ [as])"
    unfolding part_inv_def
  proof (intro exI conjI)
    show "segments q' = map fst qs @ [a]" "map snd qs @ [as] = map snd qs @ [as]" by (simp_all add: q'_def)
    have out: "seg_state d3 s rs" if "seg_state d2 s rs" for s rs by (rule seg_state_outside [OF that d3]) auto
    then have "states d3 qs" using states_mono [OF _ sw(4)] by blast
    then show "list_all2 (seg_state d3) (map fst qs) (map snd qs)"
      by (rule states_list_all2)
    show "seg_state d3 a as"
      by (rule out, rule seg_state_outside [OF a1 sw(5)]) (use not_in_all_files [OF act] in auto)
    have "spread (log_of qs) (unat (baseOffset a))"
      unfolding sw(3)
    proof (rule spread_thin [OF sp [unfolded log_of_def]])
      fix x assume "x \<in> set (cps @ xps)"
      show "outcome m pl sizes x = [] \<or>
          (\<exists>rs. outcome m pl sizes x = [(fst (case x of (s, rs) \<Rightarrow> (baseOffset s, rs)), rs)] \<and> set rs \<subseteq> set (snd (case x of (s, rs) \<Rightarrow> (baseOffset s, rs))))"
        by (cases x) (auto simp: outcome_def)
    qed
    then show "chain (gapsAllowed q') (map fst qs) (map snd qs) (unat (baseOffset a))"
      using spread_chain by (simp add: q'_def)
    show "range_ok (gapsAllowed q') (unat (baseOffset a)) as (unat (nextOffset q'))"
      using rng by (simp add: q'_def range_ok_def)
    show "own_files d3 (segments q')"
      unfolding own_files_def
    proof (intro allI impI)
      fix b assume e: "exists_file d3 (segmentLogName b) \<or> exists_file d3 (segmentIndexName b)"
      then have e2: "exists_file d2 (segmentLogName b) \<or> exists_file d2 (segmentIndexName b)" using d3 by (auto simp: same_files_but_def)
      show "b \<in> set (map baseOffset (segments q'))"
      proof (cases "b \<in> base_of ` set (cps @ xps)")
        case True
        then obtain s rs where s: "(s, rs) \<in> set (cps @ xps)" "b = baseOffset s" by auto
        then have "\<not> gone pl sizes s" using sw(6) e2 by blast
        then have "(b, if renewed pl sizes s then survivors m rs else rs) \<in> set (outcome m pl sizes (s, rs))"
          using s(2) by (simp add: outcome_def)
        then have "(b, if renewed pl sizes s then survivors m rs else rs) \<in> set (log_of qs)"
          unfolding sw(3) set_concat set_map using s(1) by blast
        then obtain t ts where t: "(t, ts) \<in> set qs" "b = baseOffset t" by (auto simp: log_of_def)
        then have "t \<in> set (map fst qs)" by (metis fst_conv image_eqI list.set_map)
        then show ?thesis using t(2) by (auto simp: q'_def image_image [symmetric] simp del: image_image)
      next
        case False
        have "exists_file d (segmentLogName b) \<or> exists_file d (segmentIndexName b)"
          using e2 sw(5) d1 not_in_all_files [OF False] by (simp add: same_files_but_def)
        then have "b \<in> set (map baseOffset (us @ [a]))" using own u(1) unfolding own_files_def by auto
        moreover have "b \<notin> baseOffset ` set us" using False unfolding mf(1) [symmetric] by force
        ultimately show ?thesis by (simp add: q'_def)
      qed
    qed
  qed
  moreover have "concat (map snd qs) = survivors m (concat crs) @ concat (butlast mrss)"
  proof -
    have "map snd qs = map snd (log_of qs)" by (simp add: log_of_def case_prod_beta)
    then have "concat (map snd qs) = concat (map snd (concat (map (outcome m pl sizes) cps))) @ concat (map snd (concat (map (outcome m pl sizes) xps)))"
      by (simp only: sw(3) map_append concat_append)
    also have "concat (map snd (concat (map (outcome m pl sizes) cps))) = concat (map (\<lambda>(s, rs). survivors m rs) cps)"
      by (rule concat_outcome) (simp add: o(3))
    also have "concat (map snd (concat (map (outcome m pl sizes) xps))) = concat (map (\<lambda>(s, rs). rs) xps)"
      by (rule concat_outcome) (use o(4) [OF ext] in simp)
    also have "map (\<lambda>(s, rs). rs) xps = butlast mrss" 
    proof -
      have "map (\<lambda>(s, rs). rs) xps = map snd xps" by (simp add: case_prod_beta)
      then show ?thesis using len(2) by (simp add: xps_def)
    qed
    also have "map (\<lambda>(s, rs). survivors m rs) cps = map (survivors m) crs"
    proof -
      have "map (\<lambda>(s, rs). survivors m rs) cps = map (survivors m) (map snd cps)" by (simp add: case_prod_beta)
      then show ?thesis using len(1) by (simp add: cps_def)
    qed
    finally show ?thesis by (simp add: filter_concat)
  qed
  then have "concat (map snd qs @ [as]) = survivors m (concat crs) @ concat mrss"
    using us(3) ne by (metis (no_types, lifting) append.assoc append_butlast_last_id concat.simps concat_append append_Nil2)
  ultimately show thesis using that [of _ q' d3 "map snd qs @ [as]"] open_q by (auto simp: q'_def)
qed

lemma filter_cong_survivors:
  assumes "increasing cs"
  shows "survivors (latest_of [] cs) cs = filter (newest cs) cs"
  by (rule filter_cong [OF refl]) (simp add: superseded_latest [OF assms])

lemma Compact_ok:
  assumes nf: "no_faults rt" and inv: "part_inv p d rss" and op: "\<not> closed p" and nc: "\<And>i. \<not> cancelled i"
    and keys: "length (latest_of [] (concat (butlast rss))) \<le> K" and oth: "others_append others p rss mrss"
  obtains stats p' d' rss' tl where "Compact rt K cancelled others (p, d) = (Inr stats, p', d')" and "part_inv p' d' rss'"
    and "concat rss' = filter (newest (concat (butlast rss))) (concat (butlast rss)) @ concat tl"
    and "tl = [last rss] \<or> tl = mrss" and "\<not> closed p'"
proof -
  note goal = that
  obtain ss s crs rs where segs: "segments p = ss @ [s]" "rss = crs @ [rs]"
    and st: "list_all2 (seg_state d) ss crs" "seg_state d s rs"
    and ch: "chain (gapsAllowed p) ss crs (unat (baseOffset s))"
    using inv unfolding part_inv_def by blast
  have len: "length ss = length crs" using st(1) by (rule list_all2_lengthD)
  define cps where "cps = zip ss crs"
  define m where "m = latest_of [] (concat crs)"
  have mf: "map fst cps = ss" "map snd cps = crs" using len by (simp_all add: cps_def)
  have states: "states d cps" using st(1) by (auto simp: states_def cps_def list_all2_iff list_all_iff)
  have sp: "spread (log_of cps) (unat (baseOffset s))" unfolding cps_def by (rule chain_spread [OF ch])
  have inc: "increasing (concat crs)" using spread_increasing [OF sp states] mf(2) by simp
  have sv: "survivors m (concat crs) = filter (newest (concat crs)) (concat crs)"
    unfolding m_def by (rule filter_cong_survivors [OF inc])
  have "map fst (log_of cps) = map base_of cps" by (simp add: log_of_def case_prod_beta)
  then have dis: "distinct (map base_of cps)" using spread_bases [OF sp] by simp
  have size0: "0 < segSize t \<longleftrightarrow> ts \<noteq> []" if "(t, ts) \<in> set cps" for t ts
  proof -
    have "seg_state d t ts" using states that by (auto simp: states_def list_all_iff)
    then have "segSize t = length (enc_all ts)" using seg_invD(3) by (auto simp: seg_state_def)
    then show ?thesis using length_enc_all_ge [of ts] by (cases ts) auto
  qed
  have tgt: "compactionTargets (segments p) = map fst (targets_of cps)"
  proof -
    have "filter (\<lambda>s. 0 < segSize s) (map fst cps) = map fst (filter (\<lambda>x. 0 < segSize (fst x)) cps)" by (simp add: filter_map o_def)
    also have "filter (\<lambda>x. 0 < segSize (fst x)) cps = targets_of cps" by (rule filter_cong) (auto simp: size0)
    finally show ?thesis using segs mf by (simp add: compactionTargets_def)
  qed
  have ct: "concat (map snd (targets_of cps)) = concat crs"
    unfolding mf(2) [symmetric] by (induction cps) auto
  have stt: "list_all2 (seg_state d) (map fst (targets_of cps)) (map snd (targets_of cps))"
    using states by (intro states_list_all2) (auto simp: states_def list_all_iff)
  have build: "buildOffsetMap rt d K cancelled 0 (map fst (targets_of cps)) [] = Inr m"
    using buildOffsetMap_ok [OF nf stt, of cancelled "[]" K 0] nc keys segs(2) ct by (simp add: m_def)
  have same: thesis if "Compact rt K cancelled others (p, d) = (Inr stats, p, e)" "part_inv p e rss"
      "filter (newest (concat crs)) (concat crs) = concat crs" for stats e
    by (rule goal [OF that(1,2), where tl = "[last rss]"]) (use that(3) op segs in simp_all)
  show thesis
  proof (cases "targets_of cps = [] \<or> m = []")
    case True
    have none: "filter (newest (concat crs)) (concat crs) = concat crs"
    proof (cases "m = []")
      case True
      have "Key r = []" if r: "r \<in> set (concat crs)" for r
      proof (rule ccontr)
        assume k: "Key r \<noteq> []"
        have "filter (\<lambda>x. Key x = Key r) (concat crs) \<noteq> []" unfolding filter_empty_conv using r by blast
        then have "map_of m (Key r) \<noteq> None" unfolding m_def map_of_latest [OF k] Let_def by (simp only: if_False) simp
        with True show False by simp
      qed
      then show ?thesis by (simp only: filter_id_conv newest_def) blast
    next
      case False
      with True have "targets_of cps = []" by simp
      then have "concat crs = []" using ct by (metis concat.simps(1) list.map(1))
      then show ?thesis by (metis filter.simps(1))
    qed
    have "Compact rt K cancelled others (p, d) = (Inr noCompaction, p, d)"
    proof (cases "targets_of cps = []")
      case t: True
      then show ?thesis using op segs tgt by (simp add: Compact_def Let_def)
    next
      case False
      then show ?thesis using op segs tgt True build by (simp add: Compact_def Let_def)
    qed
    from same [OF this inv none] show thesis .
  next
    case False
    have stt': "states d (targets_of cps)" "distinct (map base_of (targets_of cps))"
      using states dis by (auto simp: states_def list_all_iff distinct_map_filter)
    obtain pl d1 where ct1: "compactTargets rt m cancelled (length (targets_of cps)) emptyPlan (map fst (targets_of cps)) d = (Inr pl, d1)"
      and d1: "same_files_but (\<Union> (swap_files ` fst ` set (targets_of cps))) d d1"
      and pl: "plan_for m cps pl"
      and rdy: "list_all (\<lambda>(s, rs). thinned m rs \<longrightarrow> swap_ready d1 (baseOffset s) (survivors m rs)) (targets_of cps)"
    proof -
      have "\<exists>pl' d'. compactTargets rt m cancelled (length (targets_of cps)) emptyPlan (map fst (targets_of cps)) d = (Inr pl', d') \<and>
        same_files_but (\<Union> (swap_files ` fst ` set (targets_of cps))) d d' \<and>
        pl_rewrites pl' = pl_rewrites emptyPlan @ map (\<lambda>(s, rs). (baseOffset s, ts_max 0 (survivors m rs))) (filter (\<lambda>(s, rs). thinned m rs) (targets_of cps)) \<and>
        emptyBases pl' = emptyBases emptyPlan @ map base_of (filter (\<lambda>(s, rs). survivors m rs = []) (targets_of cps)) \<and>
        recordsKept pl' = recordsKept emptyPlan + length (survivors m (concat (map snd (targets_of cps)))) \<and>
        list_all (\<lambda>(s, rs). thinned m rs \<longrightarrow> swap_ready d' (baseOffset s) (survivors m rs)) (targets_of cps)"
        by (rule compactTargets_ok [OF nf stt']) (rule nc)
      then obtain pl' d' where x: "compactTargets rt m cancelled (length (targets_of cps)) emptyPlan (map fst (targets_of cps)) d = (Inr pl', d')"
        "same_files_but (\<Union> (swap_files ` fst ` set (targets_of cps))) d d'"
        "pl_rewrites pl' = pl_rewrites emptyPlan @ map (\<lambda>(s, rs). (baseOffset s, ts_max 0 (survivors m rs))) (filter (\<lambda>(s, rs). thinned m rs) (targets_of cps))"
        "emptyBases pl' = emptyBases emptyPlan @ map base_of (filter (\<lambda>(s, rs). survivors m rs = []) (targets_of cps))"
        "list_all (\<lambda>(s, rs). thinned m rs \<longrightarrow> swap_ready d' (baseOffset s) (survivors m rs)) (targets_of cps)"
        by (elim exE conjE)
      have "plan_for m cps pl'" unfolding plan_for_def x(3,4) by (simp add: emptyPlan_def)
      then show thesis by (rule that [OF x(1,2) _ x(5)])
    qed
    have inv1: "part_inv p d1 rss" by (rule part_inv_swap [OF inv d1]) auto
    have run: "Compact rt K cancelled others (p, d) =
        (if pl_rewrites pl = [] \<and> emptyBases pl = []
         then (Inr (noCompaction\<lparr>RecordsKept := recordsKept pl, RecordsDropped := recordsDropped pl\<rparr>), (p, d1))
         else compactSwap rt pl (map (\<lambda>s. (baseOffset s, segSize s)) (map fst (targets_of cps))) (others (p, d1)))"
      using False op segs tgt build ct1 by (simp add: Compact_def Let_def)
    show thesis
    proof (cases "pl_rewrites pl = [] \<and> emptyBases pl = []")
      case True
      then have e: "filter (\<lambda>(s, rs). thinned m rs) (targets_of cps) = []" "filter (\<lambda>(s, rs). survivors m rs = []) (targets_of cps) = []"
        using pl unfolding plan_for_def by simp_all
      have keep: "survivors m ts = ts" if t: "(t, ts) \<in> set cps" for t ts
      proof (cases "ts = []")
        case False
        with t have "(t, ts) \<in> set (targets_of cps)" by simp
        with e have "\<not> thinned m ts" "survivors m ts \<noteq> []" unfolding filter_empty_conv by blast+
        then show ?thesis unfolding thinned_def by blast
      qed simp
      have "map (survivors m) (map snd cps) = map snd cps" by (rule map_idI) (use keep in auto)
      then have "survivors m (concat crs) = concat crs" unfolding mf(2) filter_concat by simp
      with sv same [OF run [unfolded if_P [OF True]] inv1] show thesis by simp
    next
      case some: False
      obtain q d2 ms where q: "others (p, d1) = (q, d2)" "\<not> closed q" "segments q = butlast (segments p) @ ms"
        "length ms = length mrss" "part_inv q d2 (butlast rss @ mrss)" "mrss \<noteq> []"
        and sw: "\<forall>b. content d2 (segmentLogSwapName b) = content d1 (segmentLogSwapName b) \<and>
             exists_file d2 (segmentLogSwapName b) = exists_file d1 (segmentLogSwapName b) \<and>
             content d2 (segmentIndexSwapName b) = content d1 (segmentIndexSwapName b) \<and>
             exists_file d2 (segmentIndexSwapName b) = exists_file d1 (segmentIndexSwapName b)"
        using oth inv1 unfolding others_append_def by blast
      have q': "segments q = ss @ ms" "part_inv q d2 (crs @ mrss)" using q segs by simp_all
      have rdy2: "list_all (\<lambda>(s, rs). thinned m rs \<longrightarrow> swap_ready d2 (baseOffset s) (survivors m rs)) (zip ss crs)"
        unfolding list_all_iff cps_def [symmetric]
      proof (intro ballI, clarify)
        fix t ts assume t: "(t, ts) \<in> set cps" "thinned m ts"
        then have "(t, ts) \<in> set (targets_of cps)" by (auto simp: thinned_def)
        with rdy t(2) have "swap_ready d1 (baseOffset t) (survivors m ts)" by (auto simp: list_all_iff)
        then show "swap_ready d2 (baseOffset t) (survivors m ts)" by (simp add: swap_ready_def sw)
      qed
      obtain stats p' d' rss' where c: "compactSwap rt pl (map (\<lambda>s. (baseOffset s, segSize s)) (map fst (targets_of cps))) (q, d2) = (Inr stats, p', d')"
        "part_inv p' d' rss'" "concat rss' = survivors m (concat crs) @ concat mrss" "\<not> closed p'"
        unfolding cps_def
        by (rule compactSwap_ok [OF nf q'(2) q(2) q'(1) len q(4,6) pl [unfolded cps_def] refl rdy2])
      have "Compact rt K cancelled others (p, d) = (Inr stats, p', d')" unfolding run if_not_P [OF some] q(1) by (rule c(1))
      then show thesis by (rule goal [OF _ c(2), where tl = mrss]) (use c(3,4) sv segs in simp_all)
    qed
  qed
qed

section \<open>Property of compaction\<close>

text \<open>
  Property C14. A compaction pass with no fault keeps, of the closed segments, exactly the records
  without a key and the record with the highest offset of every key, at their
  offsets and in order; what was appended meanwhile and the active segment are
  untouched, and the partition invariant (with gaps) holds again.
\<close>

theorem Compact_keeps_latest:
  assumes "no_faults rt" and "part_inv p d rss" and "\<not> closed p" and "\<forall>i. \<not> cancelled i"
    and "length (latest_of [] (concat (butlast rss))) \<le> maxKeys" and "others_append others p rss mrss"
  shows "\<exists>stats p' d' rss' tail. Compact rt maxKeys cancelled others (p, d) = (Inr stats, p', d') \<and> part_inv p' d' rss' \<and>
    concat rss' = filter (newest (concat (butlast rss))) (concat (butlast rss)) @ concat tail \<and>
    (tail = [last rss] \<or> tail = mrss) \<and> \<not> closed p'"
proof -
  obtain stats p' d' rss' tail where c: "Compact rt maxKeys cancelled others (p, d) = (Inr stats, p', d')" "part_inv p' d' rss'"
    "concat rss' = filter (newest (concat (butlast rss))) (concat (butlast rss)) @ concat tail"
    "tail = [last rss] \<or> tail = mrss" "\<not> closed p'"
    by (rule Compact_ok [OF assms(1-3) _ assms(5,6), of cancelled]) (use assms(4) in blast)+
  then show ?thesis by blast
qed

text \<open>A partition with one closed segment that holds two records of one key.\<close>

definition keyed_records :: "Record list" where
  "keyed_records = [sample_record\<lparr>Offset := 0\<rparr>, sample_record\<lparr>Offset := 1\<rparr>]"

definition two_partition :: Partition where
  "two_partition = fresh_partition\<lparr>segments := [fresh_segment\<lparr>segSize := length (enc_all keyed_records)\<rparr>, fresh_segment\<lparr>baseOffset := 2\<rparr>],
     nextOffset := 2\<rparr>"

definition two_disk :: disk where
  "two_disk = \<lparr>files = [(segmentLogName 0, enc_all keyed_records), (segmentIndexName 0, []), (segmentLogName 2, []), (segmentIndexName 2, [])], ops = 0\<rparr>"

lemma two_files:
  "content two_disk (segmentLogName b) = (if b = 0 then enc_all keyed_records else [])" "content two_disk (segmentIndexName b) = []"
  "exists_file two_disk (segmentLogName b) \<longleftrightarrow> b = 0 \<or> b = 2" "exists_file two_disk (segmentIndexName b) \<longleftrightarrow> b = 0 \<or> b = 2"
  by (simp_all add: two_disk_def content_def exists_file_def)

lemma length_enc_keyed: "length (enc (sample_record\<lparr>Offset := k\<rparr>)) = 40"
  by (simp add: enc_def enc_body_def sample_record_def sample_header_def enc_header_def)

lemma two_part_inv: "part_inv two_partition two_disk [keyed_records, []]"
proof -
  have enc: "encodable (sample_record\<lparr>Offset := k\<rparr>)" for k using encodable_sample by (simp add: encodable_def)
  have rec: "segment_records 0 keyed_records" "small_records keyed_records"
    by (simp_all add: segment_records_def keyed_records_def enc increasing_def length_enc_keyed streamChunk_def)
  have "seg_state two_disk (fresh_segment\<lparr>segSize := length (enc_all keyed_records)\<rparr>) keyed_records"
    using rec by (simp add: seg_state_def seg_inv_def index_file_ok_def two_files fresh_segment_def index_of_def)
  moreover have "seg_state two_disk (fresh_segment\<lparr>baseOffset := 2\<rparr>) []"
    by (simp add: seg_state_def seg_inv_def index_file_ok_def two_files fresh_segment_def segment_records_def increasing_def index_of_def)
  moreover have "own_files two_disk (segments two_partition)"
    by (simp add: own_files_def two_files two_partition_def fresh_segment_def)
  moreover have "map roff keyed_records = [0 ..< 2]" by (simp add: keyed_records_def upt_rec)
  ultimately show ?thesis
    unfolding part_inv_def
    by (intro exI [of _ "[fresh_segment\<lparr>segSize := length (enc_all keyed_records)\<rparr>]"] exI [of _ "fresh_segment\<lparr>baseOffset := 2\<rparr>"]
        exI [of _ "[keyed_records]"] exI [of _ "[]"])
      (auto simp: two_partition_def fresh_partition_def fresh_segment_def range_ok_def Let_def keyed_records_def)
qed

theorem Compact_keeps_latest_witness:
  "\<exists>stats p' d' rss'. Compact calm_runtime maxCompactionKeys (\<lambda>_. False) id (two_partition, two_disk) = (Inr stats, p', d') \<and>
     part_inv p' d' rss' \<and> concat rss' = [sample_record\<lparr>Offset := 1\<rparr>]"
proof -
  have op: "\<not> closed two_partition" by (simp add: two_partition_def fresh_partition_def)
  have keys: "length (latest_of [] (concat (butlast [keyed_records, []]))) \<le> maxCompactionKeys"
    by (simp add: keyed_records_def maxCompactionKeys_def sample_record_def)
  have oth: "others_append id two_partition [keyed_records, []] [[]]"
    unfolding others_append_def using op by (auto simp: two_partition_def intro!: exI [of _ "[fresh_segment\<lparr>baseOffset := 2\<rparr>]"])
  have "filter (newest (concat (butlast [keyed_records, []]))) (concat (butlast [keyed_records, []])) = [sample_record\<lparr>Offset := 1\<rparr>]"
    by (simp add: keyed_records_def newest_def sample_record_def)
  with Compact_keeps_latest [OF no_faults_calm two_part_inv op _ keys oth, of "\<lambda>_. False"]
  obtain stats p' d' rss' tail where "Compact calm_runtime maxCompactionKeys (\<lambda>_. False) id (two_partition, two_disk) = (Inr stats, p', d')"
    "part_inv p' d' rss'" "concat rss' = [sample_record\<lparr>Offset := 1\<rparr>] @ concat tail" "tail = [[]]"
    by auto
  then show ?thesis by (intro exI conjI) simp_all
qed

end
