(* ===== verification/Swap_Crash.thy ===== *)
theory Swap_Crash
  imports Compaction_Log
begin

text \<open>
  Crashes and errors during the swap of compaction. A crash is a run in which every
  call from some point on fails and has no effect; the repair at the next open is
  \<open>resolveSwapFiles\<close>, whose step for one segment is \<open>resolveSwap\<close>.
\<close>

definition crash_runtime :: "nat \<Rightarrow> runtime" where
  "crash_runtime n = calm_runtime\<lparr>fault := (\<lambda>i. if i < n then None else Some 0)\<rparr>"

definition has_pair :: "disk \<Rightarrow> u64 \<Rightarrow> bytes \<Rightarrow> bytes \<Rightarrow> bool" where
  "has_pair d b l i \<longleftrightarrow> exists_file d (segmentLogName b) \<and> exists_file d (segmentIndexName b) \<and>
     content d (segmentLogName b) = l \<and> content d (segmentIndexName b) = i"

definition has_swap :: "disk \<Rightarrow> u64 \<Rightarrow> bytes \<Rightarrow> bytes \<Rightarrow> bool" where
  "has_swap d b l i \<longleftrightarrow> exists_file d (segmentLogSwapName b) \<and> exists_file d (segmentIndexSwapName b) \<and>
     content d (segmentLogSwapName b) = l \<and> content d (segmentIndexSwapName b) = i"

text \<open>The repair of one segment: nothing is done for a base without swap files.\<close>

definition repair :: "runtime \<Rightarrow> u64 \<Rightarrow> disk \<Rightarrow> disk" where
  "repair rt b d =
     (let sw = \<lparr>sw_log = exists_file d (segmentLogSwapName b), sw_index = exists_file d (segmentIndexSwapName b)\<rparr>
      in if sw_log sw \<or> sw_index sw then snd (resolveSwap rt (b, sw) d) else d)"

section \<open>Calls of a crashed process\<close>

lemma call_crash:
  "n \<le> ops d \<Longrightarrow> call_ok (crash_runtime n) m d = (Inl ErrIO, tick d)"
  "ops d < n \<Longrightarrow> call_ok (crash_runtime n) m d = m (tick d)"
  by (simp_all add: call_ok_def call_def crash_runtime_def)

lemma ops_simps [simp]: "ops (tick d) = Suc (ops d)" "ops (put n b d) = ops d" "ops (del n d) = ops d"
  by (simp_all add: tick_def put_def del_def)

lemma removeSwaps_crashed: "n \<le> ops d \<Longrightarrow> content (removeSwaps (crash_runtime n) pl d) = content d \<and>
    exists_file (removeSwaps (crash_runtime n) pl d) = exists_file d"
proof -
  have "content (foldl (\<lambda>d (base, _). removeF (crash_runtime n) (segmentIndexSwapName base) (removeF (crash_runtime n) (segmentLogSwapName base) d)) d xs) = content d \<and>
    exists_file (foldl (\<lambda>d (base, _). removeF (crash_runtime n) (segmentIndexSwapName base) (removeF (crash_runtime n) (segmentLogSwapName base) d)) d xs) = exists_file d"
    if "n \<le> ops d" for xs :: "(u64 \<times> i64) list"
    using that
  proof (induction xs arbitrary: d)
    case (Cons x xs)
    then show ?case by (cases x) (simp add: removeF_def Remove_def call_crash)
  qed simp
  then show "n \<le> ops d \<Longrightarrow> ?thesis" by (simp add: removeSwaps_def)
qed

text \<open>The states the files of the segment pass through.\<close>

lemma swapFiles_crash:
  assumes "has_pair d b oldL oldI" and "has_swap d b newL newI" and "baseOffset s = b"
    and "snd (swapFiles (crash_runtime n) pl s d) = d'"
  shows "has_pair d' b oldL oldI \<and> has_swap d' b newL newI \<or>
    \<not> exists_file d' (segmentLogName b) \<and> has_swap d' b newL newI \<or>
    exists_file d' (segmentLogName b) \<and> content d' (segmentLogName b) = newL \<and> \<not> exists_file d' (segmentIndexName b) \<and>
      \<not> exists_file d' (segmentLogSwapName b) \<and> exists_file d' (segmentIndexSwapName b) \<and> content d' (segmentIndexSwapName b) = newI \<or>
    has_pair d' b newL newI \<and> \<not> exists_file d' (segmentLogSwapName b) \<and> \<not> exists_file d' (segmentIndexSwapName b)"
proof -
  let ?rt = "crash_runtime n" and ?L = "segmentLogName b" and ?I = "segmentIndexName b"
  note defs = swapFiles_def Let_def bindR_def onErr_def seg_close_def CloseFile_def removeSegmentPair_def removeCounted_def Stat_def
    removeIfExists_def Remove_def Rename_def call_crash
  have p: "exists_file d ?L" "exists_file d ?I" using assms(1) by (simp_all add: has_pair_def)
  have w: "exists_file d (segmentLogSwapName b)" "exists_file d (segmentIndexSwapName b)" using assms(2) by (simp_all add: has_swap_def)
  consider "n < ops d + 4" | "ops d + 4 \<le> n" "n < ops d + 6" | "n = ops d + 6" | "n = ops d + 7" | "ops d + 8 \<le> n" by linarith
  then show ?thesis
  proof cases
    case 1
    obtain e where "d' = removeSwaps ?rt pl e" "n \<le> ops e" "content e = content d" "exists_file e = exists_file d"
    proof -
      consider "n \<le> ops d" | "n = ops d + 1" | "n = ops d + 2" | "n = ops d + 3" using 1 by linarith
      then show thesis
        by cases (use assms(3,4) p that [of "tick (tick d)"] that [of "tick (tick (tick (tick d)))"] in
          \<open>simp_all add: defs del: bindR_simps\<close>)
    qed
    then have "content d' = content d" "exists_file d' = exists_file d" using removeSwaps_crashed by auto
    then show ?thesis using assms(1,2) by (simp add: has_pair_def has_swap_def)
  next
    case 2
    define e where "e = del ?L (tick (tick (tick (tick d))))"
    have "d' = removeSwaps ?rt pl (tick (tick e))"
    proof -
      consider "n = ops d + 4" | "n = ops d + 5" using 2 by linarith
      then show ?thesis using assms(3,4) p by cases (simp_all add: defs e_def del: bindR_simps)
    qed
    moreover have "n \<le> ops (tick (tick e))" using 2 by (simp add: e_def)
    ultimately have "content d' = content e" "exists_file d' = exists_file e" using removeSwaps_crashed by auto
    then show ?thesis using assms(2) by (simp add: has_swap_def e_def)
  next
    case 3
    then have "d' = tick (del ?I (tick (tick (del ?L (tick (tick (tick (tick d))))))))"
      using assms(3,4) p by (simp add: defs del: bindR_simps)
    then show ?thesis using assms(2) by (simp add: has_swap_def)
  next
    case 4
    then have "d' = tick (put ?L (content d (segmentLogSwapName b)) (del (segmentLogSwapName b)
        (tick (del ?I (tick (tick (del ?L (tick (tick (tick (tick d)))))))))))"
      using assms(3,4) p w by (simp add: defs del: bindR_simps)
    then show ?thesis using assms(2) by (simp add: has_swap_def)
  next
    case 5
    then have "d' = put ?I (content d (segmentIndexSwapName b)) (del (segmentIndexSwapName b) (tick
        (put ?L (content d (segmentLogSwapName b)) (del (segmentLogSwapName b)
        (tick (del ?I (tick (tick (del ?L (tick (tick (tick (tick d)))))))))))))"
      using assms(3,4) p w by (simp add: defs del: bindR_simps)
    then show ?thesis using assms(2) by (simp add: has_swap_def has_pair_def)
  qed
qed

lemma resolve_calm:
  assumes "no_faults rt"
  shows "Stat rt n d = (if exists_file d n then Inr (length (content d n)) else Inl ErrNotExist, tick d)"
  using assms by (simp add: Stat_def call_ok_no_faults)

lemmas resolve_defs = resolveSwap_def completeSwap_def bindR_def ignoreR_def

section \<open>Properties of the swap\<close>

text \<open>
  Property C15. A crash at any point of the swap of a compacted segment, followed by the repair at the
  next open, leaves the old log with the old index or the new log with the new
  index.
\<close>

theorem swap_crash_consistent:
  assumes "has_pair d b oldL oldI" and "has_swap d b newL newI" and "baseOffset s = b" and "no_faults rt"
    and "swapFiles (crash_runtime n) pl s d = (r, d')"
  shows "has_pair (repair rt b d') b oldL oldI \<or> has_pair (repair rt b d') b newL newI"
proof -
  have "snd (swapFiles (crash_runtime n) pl s d) = d'" using assms(5) by simp
  from swapFiles_crash [OF assms(1-3) this] show ?thesis
  proof (elim disjE conjE)
    assume "has_pair d' b oldL oldI" "has_swap d' b newL newI"
    then have "has_pair (repair rt b d') b oldL oldI"
      using assms(4) by (simp add: repair_def resolve_defs resolve_calm io_no_faults has_pair_def has_swap_def
          segmentLogSwapName_def [symmetric] segmentIndexSwapName_def [symmetric] del: bindR_simps)
    then show ?thesis ..
  next
    assume "\<not> exists_file d' (segmentLogName b)" "has_swap d' b newL newI"
    then have "has_pair (repair rt b d') b newL newI"
      using assms(4) by (cases "exists_file d' (segmentIndexName b)")
        (simp_all add: repair_def resolve_defs resolve_calm io_no_faults has_pair_def has_swap_def
          segmentLogSwapName_def [symmetric] segmentIndexSwapName_def [symmetric] del: bindR_simps)
    then show ?thesis ..
  next
    assume "exists_file d' (segmentLogName b)" "content d' (segmentLogName b) = newL" "\<not> exists_file d' (segmentIndexName b)"
      "\<not> exists_file d' (segmentLogSwapName b)" "exists_file d' (segmentIndexSwapName b)" "content d' (segmentIndexSwapName b) = newI"
    then have "has_pair (repair rt b d') b newL newI"
      using assms(4) by (simp add: repair_def resolve_defs resolve_calm io_no_faults has_pair_def
          segmentLogSwapName_def [symmetric] segmentIndexSwapName_def [symmetric] del: bindR_simps)
    then show ?thesis ..
  next
    assume "has_pair d' b newL newI" "\<not> exists_file d' (segmentLogSwapName b)" "\<not> exists_file d' (segmentIndexSwapName b)"
    then show ?thesis by (simp add: repair_def)
  qed
qed

text \<open>A directory in the middle of a swap.\<close>

definition swap_disk :: disk where
  "swap_disk = \<lparr>files = [(segmentLogName 0, [1]), (segmentIndexName 0, [2]), (segmentLogSwapName 0, [3]), (segmentIndexSwapName 0, [4])], ops = 0\<rparr>"

lemma swap_disk_pairs: "has_pair swap_disk 0 [1] [2]" "has_swap swap_disk 0 [3] [4]"
  by (simp_all add: swap_disk_def has_pair_def has_swap_def exists_file_def content_def)

theorem swap_crash_consistent_witness:
  "has_pair (repair calm_runtime 0 (snd (swapFiles (crash_runtime 4) emptyPlan fresh_segment swap_disk))) 0 [1] [2] \<or>
   has_pair (repair calm_runtime 0 (snd (swapFiles (crash_runtime 4) emptyPlan fresh_segment swap_disk))) 0 [3] [4]"
  using swap_crash_consistent [OF swap_disk_pairs _ no_faults_calm, of fresh_segment 4 emptyPlan]
  by (cases "swapFiles (crash_runtime 4) emptyPlan fresh_segment swap_disk") (simp add: fresh_segment_def)

text \<open>
  One failing call can lose a whole segment: when the old log is removed and the removal
  of the old index then fails, the error path also removes the swap files, and
  neither the old nor the new log is left.
\<close>

theorem swap_error_loses_segment:
  assumes "has_pair d (baseOffset s) oldL oldI" and "(baseOffset s, t) \<in> set (pl_rewrites pl)"
    and "growcap rt = growcap calm_runtime"
    and "\<forall>i. fault rt i = (if i = ops d + 5 then Some 0 else None)"
  shows "\<exists>d'. swapFiles rt pl s d = (Inl ErrIO, d') \<and> \<not> exists_file d' (segmentLogName (baseOffset s)) \<and>
    \<not> exists_file d' (segmentLogSwapName (baseOffset s))"
proof -
  let ?b = "baseOffset s"
  define e where "e = tick (tick (del (segmentLogName ?b) (tick (tick (tick (tick d))))))"
  have late: "ops d + 5 < ops e" by (simp add: e_def)
  have p: "exists_file d (segmentLogName ?b)" "exists_file d (segmentIndexName ?b)" using assms(1) by (simp_all add: has_pair_def)
  have run: "swapFiles rt pl s d = (Inl ErrIO, removeSwaps rt pl e)"
    using p assms(4) by (simp add: swapFiles_def Let_def bindR_def onErr_def seg_close_def CloseFile_def removeSegmentPair_def
        removeCounted_def Stat_def removeIfExists_def Remove_def call_ok_def call_def e_def del: bindR_simps)
  have rm: "removeF rt n f = (if exists_file f n then del n (tick f) else tick f)" if "ops d + 5 < ops f" for n f
    using assms(4) that by (simp add: removeF_def Remove_def call_ok_def call_def)
  have keep: "\<not> exists_file f n \<Longrightarrow> ops d + 5 < ops f \<Longrightarrow>
      \<not> exists_file (foldl (\<lambda>d (base, _). removeF rt (segmentIndexSwapName base) (removeF rt (segmentLogSwapName base) d)) f xs) n"
    for f n and xs :: "(u64 \<times> i64) list"
  proof (induction xs arbitrary: f)
    case (Cons x xs)
    then show ?case by (cases x) (auto simp: rm intro!: Cons.IH)
  qed simp
  have gone: "ops d + 5 < ops f \<Longrightarrow> (?b, t) \<in> set xs \<Longrightarrow>
      \<not> exists_file (foldl (\<lambda>d (base, _). removeF rt (segmentIndexSwapName base) (removeF rt (segmentLogSwapName base) d)) f xs) (segmentLogSwapName ?b)"
    for f and xs :: "(u64 \<times> i64) list"
  proof (induction xs arbitrary: f)
    case (Cons x xs)
    obtain c u where x: "x = (c, u)" by fastforce
    define g where "g = removeF rt (segmentIndexSwapName c) (removeF rt (segmentLogSwapName c) f)"
    have g: "ops d + 5 < ops g" using Cons.prems(1) by (simp add: g_def rm)
    show ?case
    proof (cases "(?b, t) \<in> set xs")
      case True
      then show ?thesis using Cons.IH [OF g] x by (simp add: g_def)
    next
      case False
      then have "c = ?b" using Cons.prems(2) x by simp
      then have "\<not> exists_file g (segmentLogSwapName ?b)" using Cons.prems(1) by (simp add: g_def rm)
      then show ?thesis using keep [OF _ g] x by (simp add: g_def)
    qed
  qed simp
  have "\<not> exists_file e (segmentLogName ?b)" by (simp add: e_def)
  with run keep [OF _ late] gone [OF late assms(2)] show ?thesis by (simp add: removeSwaps_def)
qed

theorem swap_error_loses_segment_witness:
  "\<exists>d'. swapFiles (calm_runtime\<lparr>fault := (\<lambda>i. if i = 5 then Some 0 else None)\<rparr>) (emptyPlan\<lparr>pl_rewrites := [(0, 9)]\<rparr>) fresh_segment swap_disk = (Inl ErrIO, d') \<and>
     \<not> exists_file d' (segmentLogName 0)"
  using swap_error_loses_segment [of swap_disk fresh_segment "[1]" "[2]" 9 "emptyPlan\<lparr>pl_rewrites := [(0, 9)]\<rparr>"
      "calm_runtime\<lparr>fault := (\<lambda>i. if i = 5 then Some 0 else None)\<rparr>"] swap_disk_pairs
  by (auto simp: fresh_segment_def swap_disk_def)

text \<open>
  A second crash, during the repair itself, can leave a mixed pair: the new log with the
  old index.
\<close>

theorem repair_crash_mixes:
  assumes "\<not> exists_file d (segmentLogName b)" and "exists_file d (segmentIndexName b)" and "content d (segmentIndexName b) = oldI"
    and "has_swap d b newL newI" and "no_faults rt"
  shows "\<exists>n. has_pair (repair rt b (repair (crash_runtime n) b d)) b newL oldI"
proof (rule exI [of _ "ops d + 3"])
  define e where "e = tick (put (segmentLogName b) newL (del (segmentLogSwapName b) (tick (tick (tick d)))))"
  have "repair (crash_runtime (ops d + 3)) b d = e"
    using assms(1,2,4) by (simp add: repair_def resolve_defs Stat_def Rename_def Remove_def call_crash has_swap_def e_def
        segmentLogSwapName_def [symmetric] segmentIndexSwapName_def [symmetric] del: bindR_simps)
  moreover have "has_pair (repair rt b e) b newL oldI"
    using assms by (simp add: repair_def resolve_defs resolve_calm io_no_faults has_pair_def has_swap_def e_def
        segmentLogSwapName_def [symmetric] segmentIndexSwapName_def [symmetric] del: bindR_simps)
  ultimately show "has_pair (repair rt b (repair (crash_runtime (ops d + 3)) b d)) b newL oldI" by simp
qed

theorem repair_crash_mixes_witness:
  "\<exists>n. has_pair (repair calm_runtime 0 (repair (crash_runtime n) 0 (del (segmentLogName 0) swap_disk))) 0 [3] [2]"
  by (rule repair_crash_mixes [OF _ _ _ _ no_faults_calm])
    (use swap_disk_pairs in \<open>simp_all add: has_pair_def has_swap_def\<close>)

end
