(* ===== verification/Go_Text.thy ===== *)
theory Go_Text
  imports Disk
begin

text \<open>
  The functions of Go's packages \<open>strings\<close> and \<open>strconv\<close> that the configuration,
  cron and priority parsers use. A Go string is a list of bytes; white space is that of
  \<open>unicode.IsSpace\<close> in its UTF-8 encoding.
\<close>

section \<open>Numbers\<close>

text \<open>\<open>strconv.Atoi\<close>: an optional sign and digits.\<close>

definition Atoi :: "string \<Rightarrow> int option" where
  "Atoi s =
     (let neg = (s \<noteq> [] \<and> hd s = CHR ''-'');
          digits = (if s \<noteq> [] \<and> (hd s = CHR ''-'' \<or> hd s = CHR ''+'') then tl s else s)
      in if digits = [] then None
         else case decimal_value 0 digits of
           None \<Rightarrow> None
         | Some n \<Rightarrow>
             let v = (if neg then - int n else int n)
             in if - (2 ^ 63) \<le> v \<and> v < 2 ^ 63 then Some v else None)"

section \<open>White space\<close>

definition wideSpace :: "nat \<Rightarrow> nat \<Rightarrow> nat \<Rightarrow> bool" where
  "wideSpace a b c \<longleftrightarrow> (a, b, c) \<in> {(0xE1, 0x9A, 0x80), (0xE2, 0x81, 0x9F), (0xE3, 0x80, 0x80)} \<or>
     a = 0xE2 \<and> b = 0x80 \<and> (0x80 \<le> c \<and> c \<le> 0x8A \<or> c = 0xA8 \<or> c = 0xA9 \<or> c = 0xAF)"

text \<open>The number of bytes of the white-space character at the front, zero if there is none.\<close>

fun spaceBytes :: "nat list \<Rightarrow> nat" where
  "spaceBytes [] = 0"
| "spaceBytes (a # xs) =
     (if 9 \<le> a \<and> a \<le> 13 \<or> a = 32 then 1
      else if a = 0xC2 then (case xs of b # _ \<Rightarrow> if b = 0x85 \<or> b = 0xA0 then 2 else 0 | [] \<Rightarrow> 0)
      else case xs of b # c # _ \<Rightarrow> if wideSpace a b c then 3 else 0 | _ \<Rightarrow> 0)"

definition spaceLen :: "string \<Rightarrow> nat" where
  "spaceLen s = spaceBytes (map of_char (take 3 s))"

lemma spaceLen_Nil [simp]: "spaceLen [] = 0"
  by (simp add: spaceLen_def)

function TrimLeftSpace :: "string \<Rightarrow> string" where
  "TrimLeftSpace s = (if spaceLen s = 0 then s else TrimLeftSpace (drop (spaceLen s) s))"
  by auto
termination
proof (relation "measure length", simp)
  fix s assume "spaceLen s \<noteq> 0"
  moreover from this have "s \<noteq> []" by auto
  ultimately show "(drop (spaceLen s) s, s) \<in> measure length" by simp
qed

definition spaceSuffix :: "string \<Rightarrow> nat" where
  "spaceSuffix s =
     (case filter (\<lambda>k. k \<le> length s \<and> spaceLen (drop (length s - k) s) = k) [1, 2, 3] of [] \<Rightarrow> 0 | k # _ \<Rightarrow> k)"

lemma spaceSuffix_Nil [simp]: "spaceSuffix [] = 0"
  by (simp add: spaceSuffix_def)

function TrimRightSpace :: "string \<Rightarrow> string" where
  "TrimRightSpace s = (if spaceSuffix s = 0 then s else TrimRightSpace (take (length s - spaceSuffix s) s))"
  by auto
termination
proof (relation "measure length", simp)
  fix s assume k: "spaceSuffix s \<noteq> 0"
  moreover from this have "s \<noteq> []" by auto
  ultimately show "(take (length s - spaceSuffix s) s, s) \<in> measure length" by simp
qed

declare TrimLeftSpace.simps [simp del] TrimRightSpace.simps [simp del]

definition TrimSpace :: "string \<Rightarrow> string" where
  "TrimSpace s = TrimRightSpace (TrimLeftSpace s)"

function fieldsFrom :: "string \<Rightarrow> string \<Rightarrow> string list" where
  "fieldsFrom cur [] = (if cur = [] then [] else [cur])"
| "fieldsFrom cur (c # cs) =
     (if spaceLen (c # cs) = 0 then fieldsFrom (cur @ [c]) cs
      else (if cur = [] then [] else [cur]) @ fieldsFrom [] (drop (spaceLen (c # cs)) (c # cs)))"
  by pat_completeness auto
termination by (relation "measure (length \<circ> snd)") auto

definition Fields :: "string \<Rightarrow> string list" where
  "Fields s = fieldsFrom [] s"

section \<open>Separators\<close>

text \<open>\<open>strings.Split\<close> at a one-byte separator: always at least one part.\<close>

fun Split :: "char \<Rightarrow> string \<Rightarrow> string list" where
  "Split sep [] = [[]]"
| "Split sep (c # cs) =
     (if c = sep then [] # Split sep cs
      else case Split sep cs of p # ps \<Rightarrow> (c # p) # ps | [] \<Rightarrow> [[c]])"

text \<open>\<open>strings.FieldsFunc\<close>: the non-empty runs between separators.\<close>

fun fieldsFuncFrom :: "(char \<Rightarrow> bool) \<Rightarrow> string \<Rightarrow> string \<Rightarrow> string list" where
  "fieldsFuncFrom sep cur [] = (if cur = [] then [] else [cur])"
| "fieldsFuncFrom sep cur (c # cs) =
     (if sep c then (if cur = [] then [] else [cur]) @ fieldsFuncFrom sep [] cs
      else fieldsFuncFrom sep (cur @ [c]) cs)"

definition FieldsFunc :: "(char \<Rightarrow> bool) \<Rightarrow> string \<Rightarrow> string list" where
  "FieldsFunc sep s = fieldsFuncFrom sep [] s"

text \<open>\<open>strings.Cut\<close>: the text before and behind the first occurrence of the separator.\<close>

fun Cut :: "string \<Rightarrow> string \<Rightarrow> (string \<times> string) option" where
  "Cut sep [] = (if sep = [] then Some ([], []) else None)"
| "Cut sep (c # cs) =
     (if take (length sep) (c # cs) = sep then Some ([], drop (length sep) (c # cs))
      else map_option (\<lambda>(a, b). (c # a, b)) (Cut sep cs))"

definition CutPrefix :: "string \<Rightarrow> string \<Rightarrow> string option" where
  "CutPrefix pre s = (if take (length pre) s = pre then Some (drop (length pre) s) else None)"

lemma Split_not_Nil [simp]: "Split sep s \<noteq> []"
  by (induction s) (auto split: list.splits)

lemma Cut_concat: "Cut sep s = Some (a, b) \<Longrightarrow> s = a @ sep @ b"
proof (induction s arbitrary: a)
  case (Cons c cs)
  show ?case
  proof (cases "take (length sep) (c # cs) = sep")
    case True
    with Cons.prems have "a = []" "b = drop (length sep) (c # cs)" by auto
    with append_take_drop_id [of "length sep" "c # cs"] True show ?thesis by simp
  next
    case False
    with Cons.prems obtain a' where "Cut sep cs = Some (a', b)" "a = c # a'" by auto
    with Cons.IH show ?thesis by simp
  qed
qed (auto split: if_splits)

end
