(* ===== verification/Store.thy ===== *)
theory Store
  imports Swap_Crash Go_Text
begin

text \<open>
  The store of topics (src/internal/broker/storage/store.go) and its cleaner
  (cleanup.go). Each partition has a directory of its own; a partition is
  kept with its directory. \<open>store_fs\<close> is the topics directory: for each topic
  directory its partition directories. The mutex makes each operation one step; a
  compaction pass works without the partition's mutex between its stages, and \<open>others\<close> is what other calls do to the
  partition meanwhile.
\<close>

section \<open>Names and paths\<close>

datatype store_error =
    ErrTopicExists | ErrTopicNotFound | ErrInvalidTopicName | ErrTooManyPartitions
  | ErrStoreClosed | ErrNoPartitions | ErrNonContiguous | ErrDivideByZero | ErrStorage storage_error

definition MaxPartitionsPerTopic :: int where
  "MaxPartitionsPerTopic = 64"

definition topicNameRe :: "string \<Rightarrow> bool" where
  "topicNameRe name \<longleftrightarrow> 1 \<le> length name \<and> length name \<le> 128 \<and> list_all topicChar name"

definition validTopicName :: "string \<Rightarrow> store_error + unit" where
  "validTopicName name =
     (if \<not> topicNameRe name then Inl ErrInvalidTopicName
      else if HasSuffix name ''.'' then Inl ErrInvalidTopicName
      else Inr ())"

text \<open>
  Paths as lists of components. \<open>filepath.Join\<close> cleans its result: empty and \<open>.\<close>
  components go, \<open>..\<close> removes the one before it; at the root of an absolute path it
  is dropped. \<open>filepath.Rel\<close> climbs from the base to the common prefix.
\<close>

fun split_path :: "string \<Rightarrow> string \<Rightarrow> string list" where
  "split_path acc [] = [acc]"
| "split_path acc (c # cs) = (if c = CHR ''/'' then acc # split_path [] cs else split_path (acc @ [c]) cs)"

fun clean_path :: "string list \<Rightarrow> string list \<Rightarrow> string list" where
  "clean_path cleaned [] = cleaned"
| "clean_path cleaned (c # cs) =
     (if c = '''' \<or> c = ''.'' then clean_path cleaned cs
      else if c = ''..'' then clean_path (butlast cleaned) cs
      else clean_path (cleaned @ [c]) cs)"

definition joinPath :: "string list \<Rightarrow> string \<Rightarrow> string list" where
  "joinPath base name = clean_path base (split_path [] name)"

fun relPath :: "string list \<Rightarrow> string list \<Rightarrow> string list" where
  "relPath (b # bs) (t # ts) = (if b = t then relPath bs ts else replicate (length (b # bs)) ''..'' @ t # ts)"
| "relPath bs ts = replicate (length bs) ''..'' @ ts"

definition topicDirFor :: "string list \<Rightarrow> string \<Rightarrow> store_error + string list" where
  "topicDirFor base name =
     (let dir = joinPath base name; rel = relPath base dir in
      if rel = [] \<or> hd rel = ''..'' then Inl ErrInvalidTopicName else Inr dir)"

section \<open>Topics\<close>

record Topic =
  t_Name :: string
  Partitions :: "(Partition \<times> disk) list"
  rr :: u32

definition NumPartitions :: "Topic \<Rightarrow> nat" where
  "NumPartitions t = length (Partitions t)"

definition PickPartition :: "bytes \<Rightarrow> Topic \<Rightarrow> (store_error + nat) \<times> Topic" where
  "PickPartition key t =
     (let n = length (Partitions t) in
      if key \<noteq> [] then (if n = 0 then Inl ErrDivideByZero else Inr (unat (fnv32a key) mod n), t)
      else let t = t\<lparr>rr := rr t + 1\<rparr> in
        (if n = 0 then Inl ErrDivideByZero else Inr (unat (rr t) mod n), t))"

section \<open>The store\<close>

record Store =
  s_dir :: "string list"
  s_opts :: Options
  defaultPartitions :: int
  topics :: "(string \<times> Topic) list"
  s_closed :: bool

type_synonym store_fs = "(string \<times> (string \<times> disk) list) list"

definition topicsDir :: "Store \<Rightarrow> string list" where
  "topicsDir s = s_dir s @ [''topics'']"

definition emptyDir :: disk where
  "emptyDir = \<lparr>files = [], ops = 0\<rparr>"

definition partitionPrefix :: string where
  "partitionPrefix = ''partition-''"

definition partitionDir :: "nat \<Rightarrow> string" where
  "partitionDir i = partitionPrefix @ itoa i"

definition dirOf :: "(string \<times> disk) list \<Rightarrow> nat \<Rightarrow> disk" where
  "dirOf dirs i = (case map_of dirs (partitionDir i) of None \<Rightarrow> emptyDir | Some d \<Rightarrow> d)"

fun openPartitions ::
  "runtime \<Rightarrow> string \<Rightarrow> Options \<Rightarrow> (string \<times> disk) list \<Rightarrow> nat list \<Rightarrow> (Partition \<times> disk) list \<Rightarrow>
   (storage_error + (Partition \<times> disk) list) \<times> (Partition \<times> disk) list" where
  "openPartitions rt name opts dirs [] acc = (Inr acc, acc)"
| "openPartitions rt name opts dirs (i # ids) acc =
     (case OpenPartition rt name (of_nat i) opts (dirOf dirs i) of
        (Inl e, _) \<Rightarrow> (Inl e, acc)
      | (Inr p, d) \<Rightarrow> openPartitions rt name opts dirs ids (acc @ [(p, d)]))"

definition partitionIds :: "(string \<times> disk) list \<Rightarrow> int list" where
  "partitionIds dirs =
     sort (List.map_filter (\<lambda>(n, _). if take (length partitionPrefix) n = partitionPrefix
                                then Atoi (drop (length partitionPrefix) n) else None) dirs)"

definition openTopic :: "runtime \<Rightarrow> Store \<Rightarrow> string \<Rightarrow> (string \<times> disk) list \<Rightarrow> store_error + Topic" where
  "openTopic rt s name dirs =
     bindS (topicDirFor (topicsDir s) name) (\<lambda>_.
     let ids = partitionIds dirs in
     if ids = [] then Inl ErrNoPartitions
     else if ids \<noteq> map int [0 ..< length ids] then Inl ErrNonContiguous
     else case openPartitions rt name (s_opts s) dirs [0 ..< length ids] [] of
       (Inl e, _) \<Rightarrow> Inl (ErrStorage e)
     | (Inr ps, _) \<Rightarrow> Inr \<lparr>t_Name = name, Partitions = ps, rr = 0\<rparr>)"

fun openTopics :: "runtime \<Rightarrow> store_fs \<Rightarrow> string list \<Rightarrow> Store \<Rightarrow> store_error + Store" where
  "openTopics rt fs [] s = Inr s"
| "openTopics rt fs (name # names) s =
     bindS (openTopic rt s name (case map_of fs name of None \<Rightarrow> [] | Some es \<Rightarrow> es)) (\<lambda>t.
       openTopics rt fs names (s\<lparr>topics := AList.update name t (topics s)\<rparr>))"

definition OpenStore :: "runtime \<Rightarrow> string list \<Rightarrow> Options \<Rightarrow> int \<Rightarrow> store_fs \<Rightarrow> store_error + Store" where
  "OpenStore rt dir opts defParts fs =
     (let names = sort (filter (\<lambda>n. validTopicName n = Inr ()) (map fst fs)) in
      openTopics rt fs names
        \<lparr>s_dir = dir, s_opts = opts, defaultPartitions = defParts, topics = [], s_closed = False\<rparr>)"

text \<open>
  The partitions are collected in \<open>make([]*Partition, 0, partitions)\<close>, which panics on a negative capacity: the
  default count is used unchecked.
\<close>

definition CreateTopic ::
  "runtime \<Rightarrow> string \<Rightarrow> int \<Rightarrow> (string \<times> disk) list \<Rightarrow> Store \<Rightarrow> ((store_error + Topic) \<times> Store) go" where
  "CreateTopic rt name partitions dirs s =
     (case validTopicName name of
        Inl e \<Rightarrow> Inr (Inl e, s)
      | Inr _ \<Rightarrow>
          if s_closed s then Inr (Inl ErrStoreClosed, s)
          else if map_of (topics s) name \<noteq> None then Inr (Inl ErrTopicExists, s)
          else
            let n = (if partitions \<le> 0 then defaultPartitions s else partitions) in
            if MaxPartitionsPerTopic < n then Inr (Inl ErrTooManyPartitions, s)
            else case topicDirFor (topicsDir s) name of
              Inl e \<Rightarrow> Inr (Inl e, s)
            | Inr _ \<Rightarrow>
                if n < 0 then Inl SliceOutOfRange
                else bindS (unrecovered (fst (openPartitions rt name (s_opts s) dirs [0 ..< nat n] []))) (\<lambda>opened.
                  case opened of
                    Inl e \<Rightarrow> Inr (Inl (ErrStorage e), s)
                  | Inr ps \<Rightarrow>
                      let t = \<lparr>t_Name = name, Partitions = ps, rr = 0\<rparr>
                      in Inr (Inr t, s\<lparr>topics := AList.update name t (topics s)\<rparr>)))"

definition getTopic :: "string \<Rightarrow> Store \<Rightarrow> store_error + Topic" where
  "getTopic name s = (case map_of (topics s) name of None \<Rightarrow> Inl ErrTopicNotFound | Some t \<Rightarrow> Inr t)"

definition sortedTopics :: "Store \<Rightarrow> Topic list" where
  "sortedTopics s = map snd (sort_key fst (topics s))"

definition storePartitions :: "Store \<Rightarrow> (Partition \<times> disk) list" where
  "storePartitions s = concat (map Partitions (sortedTopics s))"

definition StoreDiskUsage :: "runtime \<Rightarrow> Store \<Rightarrow> nat" where
  "StoreDiskUsage rt s = sum_list (map (\<lambda>(p, d). DiskUsageBytes rt d) (storePartitions s))"

definition StoreSegmentCount :: "Store \<Rightarrow> nat" where
  "StoreSegmentCount s = sum_list (map (\<lambda>(p, d). SegmentCount p) (storePartitions s))"

text \<open>An operation on every partition of every topic.\<close>

definition eachPartition :: "(string \<Rightarrow> Partition \<times> disk \<Rightarrow> Partition \<times> disk) \<Rightarrow> Store \<Rightarrow> Store" where
  "eachPartition f s =
     s\<lparr>topics := map (\<lambda>(n, t). (n, t\<lparr>Partitions := map (f (t_Name t)) (Partitions t)\<rparr>)) (topics s)\<rparr>"

definition FlushAll :: "runtime \<Rightarrow> Store \<Rightarrow> Store" where
  "FlushAll rt = eachPartition (\<lambda>_ pd. snd (Flush rt pd))"

definition firstErr :: "(storage_error + 'a) list \<Rightarrow> storage_error option" where
  "firstErr rs = (case filter isl rs of [] \<Rightarrow> None | r # _ \<Rightarrow> Some (projl r))"

definition CloseStore :: "runtime \<Rightarrow> Store \<Rightarrow> storage_error option \<times> Store" where
  "CloseStore rt s =
     (firstErr (map (\<lambda>pd. fst (ClosePartition rt pd)) (concat (map (\<lambda>(n, t). Partitions t) (topics s)))),
      (eachPartition (\<lambda>_ pd. snd (ClosePartition rt pd)) s)\<lparr>s_closed := True\<rparr>)"

section \<open>The cleaner\<close>

record CleanupStats =
  cl_Topic :: string
  cl_Partition :: i32
  cl_Retention :: RetentionStats
  cl_Compaction :: CompactionStats

type_synonym safety = "(string \<times> (i32 \<times> u64) list) list"

definition minSafeOffset :: "safety \<Rightarrow> string \<Rightarrow> i32 \<Rightarrow> u64" where
  "minSafeOffset mins topic pid =
     (case map_of mins topic of
        None \<Rightarrow> noSafeOffset
      | Some parts \<Rightarrow> (case map_of parts pid of None \<Rightarrow> noSafeOffset | Some off \<Rightarrow> off))"

text \<open>
  One partition of a sweep. \<open>ctx\<close> is the context's state at each check of the compaction, \<open>others\<close> what the
  writers do to the partition while a compaction has released its mutex. Errors are logged; no statistics come from a
  pass that panicked, which ends the process.
\<close>

definition sweepPartition ::
  "runtime \<Rightarrow> (Partition \<times> disk \<Rightarrow> Partition \<times> disk) \<Rightarrow> (nat \<Rightarrow> bool) \<Rightarrow> Policy \<Rightarrow> u64 \<Rightarrow> int \<Rightarrow> string \<Rightarrow>
   Partition \<times> disk \<Rightarrow> CleanupStats option \<times> Partition \<times> disk" where
  "sweepPartition rt others ctx pol minSafe now topic = (\<lambda>(p, d).
     let stats = \<lparr>cl_Topic = topic, cl_Partition = p_id p, cl_Retention = \<lparr>SegmentsDeleted = 0, BytesFreed = 0\<rparr>,
                  cl_Compaction = noCompaction\<rparr>;
         (rs, p, d) = ApplyRetention rt pol minSafe now (p, d);
         stats = (case rs of Inl _ \<Rightarrow> stats | Inr r \<Rightarrow> stats\<lparr>cl_Retention := r\<rparr>)
     in if pol_Compact pol then
          (case Compact rt maxCompactionKeys ctx others (p, d) of
             (Inl e, p, d) \<Rightarrow> (if e = ErrPanic then None else Some stats, p, d)
           | (Inr cs, p, d) \<Rightarrow> (Some (stats\<lparr>cl_Compaction := cs\<rparr>), p, d))
        else (Some stats, p, d))"

text \<open>
  The loops check the context before every topic and every partition: the \<open>i\<close>-th check
  is \<open>ctxDone i\<close>. The result says whether the sweep was ended (by the context or by a panic), the number of checks made,
  what the observer received and the partitions afterwards.
\<close>

fun sweepPartitions ::
  "(nat \<Rightarrow> bool) \<Rightarrow> (Partition \<times> disk \<Rightarrow> CleanupStats option \<times> Partition \<times> disk) \<Rightarrow> nat \<Rightarrow> (Partition \<times> disk) list \<Rightarrow>
   (bool \<times> nat) \<times> CleanupStats list \<times> (Partition \<times> disk) list" where
  "sweepPartitions ctxDone f i [] = ((False, i), [], [])"
| "sweepPartitions ctxDone f i (pd # pds) =
     (if ctxDone i then ((True, i), [], pd # pds)
      else case f pd of
        (None, pd') \<Rightarrow> ((True, i), [], pd' # pds)
      | (Some st, pd') \<Rightarrow>
          let (res, sts, pds') = sweepPartitions ctxDone f (i + 1) pds
          in (res, st # sts, pd' # pds'))"

fun sweepTopics ::
  "(nat \<Rightarrow> bool) \<Rightarrow> (string \<Rightarrow> Partition \<times> disk \<Rightarrow> CleanupStats option \<times> Partition \<times> disk) \<Rightarrow> nat \<Rightarrow> Topic list \<Rightarrow>
   CleanupStats list \<times> Topic list" where
  "sweepTopics ctxDone f i [] = ([], [])"
| "sweepTopics ctxDone f i (t # ts) =
     (if ctxDone i then ([], t # ts)
      else case sweepPartitions ctxDone (f (t_Name t)) (i + 1) (Partitions t) of
        ((stopped, j), sts, pds) \<Rightarrow>
          let t' = t\<lparr>Partitions := pds\<rparr>
          in if stopped then (sts, t' # ts)
             else case sweepTopics ctxDone f j ts of (sts', ts') \<Rightarrow> (sts @ sts', t' # ts'))"

definition SweepOnce ::
  "runtime \<Rightarrow> (string \<Rightarrow> i32 \<Rightarrow> Partition \<times> disk \<Rightarrow> Partition \<times> disk) \<Rightarrow> (nat \<Rightarrow> bool) \<Rightarrow> (nat \<Rightarrow> bool) \<Rightarrow> (string \<Rightarrow> Policy) \<Rightarrow>
   safety option \<Rightarrow> int \<Rightarrow> Store \<Rightarrow> CleanupStats list \<times> Store" where
  "SweepOnce rt others ctxDone ctx policy safetyMins now s =
     (let mins = (case safetyMins of None \<Rightarrow> [] | Some m \<Rightarrow> m);
          (sts, ts) = sweepTopics ctxDone (\<lambda>topic (p, d).
             sweepPartition rt (others topic (p_id p)) ctx (policy topic) (minSafeOffset mins topic (p_id p)) now topic (p, d)) 0 (sortedTopics s)
      in (sts, s\<lparr>topics := zip (map fst (sort_key fst (topics s))) ts\<rparr>))"

section \<open>Paths\<close>

lemma split_path_plain: "CHR ''/'' \<notin> set name \<Longrightarrow> split_path acc name = [acc @ name]"
  by (induction name arbitrary: acc) auto

lemma relPath_append: "relPath bs (bs @ ts) = ts"
proof (induction bs)
  case Nil
  show ?case by (cases ts) simp_all
qed simp

lemma relPath_prefix: "rel = relPath bs ts \<Longrightarrow> rel \<noteq> [] \<Longrightarrow> hd rel \<noteq> ''..'' \<Longrightarrow> ts = bs @ rel"
proof (induction bs ts arbitrary: rel rule: relPath.induct)
  case (1 b bs t ts)
  then show ?case by (auto split: if_splits)
qed auto

lemma valid_name:
  assumes "validTopicName name = Inr ()"
  shows "CHR ''/'' \<notin> set name" and "name \<notin> {'''', ''.'', ''..''}"
proof -
  have v: "topicNameRe name" "\<not> HasSuffix name ''.''" using assms by (auto simp: validTopicName_def split: if_splits)
  have "\<not> topicChar (CHR ''/'')" by (simp add: topicChar_def char_between_def)
  then show "CHR ''/'' \<notin> set name" using v(1) by (auto simp: topicNameRe_def list_all_iff)
  show "name \<notin> {'''', ''.'', ''..''}" using v by (auto simp: topicNameRe_def HasSuffix_def)
qed

section \<open>Routing\<close>

fun pickMany :: "nat \<Rightarrow> Topic \<Rightarrow> (store_error + nat) list \<times> Topic" where
  "pickMany 0 t = ([], t)"
| "pickMany (Suc k) t = (case PickPartition [] t of (r, t) \<Rightarrow> case pickMany k t of (rs, t) \<Rightarrow> (r # rs, t))"

lemma unat_suc: "unat (r :: u32) + 1 < 2 ^ 32 \<Longrightarrow> unat (r + 1) = unat r + 1"
  by (simp add: unat_word_ariths)

lemma pickMany_eq:
  "0 < n \<Longrightarrow> n = length (Partitions t) \<Longrightarrow> unat (rr t) + k < 2 ^ 32 \<Longrightarrow>
   fst (pickMany k t) = map (\<lambda>i. Inr ((unat (rr t) + 1 + i) mod n)) [0 ..< k]"
proof (induction k arbitrary: t)
  case (Suc k)
  let ?t = "t\<lparr>rr := rr t + 1\<rparr>"
  have u: "unat (rr t + 1) = unat (rr t) + 1" using Suc.prems(3) by (intro unat_suc) simp
  have "fst (pickMany k ?t) = map (\<lambda>i. Inr ((unat (rr ?t) + 1 + i) mod n)) [0 ..< k]"
    by (rule Suc.IH) (use Suc.prems u in simp_all)
  also have "\<dots> = map (\<lambda>i. Inr ((unat (rr t) + 1 + i) mod n)) [1 ..< Suc k]"
    using u by (simp add: map_Suc_upt [symmetric] del: upt_Suc)
  finally have ih: "fst (pickMany k ?t) = map (\<lambda>i. Inr ((unat (rr t) + 1 + i) mod n)) [1 ..< Suc k]" .
  have "PickPartition [] t = (Inr ((unat (rr t) + 1) mod n), ?t)"
    using Suc.prems(1,2) u by (simp add: PickPartition_def Let_def)
  then have "fst (pickMany (Suc k) t) = Inr ((unat (rr t) + 1) mod n) # fst (pickMany k ?t)"
    by (simp add: case_prod_beta)
  then show ?case unfolding ih by (simp add: upt_conv_Cons del: upt_Suc)
qed simp

lemma mod_shift_inj:
  assumes "(a + i) mod n = (a + j) mod n" and "i < n" "j < (n :: nat)"
  shows "i = j"
proof (rule ccontr)
  assume "i \<noteq> j"
  have "int n dvd int (a + i) - int (a + j)"
    using arg_cong [OF assms(1), of int] by (simp add: zmod_int mod_eq_dvd_iff)
  then have "int n dvd int i - int j" by simp
  then have "\<bar>int n\<bar> \<le> \<bar>int i - int j\<bar>" using \<open>i \<noteq> j\<close> by (intro dvd_imp_le_int) simp_all
  with assms(2,3) show False by linarith
qed

section \<open>Properties of the store\<close>

text \<open>
  Property C16. Topic names cannot escape the topics directory. A name accepted by the validation
  gets the directory of exactly that name below it; and any name the path check
  accepts, validated or not, resolves strictly below it.
\<close>

theorem topic_dir_contained:
  "(validTopicName name = Inr () \<longrightarrow> topicDirFor base name = Inr (base @ [name])) \<and>
   (topicDirFor base name = Inr dir \<longrightarrow> (\<exists>rel. rel \<noteq> [] \<and> dir = base @ rel))"
proof (intro conjI impI)
  assume v: "validTopicName name = Inr ()"
  note n = valid_name [OF v]
  have "joinPath base name = base @ [name]" using n by (simp add: joinPath_def split_path_plain)
  then show "topicDirFor base name = Inr (base @ [name])" using n(2) by (simp add: topicDirFor_def relPath_append)
next
  assume "topicDirFor base name = Inr dir"
  then have "relPath base dir \<noteq> []" "hd (relPath base dir) \<noteq> ''..''"
    by (auto simp: topicDirFor_def Let_def split: if_splits)
  then show "\<exists>rel. rel \<noteq> [] \<and> dir = base @ rel" using relPath_prefix [OF refl] by blast
qed

theorem topic_dir_contained_witness:
  "topicDirFor [''data'', ''topics''] ''orders.v1'' = Inr [''data'', ''topics'', ''orders.v1''] \<and>
   topicDirFor [''data'', ''topics''] ''../x'' = Inl ErrInvalidTopicName"
proof
  have "validTopicName ''orders.v1'' = Inr ()"
    by (simp add: validTopicName_def topicNameRe_def topicChar_def char_between_def HasSuffix_def)
  then show "topicDirFor [''data'', ''topics''] ''orders.v1'' = Inr [''data'', ''topics'', ''orders.v1'']"
    using topic_dir_contained [of "''orders.v1''" "[''data'', ''topics'']"] by simp
  show "topicDirFor [''data'', ''topics''] ''../x'' = Inl ErrInvalidTopicName"
    by (simp add: topicDirFor_def joinPath_def Let_def)
qed

lemma distinct_map_Inr: "distinct (map Inr xs) = distinct xs"
  by (simp add: distinct_map)

text \<open>
  Property C17. Routing: every pick is a partition of the topic; equal keys go to the same
  partition whatever the cursor; and as long as the 32-bit cursor does not wrap, as many keyless picks as there are
  partitions hit every partition exactly once.
\<close>

theorem PickPartition_routes:
  assumes "n = length (Partitions t)" and "0 < n" and "unat (rr t) + n < 2 ^ 32"
  shows "(\<forall>key. \<exists>i < n. fst (PickPartition key t) = Inr i) \<and>
    (\<forall>key c. key \<noteq> [] \<longrightarrow> fst (PickPartition key t) = fst (PickPartition key (t\<lparr>rr := c\<rparr>)) \<and> snd (PickPartition key t) = t) \<and>
    distinct (fst (pickMany n t)) \<and> set (fst (pickMany n t)) = Inr ` {..< n}"
proof -
  let ?f = "\<lambda>i. (unat (rr t) + 1 + i) mod n"
  have eq: "fst (pickMany n t) = map Inr (map ?f [0 ..< n])" using pickMany_eq [OF assms(2,1,3)] by simp
  have inj: "inj_on ?f {..< n}" by (auto simp: inj_on_def intro: mod_shift_inj [of "unat (rr t) + 1"])
  have "?f ` {..< n} = {..< n}"
    by (rule endo_inj_surj [OF _ _ inj]) (use assms(2) in auto)
  then have s: "set (map ?f [0 ..< n]) = {..< n}" "distinct (map ?f [0 ..< n])"
    using inj by (simp_all add: distinct_map atLeast0LessThan)
  have "distinct (fst (pickMany n t))" unfolding eq distinct_map_Inr by (rule s(2))
  moreover have "set (fst (pickMany n t)) = Inr ` {..< n}" unfolding eq by (subst set_map) (simp only: s(1))
  moreover have "\<exists>i < n. fst (PickPartition key t) = Inr i" for key using assms(1,2) by (simp add: PickPartition_def Let_def)
  moreover have "fst (PickPartition key t) = fst (PickPartition key (t\<lparr>rr := c\<rparr>)) \<and> snd (PickPartition key t) = t" if "key \<noteq> []" for key c
    using that by (simp add: PickPartition_def Let_def)
  ultimately show ?thesis by blast
qed

definition sample_topic :: Topic where
  "sample_topic = \<lparr>t_Name = ''t'', Partitions = [(fresh_partition, fresh_disk), (fresh_partition, fresh_disk), (fresh_partition, fresh_disk)], rr = 5\<rparr>"

theorem PickPartition_routes_witness:
  "set (fst (pickMany 3 sample_topic)) = {Inr 0, Inr 1, Inr 2}"
proof -
  have "set (fst (pickMany 3 sample_topic)) = Inr ` {..< 3}"
    using PickPartition_routes [of 3 sample_topic] by (simp add: sample_topic_def)
  also have "{..< 3} = {0, 1, 2 :: nat}" by auto
  finally show ?thesis by simp
qed

section \<open>The cleaner and the log\<close>

text \<open>
  Every partition of a store satisfies the invariant with the records \<open>logs\<close> gives it.
\<close>

definition topic_ok :: "Topic \<Rightarrow> Record list list list \<Rightarrow> bool" where
  "topic_ok t logs \<longleftrightarrow> list_all2 (\<lambda>(p, d) rss. part_inv p d rss \<and> \<not> closed p) (Partitions t) logs"

text \<open>
  What the writers may do during a pass: whatever retention left of the partition's segments, they append the records
  \<open>new\<close> behind its log, with or without a rotation.
\<close>

definition writers_append :: "(Partition \<times> disk \<Rightarrow> Partition \<times> disk) \<Rightarrow> Partition \<Rightarrow> Record list list \<Rightarrow> Record list \<Rightarrow> bool" where
  "writers_append others p rss new \<longleftrightarrow>
     (\<forall>q e n. n < length rss \<and> part_inv q e (drop n rss) \<and> \<not> closed q \<and> segments q = drop n (segments p) \<and> nextOffset q = nextOffset p \<longrightarrow>
        (\<exists>mrss. others_append others q (drop n rss) mrss \<and> concat mrss = last rss @ new))"

lemma others_id:
  assumes "part_inv p d rss" and "\<not> closed p"
  shows "others_append id p rss [last rss]"
  unfolding others_append_def
proof (intro conjI allI impI)
  fix e assume e: "part_inv p e rss"
  have ne: "segments p \<noteq> []" "rss \<noteq> []" using part_invD(1,2) [OF e] by auto
  then show "\<exists>q d' ms. id (p, e) = (q, d') \<and> \<not> closed q \<and> segments q = butlast (segments p) @ ms \<and>
      length ms = length [last rss] \<and> part_inv q d' (butlast rss @ [last rss]) \<and>
      (\<forall>b. content d' (segmentLogSwapName b) = content e (segmentLogSwapName b) \<and>
           exists_file d' (segmentLogSwapName b) = exists_file e (segmentLogSwapName b) \<and>
           content d' (segmentIndexSwapName b) = content e (segmentIndexSwapName b) \<and>
           exists_file d' (segmentIndexSwapName b) = exists_file e (segmentIndexSwapName b))"
    using e assms(2) by (intro exI [of _ p] exI [of _ e] exI [of _ "[last (segments p)]"]) simp
qed simp

text \<open>A pass in which nothing is appended.\<close>

lemma writers_idle: "writers_append id p rss []"
  unfolding writers_append_def
proof (intro allI impI)
  fix q e n assume a: "n < length rss \<and> part_inv q e (drop n rss) \<and> \<not> closed q \<and> segments q = drop n (segments p) \<and> nextOffset q = nextOffset p"
  then have "others_append id q (drop n rss) [last (drop n rss)]" using others_id [of q e "drop n rss"] by simp
  then show "\<exists>mrss. others_append id q (drop n rss) mrss \<and> concat mrss = last rss @ []" using a by (intro exI [of _ "[last rss]"]) simp
qed

lemma retention_step:
  assumes "no_faults rt" and "part_inv p d rss" and "\<not> closed p"
  obtains n stats p' d' where "ApplyRetention rt pol m now (p, d) = (Inr stats, p', d')" and "part_inv p' d' (drop n rss)"
    and "\<not> closed p'" and "\<And>r. r \<in> set (concat (take n rss)) \<Longrightarrow> Offset r < m"
    and "n < length rss" and "segments p' = drop n (segments p)" and "nextOffset p' = nextOffset p"
proof -
  note i = part_invD [OF assms(2)]
  define n where "n = selectDeletions pol m now (totalLogBytes (segments p)) (segments p)"
  obtain stats p' d' where r: "ApplyRetention rt pol m now (p, d) = (Inr stats, p', d')" "part_inv p' d' (drop n rss)"
    using ApplyRetention_ok [OF assms n_def] by blast
  note c = ApplyRetention_cases [OF r(1) assms(3) i(1) n_def]
  have "Offset r < m" if r: "r \<in> set (concat (take n rss))" for r
  proof -
    have "0 < n" using r by (cases n) auto
    then have "baseOffset (segments p ! n) \<le> m" by (rule selectDeletions_safe [OF eq_refl [OF n_def]])
    with deleted_below [OF assms(2) c(2) r] show ?thesis by auto
  qed
  moreover have "length (segments p) = length rss" using i(3) by (rule list_all2_lengthD)
  ultimately show thesis using that [OF r] c(1-3,5) assms(3) by simp
qed

lemma newest_subset: "newest rs r \<Longrightarrow> set ss \<subseteq> set rs \<Longrightarrow> newest ss r"
  by (auto simp: newest_def list_all_iff)

lemma length_latest_le: "length (latest_of m rs) \<le> length m + length rs"
proof (induction rs arbitrary: m)
  case (Cons r rs)
  have "length (AList.update k v m) \<le> Suc (length m)" for k v by (induction m) auto
  then show ?case using Cons.IH [of m] Cons.IH [of "AList.update (Key r) (Offset r) m"]
    by (cases "Key r = []") (simp, force intro: le_trans)
qed simp

text \<open>
  A cleaner pass over one partition (retention, then compaction if the topic asks for
  it), while writers append: the partition invariant holds again, no record appears but theirs, and every record at or above the
  smallest committed offset stays, except for a compacted topic those with a newer record of the same key.
\<close>

lemma sweep_keeps_needed:
  assumes "no_faults rt" and "part_inv p d rss" and "\<not> closed p" and "\<forall>i. \<not> ctx i" and "length (concat rss) \<le> maxCompactionKeys"
    and "writers_append others p rss new"
  shows "\<exists>stats p' d' rss'. sweepPartition rt others ctx pol minSafe now topic (p, d) = (Some stats, p', d') \<and> part_inv p' d' rss' \<and>
    set (concat rss') \<subseteq> set (concat rss) \<union> set new \<and>
    (\<forall>r \<in> set (concat rss). minSafe \<le> Offset r \<longrightarrow> \<not> pol_Compact pol \<or> newest (concat rss) r \<longrightarrow> r \<in> set (concat rss'))"
proof -
  obtain n st q e where ret: "ApplyRetention rt pol minSafe now (p, d) = (Inr st, q, e)" and q: "part_inv q e (drop n rss)" "\<not> closed q"
    and del: "\<And>r. r \<in> set (concat (take n rss)) \<Longrightarrow> Offset r < minSafe"
    and n: "n < length rss" "segments q = drop n (segments p)" "nextOffset q = nextOffset p"
    by (rule retention_step [OF assms(1-3), of pol minSafe now]) (rule that)
  have sub: "set (concat (drop n rss)) \<subseteq> set (concat rss)" by (auto dest: in_set_dropD)
  have "concat rss = concat (take n rss) @ concat (drop n rss)" by (metis append_take_drop_id concat_append)
  then have "set (concat rss) = set (concat (take n rss)) \<union> set (concat (drop n rss))" by (metis set_append)
  then have keep: "r \<in> set (concat (drop n rss))" if "r \<in> set (concat rss)" "minSafe \<le> Offset r" for r
    using that del [of r] by (metis UnE leD)
  show ?thesis
  proof (cases "pol_Compact pol")
    case False
    then obtain stats where "sweepPartition rt others ctx pol minSafe now topic (p, d) = (Some stats, q, e)"
      by (simp add: sweepPartition_def ret Let_def)
    then show ?thesis
      by (intro exI conjI ballI impI) (assumption, rule q(1), rule le_supI1 [OF sub], erule (1) keep)
  next
    case True
    let ?c = "concat (butlast (drop n rss))"
    have ne: "drop n rss \<noteq> []" using part_invD(1,2) [OF q(1)] by auto
    have "concat (drop n rss) = concat (butlast (drop n rss) @ [last (drop n rss)])" by (simp only: append_butlast_last_id [OF ne])
    then have split: "concat (drop n rss) = ?c @ last (drop n rss)" by (simp only: concat_append concat.simps append_Nil2)
    have "length ?c \<le> length (concat rss)"
    proof -
      have "length (concat rss) = length (concat (take n rss)) + length (concat (drop n rss))"
        by (metis append_take_drop_id concat_append length_append)
      then show ?thesis using split by simp
    qed
    then have keys: "length (latest_of [] ?c) \<le> maxCompactionKeys"
      using length_latest_le [of "[]" ?c] assms(5) by simp
    have nc: "\<And>i. \<not> ctx i" using assms(4) by blast
    obtain mrss where oth: "others_append others q (drop n rss) mrss" "concat mrss = last (drop n rss) @ new"
      using assms(6) n q ne unfolding writers_append_def by (metis last_drop)
    obtain cs p' d' rss' tl where c: "Compact rt maxCompactionKeys ctx others (q, e) = (Inr cs, p', d')" "part_inv p' d' rss'"
      "concat rss' = filter (newest ?c) ?c @ concat tl" "tl = [last (drop n rss)] \<or> tl = mrss"
      by (rule Compact_ok [where cancelled = ctx, OF assms(1) q nc keys oth(1)])
    obtain more where log: "concat rss' = filter (newest ?c) ?c @ last (drop n rss) @ more" "set more \<subseteq> set new"
      using c(3,4) oth(2) by fastforce
    obtain stats where sweep: "sweepPartition rt others ctx pol minSafe now topic (p, d) = (Some stats, p', d')"
      using True by (simp add: sweepPartition_def ret Let_def c(1))
    have sub2: "set (concat rss') \<subseteq> set (concat (drop n rss)) \<union> set new" unfolding log(1) split using log(2) by auto
    have kept: "r \<in> set (concat rss')" if r: "r \<in> set (concat rss)" "minSafe \<le> Offset r" "newest (concat rss) r" for r
    proof -
      have "newest ?c r" by (rule newest_subset [OF r(3)]) (use sub split in auto)
      moreover have "r \<in> set (?c @ last (drop n rss))" using keep [OF r(1,2)] unfolding split .
      ultimately show ?thesis unfolding log(1) by auto
    qed
    show ?thesis
    proof (intro exI conjI ballI impI)
      show "sweepPartition rt others ctx pol minSafe now topic (p, d) = (Some stats, p', d')" by (rule sweep)
      show "part_inv p' d' rss'" by (rule c(2))
      show "set (concat rss') \<subseteq> set (concat rss) \<union> set new" using sub2 sub by blast
    next
      fix r assume "r \<in> set (concat rss)" "minSafe \<le> Offset r" "\<not> pol_Compact pol \<or> newest (concat rss) r"
      with True show "r \<in> set (concat rss')" by (intro kept) blast+
    qed
  qed
qed

end
