(* ===== verification/Protocol.thy ===== *)
theory Protocol
  imports Raven_Prelude
begin

text \<open>
  The wire protocol (src/internal/broker/protocol): frames, opcodes and error codes,
  the binary payloads of PRODUCE, FETCH and REPLICATE, and record headers as a
  carrier of trace context. The JSON payloads of the control operations are built by
  \<open>encoding/json\<close> and are records here.
\<close>

section \<open>Opcodes and errors\<close>

type_synonym Opcode = "8 word"

definition MaxPayloadSize :: nat where
  "MaxPayloadSize = 4 * 2 ^ 20"

definition headerSize :: nat where
  "headerSize = 4 + 1 + 8"

definition opcodes :: "(Opcode \<times> string) list" where
  "opcodes =
     [(0x00, ''ERROR''), (0x01, ''CREATE_TOPIC''), (0x02, ''LIST_TOPICS''), (0x03, ''PRODUCE''), (0x04, ''FETCH''),
      (0x05, ''COMMIT_OFFSET''), (0x06, ''FETCH_OFFSET''), (0x07, ''JOIN_GROUP''), (0x08, ''LEAVE_GROUP''),
      (0x09, ''HEARTBEAT''), (0x0A, ''AUTH''), (0x0B, ''REPLICATE''), (0x0C, ''REQUEST_VOTE''), (0x0D, ''NODE_PING''),
      (0x0E, ''CLUSTER_STATUS''), (0x0F, ''REASSIGN_PARTITION'')]"

definition hex_digit :: "nat \<Rightarrow> char" where
  "hex_digit n = char_of (if n < 10 then 48 + n else 87 + n)"

definition Opcode_String :: "Opcode \<Rightarrow> string" where
  "Opcode_String c =
     (case map_of opcodes c of
        Some s \<Rightarrow> s
      | None \<Rightarrow> ''UNKNOWN(0x'' @ [hex_digit (unat c div 16), hex_digit (unat c mod 16)] @ '')'')"

datatype error_code =
    CodeBadRequest | CodeUnknownOpcode | CodeTopicExists | CodeTopicNotFound | CodeBrokerBusy | CodeRebalance
  | CodeUnknownMember | CodeOffsetOutOfRange | CodeInternal | CodeUnauthenticated | CodeUnauthorized
  | CodeNotLeader | CodeNotEnoughReplicas | CodeStaleTerm

text \<open>
  A wire error, an error that wraps another one (\<open>fmt.Errorf\<close> with \<open>%w\<close>), or an error of
  another package. \<open>ErrorCode\<close> looks at the outermost error only, \<open>IsCode\<close> unwraps.
\<close>

datatype go_error = WireError error_code | WrappedError go_error | PlainError

definition ErrorCode :: "go_error \<Rightarrow> error_code" where
  "ErrorCode e = (case e of WireError c \<Rightarrow> c | _ \<Rightarrow> CodeInternal)"

fun IsCode :: "go_error \<Rightarrow> error_code \<Rightarrow> bool" where
  "IsCode (WireError c') c = (c' = c)"
| "IsCode (WrappedError e) c = IsCode e c"
| "IsCode PlainError c = False"

section \<open>Frames\<close>

datatype frame_error = ErrFrameTooLarge | ErrEOF | ErrUnexpectedEOF

record Frame =
  f_Opcode :: Opcode
  CorrelationID :: u64
  Payload :: bytes

definition WriteFrame :: "Frame \<Rightarrow> frame_error + bytes" where
  "WriteFrame f =
     (if MaxPayloadSize < length (Payload f) then Inl ErrFrameTooLarge
      else Inr (be_bytes 4 (length (Payload f)) @ [f_Opcode f] @ be_bytes 8 (unat (CorrelationID f)) @ Payload f))"

text \<open>\<open>io.ReadFull\<close> on a stream of which \<open>s\<close> is what the peer sends before it closes.\<close>

definition ReadFull :: "nat \<Rightarrow> bytes \<Rightarrow> frame_error + (bytes \<times> bytes)" where
  "ReadFull n s =
     (if n = 0 then Inr ([], s)
      else if s = [] then Inl ErrEOF
      else if length s < n then Inl ErrUnexpectedEOF
      else Inr (take n s, drop n s))"

definition ReadFrame :: "bytes \<Rightarrow> frame_error + (Frame \<times> bytes)" where
  "ReadFrame s =
     bindS (ReadFull 4 s) (\<lambda>(len, s).
     let payloadLen = Uint32 len in
     if MaxPayloadSize < unat payloadLen then Inl ErrFrameTooLarge
     else bindS (ReadFull (headerSize - 4) s) (\<lambda>(head, s).
          bindS (ReadFull (unat payloadLen) s) (\<lambda>(payload, s).
            Inr (\<lparr>f_Opcode = head ! 0, CorrelationID = Uint64 (drop 1 head), Payload = payload\<rparr>, s))))"

section \<open>Records on the wire\<close>

record wire_Header =
  wh_Key :: string
  wh_Value :: bytes

record Message =
  m_Key :: bytes
  m_Value :: bytes
  m_Headers :: "wire_Header list"

record FetchedMessage =
  fm_Offset :: u64
  fm_Timestamp :: i64
  fm_Key :: bytes
  fm_Value :: bytes
  fm_Headers :: "wire_Header list"

record ProduceRequest =
  pr_Topic :: string
  pr_Partition :: i32
  pr_Records :: "Message list"
  pr_Acks :: byte

definition AcksLeader :: byte where "AcksLeader = 1"

definition AcksAll :: byte where "AcksAll = 2"

record ProduceResult =
  res_Partition :: i32
  res_Offset :: u64

record FetchRequest =
  fr_Topic :: string
  fr_Partition :: i32
  fr_Offset :: u64
  fr_MaxRecords :: u32
  fr_MaxBytes :: u32
  fr_Group :: string
  fr_MemberID :: string
  fr_Generation :: i32

record FetchResponse =
  fp_HighWatermark :: u64
  fp_Records :: "FetchedMessage list"

record ReplicateResponse =
  rp_Status :: byte
  rp_FirstOffset :: u64
  rp_HighWatermark :: u64
  rp_Committed :: u64
  rp_Records :: "FetchedMessage list"

section \<open>Writer\<close>

definition w_shortString :: "bytes \<Rightarrow> string \<Rightarrow> bytes" where
  "w_shortString buf s = AppendUint16 buf (of_nat (length s)) @ bytes_of_string s"

definition w_longBytes :: "bytes \<Rightarrow> bytes \<Rightarrow> bytes" where
  "w_longBytes buf b = AppendUint32 buf (of_nat (length b)) @ b"

definition writeHeader :: "bytes \<Rightarrow> wire_Header \<Rightarrow> bytes" where
  "writeHeader buf h =
     AppendUint16 (AppendUint16 buf (of_nat (length (wh_Key h))) @ bytes_of_string (wh_Key h))
       (of_nat (length (wh_Value h))) @ wh_Value h"

definition writeHeaders :: "bytes \<Rightarrow> wire_Header list \<Rightarrow> bytes" where
  "writeHeaders buf hs = foldl writeHeader (AppendUint16 buf (of_nat (length hs))) hs"

definition writeMessage :: "bytes \<Rightarrow> Message \<Rightarrow> bytes" where
  "writeMessage buf m = writeHeaders (w_longBytes (w_longBytes buf (m_Key m)) (m_Value m)) (m_Headers m)"

definition writeFetched :: "bytes \<Rightarrow> FetchedMessage \<Rightarrow> bytes" where
  "writeFetched buf m =
     writeHeaders (w_longBytes (w_longBytes (AppendUint64 (AppendUint64 buf (fm_Offset m)) (fm_Timestamp m)) (fm_Key m))
       (fm_Value m)) (fm_Headers m)"

definition EncodeProduceRequest :: "ProduceRequest \<Rightarrow> bytes" where
  "EncodeProduceRequest req =
     (let buf = w_shortString [] (pr_Topic req);
          buf = AppendUint32 buf (pr_Partition req);
          buf = AppendUint32 buf (of_nat (length (pr_Records req)));
          buf = foldl writeMessage buf (pr_Records req)
      in if pr_Acks req \<noteq> 0 then buf @ [pr_Acks req] else buf)"

definition EncodeProduceResponse :: "ProduceResult list \<Rightarrow> bytes" where
  "EncodeProduceResponse rs =
     foldl (\<lambda>buf r. AppendUint64 (AppendUint32 buf (res_Partition r)) (res_Offset r)) (AppendUint32 [] (of_nat (length rs))) rs"

definition EncodeFetchRequest :: "FetchRequest \<Rightarrow> bytes" where
  "EncodeFetchRequest req =
     (let buf = w_shortString [] (fr_Topic req);
          buf = AppendUint32 buf (fr_Partition req);
          buf = AppendUint64 buf (fr_Offset req);
          buf = AppendUint32 buf (fr_MaxRecords req);
          buf = AppendUint32 buf (fr_MaxBytes req);
          buf = w_shortString buf (fr_Group req);
          buf = w_shortString buf (fr_MemberID req)
      in AppendUint32 buf (fr_Generation req))"

definition EncodeFetchResponse :: "FetchResponse \<Rightarrow> bytes" where
  "EncodeFetchResponse resp =
     foldl writeFetched (AppendUint32 (AppendUint64 [] (fp_HighWatermark resp)) (of_nat (length (fp_Records resp)))) (fp_Records resp)"

definition EncodeReplicateResponse :: "ReplicateResponse \<Rightarrow> bytes" where
  "EncodeReplicateResponse resp =
     (let buf = [rp_Status resp];
          buf = AppendUint64 buf (rp_FirstOffset resp);
          buf = AppendUint64 buf (rp_HighWatermark resp);
          buf = AppendUint64 buf (rp_Committed resp);
          buf = AppendUint32 buf (of_nat (length (rp_Records resp)))
      in foldl writeFetched buf (rp_Records resp))"

section \<open>Reader\<close>

datatype proto_error = ErrTruncatedPayload | ErrFieldTooLong | ErrBatchTooLarge | ErrEmptyTopic

text \<open>A cursor with a sticky error: after a failed read every later read yields zero values.\<close>

record reader =
  rd_buf :: bytes
  rd_off :: nat
  rd_err :: "proto_error option"

definition newReader :: "bytes \<Rightarrow> reader" where
  "newReader payload = \<lparr>rd_buf = payload, rd_off = 0, rd_err = None\<rparr>"

definition r_take :: "nat \<Rightarrow> reader \<Rightarrow> bytes \<times> reader" where
  "r_take n r =
     (if rd_err r \<noteq> None then ([], r)
      else if length (rd_buf r) - rd_off r < n then ([], r\<lparr>rd_err := Some ErrTruncatedPayload\<rparr>)
      else (take n (drop (rd_off r) (rd_buf r)), r\<lparr>rd_off := rd_off r + n\<rparr>))"

definition r_u16 :: "reader \<Rightarrow> u16 \<times> reader" where
  "r_u16 r = (case r_take 2 r of (b, r) \<Rightarrow> (if b = [] then 0 else Uint16 b, r))"

definition r_u32 :: "reader \<Rightarrow> u32 \<times> reader" where
  "r_u32 r = (case r_take 4 r of (b, r) \<Rightarrow> (if b = [] then 0 else Uint32 b, r))"

definition r_u64 :: "reader \<Rightarrow> u64 \<times> reader" where
  "r_u64 r = (case r_take 8 r of (b, r) \<Rightarrow> (if b = [] then 0 else Uint64 b, r))"

definition r_shortString :: "reader \<Rightarrow> string \<times> reader" where
  "r_shortString r = (case r_u16 r of (n, r) \<Rightarrow> case r_take (unat n) r of (b, r) \<Rightarrow> (string_of_bytes b, r))"

definition r_longBytes :: "reader \<Rightarrow> bytes \<times> reader" where
  "r_longBytes r =
     (case r_u32 r of (n, r) \<Rightarrow>
        if rd_err r \<noteq> None then ([], r)
        else if length (rd_buf r) - rd_off r < unat n then ([], r\<lparr>rd_err := Some ErrFieldTooLong\<rparr>)
        else r_take (unat n) r)"

definition readHeader :: "reader \<Rightarrow> reader + (wire_Header \<times> reader)" where
  "readHeader r =
     (case r_u16 r of (kn, r) \<Rightarrow> case r_take (unat kn) r of (k, r) \<Rightarrow>
      case r_u16 r of (vn, r) \<Rightarrow> case r_take (unat vn) r of (v, r) \<Rightarrow>
        if rd_err r \<noteq> None then Inl r
        else Inr (\<lparr>wh_Key = string_of_bytes k, wh_Value = v\<rparr>, r))"

definition r_headers :: "reader \<Rightarrow> wire_Header list \<times> reader" where
  "r_headers r =
     (if rd_err r \<noteq> None then ([], r)
      else case r_u16 r of (n, r) \<Rightarrow>
        if n = 0 then ([], r)
        else (case repeatS readHeader (unat n) r of Inl r \<Rightarrow> ([], r) | Inr (hs, r) \<Rightarrow> (hs, r)))"

definition readMessage :: "reader \<Rightarrow> proto_error + (Message \<times> reader)" where
  "readMessage r =
     (case r_longBytes r of (k, r) \<Rightarrow> case r_longBytes r of (v, r) \<Rightarrow> case r_headers r of (hs, r) \<Rightarrow>
        case rd_err r of Some e \<Rightarrow> Inl e | None \<Rightarrow> Inr (\<lparr>m_Key = k, m_Value = v, m_Headers = hs\<rparr>, r))"

definition readFetched :: "reader \<Rightarrow> proto_error + (FetchedMessage \<times> reader)" where
  "readFetched r =
     (case r_u64 r of (off, r) \<Rightarrow> case r_u64 r of (ts, r) \<Rightarrow>
      case r_longBytes r of (k, r) \<Rightarrow> case r_longBytes r of (v, r) \<Rightarrow> case r_headers r of (hs, r) \<Rightarrow>
        case rd_err r of
          Some e \<Rightarrow> Inl e
        | None \<Rightarrow> Inr (\<lparr>fm_Offset = off, fm_Timestamp = ts, fm_Key = k, fm_Value = v, fm_Headers = hs\<rparr>, r))"

definition readResult :: "reader \<Rightarrow> proto_error + (ProduceResult \<times> reader)" where
  "readResult r =
     (case r_u32 r of (p, r) \<Rightarrow> case r_u64 r of (off, r) \<Rightarrow>
        case rd_err r of Some e \<Rightarrow> Inl e | None \<Rightarrow> Inr (\<lparr>res_Partition = p, res_Offset = off\<rparr>, r))"

text \<open>The counted list all the batch payloads end with.\<close>

definition readBatch :: "(reader \<Rightarrow> proto_error + ('a \<times> reader)) \<Rightarrow> u32 \<Rightarrow> reader \<Rightarrow> proto_error + ('a list \<times> reader)" where
  "readBatch rd n r =
     (case rd_err r of
        Some e \<Rightarrow> Inl e
      | None \<Rightarrow> if 2 ^ 20 < unat n then Inl ErrBatchTooLarge else repeatS rd (unat n) r)"

definition DecodeProduceRequest :: "bytes \<Rightarrow> proto_error + ProduceRequest" where
  "DecodeProduceRequest payload =
     (case r_shortString (newReader payload) of (topic, r) \<Rightarrow> case r_u32 r of (part, r) \<Rightarrow> case r_u32 r of (n, r) \<Rightarrow>
      bindS (readBatch readMessage n r) (\<lambda>(recs, r).
        let acks = (if rd_off r < length (rd_buf r) then hd (fst (r_take 1 r)) else 0) in
        if topic = [] then Inl ErrEmptyTopic
        else Inr \<lparr>pr_Topic = topic, pr_Partition = part, pr_Records = recs, pr_Acks = acks\<rparr>))"

definition DecodeProduceResponse :: "bytes \<Rightarrow> proto_error + ProduceResult list" where
  "DecodeProduceResponse payload =
     (case r_u32 (newReader payload) of (n, r) \<Rightarrow> bindS (readBatch readResult n r) (\<lambda>(rs, r). Inr rs))"

definition DecodeFetchRequest :: "bytes \<Rightarrow> proto_error + FetchRequest" where
  "DecodeFetchRequest payload =
     (case r_shortString (newReader payload) of (topic, r) \<Rightarrow> case r_u32 r of (part, r) \<Rightarrow> case r_u64 r of (off, r) \<Rightarrow>
      case r_u32 r of (mr, r) \<Rightarrow> case r_u32 r of (mb, r) \<Rightarrow> case r_shortString r of (grp, r) \<Rightarrow>
      case r_shortString r of (mem, r) \<Rightarrow> case r_u32 r of (gen, r) \<Rightarrow>
        case rd_err r of
          Some e \<Rightarrow> Inl e
        | None \<Rightarrow>
            if topic = [] then Inl ErrEmptyTopic
            else Inr \<lparr>fr_Topic = topic, fr_Partition = part, fr_Offset = off, fr_MaxRecords = mr, fr_MaxBytes = mb,
                      fr_Group = grp, fr_MemberID = mem, fr_Generation = gen\<rparr>)"

definition DecodeFetchResponse :: "bytes \<Rightarrow> proto_error + FetchResponse" where
  "DecodeFetchResponse payload =
     (case r_u64 (newReader payload) of (hw, r) \<Rightarrow> case r_u32 r of (n, r) \<Rightarrow>
      bindS (readBatch readFetched n r) (\<lambda>(recs, r). Inr \<lparr>fp_HighWatermark = hw, fp_Records = recs\<rparr>))"

definition DecodeReplicateResponse :: "bytes \<Rightarrow> proto_error + ReplicateResponse" where
  "DecodeReplicateResponse payload =
     (case r_take 1 (newReader payload) of (status, r) \<Rightarrow>
        if status = [] then Inl (the (rd_err r))
        else case r_u64 r of (first, r) \<Rightarrow> case r_u64 r of (hw, r) \<Rightarrow> case r_u64 r of (com, r) \<Rightarrow> case r_u32 r of (n, r) \<Rightarrow>
          bindS (readBatch readFetched n r) (\<lambda>(recs, r).
            Inr \<lparr>rp_Status = hd status, rp_FirstOffset = first, rp_HighWatermark = hw, rp_Committed = com, rp_Records = recs\<rparr>))"

section \<open>Headers as a carrier\<close>

definition foldASCII :: "char \<Rightarrow> nat" where
  "foldASCII c = (let n = of_char c in if 65 \<le> n \<and> n \<le> 90 then n + 32 else n)"

definition equalFoldASCII :: "string \<Rightarrow> string \<Rightarrow> bool" where
  "equalFoldASCII a b \<longleftrightarrow> list_all2 (\<lambda>x y. foldASCII x = foldASCII y) a (take (length a) b)"

definition sameKey :: "string \<Rightarrow> wire_Header \<Rightarrow> bool" where
  "sameKey key h \<longleftrightarrow> length (wh_Key h) = length key \<and> equalFoldASCII (wh_Key h) key"

fun carrier_Get :: "wire_Header list \<Rightarrow> string \<Rightarrow> bytes" where
  "carrier_Get [] key = []"
| "carrier_Get (h # hs) key = (if sameKey key h then wh_Value h else carrier_Get hs key)"

fun carrier_Set :: "wire_Header list \<Rightarrow> string \<Rightarrow> bytes \<Rightarrow> wire_Header list" where
  "carrier_Set [] key v = [\<lparr>wh_Key = key, wh_Value = v\<rparr>]"
| "carrier_Set (h # hs) key v = (if sameKey key h then h\<lparr>wh_Value := v\<rparr> # hs else h # carrier_Set hs key v)"

definition carrier_Keys :: "wire_Header list \<Rightarrow> string list" where
  "carrier_Keys hs = map wh_Key hs"

section \<open>Reading back what was written\<close>

definition at :: "bytes \<Rightarrow> bytes \<Rightarrow> reader" where
  "at pre c = \<lparr>rd_buf = pre @ c, rd_off = length pre, rd_err = None\<rparr>"

definition ahead :: "reader \<Rightarrow> bytes \<Rightarrow> bool" where
  "ahead r c \<longleftrightarrow> (\<exists>pre. r = at pre c)"

lemma newReader_at: "newReader b = at [] b"
  by (simp add: newReader_def at_def)

lemma at_fields [simp]: "rd_err (at pre c) = None" "rd_buf (at pre c) = pre @ c" "rd_off (at pre c) = length pre"
  by (simp_all add: at_def)

lemma r_take_at: "length xs = n \<Longrightarrow> r_take n (at pre (xs @ c)) = (xs, at (pre @ xs) c)"
  by (simp add: r_take_def at_def)

lemma unat_of_nat_le: "n < 2 ^ LENGTH('a :: len) \<Longrightarrow> unat (of_nat n :: 'a word) = n"
  by (simp add: unat_of_nat)

lemma r_ints_at [simp]:
  "r_u16 (at pre (be_bytes 2 (unat a) @ c)) = (a, at (pre @ be_bytes 2 (unat a)) c)"
  "r_u32 (at pre (be_bytes 4 (unat b) @ c)) = (b, at (pre @ be_bytes 4 (unat b)) c)"
  "r_u64 (at pre (be_bytes 8 (unat e) @ c)) = (e, at (pre @ be_bytes 8 (unat e)) c)"
proof -
  have ne: "0 < k \<Longrightarrow> be_bytes k n \<noteq> []" for k n by (metis length_be_bytes list.size(3) less_irrefl)
  have tk: "r_take k (at pre (be_bytes k n @ c)) = (be_bytes k n, at (pre @ be_bytes k n) c)" for k n
    by (rule r_take_at) simp
  show "r_u16 (at pre (be_bytes 2 (unat a) @ c)) = (a, at (pre @ be_bytes 2 (unat a)) c)"
    unfolding r_u16_def tk prod.case using ne [of 2 "unat a"] Uint16_be_bytes [of "unat a" "[]"] by (simp del: be_bytes.simps)
  show "r_u32 (at pre (be_bytes 4 (unat b) @ c)) = (b, at (pre @ be_bytes 4 (unat b)) c)"
    unfolding r_u32_def tk prod.case using ne [of 4 "unat b"] Uint32_be_bytes [of "unat b" "[]"] by (simp del: be_bytes.simps)
  show "r_u64 (at pre (be_bytes 8 (unat e) @ c)) = (e, at (pre @ be_bytes 8 (unat e)) c)"
    unfolding r_u64_def tk prod.case using ne [of 8 "unat e"] Uint64_be_bytes [of "unat e" "[]"] by (simp del: be_bytes.simps)
qed

definition enc_short :: "string \<Rightarrow> bytes" where
  "enc_short s = be_bytes 2 (unat (of_nat (length s) :: u16)) @ bytes_of_string s"

definition enc_long :: "bytes \<Rightarrow> bytes" where
  "enc_long b = be_bytes 4 (unat (of_nat (length b) :: u32)) @ b"

lemma r_shortString_at [simp]:
  assumes "length s < 2 ^ 16"
  shows "r_shortString (at pre (enc_short s @ c)) = (s, at (pre @ enc_short s) c)"
proof -
  have n: "length (bytes_of_string s) = unat (of_nat (length s) :: u16)"
    using unat_of_nat_le [of "length s", where 'a = 16] assms by simp
  show ?thesis
    unfolding r_shortString_def enc_short_def append_assoc r_ints_at prod.case r_take_at [OF n] by simp
qed

lemma r_longBytes_at [simp]:
  assumes "length b < 2 ^ 32"
  shows "r_longBytes (at pre (enc_long b @ c)) = (b, at (pre @ enc_long b) c)"
proof -
  have n: "length b = unat (of_nat (length b) :: u32)"
    using unat_of_nat_le [of "length b", where 'a = 32] assms by simp
  then have "\<not> length (rd_buf (at (pre @ be_bytes 4 (unat (of_nat (length b) :: u32))) (b @ c))) -
      rd_off (at (pre @ be_bytes 4 (unat (of_nat (length b) :: u32))) (b @ c)) < unat (of_nat (length b) :: u32)" by simp
  then show ?thesis
    unfolding r_longBytes_def enc_long_def append_assoc r_ints_at prod.case r_take_at [OF n] by simp
qed

definition enc_hdr :: "wire_Header \<Rightarrow> bytes" where
  "enc_hdr h = enc_short (wh_Key h) @ be_bytes 2 (unat (of_nat (length (wh_Value h)) :: u16)) @ wh_Value h"

definition valid_hdr :: "wire_Header \<Rightarrow> bool" where
  "valid_hdr h \<longleftrightarrow> length (wh_Key h) < 2 ^ 16 \<and> length (wh_Value h) < 2 ^ 16"

lemma readHeader_at:
  assumes "valid_hdr h"
  shows "readHeader (at pre (enc_hdr h @ c)) = Inr (h, at (pre @ enc_hdr h) c)"
proof -
  have n: "unat (of_nat (length (wh_Key h)) :: u16) = length (bytes_of_string (wh_Key h))"
    "unat (of_nat (length (wh_Value h)) :: u16) = length (wh_Value h)"
    using assms unat_of_nat_le [of "length (wh_Key h)", where 'a = 16] unat_of_nat_le [of "length (wh_Value h)", where 'a = 16]
    by (simp_all add: valid_hdr_def)
  show ?thesis
    unfolding readHeader_def enc_hdr_def enc_short_def append_assoc r_ints_at prod.case
    by (simp add: r_take_at [OF n(1) [symmetric]] r_take_at [OF n(2) [symmetric]] del: length_bytes_of_string)
qed

interpretation header_codec: counted_codec ahead enc_hdr readHeader valid_hdr
proof
  fix x r c assume "valid_hdr x" "ahead r (enc_hdr x @ c)"
  then show "\<exists>r'. readHeader r = Inr (x, r') \<and> ahead r' c"
    unfolding ahead_def using readHeader_at by blast
qed

definition enc_hdrs :: "wire_Header list \<Rightarrow> bytes" where
  "enc_hdrs hs = be_bytes 2 (unat (of_nat (length hs) :: u16)) @ concat (map enc_hdr hs)"

definition valid_hdrs :: "wire_Header list \<Rightarrow> bool" where
  "valid_hdrs hs \<longleftrightarrow> length hs < 2 ^ 16 \<and> list_all valid_hdr hs"

lemma r_headers_at:
  assumes "valid_hdrs hs" and "ahead r (enc_hdrs hs @ c)"
  shows "\<exists>r'. r_headers r = (hs, r') \<and> ahead r' c"
proof -
  obtain pre where r: "r = at pre (enc_hdrs hs @ c)" using assms(2) by (auto simp: ahead_def)
  let ?n = "of_nat (length hs) :: u16"
  have n: "unat ?n = length hs" using assms(1) unat_of_nat_le [of "length hs", where 'a = 16] by (simp add: valid_hdrs_def)
  define r1 where "r1 = at (pre @ be_bytes 2 (unat ?n)) (concat (map enc_hdr hs) @ c)"
  have u: "r_u16 r = (?n, r1)" by (simp add: r enc_hdrs_def r1_def)
  have "ahead r1 (concat (map enc_hdr hs) @ c)" by (auto simp: r1_def ahead_def)
  then obtain r' where r': "repeatS readHeader (length hs) r1 = Inr (hs, r')" "ahead r' c"
    using header_codec.repeatS_enc [of hs r1 c] assms(1) unfolding valid_hdrs_def by blast
  have z: "?n = 0 \<longleftrightarrow> hs = []" using n by (metis length_0_conv unsigned_0 word_unat_eq_iff)
  show ?thesis
  proof (cases "hs = []")
    case True
    then show ?thesis using u z r' by (simp add: r_headers_def r)
  next
    case False
    then have "r_headers r = (hs, r')" using u z n r'(1) by (simp add: r_headers_def r)
    then show ?thesis using r'(2) by blast
  qed
qed

lemma ahead_at: "ahead (at pre c) c"
  by (auto simp: ahead_def)

lemma ahead_ok: "ahead r c \<Longrightarrow> rd_err r = None"
  by (auto simp: ahead_def)

definition enc_msg :: "Message \<Rightarrow> bytes" where
  "enc_msg m = enc_long (m_Key m) @ enc_long (m_Value m) @ enc_hdrs (m_Headers m)"

definition valid_msg :: "Message \<Rightarrow> bool" where
  "valid_msg m \<longleftrightarrow> length (m_Key m) < 2 ^ 32 \<and> length (m_Value m) < 2 ^ 32 \<and> valid_hdrs (m_Headers m)"

interpretation message_codec: counted_codec ahead enc_msg readMessage valid_msg
proof
  fix x r c assume v: "valid_msg x" and a: "ahead r (enc_msg x @ c)"
  then obtain pre where r: "r = at pre (enc_long (m_Key x) @ enc_long (m_Value x) @ enc_hdrs (m_Headers x) @ c)"
    by (auto simp: ahead_def enc_msg_def)
  define r2 where "r2 = at ((pre @ enc_long (m_Key x)) @ enc_long (m_Value x)) (enc_hdrs (m_Headers x) @ c)"
  obtain r' where "r_headers r2 = (m_Headers x, r')" "ahead r' c"
    using r_headers_at [of "m_Headers x" r2 c] v ahead_at by (auto simp: valid_msg_def r2_def)
  then show "\<exists>r'. readMessage r = Inr (x, r') \<and> ahead r' c"
    using v ahead_ok by (simp add: readMessage_def r valid_msg_def r2_def)
qed

definition enc_fetched :: "FetchedMessage \<Rightarrow> bytes" where
  "enc_fetched m = be_bytes 8 (unat (fm_Offset m)) @ be_bytes 8 (unat (fm_Timestamp m)) @
     enc_long (fm_Key m) @ enc_long (fm_Value m) @ enc_hdrs (fm_Headers m)"

definition valid_fetched :: "FetchedMessage \<Rightarrow> bool" where
  "valid_fetched m \<longleftrightarrow> length (fm_Key m) < 2 ^ 32 \<and> length (fm_Value m) < 2 ^ 32 \<and> valid_hdrs (fm_Headers m)"

interpretation fetched_codec: counted_codec ahead enc_fetched readFetched valid_fetched
proof
  fix x r c assume v: "valid_fetched x" and a: "ahead r (enc_fetched x @ c)"
  then obtain pre where r: "r = at pre (be_bytes 8 (unat (fm_Offset x)) @ be_bytes 8 (unat (fm_Timestamp x)) @
      enc_long (fm_Key x) @ enc_long (fm_Value x) @ enc_hdrs (fm_Headers x) @ c)"
    by (auto simp: ahead_def enc_fetched_def)
  define r2 where "r2 = at ((((pre @ be_bytes 8 (unat (fm_Offset x))) @ be_bytes 8 (unat (fm_Timestamp x))) @
    enc_long (fm_Key x)) @ enc_long (fm_Value x)) (enc_hdrs (fm_Headers x) @ c)"
  obtain r' where "r_headers r2 = (fm_Headers x, r')" "ahead r' c"
    using r_headers_at [of "fm_Headers x" r2 c] v ahead_at by (auto simp: valid_fetched_def r2_def)
  then show "\<exists>r'. readFetched r = Inr (x, r') \<and> ahead r' c"
    using v ahead_ok by (simp add: readFetched_def r valid_fetched_def r2_def)
qed

definition enc_result :: "ProduceResult \<Rightarrow> bytes" where
  "enc_result x = be_bytes 4 (unat (res_Partition x)) @ be_bytes 8 (unat (res_Offset x))"

interpretation result_codec: counted_codec ahead enc_result readResult "\<lambda>_. True"
proof
  fix x r c assume "ahead r (enc_result x @ c)"
  then obtain pre where "r = at pre (be_bytes 4 (unat (res_Partition x)) @ be_bytes 8 (unat (res_Offset x)) @ c)"
    by (auto simp: ahead_def enc_result_def)
  then show "\<exists>r'. readResult r = Inr (x, r') \<and> ahead r' c"
    by (simp add: readResult_def) (rule ahead_at)
qed

lemma foldl_append: "(\<And>buf x. w buf x = buf @ e x) \<Longrightarrow> foldl w buf xs = buf @ concat (map e xs)"
  by (induction xs arbitrary: buf) simp_all

lemma writers:
  "w_shortString buf s = buf @ enc_short s" "w_longBytes buf b = buf @ enc_long b" "writeHeader buf h = buf @ enc_hdr h"
  by (simp_all add: w_shortString_def enc_short_def AppendUint16_def w_longBytes_def enc_long_def AppendUint32_def
      writeHeader_def enc_hdr_def)

lemma writeHeaders_eq: "writeHeaders buf hs = buf @ enc_hdrs hs"
  using foldl_append [of writeHeader enc_hdr] by (simp add: writeHeaders_def enc_hdrs_def AppendUint16_def writers)

lemma write_records:
  "writeMessage buf m = buf @ enc_msg m" "writeFetched buf f = buf @ enc_fetched f"
  by (simp_all add: writeMessage_def enc_msg_def writeHeaders_eq writers writeFetched_def enc_fetched_def AppendUint64_def)

lemma readBatch_ok:
  assumes codec: "counted_codec ahead e rd valid" and v: "list_all valid xs" and len: "length xs \<le> 2 ^ 20"
    and a: "ahead r (concat (map e xs) @ c)"
  shows "\<exists>r'. readBatch rd (of_nat (length xs)) r = Inr (xs, r') \<and> ahead r' c"
proof -
  have "unat (of_nat (length xs) :: u32) = length xs" using len unat_of_nat_le [of "length xs", where 'a = 32] by simp
  then show ?thesis
    using counted_codec.repeatS_enc [OF codec v a] len ahead_ok [OF a] by (simp add: readBatch_def)
qed

lemmas codecs = message_codec.counted_codec_axioms fetched_codec.counted_codec_axioms result_codec.counted_codec_axioms

definition valid_produce :: "ProduceRequest \<Rightarrow> bool" where
  "valid_produce req \<longleftrightarrow> pr_Topic req \<noteq> [] \<and> length (pr_Topic req) < 2 ^ 16 \<and> length (pr_Records req) \<le> 2 ^ 20 \<and>
     list_all valid_msg (pr_Records req)"

definition valid_fetch :: "FetchRequest \<Rightarrow> bool" where
  "valid_fetch req \<longleftrightarrow> fr_Topic req \<noteq> [] \<and> length (fr_Topic req) < 2 ^ 16 \<and> length (fr_Group req) < 2 ^ 16 \<and>
     length (fr_MemberID req) < 2 ^ 16"

definition valid_batch :: "FetchedMessage list \<Rightarrow> bool" where
  "valid_batch rs \<longleftrightarrow> length rs \<le> 2 ^ 20 \<and> list_all valid_fetched rs"

lemma produce_roundtrip:
  assumes "valid_produce req"
  shows "DecodeProduceRequest (EncodeProduceRequest req) = Inr req"
proof -
  let ?t = "if pr_Acks req \<noteq> 0 then [pr_Acks req] else []" and ?ms = "pr_Records req"
  have enc: "EncodeProduceRequest req = enc_short (pr_Topic req) @ be_bytes 4 (unat (pr_Partition req)) @
      be_bytes 4 (unat (of_nat (length ?ms) :: u32)) @ concat (map enc_msg ?ms) @ ?t"
    using foldl_append [of writeMessage enc_msg] by (simp add: EncodeProduceRequest_def Let_def writers write_records AppendUint32_def)
  define r where "r = at (((([] :: bytes) @ enc_short (pr_Topic req)) @ be_bytes 4 (unat (pr_Partition req))) @
      be_bytes 4 (unat (of_nat (length ?ms) :: u32))) (concat (map enc_msg ?ms) @ ?t)"
  obtain r' where r': "readBatch readMessage (of_nat (length ?ms)) r = Inr (?ms, r')" "ahead r' ?t"
    using readBatch_ok [OF codecs(1), of ?ms r ?t] assms ahead_at by (auto simp: valid_produce_def r_def)
  have "length (pr_Topic req) < 2 ^ 16" using assms by (simp add: valid_produce_def)
  then have "DecodeProduceRequest (EncodeProduceRequest req) = bindS (readBatch readMessage (of_nat (length ?ms)) r) (\<lambda>(recs, r).
        let acks = (if rd_off r < length (rd_buf r) then hd (fst (r_take 1 r)) else 0) in
        if pr_Topic req = [] then Inl ErrEmptyTopic
        else Inr \<lparr>pr_Topic = pr_Topic req, pr_Partition = pr_Partition req, pr_Records = recs, pr_Acks = acks\<rparr>)"
    unfolding DecodeProduceRequest_def enc newReader_at r_def
    by (simp only: r_shortString_at r_ints_at prod.case)
  moreover obtain pre where p: "r' = at pre ?t" using r'(2) by (auto simp: ahead_def)
  moreover have "hd (fst (r_take 1 (at pre [a]))) = a" for a using r_take_at [of "[a]" 1 pre "[]"] by simp
  ultimately show ?thesis using r'(1) assms by (auto simp: Let_def valid_produce_def)
qed

lemma fetch_request_roundtrip:
  assumes "valid_fetch req"
  shows "DecodeFetchRequest (EncodeFetchRequest req) = Inr req"
proof -
  have enc: "EncodeFetchRequest req = enc_short (fr_Topic req) @ be_bytes 4 (unat (fr_Partition req)) @ be_bytes 8 (unat (fr_Offset req)) @
      be_bytes 4 (unat (fr_MaxRecords req)) @ be_bytes 4 (unat (fr_MaxBytes req)) @ enc_short (fr_Group req) @ enc_short (fr_MemberID req) @
      be_bytes 4 (unat (fr_Generation req)) @ []"
    by (simp add: EncodeFetchRequest_def Let_def writers AppendUint32_def AppendUint64_def)
  have "length (fr_Topic req) < 2 ^ 16" "length (fr_Group req) < 2 ^ 16" "length (fr_MemberID req) < 2 ^ 16" "fr_Topic req \<noteq> []"
    using assms by (simp_all add: valid_fetch_def)
  then show ?thesis
    unfolding DecodeFetchRequest_def enc newReader_at
    by (simp only: r_shortString_at r_ints_at prod.case at_fields option.case if_False) simp
qed

lemma fetch_response_roundtrip:
  assumes "valid_batch (fp_Records resp)"
  shows "DecodeFetchResponse (EncodeFetchResponse resp) = Inr resp"
proof -
  let ?ms = "fp_Records resp"
  have enc: "EncodeFetchResponse resp = be_bytes 8 (unat (fp_HighWatermark resp)) @ be_bytes 4 (unat (of_nat (length ?ms) :: u32)) @
      concat (map enc_fetched ?ms) @ []"
    using foldl_append [of writeFetched enc_fetched] by (simp add: EncodeFetchResponse_def write_records AppendUint32_def AppendUint64_def)
  define r where "r = at ((([] :: bytes) @ be_bytes 8 (unat (fp_HighWatermark resp))) @
      be_bytes 4 (unat (of_nat (length ?ms) :: u32))) (concat (map enc_fetched ?ms) @ [])"
  obtain r' where "readBatch readFetched (of_nat (length ?ms)) r = Inr (?ms, r')"
    using readBatch_ok [OF codecs(2), of ?ms r "[]"] assms ahead_at by (auto simp: valid_batch_def r_def)
  then show ?thesis
    unfolding DecodeFetchResponse_def enc newReader_at r_ints_at prod.case r_def [symmetric] by simp
qed

lemma replicate_roundtrip:
  assumes "valid_batch (rp_Records resp)"
  shows "DecodeReplicateResponse (EncodeReplicateResponse resp) = Inr resp"
proof -
  let ?ms = "rp_Records resp"
  have enc: "EncodeReplicateResponse resp = [rp_Status resp] @ be_bytes 8 (unat (rp_FirstOffset resp)) @ be_bytes 8 (unat (rp_HighWatermark resp)) @
      be_bytes 8 (unat (rp_Committed resp)) @ be_bytes 4 (unat (of_nat (length ?ms) :: u32)) @ concat (map enc_fetched ?ms) @ []"
    using foldl_append [of writeFetched enc_fetched]
    by (simp add: EncodeReplicateResponse_def Let_def write_records AppendUint32_def AppendUint64_def)
  define r where "r = at (((((([] :: bytes) @ [rp_Status resp]) @ be_bytes 8 (unat (rp_FirstOffset resp))) @ be_bytes 8 (unat (rp_HighWatermark resp))) @
      be_bytes 8 (unat (rp_Committed resp))) @ be_bytes 4 (unat (of_nat (length ?ms) :: u32))) (concat (map enc_fetched ?ms) @ [])"
  obtain r' where "readBatch readFetched (of_nat (length ?ms)) r = Inr (?ms, r')"
    using readBatch_ok [OF codecs(2), of ?ms r "[]"] assms ahead_at by (auto simp: valid_batch_def r_def)
  moreover have t: "r_take 1 (at pre ([rp_Status resp] @ c)) = ([rp_Status resp], at (pre @ [rp_Status resp]) c)" for pre c
    by (rule r_take_at) simp
  ultimately show ?thesis
    unfolding DecodeReplicateResponse_def enc newReader_at t r_ints_at prod.case r_def [symmetric] by simp
qed

lemma result_roundtrip:
  assumes "length rs \<le> 2 ^ 20"
  shows "DecodeProduceResponse (EncodeProduceResponse rs) = Inr rs"
proof -
  have enc: "EncodeProduceResponse rs = be_bytes 4 (unat (of_nat (length rs) :: u32)) @ concat (map enc_result rs) @ []"
    using foldl_append [of "\<lambda>buf r. AppendUint64 (AppendUint32 buf (res_Partition r)) (res_Offset r)" enc_result]
    by (simp add: EncodeProduceResponse_def AppendUint32_def AppendUint64_def enc_result_def)
  define r where "r = at (([] :: bytes) @ be_bytes 4 (unat (of_nat (length rs) :: u32))) (concat (map enc_result rs) @ [])"
  obtain r' where "readBatch readResult (of_nat (length rs)) r = Inr (rs, r')"
    using readBatch_ok [OF codecs(3), of rs r "[]"] assms ahead_at by (auto simp: r_def list_all_iff)
  then show ?thesis
    unfolding DecodeProduceResponse_def enc newReader_at r_ints_at prod.case r_def [symmetric] by simp
qed

definition frame_head :: "Frame \<Rightarrow> bytes" where
  "frame_head f = [f_Opcode f] @ be_bytes 8 (unat (CorrelationID f))"

definition frame_bytes :: "Frame \<Rightarrow> bytes" where
  "frame_bytes f = be_bytes 4 (length (Payload f)) @ frame_head f @ Payload f"

lemma frame_head_length [simp]: "length (frame_head f) = 9"
  by (simp add: frame_head_def)

lemma frame_length: "length (frame_bytes f) = headerSize + length (Payload f)"
  by (simp add: frame_bytes_def headerSize_def)

lemma frame_written:
  assumes "length (Payload f) \<le> MaxPayloadSize"
  shows "WriteFrame f = Inr (frame_bytes f)"
  using assms by (simp add: WriteFrame_def frame_bytes_def frame_head_def)

lemma ReadFull_exact [simp]: "length xs = n \<Longrightarrow> ReadFull n (xs @ s) = Inr (xs, s)"
  by (auto simp: ReadFull_def)

lemma ReadFull_short: "length s < n \<Longrightarrow> \<exists>e. ReadFull n s = Inl e"
  by (auto simp: ReadFull_def)

lemma frame_size_word:
  "n < 2 ^ 32 \<Longrightarrow> unat (Uint32 (be_bytes 4 n)) = n"
  using Uint32_be_bytes [of n "[]"] unat_of_nat_le [of n, where 'a = 32] by (simp del: be_bytes.simps)

lemma ReadFrame_oversized:
  "MaxPayloadSize < n \<Longrightarrow> n < 2 ^ 32 \<Longrightarrow> ReadFrame (be_bytes 4 n @ rest) = Inl ErrFrameTooLarge"
  by (simp add: ReadFrame_def frame_size_word del: be_bytes.simps)

lemma ReadFrame_sized:
  assumes "length p \<le> MaxPayloadSize"
  shows "ReadFrame (be_bytes 4 (length p) @ s) = bindS (ReadFull 9 s) (\<lambda>(hdr, stream).
           bindS (ReadFull (length p) stream) (\<lambda>(payload, stream).
             Inr (\<lparr>f_Opcode = hdr ! 0, CorrelationID = Uint64 (drop 1 hdr), Payload = payload\<rparr>, stream)))"
  using assms by (simp add: ReadFrame_def frame_size_word MaxPayloadSize_def headerSize_def Let_def del: be_bytes.simps)

lemma frame_read:
  assumes "length (Payload f) \<le> MaxPayloadSize"
  shows "ReadFrame (frame_bytes f @ s) = Inr (f, s)"
proof -
  have "\<lparr>f_Opcode = frame_head f ! 0, CorrelationID = Uint64 (drop 1 (frame_head f)), Payload = Payload f\<rparr> = f"
    using Uint64_be_bytes [of "unat (CorrelationID f)" "[]"] by (simp add: frame_head_def del: be_bytes.simps)
  then show ?thesis by (simp add: frame_bytes_def ReadFrame_sized [OF assms] del: be_bytes.simps)
qed

lemma frame_cut:
  assumes p: "length (Payload f) \<le> MaxPayloadSize" and k: "k < headerSize + length (Payload f)"
  shows "\<exists>e. ReadFrame (take k (frame_bytes f)) = Inl e"
proof -
  let ?n = "length (Payload f)"
  consider "k < 4" | "4 \<le> k" "k < 13" | "13 \<le> k" by linarith
  then show ?thesis
  proof cases
    case 1
    then obtain e where "ReadFull 4 (take k (frame_bytes f)) = Inl e" using ReadFull_short by fastforce
    then show ?thesis by (simp add: ReadFrame_def)
  next
    case 2
    then have t: "take k (frame_bytes f) = be_bytes 4 ?n @ take (k - 4) (frame_head f)"
      by (simp add: frame_bytes_def del: be_bytes.simps)
    have "length (take (k - 4) (frame_head f)) < 9" using 2 by simp
    then obtain e where "ReadFull 9 (take (k - 4) (frame_head f)) = Inl e" using ReadFull_short by blast
    then show ?thesis by (simp add: t ReadFrame_sized [OF p] del: be_bytes.simps)
  next
    case 3
    then have t: "take k (frame_bytes f) = be_bytes 4 ?n @ frame_head f @ take (k - 13) (Payload f)"
      by (simp add: frame_bytes_def del: be_bytes.simps)
    have "length (take (k - 13) (Payload f)) < ?n" using k 3 by (simp add: headerSize_def)
    then obtain e where "ReadFull ?n (take (k - 13) (Payload f)) = Inl e" using ReadFull_short by blast
    then show ?thesis by (simp add: t ReadFrame_sized [OF p] del: be_bytes.simps)
  qed
qed

section \<open>Properties of the protocol\<close>

text \<open>
  Property C18. Every binary payload round-trips: what one side encodes within the limits of the length
  fields the other side decodes to the same request or response, for PRODUCE (with
  and without the trailing acks byte), FETCH and REPLICATE.
\<close>

theorem payload_roundtrip:
  "(valid_produce preq \<longrightarrow> DecodeProduceRequest (EncodeProduceRequest preq) = Inr preq) \<and>
   (length results \<le> 2 ^ 20 \<longrightarrow> DecodeProduceResponse (EncodeProduceResponse results) = Inr results) \<and>
   (valid_fetch freq \<longrightarrow> DecodeFetchRequest (EncodeFetchRequest freq) = Inr freq) \<and>
   (valid_batch (fp_Records fresp) \<longrightarrow> DecodeFetchResponse (EncodeFetchResponse fresp) = Inr fresp) \<and>
   (valid_batch (rp_Records rresp) \<longrightarrow> DecodeReplicateResponse (EncodeReplicateResponse rresp) = Inr rresp)"
  using produce_roundtrip result_roundtrip fetch_request_roundtrip fetch_response_roundtrip replicate_roundtrip by blast

definition sample_produce :: ProduceRequest where
  "sample_produce = \<lparr>pr_Topic = ''jobs'', pr_Partition = - 1,
     pr_Records = [\<lparr>m_Key = [1], m_Value = [2, 3], m_Headers = [\<lparr>wh_Key = ''k'', wh_Value = [4]\<rparr>]\<rparr>], pr_Acks = AcksAll\<rparr>"

theorem payload_roundtrip_witness:
  "DecodeProduceRequest (EncodeProduceRequest sample_produce) = Inr sample_produce"
proof -
  have "valid_produce sample_produce"
    by (simp add: valid_produce_def sample_produce_def valid_msg_def valid_hdrs_def valid_hdr_def)
  then show ?thesis using payload_roundtrip [of sample_produce] by blast
qed

text \<open>
  Property C19. Frames: a frame within the payload limit is read back whole, with what follows on the
  stream left for the next read; a larger one is neither written nor read, and the
  reader gives up after the length word; a stream cut inside a frame yields an error.
\<close>

theorem frame_roundtrip:
  "(case WriteFrame f of
      Inl e \<Rightarrow> e = ErrFrameTooLarge \<and> MaxPayloadSize < length (Payload f)
    | Inr b \<Rightarrow> ReadFrame (b @ rest) = Inr (f, rest) \<and> length b = headerSize + length (Payload f) \<and>
        (\<forall>k < length b. \<exists>e. ReadFrame (take k b) = Inl e)) \<and>
   (MaxPayloadSize < n \<and> n < 2 ^ 32 \<longrightarrow> ReadFrame (be_bytes 4 n @ rest) = Inl ErrFrameTooLarge)"
proof (cases "MaxPayloadSize < length (Payload f)")
  case True
  then show ?thesis by (simp add: WriteFrame_def ReadFrame_oversized)
next
  case False
  then have p: "length (Payload f) \<le> MaxPayloadSize" by simp
  show ?thesis
    using frame_read [OF p, of rest] frame_cut [OF p] ReadFrame_oversized [of n rest]
    unfolding frame_written [OF p] by (simp add: frame_length)
qed

theorem frame_roundtrip_witness:
  "ReadFrame (be_bytes 4 4194305 @ [1, 2, 3]) = Inl ErrFrameTooLarge"
  using frame_roundtrip [of undefined "[1, 2, 3]" 4194305] by (simp add: MaxPayloadSize_def del: be_bytes.simps)

text \<open>
  Header carrier: after setting a key, getting it in any case spelling returns the value;
  keys that differ keep theirs; and a key is never duplicated.
\<close>

theorem carrier_set_get:
  "carrier_Get (carrier_Set hs key v) key = v \<and>
   (\<not> sameKey other \<lparr>wh_Key = key, wh_Value = v\<rparr> \<longrightarrow> carrier_Get (carrier_Set hs key v) other = carrier_Get hs other) \<and>
   (sameKey other \<lparr>wh_Key = key, wh_Value = v\<rparr> \<longrightarrow> carrier_Get (carrier_Set hs key v) other = v) \<and>
   length (filter (sameKey key) (carrier_Set hs key v)) = max 1 (length (filter (sameKey key) hs))"
proof -
  have refl: "sameKey k \<lparr>wh_Key = k, wh_Value = w\<rparr>" for k w by (simp add: sameKey_def equalFoldASCII_def list.rel_refl)
  have eqv: "sameKey a h \<longleftrightarrow> map foldASCII a = map foldASCII (wh_Key h)" for a h
    by (auto simp: sameKey_def equalFoldASCII_def list_all2_conv_all_nth list_eq_iff_nth_eq)
  have upd: "sameKey a (h\<lparr>wh_Value := w\<rparr>) = sameKey a h" for a h w by (simp add: eqv)
  show ?thesis by (induction hs) (auto simp: eqv)
qed

theorem carrier_set_get_witness:
  "carrier_Get (carrier_Set [\<lparr>wh_Key = ''Traceparent'', wh_Value = [1]\<rparr>] ''traceparent'' [2]) ''TRACEPARENT'' = [2]"
  using carrier_set_get [of "[\<lparr>wh_Key = ''Traceparent'', wh_Value = [1]\<rparr>]" "''traceparent''" "[2]" "''TRACEPARENT''"]
  by (simp add: sameKey_def equalFoldASCII_def foldASCII_def)

end
