(* ===== verification/Cluster.thy ===== *)
theory Cluster
  imports Protocol "HOL-Library.Multiset"
begin

text \<open>
  The cluster control plane (src/internal/broker/cluster): the static configuration, the
  membership table with its failure detector, the placement of partitions on nodes, and
  the request/response connection to a peer. Times are integers in nanoseconds; the
  clock is an argument. What \<open>encoding/json\<close> returns for a payload is an argument of the
  operations that decode one.
\<close>

section \<open>Configuration\<close>

type_synonym NodeID = string

record NodeInfo =
  ni_ID :: NodeID
  ni_Addr :: string

record cluster_Config =
  cc_NodeID :: NodeID
  cc_Nodes :: "NodeInfo list"
  ReplicationFactor :: int
  HeartbeatEvery :: int
  SuspectAfter :: int
  DeadAfter :: int
  FetchInterval :: int
  FetchMaxBytes :: int
  ReplicaLagMax :: u64
  ElectionTimeoutMin :: int
  ElectionTimeoutMax :: int
  QuorumAckTimeout :: int
  LeaderAbdicateAfter :: int

datatype config_error =
    ErrNodeIDRequired | ErrNodesRequired | ErrNodesJSON | ErrNoNodes | ErrEmptyNodeID | ErrEmptyAddr
  | ErrDuplicateNode | ErrSelfMissing

definition millisecond :: int where "millisecond = 1000000"

definition second :: int where "second = 1000 * millisecond"

definition orDefault :: "int \<Rightarrow> int \<Rightarrow> int" where
  "orDefault d v = (if v \<le> 0 then d else v)"

definition cluster_withDefaults :: "cluster_Config \<Rightarrow> cluster_Config" where
  "cluster_withDefaults c =
     (let rf = orDefault 3 (ReplicationFactor c);
          rf = (if int (length (cc_Nodes c)) < rf then int (length (cc_Nodes c)) else rf);
          tmin = orDefault (1500 * millisecond) (ElectionTimeoutMin c)
      in c\<lparr>ReplicationFactor := rf,
           HeartbeatEvery := orDefault (500 * millisecond) (HeartbeatEvery c),
           SuspectAfter := orDefault (3 * second) (SuspectAfter c),
           DeadAfter := orDefault (10 * second) (DeadAfter c),
           FetchInterval := orDefault (200 * millisecond) (FetchInterval c),
           FetchMaxBytes := orDefault (2 * 2 ^ 20) (FetchMaxBytes c),
           ReplicaLagMax := (if ReplicaLagMax c = 0 then 1000 else ReplicaLagMax c),
           ElectionTimeoutMin := tmin,
           ElectionTimeoutMax := orDefault (2 * tmin) (ElectionTimeoutMax c),
           QuorumAckTimeout := orDefault (5 * second) (QuorumAckTimeout c),
           LeaderAbdicateAfter := orDefault (10 * second) (LeaderAbdicateAfter c)\<rparr>)"

definition emptyConfig :: cluster_Config where
  "emptyConfig = \<lparr>cc_NodeID = [], cc_Nodes = [], ReplicationFactor = 0, HeartbeatEvery = 0, SuspectAfter = 0, DeadAfter = 0,
     FetchInterval = 0, FetchMaxBytes = 0, ReplicaLagMax = 0, ElectionTimeoutMin = 0, ElectionTimeoutMax = 0,
     QuorumAckTimeout = 0, LeaderAbdicateAfter = 0\<rparr>"

fun checkNodes :: "NodeID \<Rightarrow> NodeID list \<Rightarrow> bool \<Rightarrow> NodeInfo list \<Rightarrow> config_error + bool" where
  "checkNodes self seen selfFound [] = Inr selfFound"
| "checkNodes self seen selfFound (n # ns) =
     (if ni_ID n = [] then Inl ErrEmptyNodeID
      else if ni_Addr n = [] then Inl ErrEmptyAddr
      else if ni_ID n \<in> set seen then Inl ErrDuplicateNode
      else checkNodes self (ni_ID n # seen) (selfFound \<or> ni_ID n = self) ns)"

text \<open>\<open>None\<close> as a success: clustering is not enabled.\<close>

definition ParseEnv :: "(string \<Rightarrow> NodeInfo list option) \<Rightarrow> NodeID \<Rightarrow> string \<Rightarrow> config_error + cluster_Config option" where
  "ParseEnv unmarshal nodeID nodesJSON =
     (if nodeID = [] \<and> nodesJSON = [] then Inr None
      else if nodeID = [] then Inl ErrNodeIDRequired
      else if nodesJSON = [] then Inl ErrNodesRequired
      else case unmarshal nodesJSON of
        None \<Rightarrow> Inl ErrNodesJSON
      | Some nodes \<Rightarrow>
          if nodes = [] then Inl ErrNoNodes
          else bindS (checkNodes nodeID [] False nodes) (\<lambda>selfFound.
            if \<not> selfFound then Inl ErrSelfMissing
            else Inr (Some (cluster_withDefaults (emptyConfig\<lparr>cc_NodeID := nodeID, cc_Nodes := nodes\<rparr>)))))"

definition cfg_Self :: "cluster_Config \<Rightarrow> NodeInfo" where
  "cfg_Self c = (case filter (\<lambda>n. ni_ID n = cc_NodeID c) (cc_Nodes c) of n # _ \<Rightarrow> n | [] \<Rightarrow> \<lparr>ni_ID = cc_NodeID c, ni_Addr = []\<rparr>)"

definition cfg_Peers :: "cluster_Config \<Rightarrow> NodeInfo list" where
  "cfg_Peers c = filter (\<lambda>n. ni_ID n \<noteq> cc_NodeID c) (cc_Nodes c)"

text \<open>
  The insertion sort of \<open>sortedIDs\<close> and \<open>Snapshot\<close>: element \<open>i\<close> moves left while it is smaller
  than its neighbour. The sorted front is kept in reverse.
\<close>

fun sinkLeft :: "('a \<Rightarrow> 'k :: linorder) \<Rightarrow> 'a list \<Rightarrow> 'a \<Rightarrow> 'a list" where
  "sinkLeft f [] x = [x]"
| "sinkLeft f (y # ys) x = (if f x < f y then y # sinkLeft f ys x else x # y # ys)"

definition insertionSort :: "('a \<Rightarrow> 'k :: linorder) \<Rightarrow> 'a list \<Rightarrow> 'a list" where
  "insertionSort f xs = rev (foldl (sinkLeft f) [] xs)"

definition sortedIDs :: "cluster_Config \<Rightarrow> NodeID list" where
  "sortedIDs c = insertionSort (\<lambda>x. x) (map ni_ID (cc_Nodes c))"

section \<open>Membership\<close>

datatype MemberState = StateJoining | StateActive | StateSuspect | StateDead | StateLeaving

definition MemberState_String :: "MemberState \<Rightarrow> string" where
  "MemberState_String s =
     (case s of StateJoining \<Rightarrow> ''JOINING'' | StateActive \<Rightarrow> ''ACTIVE'' | StateSuspect \<Rightarrow> ''SUSPECT''
      | StateDead \<Rightarrow> ''DEAD'' | StateLeaving \<Rightarrow> ''LEAVING'')"

definition state_Alive :: "MemberState \<Rightarrow> bool" where
  "state_Alive s \<longleftrightarrow> s = StateActive \<or> s = StateSuspect"

text \<open>A time that was never set is \<open>None\<close>.\<close>

record Member =
  mb_Info :: NodeInfo
  mb_State :: MemberState
  mb_LastSeen :: "int option"
  mb_Since :: int

record Membership =
  ms_self :: NodeID
  ms_members :: "(NodeID \<times> Member) list"
  ms_suspect :: int
  ms_dead :: int

definition newMember :: "NodeID \<Rightarrow> int \<Rightarrow> NodeInfo \<Rightarrow> Member" where
  "newMember self now n =
     (if ni_ID n = self then \<lparr>mb_Info = n, mb_State = StateActive, mb_LastSeen = Some now, mb_Since = now\<rparr>
      else \<lparr>mb_Info = n, mb_State = StateJoining, mb_LastSeen = None, mb_Since = now\<rparr>)"

definition NewMembership :: "cluster_Config \<Rightarrow> int \<Rightarrow> Membership" where
  "NewMembership cfg now =
     \<lparr>ms_self = cc_NodeID cfg,
      ms_members = foldl (\<lambda>ms n. AList.update (ni_ID n) (newMember (cc_NodeID cfg) now n) ms) [] (cc_Nodes cfg),
      ms_suspect = SuspectAfter cfg, ms_dead = DeadAfter cfg\<rparr>"

text \<open>The operations return the members they notify.\<close>

definition MarkSeen :: "int \<Rightarrow> NodeID \<Rightarrow> Membership \<Rightarrow> Member list \<times> Membership" where
  "MarkSeen now nid m =
     (case map_of (ms_members m) nid of
        None \<Rightarrow> ([], m)
      | Some mem \<Rightarrow>
          let changed = (mb_State mem \<noteq> StateActive);
              mem = mem\<lparr>mb_LastSeen := Some now\<rparr>;
              mem = (if changed then mem\<lparr>mb_State := StateActive, mb_Since := now\<rparr> else mem)
          in (if changed then [mem] else [], m\<lparr>ms_members := AList.update nid mem (ms_members m)\<rparr>))"

definition MarkLeaving :: "int \<Rightarrow> NodeID \<Rightarrow> Membership \<Rightarrow> Member list \<times> Membership" where
  "MarkLeaving now nid m =
     (case map_of (ms_members m) nid of
        None \<Rightarrow> ([], m)
      | Some mem \<Rightarrow>
          let changed = (mb_State mem \<noteq> StateLeaving);
              mem = (if changed then mem\<lparr>mb_State := StateLeaving, mb_Since := now\<rparr> else mem)
          in (if changed then [mem] else [], m\<lparr>ms_members := AList.update nid mem (ms_members m)\<rparr>))"

text \<open>\<open>now.Sub\<close> of a time that was never set is larger than any timeout.\<close>

definition silentFor :: "int \<Rightarrow> int \<Rightarrow> Member \<Rightarrow> bool" where
  "silentFor now timeout mem \<longleftrightarrow> (case mb_LastSeen mem of None \<Rightarrow> True | Some t \<Rightarrow> timeout < now - t)"

definition tickMember :: "Membership \<Rightarrow> int \<Rightarrow> Member \<Rightarrow> Member" where
  "tickMember m now mem =
     (if ni_ID (mb_Info mem) = ms_self m then mem
      else case mb_State mem of
        StateActive \<Rightarrow>
          if silentFor now (ms_dead m) mem then mem\<lparr>mb_State := StateDead, mb_Since := now\<rparr>
          else if silentFor now (ms_suspect m) mem then mem\<lparr>mb_State := StateSuspect, mb_Since := now\<rparr>
          else mem
      | StateSuspect \<Rightarrow>
          if silentFor now (ms_dead m) mem then mem\<lparr>mb_State := StateDead, mb_Since := now\<rparr> else mem
      | _ \<Rightarrow> mem)"

definition Tick :: "int \<Rightarrow> Membership \<Rightarrow> Member list \<times> Membership" where
  "Tick now m =
     (let ticked = map (\<lambda>(nid, mem). (nid, tickMember m now mem)) (ms_members m);
          changed = filter (\<lambda>(old, new). mb_State old \<noteq> mb_State new) (zip (map snd (ms_members m)) (map snd ticked))
      in (map snd changed, m\<lparr>ms_members := ticked\<rparr>))"

definition memberState :: "Membership \<Rightarrow> NodeID \<Rightarrow> MemberState" where
  "memberState m nid = (case map_of (ms_members m) nid of Some mem \<Rightarrow> mb_State mem | None \<Rightarrow> StateJoining)"

definition memberAlive :: "Membership \<Rightarrow> NodeID \<Rightarrow> bool" where
  "memberAlive m nid = state_Alive (memberState m nid)"

definition membersSnapshot :: "Membership \<Rightarrow> Member list" where
  "membersSnapshot m = insertionSort (\<lambda>mem. ni_ID (mb_Info mem)) (map snd (ms_members m))"

section \<open>Connections to peers\<close>

text \<open>
  The connection of a peer holds what the other side has sent and nobody has read yet;
  \<open>None\<close> is no connection. One exchange with a peer is described by whether a dial succeeds,
  whether a write succeeds, and the bytes that arrive before the deadline or the close.
\<close>

record peer =
  pe_conn :: "bytes option"
  pe_nextID :: u64

record exchange =
  dialOk :: bool
  writeOk :: bool
  arrives :: bytes

datatype call_error = DialFailed | WriteFailed | ReadFailed | CorrelationMismatch | UnknownPeer

definition newPeer :: peer where
  "newPeer = \<lparr>pe_conn = None, pe_nextID = 1\<rparr>"

definition ensureConn :: "exchange \<Rightarrow> peer \<Rightarrow> (call_error + bytes) \<times> peer" where
  "ensureConn x p =
     (case pe_conn p of
        Some unread \<Rightarrow> (Inr unread, p)
      | None \<Rightarrow> if dialOk x then (Inr [], p\<lparr>pe_conn := Some []\<rparr>) else (Inl DialFailed, p))"

definition dropConn :: "peer \<Rightarrow> peer" where
  "dropConn p = p\<lparr>pe_conn := None\<rparr>"

definition peer_call :: "exchange \<Rightarrow> Frame \<Rightarrow> peer \<Rightarrow> (call_error + Frame) \<times> peer" where
  "peer_call x f p =
     (case ensureConn x p of
        (Inl e, p) \<Rightarrow> (Inl e, p)
      | (Inr unread, p) \<Rightarrow>
          let p = p\<lparr>pe_nextID := pe_nextID p + 1\<rparr>;
              f = f\<lparr>CorrelationID := pe_nextID p\<rparr>
          in case WriteFrame f of
               Inl _ \<Rightarrow> (Inl WriteFailed, dropConn p)
             | Inr _ \<Rightarrow>
                 if \<not> writeOk x then (Inl WriteFailed, dropConn p)
                 else case ReadFrame (unread @ arrives x) of
                   Inl _ \<Rightarrow> (Inl ReadFailed, dropConn p)
                 | Inr (resp, rest) \<Rightarrow>
                     if CorrelationID resp \<noteq> CorrelationID f then (Inl CorrelationMismatch, dropConn p)
                     else (Inr resp, p\<lparr>pe_conn := Some rest\<rparr>))"

section \<open>The control plane\<close>

record PartitionAssignment =
  pa_Topic :: string
  pa_Partition :: i32
  pa_Leader :: NodeID
  pa_Replicas :: "NodeID list"

type_synonym overlay = "((string \<times> i32) \<times> PartitionAssignment) list"

record Cluster =
  cl_cfg :: cluster_Config
  cl_members :: Membership
  cl_overlay :: overlay
  cl_peers :: "(NodeID \<times> peer) list"

definition cl_Self :: "Cluster \<Rightarrow> NodeID" where
  "cl_Self c = cc_NodeID (cl_cfg c)"

text \<open>\<open>New\<close> without its listener.\<close>

definition NewCluster :: "cluster_Config \<Rightarrow> int \<Rightarrow> Cluster option" where
  "NewCluster cfg now =
     (if cc_NodeID cfg = [] \<or> cc_Nodes cfg = [] then None
      else let cfg = cluster_withDefaults cfg
           in Some \<lparr>cl_cfg = cfg, cl_members = NewMembership cfg now, cl_overlay = [],
                     cl_peers = foldl (\<lambda>ps n. AList.update (ni_ID n) newPeer ps) [] (cfg_Peers cfg)\<rparr>)"

definition assignmentOverlay :: "string \<Rightarrow> i32 \<Rightarrow> Cluster \<Rightarrow> PartitionAssignment option" where
  "assignmentOverlay topic part c = map_of (cl_overlay c) (topic, part)"

definition setAssignmentOverlay :: "PartitionAssignment \<Rightarrow> Cluster \<Rightarrow> Cluster" where
  "setAssignmentOverlay a c = c\<lparr>cl_overlay := AList.update (pa_Topic a, pa_Partition a) a (cl_overlay c)\<rparr>"

definition clearAssignmentOverlay :: "string \<Rightarrow> i32 \<Rightarrow> Cluster \<Rightarrow> Cluster" where
  "clearAssignmentOverlay topic part c = c\<lparr>cl_overlay := AList.delete (topic, part) (cl_overlay c)\<rparr>"

definition overlaySnapshot :: "Cluster \<Rightarrow> PartitionAssignment list" where
  "overlaySnapshot c = map snd (cl_overlay c)"

text \<open>Go's remainder has the sign of the dividend.\<close>

definition go_rem :: "int \<Rightarrow> int \<Rightarrow> int" where
  "go_rem a n = (if 0 \<le> a then a mod n else - ((- a) mod n))"

text \<open>\<open>ids[(start+i)%n]\<close> for each \<open>i\<close>, and a panic at the first negative index.\<close>

fun ringWalk :: "NodeID list \<Rightarrow> int \<Rightarrow> nat list \<Rightarrow> go_panic + NodeID list" where
  "ringWalk ids start [] = Inr []"
| "ringWalk ids start (i # is) =
     (let j = go_rem (start + int i) (int (length ids)) in
      if j < 0 then Inl IndexOutOfRange
      else bindS (ringWalk ids start is) (\<lambda>rest. Inr (ids ! nat j # rest)))"

definition ringPlacement :: "cluster_Config \<Rightarrow> string \<Rightarrow> i32 \<Rightarrow> go_panic + PartitionAssignment" where
  "ringPlacement cfg topic part =
     (let ids = sortedIDs cfg; n = int (length ids) in
      if n = 0 then Inl DivideByZero
      else let start = go_rem (int (unat (fnv32a (bytes_of_string topic))) + sint part) n;
               rf = (if n < ReplicationFactor cfg then n else ReplicationFactor cfg)
           in bindS (ringWalk ids start [0..<nat rf]) (\<lambda>replicas.
                if replicas = [] then Inl IndexOutOfRange
                else Inr \<lparr>pa_Topic = topic, pa_Partition = part, pa_Leader = hd replicas, pa_Replicas = replicas\<rparr>))"

definition AssignmentFor :: "Cluster \<Rightarrow> string \<Rightarrow> i32 \<Rightarrow> go_panic + PartitionAssignment" where
  "AssignmentFor c topic part =
     (case assignmentOverlay topic part c of
        Some a \<Rightarrow> Inr a
      | None \<Rightarrow> ringPlacement (cl_cfg c) topic part)"

definition IsLeaderFor :: "Cluster \<Rightarrow> string \<Rightarrow> i32 \<Rightarrow> go_panic + bool" where
  "IsLeaderFor c topic part = bindS (AssignmentFor c topic part) (\<lambda>a. Inr (pa_Leader a = cl_Self c))"

definition IsReplicaFor :: "Cluster \<Rightarrow> string \<Rightarrow> i32 \<Rightarrow> go_panic + bool" where
  "IsReplicaFor c topic part = bindS (AssignmentFor c topic part) (\<lambda>a. Inr (cl_Self c \<in> set (pa_Replicas a)))"

text \<open>The peers whose death or departure a notification reports to the election hook.\<close>

definition onMemberChange :: "Member list \<Rightarrow> NodeID list" where
  "onMemberChange mems = map (\<lambda>m. ni_ID (mb_Info m)) (filter (\<lambda>m. mb_State m = StateDead \<or> mb_State m = StateLeaving) mems)"

record NodePingRequest =
  np_ID :: NodeID
  np_Leaving :: bool

text \<open>\<open>req\<close> is the decoded payload; the result is the responder's id or an error code, and the hook calls.\<close>

definition handlePing :: "int \<Rightarrow> NodePingRequest option \<Rightarrow> Cluster \<Rightarrow> (error_code + NodeID) \<times> NodeID list \<times> Cluster" where
  "handlePing now req c =
     (case req of
        None \<Rightarrow> (Inl CodeBadRequest, [], c)
      | Some r \<Rightarrow>
          if np_ID r = [] then (Inl CodeBadRequest, [], c)
          else let (mems, ms) = (if np_Leaving r then MarkLeaving now (np_ID r) (cl_members c) else MarkSeen now (np_ID r) (cl_members c))
               in (Inr (cl_Self c), onMemberChange mems, c\<lparr>cl_members := ms\<rparr>))"

section \<open>Calls and heartbeats\<close>

text \<open>A handler answers with a payload or an error code; the hook calls it caused come along.\<close>

type_synonym 'p response = "(error_code + 'p) \<times> NodeID list \<times> Cluster"

definition dispatch :: "(Opcode \<times> (Frame \<Rightarrow> Cluster \<Rightarrow> 'p response)) list \<Rightarrow> Frame \<Rightarrow> Cluster \<Rightarrow> 'p response" where
  "dispatch handlers f c =
     (case map_of handlers (f_Opcode f) of
        None \<Rightarrow> (Inl CodeUnknownOpcode, [], c)
      | Some h \<Rightarrow> h f c)"

definition OpError :: Opcode where "OpError = 0x00"

definition OpNodePing :: Opcode where "OpNodePing = 0x0D"

text \<open>A frame to one peer, and its member marked as seen when an answer comes back.\<close>

definition exchangeWith :: "int \<Rightarrow> exchange \<Rightarrow> NodeID \<Rightarrow> Opcode \<Rightarrow> bytes \<Rightarrow> Cluster \<Rightarrow> (call_error + Frame) \<times> NodeID list \<times> Cluster" where
  "exchangeWith now x nid op payload c =
     (case map_of (cl_peers c) nid of
        None \<Rightarrow> (Inl UnknownPeer, [], c)
      | Some p \<Rightarrow>
          (case peer_call x \<lparr>f_Opcode = op, CorrelationID = 0, Payload = payload\<rparr> p of
             (Inl e, p) \<Rightarrow> (Inl e, [], c\<lparr>cl_peers := AList.update nid p (cl_peers c)\<rparr>)
           | (Inr resp, p) \<Rightarrow>
               let (mems, ms) = MarkSeen now nid (cl_members c)
               in (Inr resp, onMemberChange mems, c\<lparr>cl_peers := AList.update nid p (cl_peers c), cl_members := ms\<rparr>)))"

datatype peer_error = CallFailed call_error | RemoteError error_code

definition callPeer ::
  "(bytes \<Rightarrow> error_code) \<Rightarrow> int \<Rightarrow> exchange \<Rightarrow> NodeID \<Rightarrow> Opcode \<Rightarrow> bytes \<Rightarrow> Cluster \<Rightarrow> (peer_error + bytes) \<times> NodeID list \<times> Cluster" where
  "callPeer decodeErrorFrame now x nid op payload c =
     (case exchangeWith now x nid op payload c of
        (Inl e, hooks, c) \<Rightarrow> (Inl (CallFailed e), hooks, c)
      | (Inr resp, hooks, c) \<Rightarrow>
          (if f_Opcode resp = OpError then Inl (RemoteError (decodeErrorFrame (Payload resp))) else Inr (Payload resp), hooks, c))"

text \<open>The pings of one round touch different peers and members; the list gives their order.\<close>

fun pingPeers :: "int \<Rightarrow> (NodeID \<Rightarrow> exchange) \<Rightarrow> bytes \<Rightarrow> NodeID list \<Rightarrow> Cluster \<Rightarrow> NodeID list \<times> Cluster" where
  "pingPeers now net payload [] c = ([], c)"
| "pingPeers now net payload (nid # ids) c =
     (let (_, hooks, c) = exchangeWith now (net nid) nid OpNodePing payload c;
          (hooks', c) = pingPeers now net payload ids c
      in (hooks @ hooks', c))"

definition pingAll :: "int \<Rightarrow> (NodeID \<Rightarrow> exchange) \<Rightarrow> bytes \<Rightarrow> Cluster \<Rightarrow> NodeID list \<times> Cluster" where
  "pingAll now net payload c = pingPeers now net payload (map fst (cl_peers c)) c"

text \<open>One turn of \<open>heartbeatLoop\<close>.\<close>

definition heartbeat :: "int \<Rightarrow> (NodeID \<Rightarrow> exchange) \<Rightarrow> bytes \<Rightarrow> Cluster \<Rightarrow> NodeID list \<times> Cluster" where
  "heartbeat now net payload c =
     (let (hooks, c) = pingAll now net payload c;
          (mems, ms) = Tick now (cl_members c)
      in (hooks @ onMemberChange mems, c\<lparr>cl_members := ms\<rparr>))"

section \<open>Sorting\<close>

lemma sinkLeft_mset [simp]: "mset (sinkLeft f ys x) = add_mset x (mset ys)"
  by (induction ys) auto

lemma sinkLeft_sorted: "sorted_wrt (\<ge>) (map f ys) \<Longrightarrow> sorted_wrt (\<ge>) (map f (sinkLeft f ys x))"
proof (induction ys)
  case (Cons y ys)
  have "set (sinkLeft f ys x) = insert x (set ys)"
    by (metis sinkLeft_mset set_mset_add_mset_insert set_mset_mset)
  with Cons show ?case by auto
qed simp

lemma insertionSort_fold:
  "sorted_wrt (\<ge>) (map f acc) \<Longrightarrow>
     sorted_wrt (\<ge>) (map f (foldl (sinkLeft f) acc xs)) \<and> mset (foldl (sinkLeft f) acc xs) = mset acc + mset xs"
  by (induction xs arbitrary: acc) (simp_all add: sinkLeft_sorted)

lemma insertionSort_sorted: "sorted (map f (insertionSort f xs))"
  using insertionSort_fold [of f "[]" xs] by (simp add: insertionSort_def rev_map [symmetric] sorted_wrt_rev)

lemma insertionSort_mset: "mset (insertionSort f xs) = mset xs"
  using insertionSort_fold [of f "[]" xs] by (simp add: insertionSort_def)

lemma sortedIDs_sort: "sortedIDs c = sort (map ni_ID (cc_Nodes c))"
  unfolding sortedIDs_def
  by (rule sym, rule properties_for_sort) (use insertionSort_sorted [of "\<lambda>x. x"] in \<open>simp_all add: insertionSort_mset\<close>)

section \<open>Placement\<close>

definition ring :: "'a list \<Rightarrow> nat \<Rightarrow> nat \<Rightarrow> 'a list" where
  "ring ids k m = map (\<lambda>i. ids ! ((k + i) mod length ids)) [0 ..< m]"

lemma ringWalk_ok:
  assumes "0 \<le> start"
  shows "ringWalk ids start is = Inr (map (\<lambda>i. ids ! ((nat start + i) mod length ids)) is)"
proof (induction "is")
  case (Cons i "is")
  have "go_rem (start + int i) (int (length ids)) = int ((nat start + i) mod length ids)"
    using assms by (simp add: go_rem_def zmod_int)
  with Cons show ?case by simp
qed simp

lemma ring_props:
  assumes "distinct ids" and "ids \<noteq> []" and "m \<le> length ids"
  shows "distinct (ring ids k m)" and "set (ring ids k m) \<subseteq> set ids"
proof -
  let ?n = "length ids"
  have "i = j" if "i < m" "j < m" "(k + i) mod ?n = (k + j) mod ?n" for i j
  proof (rule ccontr)
    assume "i \<noteq> j"
    then show False
    proof (cases i j rule: linorder_cases)
      case less
      have "?n dvd (k + j) - (k + i)" using that(3) less by (metis add_le_cancel_left less_imp_le mod_eq_dvd_iff_nat)
      then show False using less that assms(3) by (auto dest: dvd_imp_le)
    next
      case greater
      have "?n dvd (k + i) - (k + j)" using that(3) greater by (metis add_le_cancel_left less_imp_le mod_eq_dvd_iff_nat)
      then show False using greater that assms(3) by (auto dest: dvd_imp_le)
    qed simp
  qed
  then show "distinct (ring ids k m)"
    using assms by (auto simp: ring_def distinct_map inj_on_def nth_eq_iff_index_eq)
  show "set (ring ids k m) \<subseteq> set ids" using assms by (auto simp: ring_def)
qed

definition ring_start :: "NodeID list \<Rightarrow> string \<Rightarrow> i32 \<Rightarrow> nat" where
  "ring_start ids topic part = (unat (fnv32a (bytes_of_string topic)) + nat (sint part)) mod length ids"

lemma ringPlacement_ok:
  assumes "cc_Nodes cfg \<noteq> []" and "1 \<le> ReplicationFactor cfg" and "0 \<le> sint part"
  shows "ringPlacement cfg topic part =
    (let ids = sortedIDs cfg; replicas = ring ids (ring_start ids topic part) (nat (min (ReplicationFactor cfg) (int (length ids))))
     in Inr \<lparr>pa_Topic = topic, pa_Partition = part, pa_Leader = hd replicas, pa_Replicas = replicas\<rparr>)"
proof -
  let ?ids = "sortedIDs cfg" and ?h = "unat (fnv32a (bytes_of_string topic))"
  have n: "0 < length ?ids" using assms(1) by (simp add: sortedIDs_sort)
  have start: "go_rem (int ?h + sint part) (int (length ?ids)) = int (ring_start ?ids topic part)"
    using assms(3) by (simp add: go_rem_def ring_start_def zmod_int)
  have rf: "(if int (length ?ids) < ReplicationFactor cfg then int (length ?ids) else ReplicationFactor cfg) =
      min (ReplicationFactor cfg) (int (length ?ids))" by auto
  have ne: "ring ?ids (ring_start ?ids topic part) (nat (min (ReplicationFactor cfg) (int (length ?ids)))) \<noteq> []"
    using assms(2) n by (auto simp: ring_def min_def)
  show ?thesis
    using n ne unfolding ringPlacement_def Let_def start rf
    by (simp add: ringWalk_ok) (simp add: ring_def)
qed

lemma ring_start_consecutive:
  assumes "0 \<le> sint part" and "sint part + int k < 2 ^ 31"
  shows "sint (part + of_nat k) = sint part + int k"
    and "ring_start ids topic (part + of_nat k) = (ring_start ids topic part + k) mod length ids"
proof -
  show s: "sint (part + of_nat k) = sint part + int k"
  proof -
    have "sint (part + of_nat k) = sint (word_of_int (sint part + int k) :: i32)" by simp
    also have "\<dots> = signed_take_bit 31 (sint part + int k)" by (simp only: sint_sbintrunc') simp
    finally show ?thesis using assms by (simp add: signed_take_bit_int_eq_self)
  qed
  show "ring_start ids topic (part + of_nat k) = (ring_start ids topic part + k) mod length ids"
    using assms by (simp add: ring_start_def s nat_add_distrib mod_add_left_eq add.assoc)
qed

lemma hd_ring: "0 < m \<Longrightarrow> hd (ring ids k m) = ids ! (k mod length ids)"
  by (simp add: ring_def hd_map)

lemma rotation_hits_once:
  assumes "distinct ids" and "x \<in> set ids"
  shows "\<exists>!k. k < length ids \<and> ids ! ((s + k) mod length ids) = x"
proof -
  let ?n = "length ids"
  have n: "0 < ?n" using assms(2) by (cases ids) auto
  have d: "distinct (ring ids s ?n)" and sub: "set (ring ids s ?n) \<subseteq> set ids"
    using ring_props [of ids ?n s] assms n by auto
  then have "set (ring ids s ?n) = set ids"
    using assms(1) by (intro card_subset_eq) (simp_all add: distinct_card, simp add: ring_def)
  then obtain k where k: "k < ?n" "ids ! ((s + k) mod ?n) = x"
    using assms(2) by (force simp: ring_def)
  moreover have "j = k" if "j < ?n" "ids ! ((s + j) mod ?n) = x" for j
    using d k that nth_eq_iff_index_eq [OF d, of j k] by (simp add: ring_def)
  ultimately show ?thesis by blast
qed

lemma leader_ring:
  assumes "cl_overlay c = []" and "cc_Nodes (cl_cfg c) \<noteq> []" and "1 \<le> ReplicationFactor (cl_cfg c)" and "0 \<le> sint part"
  obtains a where "AssignmentFor c topic part = Inr a"
    and "pa_Leader a = (let ids = sortedIDs (cl_cfg c) in ids ! (ring_start ids topic part mod length ids))"
    and "pa_Leader a = hd (pa_Replicas a)"
    and "pa_Replicas a = (let ids = sortedIDs (cl_cfg c) in
           ring ids (ring_start ids topic part) (nat (min (ReplicationFactor (cl_cfg c)) (int (length ids)))))"
proof -
  let ?ids = "sortedIDs (cl_cfg c)"
  have m: "0 < nat (min (ReplicationFactor (cl_cfg c)) (int (length ?ids)))"
    using assms(2,3) by (auto simp: sortedIDs_sort min_def)
  have "AssignmentFor c topic part = ringPlacement (cl_cfg c) topic part"
    using assms(1) by (simp add: AssignmentFor_def assignmentOverlay_def)
  note eq = this [unfolded ringPlacement_ok [OF assms(2-4)] Let_def]
  show ?thesis by (rule that [OF eq]) (use m in \<open>simp_all add: Let_def hd_ring\<close>)
qed

text \<open>
  Property C25. Placement is deterministic and balanced. For every topic and every
  partition number that is not negative, a node with no overlay places the partition on
  the replication factor, or all, of the configured nodes, without repetition and with the first replica as
  leader. A node that lists the same node ids in another order computes the same
  assignment. And among as many consecutive partitions of a topic as there are nodes,
  every node leads exactly one.
\<close>

theorem AssignmentFor_placement:
  assumes "cl_overlay c = []" and "distinct (map ni_ID (cc_Nodes (cl_cfg c)))" and "nid \<in> set (map ni_ID (cc_Nodes (cl_cfg c)))"
    and "1 \<le> ReplicationFactor (cl_cfg c)" and "0 \<le> sint part" and "sint part + int (length (cc_Nodes (cl_cfg c))) \<le> 2 ^ 31"
    and "cl_overlay c' = []" and "mset (map ni_ID (cc_Nodes (cl_cfg c'))) = mset (map ni_ID (cc_Nodes (cl_cfg c)))"
    and "ReplicationFactor (cl_cfg c') = ReplicationFactor (cl_cfg c)"
  shows "(\<exists>a. AssignmentFor c topic part = Inr a \<and> pa_Leader a = hd (pa_Replicas a) \<and> distinct (pa_Replicas a) \<and>
            set (pa_Replicas a) \<subseteq> set (map ni_ID (cc_Nodes (cl_cfg c))) \<and>
            int (length (pa_Replicas a)) = min (ReplicationFactor (cl_cfg c)) (int (length (cc_Nodes (cl_cfg c))))) \<and>
    AssignmentFor c' topic part = AssignmentFor c topic part \<and>
    (\<exists>!k. k < length (cc_Nodes (cl_cfg c)) \<and>
       (\<exists>a. AssignmentFor c topic (part + of_nat k) = Inr a \<and> pa_Leader a = nid))"
proof -
  let ?cfg = "cl_cfg c"
  let ?ids = "sortedIDs ?cfg" and ?n = "length (cc_Nodes ?cfg)"
  have ne: "cc_Nodes ?cfg \<noteq> []" using assms(3) by auto
  have ids: "distinct ?ids" "set ?ids = set (map ni_ID (cc_Nodes ?cfg))" "length ?ids = ?n" "?ids \<noteq> []"
    using assms(2) ne by (auto simp: sortedIDs_sort simp flip: length_greater_0_conv)
  obtain a where a: "AssignmentFor c topic part = Inr a" "pa_Leader a = hd (pa_Replicas a)"
    "pa_Replicas a = ring ?ids (ring_start ?ids topic part) (nat (min (ReplicationFactor ?cfg) (int ?n)))"
    using leader_ring [OF assms(1) ne assms(4,5), of topic thesis] ids(3) by (simp add: Let_def)
  have len: "int (length (pa_Replicas a)) = min (ReplicationFactor ?cfg) (int ?n)"
    using assms(4) by (simp add: a ring_def)
  have ab: "distinct (pa_Replicas a)" "set (pa_Replicas a) \<subseteq> set (map ni_ID (cc_Nodes ?cfg))"
    using ring_props [OF ids(1,4)] ids(2,3) unfolding a(3) by auto
  have same: "sortedIDs (cl_cfg c') = ?ids"
    unfolding sortedIDs_sort by (rule properties_for_sort) (use assms(8) in simp_all)
  have "ringPlacement (cl_cfg c') topic part = ringPlacement ?cfg topic part"
    unfolding ringPlacement_def same assms(9) ..
  then have agree: "AssignmentFor c' topic part = AssignmentFor c topic part"
    using assms(1,7) by (simp add: AssignmentFor_def assignmentOverlay_def)
  have leads: "(\<exists>a. AssignmentFor c topic (part + of_nat k) = Inr a \<and> pa_Leader a = nid) \<longleftrightarrow>
      ?ids ! ((ring_start ?ids topic part + k) mod length ?ids) = nid" if "k < ?n" for k
  proof -
    have k: "0 \<le> sint (part + of_nat k)"
      using ring_start_consecutive(1) [of part k] assms(5,6) that by simp
    have "sint part + int k < 2 ^ 31" using assms(6) that by linarith
    note r = ring_start_consecutive(2) [OF assms(5) this]
    show ?thesis
      by (rule leader_ring [OF assms(1) ne assms(4) k, of topic]) (simp add: Let_def r)
  qed
  have "\<exists>!k. k < ?n \<and> ?ids ! ((ring_start ?ids topic part + k) mod length ?ids) = nid"
    using rotation_hits_once [OF ids(1), of nid "ring_start ?ids topic part"] ids(2,3) assms(3) by simp
  then have "\<exists>!k. k < ?n \<and> (\<exists>a. AssignmentFor c topic (part + of_nat k) = Inr a \<and> pa_Leader a = nid)"
    using leads by (metis (no_types, lifting))
  then show ?thesis using a(1,2) ab len agree by blast
qed

definition sample_config :: "NodeID \<Rightarrow> NodeID list \<Rightarrow> cluster_Config" where
  "sample_config self ids = cluster_withDefaults (emptyConfig\<lparr>cc_NodeID := self, cc_Nodes := map (\<lambda>i. \<lparr>ni_ID = i, ni_Addr = ''h:1''\<rparr>) ids\<rparr>)"

definition sample_cluster :: "NodeID \<Rightarrow> NodeID list \<Rightarrow> Cluster" where
  "sample_cluster self ids = the (NewCluster (sample_config self ids) 0)"

lemma sample_cluster_simps [simp]:
  assumes "self \<noteq> []" and "ids \<noteq> []"
  shows "cl_overlay (sample_cluster self ids) = []"
    and "map ni_ID (cc_Nodes (cl_cfg (sample_cluster self ids))) = ids"
    and "length (cc_Nodes (cl_cfg (sample_cluster self ids))) = length ids"
    and "ReplicationFactor (cl_cfg (sample_cluster self ids)) = min 3 (int (length ids))"
    and "cl_Self (sample_cluster self ids) = self"
  using assms
  by (simp_all add: sample_cluster_def sample_config_def NewCluster_def cluster_withDefaults_def emptyConfig_def Let_def
      orDefault_def o_def cl_Self_def)

theorem AssignmentFor_placement_witness:
  "AssignmentFor (sample_cluster ''b'' [''c'', ''a'', ''b'']) ''t'' 0 = AssignmentFor (sample_cluster ''a'' [''a'', ''b'', ''c'']) ''t'' 0"
  using AssignmentFor_placement [of "sample_cluster ''a'' [''a'', ''b'', ''c'']" "''a''" 0 "sample_cluster ''b'' [''c'', ''a'', ''b'']" "''t''"]
  by (simp add: add_mset_commute)

lemma go_rem_neg:
  assumes "a < 0" and "0 < n" and "\<not> n dvd a"
  shows "- n < go_rem a n" and "go_rem a n < 0"
proof -
  have "(- a) mod n \<noteq> 0" using assms(3) by (simp only: mod_eq_0_iff_dvd dvd_minus_iff not_False_eq_True)
  then show "- n < go_rem a n" "go_rem a n < 0"
    using assms(1,2) pos_mod_sign [of n "- a"] pos_mod_bound [of n "- a"] by (simp_all add: go_rem_def order_less_le)
qed

lemma negative_partition_panics:
  assumes "assignmentOverlay topic part c = None" and "cc_Nodes (cl_cfg c) \<noteq> []" and "1 \<le> ReplicationFactor (cl_cfg c)"
    and "int (unat (fnv32a (bytes_of_string topic))) + sint part < 0"
    and "\<not> int (length (cc_Nodes (cl_cfg c))) dvd int (unat (fnv32a (bytes_of_string topic))) + sint part"
  shows "AssignmentFor c topic part = Inl IndexOutOfRange"
proof -
  let ?ids = "sortedIDs (cl_cfg c)" and ?k = "int (unat (fnv32a (bytes_of_string topic))) + sint part"
  have n: "length ?ids = length (cc_Nodes (cl_cfg c))" "0 < length ?ids" using assms(2) by (simp_all add: sortedIDs_sort)
  let ?s = "go_rem ?k (int (length ?ids))"
  have "- int (length ?ids) < ?s" "?s < 0" using go_rem_neg [of ?k "int (length ?ids)"] assms(4,5) n by simp_all
  then have neg: "go_rem (?s + int 0) (int (length ?ids)) < 0" by (simp add: go_rem_def)
  let ?m = "nat (if int (length ?ids) < ReplicationFactor (cl_cfg c) then int (length ?ids) else ReplicationFactor (cl_cfg c))"
  have "0 < ?m" using assms(3) n(2) by simp
  then have "[0 ..< ?m] = 0 # [1 ..< ?m]" by (simp add: upt_conv_Cons)
  then have "ringWalk ?ids ?s [0 ..< ?m] = Inl IndexOutOfRange" using neg by (simp only: ringWalk.simps Let_def if_True)
  then show ?thesis using assms(1) n(2) by (simp add: AssignmentFor_def ringPlacement_def Let_def)
qed

section \<open>The failure detector\<close>

text \<open>What happens to the membership table: a heartbeat round, or a ping of another node.\<close>

datatype cluster_event = Beat int "NodeID \<Rightarrow> exchange" | PingFrom int NodePingRequest

fun cluster_step :: "bytes \<Rightarrow> cluster_event \<Rightarrow> Cluster \<Rightarrow> NodeID list \<times> Cluster" where
  "cluster_step payload (Beat now net) c = heartbeat now net payload c"
| "cluster_step payload (PingFrom now r) c = snd (handlePing now (Some r) c)"

fun cluster_run :: "bytes \<Rightarrow> cluster_event list \<Rightarrow> Cluster \<Rightarrow> NodeID list \<times> Cluster" where
  "cluster_run payload [] c = ([], c)"
| "cluster_run payload (e # es) c =
     (let (hooks, c) = cluster_step payload e c; (hooks', c) = cluster_run payload es c in (hooks @ hooks', c))"

text \<open>Nothing is heard of node \<open>nid\<close>: the call to it fails, or the ping is another node's.\<close>

fun silent :: "bytes \<Rightarrow> NodeID \<Rightarrow> cluster_event \<Rightarrow> Cluster \<Rightarrow> bool" where
  "silent payload nid (Beat now net) c =
     (case map_of (cl_peers c) nid of
        None \<Rightarrow> True
      | Some p \<Rightarrow> isl (fst (peer_call (net nid) \<lparr>f_Opcode = OpNodePing, CorrelationID = 0, Payload = payload\<rparr> p)))"
| "silent payload nid (PingFrom now r) c = (np_ID r \<noteq> nid)"

fun silent_run :: "bytes \<Rightarrow> NodeID \<Rightarrow> cluster_event list \<Rightarrow> Cluster \<Rightarrow> bool" where
  "silent_run payload nid [] c = True"
| "silent_run payload nid (e # es) c = (silent payload nid e c \<and> silent_run payload nid es (snd (cluster_step payload e c)))"

fun beats :: "cluster_event list \<Rightarrow> int list" where
  "beats [] = []"
| "beats (Beat now net # es) = now # beats es"
| "beats (PingFrom now r # es) = beats es"

text \<open>The table is keyed by the ids of its members, and so is the table of peers.\<close>

definition cluster_wf :: "Cluster \<Rightarrow> bool" where
  "cluster_wf c \<longleftrightarrow> distinct (map fst (ms_members (cl_members c))) \<and> distinct (map fst (cl_peers c)) \<and>
     list_all (\<lambda>(k, mem). ni_ID (mb_Info mem) = k) (ms_members (cl_members c))"

definition same_but :: "NodeID set \<Rightarrow> Cluster \<Rightarrow> Cluster \<Rightarrow> bool" where
  "same_but X c c' \<longleftrightarrow> ms_self (cl_members c') = ms_self (cl_members c) \<and> ms_dead (cl_members c') = ms_dead (cl_members c) \<and>
     ms_suspect (cl_members c') = ms_suspect (cl_members c) \<and> cl_cfg c' = cl_cfg c \<and>
     map fst (cl_peers c') = map fst (cl_peers c) \<and>
     (\<forall>k. k \<notin> X \<longrightarrow> map_of (ms_members (cl_members c')) k = map_of (ms_members (cl_members c)) k \<and>
          map_of (cl_peers c') k = map_of (cl_peers c) k)"

lemma keyed_map_of: "cluster_wf c \<Longrightarrow> map_of (ms_members (cl_members c)) k = Some mem \<Longrightarrow> ni_ID (mb_Info mem) = k"
  by (auto simp: cluster_wf_def list_all_iff dest!: map_of_SomeD)

lemma keyed_update:
  "list_all (\<lambda>(k, mem). ni_ID (mb_Info mem) = k) ms \<Longrightarrow> ni_ID (mb_Info mem) = k \<Longrightarrow>
     list_all (\<lambda>(k, mem). ni_ID (mb_Info mem) = k) (AList.update k mem ms)"
  by (induction ms) auto

lemma mark_cases:
  assumes "m' = MarkSeen now nid m \<or> m' = MarkLeaving now nid m" and "list_all (\<lambda>(k, mem). ni_ID (mb_Info mem) = k) (ms_members m)"
    and "distinct (map fst (ms_members m))"
  shows "ms_self (snd m') = ms_self m" "ms_dead (snd m') = ms_dead m" "ms_suspect (snd m') = ms_suspect m"
    and "k \<noteq> nid \<Longrightarrow> map_of (ms_members (snd m')) k = map_of (ms_members m) k"
    and "list_all (\<lambda>(k, mem). ni_ID (mb_Info mem) = k) (ms_members (snd m'))"
    and "distinct (map fst (ms_members (snd m')))"
    and "list_all (\<lambda>mem. ni_ID (mb_Info mem) = nid) (fst m')"
proof -
  have key: "ni_ID (mb_Info mem) = nid" if "map_of (ms_members m) nid = Some mem" for mem
    using map_of_SomeD [OF that] assms(2) by (auto simp: list_all_iff)
  show "ms_self (snd m') = ms_self m" "ms_dead (snd m') = ms_dead m" "ms_suspect (snd m') = ms_suspect m"
    "k \<noteq> nid \<Longrightarrow> map_of (ms_members (snd m')) k = map_of (ms_members m) k"
    "list_all (\<lambda>(k, mem). ni_ID (mb_Info mem) = k) (ms_members (snd m'))"
    "distinct (map fst (ms_members (snd m')))"
    "list_all (\<lambda>mem. ni_ID (mb_Info mem) = nid) (fst m')"
    using assms key
    by (auto simp: MarkSeen_def MarkLeaving_def Let_def update_conv' distinct_update intro!: keyed_update split: option.splits)
qed

lemma onMemberChange_active: "list_all (\<lambda>mem. mb_State mem = StateActive) mems \<Longrightarrow> onMemberChange mems = []"
  by (auto simp: onMemberChange_def list_all_iff filter_empty_conv)

lemma MarkSeen_active: "list_all (\<lambda>mem. mb_State mem = StateActive) (fst (MarkSeen now nid m))"
  by (auto simp: MarkSeen_def Let_def split: option.splits)

lemma exchangeWith_frame:
  assumes "cluster_wf c" and "exchangeWith now x nid op payload c = (r, hooks, c')"
  shows "cluster_wf c'" and "same_but {nid} c c'" and "hooks = []"
    and "isl r \<Longrightarrow> cl_members c' = cl_members c"
proof -
  note m = mark_cases [of "MarkSeen now nid (cl_members c)" now nid "cl_members c"]
  have "cluster_wf c' \<and> same_but {nid} c c' \<and> hooks = [] \<and> (isl r \<longrightarrow> cl_members c' = cl_members c)"
  proof (cases "map_of (cl_peers c) nid")
    case None
    then show ?thesis using assms by (auto simp: exchangeWith_def same_but_def)
  next
    case (Some p)
    have keys: "map fst (AList.update nid q (cl_peers c)) = map fst (cl_peers c)" for q
      using Some by (simp add: update_keys) (metis Some map_of_eq_None_iff option.distinct(1))
    show ?thesis
    proof (cases "peer_call x \<lparr>f_Opcode = op, CorrelationID = 0, Payload = payload\<rparr> p")
      case (Pair r' p')
      show ?thesis
      proof (cases r')
        case (Inl e)
        then show ?thesis using assms Some Pair keys
          by (auto simp: exchangeWith_def same_but_def cluster_wf_def update_conv')
      next
        case (Inr resp)
        obtain mems ms where ms: "MarkSeen now nid (cl_members c) = (mems, ms)" by force
        have "list_all (\<lambda>mem. mb_State mem = StateActive) mems" using MarkSeen_active [of now nid "cl_members c"] ms by simp
        then have "onMemberChange mems = []" by (rule onMemberChange_active)
        then show ?thesis using assms Some Pair Inr ms keys m
          by (auto simp: exchangeWith_def same_but_def cluster_wf_def update_conv')
      qed
    qed
  qed
  then show "cluster_wf c'" "same_but {nid} c c'" "hooks = []" "isl r \<Longrightarrow> cl_members c' = cl_members c" by auto
qed

lemma same_but_trans: "same_but X a b \<Longrightarrow> same_but Y b c \<Longrightarrow> same_but (X \<union> Y) a c"
  by (simp add: same_but_def)

lemma pingPeers_frame:
  assumes "cluster_wf c" and "pingPeers now net payload ids c = (hooks, c')"
  shows "cluster_wf c' \<and> hooks = [] \<and> same_but (set ids) c c'"
  using assms
proof (induction ids arbitrary: c c' hooks)
  case Nil
  then show ?case by (simp add: same_but_def)
next
  case (Cons i ids)
  obtain r h1 c1 where x: "exchangeWith now (net i) i OpNodePing payload c = (r, h1, c1)" by (metis prod_cases3)
  obtain h2 c2 where y: "pingPeers now net payload ids c1 = (h2, c2)" by force
  note f = exchangeWith_frame [OF Cons.prems(1) x]
  have "same_but ({i} \<union> set ids) c c2" using f(2) Cons.IH [OF f(1) y] same_but_trans by blast
  then show ?case using Cons.prems(2) x y f(3) Cons.IH [OF f(1) y] by auto
qed

lemma pingPeers_silent:
  assumes "cluster_wf c" and "distinct ids" and "silent payload nid (Beat now net) c"
  shows "map_of (ms_members (cl_members (snd (pingPeers now net payload ids c)))) nid = map_of (ms_members (cl_members c)) nid"
  using assms
proof (induction ids arbitrary: c)
  case (Cons i ids)
  obtain r h1 c1 where x: "exchangeWith now (net i) i OpNodePing payload c = (r, h1, c1)" by (metis prod_cases3)
  obtain h2 c2 where y: "pingPeers now net payload ids c1 = (h2, c2)" by force
  note f = exchangeWith_frame [OF Cons.prems(1) x]
  have c2: "snd (pingPeers now net payload (i # ids) c) = c2" using x y by simp
  show ?case
  proof (cases "i = nid")
    case True
    then have "isl r" using Cons.prems(3) x
      by (auto simp: exchangeWith_def Let_def split: option.splits prod.splits sum.splits)
    moreover have "same_but (set ids) c1 c2" using pingPeers_frame [OF f(1) y] by simp
    ultimately show ?thesis using f(4) Cons.prems(2) True c2 by (simp add: same_but_def)
  next
    case False
    then have "map_of (cl_peers c1) nid = map_of (cl_peers c) nid"
      "map_of (ms_members (cl_members c1)) nid = map_of (ms_members (cl_members c)) nid"
      using f(2) by (simp_all add: same_but_def)
    then show ?thesis using Cons.IH [OF f(1)] Cons.prems(2,3) c2 y by simp
  qed
qed simp

lemma tickMember_props [simp]: "mb_Info (tickMember m now mem) = mb_Info mem" "mb_LastSeen (tickMember m now mem) = mb_LastSeen mem"
  by (simp_all add: tickMember_def split: MemberState.split)

lemma Tick_members:
  assumes "Tick now m = (mems, m')"
  shows "map_of (ms_members m') nid = map_option (tickMember m now) (map_of (ms_members m) nid)"
    and "map fst (ms_members m') = map fst (ms_members m)"
    and "ms_self m' = ms_self m" "ms_dead m' = ms_dead m" "ms_suspect m' = ms_suspect m"
proof -
  have "map_of (map (\<lambda>(k, v). (k, f v)) xs) nid = map_option f (map_of xs nid)" for f :: "Member \<Rightarrow> Member" and xs
    by (induction xs) auto
  then show "map_of (ms_members m') nid = map_option (tickMember m now) (map_of (ms_members m) nid)"
    using assms by (auto simp: Tick_def Let_def)
  show "map fst (ms_members m') = map fst (ms_members m)" "ms_self m' = ms_self m" "ms_dead m' = ms_dead m" "ms_suspect m' = ms_suspect m"
    using assms by (auto simp: Tick_def Let_def)
qed

lemma zip_map_filter: "map snd (filter P (zip xs (map f xs))) = map f (filter (\<lambda>x. P (x, f x)) xs)"
  by (induction xs) auto

lemma count_keyed:
  assumes "distinct (map fst ms)" and "list_all (\<lambda>(k, mem). ni_ID (mb_Info mem) = k) ms"
  shows "count_list (map (\<lambda>mem. ni_ID (mb_Info mem)) (filter P (map snd ms))) nid =
    (case map_of ms nid of Some mem \<Rightarrow> if P mem then 1 else 0 | None \<Rightarrow> 0)"
  using assms
proof (induction ms)
  case (Cons x ms)
  obtain k mem where x: "x = (k, mem)" by force
  have "map_of ms k = None" using Cons.prems(1) x by (simp add: map_of_eq_None_iff)
  then show ?case using Cons x by (auto split: option.splits)
qed simp

lemma Tick_hooks:
  assumes "Tick now m = (mems, m')" and "distinct (map fst (ms_members m))"
    and "list_all (\<lambda>(k, mem). ni_ID (mb_Info mem) = k) (ms_members m)"
  shows "count_list (onMemberChange mems) nid =
    (case map_of (ms_members m) nid of
       Some mem \<Rightarrow> if mb_State mem \<noteq> StateDead \<and> mb_State (tickMember m now mem) = StateDead then 1 else 0
     | None \<Rightarrow> 0)"
proof -
  have mems: "mems = map (tickMember m now) (filter (\<lambda>mem. mb_State mem \<noteq> mb_State (tickMember m now mem)) (map snd (ms_members m)))"
    using assms(1) zip_map_filter [of "\<lambda>(old, new). mb_State old \<noteq> mb_State new" "map snd (ms_members m)" "tickMember m now"]
    by (auto simp: Tick_def Let_def o_def case_prod_beta)
  define P where "P mem \<longleftrightarrow> mb_State mem \<noteq> StateDead \<and> mb_State (tickMember m now mem) = StateDead" for mem
  have P: "mb_State mem \<noteq> mb_State (tickMember m now mem) \<and>
      (mb_State (tickMember m now mem) = StateDead \<or> mb_State (tickMember m now mem) = StateLeaving) \<longleftrightarrow> P mem" for mem
    by (auto simp: P_def tickMember_def split: MemberState.splits if_splits)
  have "onMemberChange mems = map (\<lambda>mem. ni_ID (mb_Info mem)) (filter P (map snd (ms_members m)))"
    unfolding mems onMemberChange_def filter_map filter_filter o_def map_map tickMember_props by (simp add: P conj_commute)
  then show ?thesis using count_keyed [OF assms(2,3), of P nid] by (simp add: P_def split: option.split)
qed

text \<open>One event of which node \<open>nid\<close> has no part moves its member by \<open>tickMember\<close> or not at all.\<close>

fun event_member :: "Membership \<Rightarrow> cluster_event \<Rightarrow> Member \<Rightarrow> Member" where
  "event_member m (Beat now net) mem = tickMember m now mem"
| "event_member m (PingFrom now r) mem = mem"

lemma silent_step:
  assumes wf: "cluster_wf c" and st: "cluster_step payload e c = (hooks, c')" and sil: "silent payload nid e c"
    and mem: "map_of (ms_members (cl_members c)) nid = Some mem" and alive: "mb_State mem \<noteq> StateLeaving"
  shows "cluster_wf c'" and "ms_self (cl_members c') = ms_self (cl_members c)" and "ms_dead (cl_members c') = ms_dead (cl_members c)"
    and "ms_suspect (cl_members c') = ms_suspect (cl_members c)"
    and "map_of (ms_members (cl_members c')) nid = Some (event_member (cl_members c) e mem)"
    and "count_list hooks nid = (if mb_State mem \<noteq> StateDead \<and> mb_State (event_member (cl_members c) e mem) = StateDead then 1 else 0)"
proof -
  have "cluster_wf c' \<and> ms_self (cl_members c') = ms_self (cl_members c) \<and> ms_dead (cl_members c') = ms_dead (cl_members c) \<and>
    ms_suspect (cl_members c') = ms_suspect (cl_members c) \<and>
    map_of (ms_members (cl_members c')) nid = Some (event_member (cl_members c) e mem) \<and>
    count_list hooks nid = (if mb_State mem \<noteq> StateDead \<and> mb_State (event_member (cl_members c) e mem) = StateDead then 1 else 0)"
  proof (cases e)
    case (Beat now net)
    obtain h1 c1 where p: "pingPeers now net payload (map fst (cl_peers c)) c = (h1, c1)" by force
    obtain mems ms where t: "Tick now (cl_members c1) = (mems, ms)" by force
    have c1: "cluster_wf c1" "h1 = []" "same_but (set (map fst (cl_peers c))) c c1" using pingPeers_frame [OF wf p] by auto
    have mem1: "map_of (ms_members (cl_members c1)) nid = Some mem"
      using pingPeers_silent [OF wf, of "map fst (cl_peers c)" payload nid now net] sil mem wf Beat p by (simp add: cluster_wf_def)
    have tm: "tickMember (cl_members c1) now mem = tickMember (cl_members c) now mem"
      using c1(3) by (simp add: tickMember_def same_but_def)
    have c': "c' = c1\<lparr>cl_members := ms\<rparr>" "hooks = onMemberChange mems"
      using st Beat p t c1(2) by (auto simp: heartbeat_def pingAll_def)
    note tk = Tick_members [OF t]
    have "ms_members ms = map (\<lambda>(k, mem). (k, tickMember (cl_members c1) now mem)) (ms_members (cl_members c1))"
      using t by (auto simp: Tick_def Let_def)
    then have "list_all (\<lambda>(k, mem). ni_ID (mb_Info mem) = k) (ms_members ms)" using c1(1) by (auto simp: cluster_wf_def list_all_iff)
    then have "cluster_wf c'" using c1(1) by (simp add: cluster_wf_def c' tk(2))
    moreover have "count_list hooks nid = (if mb_State mem \<noteq> StateDead \<and> mb_State (tickMember (cl_members c) now mem) = StateDead then 1 else 0)"
      using Tick_hooks [OF t, of nid] c1(1) mem1 tm c'(2) by (simp add: cluster_wf_def)
    ultimately show ?thesis using c1(3) tk mem1 tm by (simp add: c' Beat same_but_def)
  next
    case (PingFrom now r)
    define m' where "m' = (if np_Leaving r then MarkLeaving now (np_ID r) (cl_members c) else MarkSeen now (np_ID r) (cl_members c))"
    have or: "m' = MarkSeen now (np_ID r) (cl_members c) \<or> m' = MarkLeaving now (np_ID r) (cl_members c)" by (simp add: m'_def)
    have ne: "nid \<noteq> np_ID r" using sil PingFrom by simp
    note mk = mark_cases [OF or]
    have "ni_ID (mb_Info x) \<noteq> nid" if "x \<in> set (fst m')" for x
      using mk(7) wf ne that by (auto simp: cluster_wf_def list_all_iff)
    then have "count_list (onMemberChange (fst m')) nid = 0" by (auto simp: onMemberChange_def count_list_0_iff)
    then show ?thesis
      using st PingFrom mk wf ne mem
      by (cases "np_ID r = []") (auto simp: handlePing_def cluster_wf_def Let_def case_prod_beta simp flip: m'_def)
  qed
  then show "cluster_wf c'" "ms_self (cl_members c') = ms_self (cl_members c)" "ms_dead (cl_members c') = ms_dead (cl_members c)"
    "ms_suspect (cl_members c') = ms_suspect (cl_members c)"
    "map_of (ms_members (cl_members c')) nid = Some (event_member (cl_members c) e mem)"
    "count_list hooks nid = (if mb_State mem \<noteq> StateDead \<and> mb_State (event_member (cl_members c) e mem) = StateDead then 1 else 0)"
    by auto
qed

lemma silent_dead:
  assumes "cluster_wf c" and "map_of (ms_members (cl_members c)) nid = Some mem" and "mb_State mem = StateDead"
    and "silent_run payload nid es c"
  shows "memberState (cl_members (snd (cluster_run payload es c))) nid = StateDead \<and> count_list (fst (cluster_run payload es c)) nid = 0"
  using assms
proof (induction es arbitrary: c mem)
  case (Cons e es)
  obtain hooks c1 where st: "cluster_step payload e c = (hooks, c1)" by force
  note s = silent_step [OF Cons.prems(1) st _ Cons.prems(2)]
  have "mb_State (event_member (cl_members c) e mem) = StateDead" using Cons.prems(3) by (cases e) (simp_all add: tickMember_def)
  then show ?case using s Cons.prems Cons.IH [of c1] st by (simp add: case_prod_beta)
qed (simp add: memberState_def)

lemma failure_detector_lemma:
  assumes "cluster_wf c" and "map_of (ms_members (cl_members c)) nid = Some mem" and "nid \<noteq> ms_self (cl_members c)"
    and "state_Alive (mb_State mem)" and "mb_LastSeen mem = Some t" and "silent_run payload nid es c"
  shows "memberState (cl_members (snd (cluster_run payload es c))) nid =
      (if list_ex (\<lambda>now. ms_dead (cl_members c) < now - t) (beats es) then StateDead
       else if mb_State mem = StateSuspect \<or> list_ex (\<lambda>now. ms_suspect (cl_members c) < now - t) (beats es) then StateSuspect
       else StateActive) \<and>
    count_list (fst (cluster_run payload es c)) nid =
      (if list_ex (\<lambda>now. ms_dead (cl_members c) < now - t) (beats es) then 1 else 0)"
  using assms
proof (induction es arbitrary: c mem)
  case Nil
  then show ?case by (auto simp: memberState_def state_Alive_def)
next
  case (Cons e es)
  obtain hooks c1 where st: "cluster_step payload e c = (hooks, c1)" by force
  have "mb_State mem \<noteq> StateLeaving" "mb_State mem \<noteq> StateDead" using Cons.prems(4) by (auto simp: state_Alive_def)
  note s = silent_step [OF Cons.prems(1) st _ Cons.prems(2) this(1)]
  let ?mem = "event_member (cl_members c) e mem"
  have sil: "silent payload nid e c" "silent_run payload nid es c1" using Cons.prems(6) st by simp_all
  have id: "ni_ID (mb_Info mem) = nid" by (rule keyed_map_of [OF Cons.prems(1,2)])
  have seen: "mb_LastSeen ?mem = Some t" using Cons.prems(5) by (cases e) simp_all
  have run: "fst (cluster_run payload (e # es) c) = hooks @ fst (cluster_run payload es c1)"
    "snd (cluster_run payload (e # es) c) = snd (cluster_run payload es c1)" using st by (simp_all add: case_prod_beta)
  show ?case
  proof (cases "mb_State ?mem = StateDead")
    case True
    have late: "list_ex (\<lambda>now. ms_dead (cl_members c) < now - t) (beats (e # es))"
      using True Cons.prems(4,5) by (cases e) (auto simp: tickMember_def silentFor_def state_Alive_def split: if_splits)
    show ?thesis using silent_dead [OF s(1,5) True sil(2)] sil(1) s(6) True late run \<open>mb_State mem \<noteq> StateDead\<close> by simp
  next
    case False
    have al: "state_Alive (mb_State ?mem)" using False Cons.prems(4)
      by (cases e) (auto simp: tickMember_def state_Alive_def split: if_splits)
    have ih: "memberState (cl_members (snd (cluster_run payload es c1))) nid =
      (if list_ex (\<lambda>now. ms_dead (cl_members c) < now - t) (beats es) then StateDead
       else if mb_State ?mem = StateSuspect \<or> list_ex (\<lambda>now. ms_suspect (cl_members c) < now - t) (beats es) then StateSuspect
       else StateActive) \<and>
      count_list (fst (cluster_run payload es c1)) nid = (if list_ex (\<lambda>now. ms_dead (cl_members c) < now - t) (beats es) then 1 else 0)"
      using Cons.IH [OF s(1) [OF sil(1)] s(5) [OF sil(1)] _ al seen sil(2)] Cons.prems(3) s(2-4) sil(1) by simp
    show ?thesis
    proof (cases e)
      case (Beat now net)
      have nd: "\<not> ms_dead (cl_members c) < now - t" and
        sus: "mb_State ?mem = StateSuspect \<longleftrightarrow> mb_State mem = StateSuspect \<or> ms_suspect (cl_members c) < now - t"
        using False Cons.prems(3,4,5) id Beat by (auto simp: tickMember_def silentFor_def state_Alive_def split: if_splits)
      show ?thesis using ih run sil(1) s(6) False nd sus Beat by simp
    next
      case (PingFrom now r)
      then show ?thesis using ih run sil(1) s(6) False by simp
    qed
  qed
qed

text \<open>
  Property C26. The failure detector is complete, accurate and fires once. Take a member
  that was last heard of at time \<open>t\<close> and any sequence of heartbeat rounds and pings in which
  this node hears nothing of it. The member ends DEAD exactly when some round ran
  more than the dead timeout after \<open>t\<close>, otherwise SUSPECT exactly when it was already or some
  round ran more than the suspect timeout after \<open>t\<close>, otherwise ACTIVE; and the election
  hook has been called for it once in the first case and never in the others.
\<close>

theorem failure_detector:
  assumes "cluster_wf c" and "map_of (ms_members (cl_members c)) nid = Some mem" and "nid \<noteq> ms_self (cl_members c)"
    and "state_Alive (mb_State mem)" and "mb_LastSeen mem = Some t" and "silent_run payload nid es c"
  shows "memberState (cl_members (snd (cluster_run payload es c))) nid =
      (if list_ex (\<lambda>now. ms_dead (cl_members c) < now - t) (beats es) then StateDead
       else if mb_State mem = StateSuspect \<or> list_ex (\<lambda>now. ms_suspect (cl_members c) < now - t) (beats es) then StateSuspect
       else StateActive) \<and>
    count_list (fst (cluster_run payload es c)) nid =
      (if list_ex (\<lambda>now. ms_dead (cl_members c) < now - t) (beats es) then 1 else 0)"
  by (rule failure_detector_lemma [OF assms])

definition two_nodes :: Cluster where
  "two_nodes = snd (cluster_step [] (PingFrom 5 \<lparr>np_ID = ''b'', np_Leaving = False\<rparr>) (sample_cluster ''a'' [''a'', ''b'']))"

definition unreachable :: "NodeID \<Rightarrow> exchange" where
  "unreachable nid = \<lparr>dialOk = False, writeOk = False, arrives = []\<rparr>"

lemma two_nodes_eq:
  "two_nodes = \<lparr>cl_cfg = sample_config ''a'' [''a'', ''b''],
     cl_members = \<lparr>ms_self = ''a'',
       ms_members = [(''a'', \<lparr>mb_Info = \<lparr>ni_ID = ''a'', ni_Addr = ''h:1''\<rparr>, mb_State = StateActive, mb_LastSeen = Some 0, mb_Since = 0\<rparr>),
                     (''b'', \<lparr>mb_Info = \<lparr>ni_ID = ''b'', ni_Addr = ''h:1''\<rparr>, mb_State = StateActive, mb_LastSeen = Some 5, mb_Since = 5\<rparr>)],
       ms_suspect = 3000000000, ms_dead = 10000000000\<rparr>,
     cl_overlay = [], cl_peers = [(''b'', newPeer)]\<rparr>"
  by code_simp

theorem failure_detector_witness:
  "count_list (fst (cluster_run [] [Beat 4000000000 unreachable, Beat 11000000000 unreachable, Beat 12000000000 unreachable] two_nodes)) ''b'' = 1"
proof -
  have s: "silent_run [] ''b'' [Beat 4000000000 unreachable, Beat 11000000000 unreachable, Beat 12000000000 unreachable] two_nodes"
    by code_simp
  show ?thesis
    using failure_detector [of two_nodes "''b''" _ 5, OF _ _ _ _ _ s]
    by (simp add: two_nodes_eq cluster_wf_def state_Alive_def)
qed

section \<open>Configurations that are accepted\<close>

lemma checkNodes_ok:
  assumes "checkNodes self seen found ns = Inr r"
  shows "distinct (map ni_ID ns)" and "set (map ni_ID ns) \<inter> set seen = {}" and "r \<longleftrightarrow> found \<or> self \<in> set (map ni_ID ns)"
    and "[] \<notin> set (map ni_ID ns)"
proof -
  have "distinct (map ni_ID ns) \<and> set (map ni_ID ns) \<inter> set seen = {} \<and> (r \<longleftrightarrow> found \<or> self \<in> set (map ni_ID ns)) \<and>
      [] \<notin> set (map ni_ID ns)"
    using assms
  proof (induction ns arbitrary: seen found)
    case (Cons n ns)
    then have "checkNodes self (ni_ID n # seen) (found \<or> ni_ID n = self) ns = Inr r" by (auto split: if_splits)
    from Cons.IH [OF this] Cons.prems show ?case by (auto split: if_splits)
  qed simp
  then show "distinct (map ni_ID ns)" "set (map ni_ID ns) \<inter> set seen = {}" "r \<longleftrightarrow> found \<or> self \<in> set (map ni_ID ns)"
    "[] \<notin> set (map ni_ID ns)" by auto
qed

lemma withDefaults_ok:
  assumes "cc_Nodes c \<noteq> []"
  shows "1 \<le> ReplicationFactor (cluster_withDefaults c)" and "ReplicationFactor (cluster_withDefaults c) \<le> int (length (cc_Nodes c))"
    and "cluster_withDefaults (cluster_withDefaults c) = cluster_withDefaults c"
proof -
  have "1 \<le> length (cc_Nodes c)" using assms by (simp add: Suc_le_eq)
  then show "1 \<le> ReplicationFactor (cluster_withDefaults c)" "ReplicationFactor (cluster_withDefaults c) \<le> int (length (cc_Nodes c))"
    "cluster_withDefaults (cluster_withDefaults c) = cluster_withDefaults c"
    by (auto simp: cluster_withDefaults_def Let_def orDefault_def millisecond_def second_def)
qed

lemma update_new: "map_of ms k = None \<Longrightarrow> AList.update k v ms = ms @ [(k, v)]"
  by (induction ms) (auto split: if_splits)

lemma members_of_config:
  assumes "distinct (map ni_ID ns)" and "list_all (\<lambda>n. map_of ms (ni_ID n) = None) ns"
  shows "foldl (\<lambda>ms n. AList.update (ni_ID n) (f n) ms) ms ns = ms @ map (\<lambda>n. (ni_ID n, f n)) ns"
  using assms
proof (induction ns arbitrary: ms)
  case (Cons n ns)
  have up: "AList.update (ni_ID n) (f n) ms = ms @ [(ni_ID n, f n)]"
    using Cons.prems(2) by (simp add: update_new)
  have "list_all (\<lambda>x. map_of (ms @ [(ni_ID n, f n)]) (ni_ID x) = None) ns"
    using Cons.prems by (auto simp: list_all_iff map_add_def split: option.splits) (metis imageI)
  then show ?case using Cons by (simp add: up)
qed simp

text \<open>
  Property C27. A configuration that \<open>ParseEnv\<close> accepts boots and is well formed: the node
  ids are distinct and not empty, this node is one of them, and the replication factor lies between one
  and the number of nodes; \<open>New\<close> succeeds on it without changing a setting, its tables are keyed by the ids, this
  node is ACTIVE and every other configured node is JOINING, and the peers are the other nodes.
\<close>

theorem ParseEnv_boots:
  assumes "ParseEnv unmarshal self json = Inr (Some cfg)"
  shows "\<exists>c. NewCluster cfg now = Some c \<and> cl_cfg c = cfg \<and> cluster_wf c \<and> cl_overlay c = [] \<and>
    cl_Self c = self \<and> self \<in> set (map ni_ID (cc_Nodes cfg)) \<and> distinct (map ni_ID (cc_Nodes cfg)) \<and> [] \<notin> set (map ni_ID (cc_Nodes cfg)) \<and>
    1 \<le> ReplicationFactor cfg \<and> ReplicationFactor cfg \<le> int (length (cc_Nodes cfg)) \<and>
    map fst (ms_members (cl_members c)) = map ni_ID (cc_Nodes cfg) \<and>
    list_all (\<lambda>n. memberState (cl_members c) (ni_ID n) = (if ni_ID n = self then StateActive else StateJoining)) (cc_Nodes cfg) \<and>
    map fst (cl_peers c) = filter (\<lambda>i. i \<noteq> self) (map ni_ID (cc_Nodes cfg))"
proof -
  obtain nodes found where n: "nodes \<noteq> []" "checkNodes self [] False nodes = Inr found" "found"
    and cfg: "cfg = cluster_withDefaults (emptyConfig\<lparr>cc_NodeID := self, cc_Nodes := nodes\<rparr>)" and self: "self \<noteq> []"
    using assms by (auto simp: ParseEnv_def bindS_def split: if_splits option.splits sum.splits)
  note k = checkNodes_ok [OF n(2)]
  have f: "cc_Nodes cfg = nodes" "cc_NodeID cfg = self" by (simp_all add: cfg cluster_withDefaults_def Let_def emptyConfig_def)
  have wd: "1 \<le> ReplicationFactor cfg" "ReplicationFactor cfg \<le> int (length nodes)" "cluster_withDefaults cfg = cfg"
    using withDefaults_ok [of "emptyConfig\<lparr>cc_NodeID := self, cc_Nodes := nodes\<rparr>"] n(1) by (simp_all add: cfg)
  define c where "c = \<lparr>cl_cfg = cfg, cl_members = NewMembership cfg now, cl_overlay = [],
     cl_peers = foldl (\<lambda>ps n. AList.update (ni_ID n) newPeer ps) [] (cfg_Peers cfg)\<rparr>"
  have new: "NewCluster cfg now = Some c" using f n(1) self by (simp add: NewCluster_def c_def wd(3))
  have ms: "ms_members (cl_members c) = map (\<lambda>n. (ni_ID n, newMember self now n)) nodes"
    using members_of_config [OF k(1), of "[]" "newMember self now"] by (simp add: c_def NewMembership_def f list_all_iff)
  have "distinct (map ni_ID (filter (\<lambda>n. ni_ID n \<noteq> self) nodes))" using k(1) by (simp add: distinct_map_filter)
  then have ps: "cl_peers c = map (\<lambda>n. (ni_ID n, newPeer)) (filter (\<lambda>n. ni_ID n \<noteq> self) nodes)"
    using members_of_config [of "filter (\<lambda>n. ni_ID n \<noteq> self) nodes" "[]" "\<lambda>_. newPeer"] by (simp add: c_def cfg_Peers_def f list_all_iff)
  have wf: "cluster_wf c" using k(1) by (simp add: cluster_wf_def ms ps o_def distinct_map_filter list_all_iff newMember_def)
  have st: "memberState (cl_members c) (ni_ID n) = (if ni_ID n = self then StateActive else StateJoining)" if "n \<in> set nodes" for n
  proof -
    have "map_of (ms_members (cl_members c)) (ni_ID n) = Some (newMember self now n)"
      using that k(1) by (intro map_of_is_SomeI) (auto simp: ms o_def)
    then show ?thesis by (simp add: memberState_def newMember_def)
  qed
  have "map fst (cl_peers c) = filter (\<lambda>i. i \<noteq> self) (map ni_ID nodes)" by (simp add: ps o_def filter_map)
  moreover have "map fst (ms_members (cl_members c)) = map ni_ID nodes" by (simp add: ms o_def)
  moreover have "self \<in> set (map ni_ID nodes)" using k(3) n(3) by simp
  moreover have "cl_Self c = self" "cl_cfg c = cfg" "cl_overlay c = []" using f by (simp_all add: cl_Self_def c_def)
  ultimately show ?thesis using new wf k(1,4) wd st by (intro exI [of _ c]) (auto simp: f list_all_iff)
qed

theorem ParseEnv_boots_witness:
  "\<exists>c. NewCluster (sample_config ''a'' [''a'', ''b'']) 0 = Some c \<and> cluster_wf c \<and> map fst (cl_peers c) = [''b'']"
proof -
  have p: "ParseEnv (\<lambda>_. Some [\<lparr>ni_ID = ''a'', ni_Addr = ''h:1''\<rparr>, \<lparr>ni_ID = ''b'', ni_Addr = ''h:1''\<rparr>]) ''a'' ''json'' =
    Inr (Some (sample_config ''a'' [''a'', ''b'']))"
    by (simp add: ParseEnv_def sample_config_def)
  have "map ni_ID (cc_Nodes (sample_config ''a'' [''a'', ''b''])) = [''a'', ''b'']"
    by (simp add: sample_config_def cluster_withDefaults_def Let_def)
  then show ?thesis using ParseEnv_boots [OF p, of 0] by auto
qed

end
