(* ===== verification/Replication.thy ===== *)
theory Replication
  imports Store Cluster
begin

text \<open>
  The replication data plane (src/internal/broker/replication.go): the leader side of
  REPLICATE with its commit rule, the follower loops, topic sync and the status report.
  A node is its store, its control plane and the replication state of its partitions;
  the broker extends this record. Every operation is one step, except that
  \<open>waitCommitted\<close> is a machine whose steps interleave with the others. A Go panic is
  the left side of a sum. A call to a peer is an argument; where the peer is modelled too, request and
  answer pass through the frames of the protocol with their size cap.
\<close>

section \<open>State\<close>

record partitionRepl =
  committed :: u64
  commitCh :: nat
  followerOffsets :: "(NodeID \<times> u64) list"

text \<open>
  \<open>commitCh\<close> numbers the generations of the channel. A follower loop that has returned
  keeps its entry in \<open>followCtl\<close>.
\<close>

record follower =
  fl_leader :: NodeID
  fl_running :: bool

type_synonym topicPart = "string \<times> i32"

record node =
  nd_store :: Store
  nd_cl :: Cluster
  nd_parts :: "(topicPart \<times> partitionRepl) list"
  nd_followCtl :: "(topicPart \<times> follower) list"

definition OpReplicate :: Opcode where "OpReplicate = 0x0B"

definition newPartitionRepl :: partitionRepl where
  "newPartitionRepl = \<lparr>committed = 0, commitCh = 0, followerOffsets = []\<rparr>"

text \<open>\<open>part\<close> creates on demand: an absent entry reads as a new one.\<close>

definition replPart :: "string \<Rightarrow> i32 \<Rightarrow> 'z node_scheme \<Rightarrow> partitionRepl" where
  "replPart topic part nd = (case map_of (nd_parts nd) (topic, part) of Some r \<Rightarrow> r | None \<Rightarrow> newPartitionRepl)"

definition setPart :: "string \<Rightarrow> i32 \<Rightarrow> partitionRepl \<Rightarrow> 'z node_scheme \<Rightarrow> 'z node_scheme" where
  "setPart topic part r nd = nd\<lparr>nd_parts := AList.update (topic, part) r (nd_parts nd)\<rparr>"

text \<open>
  The lookup that opens most operations: no partition when the topic is unknown or the number too large,
  and the index panic for a negative number.
\<close>

definition topicPartition :: "string \<Rightarrow> i32 \<Rightarrow> Store \<Rightarrow> (Partition \<times> disk) option go" where
  "topicPartition topic part s =
     (case getTopic topic s of
        Inl _ \<Rightarrow> Inr None
      | Inr t \<Rightarrow>
          if int (NumPartitions t) \<le> sint part then Inr None
          else if sint part < 0 then Inl IndexOutOfRange
          else Inr (Some (Partitions t ! nat (sint part))))"

text \<open>A partition that an operation has changed, put back.\<close>

definition putPartition :: "string \<Rightarrow> i32 \<Rightarrow> Partition \<times> disk \<Rightarrow> 'z node_scheme \<Rightarrow> 'z node_scheme" where
  "putPartition topic part pd nd =
     (case map_of (topics (nd_store nd)) topic of
        None \<Rightarrow> nd
      | Some t \<Rightarrow> nd\<lparr>nd_store := (nd_store nd)\<lparr>topics :=
          AList.update topic (t\<lparr>Partitions := (Partitions t)[nat (sint part) := pd]\<rparr>) (topics (nd_store nd))\<rparr>\<rparr>)"

section \<open>The committed offset\<close>

definition committedFor :: "string \<Rightarrow> i32 \<Rightarrow> 'z node_scheme \<Rightarrow> u64 go" where
  "committedFor topic part nd =
     bindS (topicPartition topic part (nd_store nd)) (\<lambda>pd.
       case pd of
         None \<Rightarrow> Inr 0
       | Some (p, d) \<Rightarrow>
           let c = committed (replPart topic part nd) in
           Inr (if HighWatermark p < c then HighWatermark p else c))"

definition setCommitted :: "string \<Rightarrow> i32 \<Rightarrow> u64 \<Rightarrow> 'z node_scheme \<Rightarrow> 'z node_scheme" where
  "setCommitted topic part off nd =
     (let r = replPart topic part nd in
      if off \<le> committed r then nd
      else setPart topic part (r\<lparr>committed := off, commitCh := commitCh r + 1\<rparr>) nd)"

definition followerProgressSnapshot :: "string \<Rightarrow> i32 \<Rightarrow> 'z node_scheme \<Rightarrow> (NodeID \<times> u64) list" where
  "followerProgressSnapshot topic part nd = followerOffsets (replPart topic part nd)"

text \<open>The loop over the replicas: the smallest offset and the size of the in-sync set.\<close>

fun isrScan :: "'z node_scheme \<Rightarrow> u64 \<Rightarrow> (NodeID \<times> u64) list \<Rightarrow> NodeID list \<Rightarrow> u64 \<times> nat \<Rightarrow> u64 \<times> nat" where
  "isrScan nd hwm progress [] (isrMin, isrSize) = (isrMin, isrSize)"
| "isrScan nd hwm progress (nid # ids) (isrMin, isrSize) =
     (if nid = cl_Self (nd_cl nd) then isrScan nd hwm progress ids (isrMin, isrSize)
      else case map_of progress nid of
        None \<Rightarrow> isrScan nd hwm progress ids (isrMin, isrSize)
      | Some off \<Rightarrow>
          if \<not> state_Alive (memberState (cl_members (nd_cl nd)) nid) then isrScan nd hwm progress ids (isrMin, isrSize)
          else if ReplicaLagMax (cl_cfg (nd_cl nd)) < hwm - off then isrScan nd hwm progress ids (isrMin, isrSize)
          else isrScan nd hwm progress ids (if off < isrMin then off else isrMin, isrSize + 1))"

definition maybeAdvanceCommit :: "string \<Rightarrow> i32 \<Rightarrow> 'z node_scheme \<Rightarrow> 'z node_scheme go" where
  "maybeAdvanceCommit topic part nd =
     bindS (IsLeaderFor (nd_cl nd) topic part) (\<lambda>leader.
     if \<not> leader then Inr nd
     else bindS (topicPartition topic part (nd_store nd)) (\<lambda>pd.
       case pd of
         None \<Rightarrow> Inr nd
       | Some (p, d) \<Rightarrow>
           bindS (AssignmentFor (nd_cl nd) topic part) (\<lambda>a.
             let quorum = length (pa_Replicas a) div 2 + 1;
                 (isrMin, isrSize) = isrScan nd (HighWatermark p) (followerProgressSnapshot topic part nd) (pa_Replicas a) (HighWatermark p, 1)
             in if isrSize < quorum then Inr nd else Inr (setCommitted topic part isrMin nd))))"

text \<open>
  \<open>waitCommitted\<close> against the rest of the node: it compares the mark, then takes the channel of the
  moment, then sleeps on it. \<open>Committing\<close> is any \<open>setCommitted\<close> of another goroutine.
\<close>

datatype waiter = Comparing | Taking | Sleeping nat | Returned "error_code option"

inductive wait_step :: "string \<Rightarrow> i32 \<Rightarrow> u64 \<Rightarrow> waiter \<times> 'z node_scheme \<Rightarrow> waiter \<times> 'z node_scheme \<Rightarrow> bool"
  for topic part off where
  Reached: "committedFor topic part nd = Inr c \<Longrightarrow> off \<le> c \<Longrightarrow> wait_step topic part off (Comparing, nd) (Returned None, nd)"
| NotReached: "committedFor topic part nd = Inr c \<Longrightarrow> c < off \<Longrightarrow> wait_step topic part off (Comparing, nd) (Taking, nd)"
| Take: "wait_step topic part off (Taking, nd) (Sleeping (commitCh (replPart topic part nd)), nd)"
| Wake: "commitCh (replPart topic part nd) \<noteq> g \<Longrightarrow> wait_step topic part off (Sleeping g, nd) (Comparing, nd)"
| TimedOut: "wait_step topic part off (Sleeping g, nd) (Returned (Some CodeNotEnoughReplicas), nd)"
| Committing: "wait_step topic part off (w, nd) (w, setCommitted topic part c nd)"

section \<open>The leader\<close>

definition ReplicateOK :: byte where "ReplicateOK = 0"

definition ReplicateNotLeader :: byte where "ReplicateNotLeader = 1"

definition ReplicateTruncate :: byte where "ReplicateTruncate = 2"

definition ReplicateTopicUnknown :: byte where "ReplicateTopicUnknown = 3"

record ReplicateRequest =
  rq_From :: string
  rq_Topic :: string
  rq_Partition :: i32
  rq_Offset :: u64
  rq_MaxRecords :: u32
  rq_MaxBytes :: u32

definition convertHeaders :: "wire_Header list \<Rightarrow> Header list" where
  "convertHeaders hs = map (\<lambda>h. \<lparr>h_Key = wh_Key h, h_Value = wh_Value h\<rparr>) hs"

definition convertHeadersBack :: "Header list \<Rightarrow> wire_Header list" where
  "convertHeadersBack hs = map (\<lambda>h. \<lparr>wh_Key = h_Key h, wh_Value = h_Value h\<rparr>) hs"

definition toFetched :: "Record \<Rightarrow> FetchedMessage" where
  "toFetched r = \<lparr>fm_Offset = Offset r, fm_Timestamp = TimestampMs r, fm_Key = Key r, fm_Value = Value r,
     fm_Headers = convertHeadersBack (Headers r)\<rparr>"

definition fromFetched :: "FetchedMessage \<Rightarrow> Record" where
  "fromFetched m = \<lparr>Offset = fm_Offset m, TimestampMs = fm_Timestamp m, Key = fm_Key m, Value = fm_Value m,
     Headers = convertHeaders (fm_Headers m)\<rparr>"

definition noteFollowerProgress :: "string \<Rightarrow> i32 \<Rightarrow> NodeID \<Rightarrow> u64 \<Rightarrow> 'z node_scheme \<Rightarrow> 'z node_scheme go" where
  "noteFollowerProgress topic part nid offset nd =
     (if nid = [] \<or> nid = cl_Self (nd_cl nd) then Inr nd
      else let r = replPart topic part nd
           in maybeAdvanceCommit topic part (setPart topic part (r\<lparr>followerOffsets := AList.update nid offset (followerOffsets r)\<rparr>) nd))"

definition respond :: "byte \<Rightarrow> u64 \<Rightarrow> u64 \<Rightarrow> u64 \<Rightarrow> FetchedMessage list \<Rightarrow> ReplicateResponse" where
  "respond status first hwm com recs =
     \<lparr>rp_Status = status, rp_FirstOffset = first, rp_HighWatermark = hwm, rp_Committed = com, rp_Records = recs\<rparr>"

definition handleReplicate ::
  "runtime \<Rightarrow> ReplicateRequest option \<Rightarrow> 'z node_scheme \<Rightarrow> ((error_code + ReplicateResponse) \<times> 'z node_scheme) go" where
  "handleReplicate rt body nd =
     (case body of
        None \<Rightarrow> Inr (Inl CodeBadRequest, nd)
      | Some req \<Rightarrow>
          bindS (IsLeaderFor (nd_cl nd) (rq_Topic req) (rq_Partition req)) (\<lambda>leader.
          if \<not> leader then Inr (Inr (respond ReplicateNotLeader 0 0 0 []), nd)
          else case getTopic (rq_Topic req) (nd_store nd) of
            Inl _ \<Rightarrow> Inr (Inr (respond ReplicateTopicUnknown 0 0 0 []), nd)
          | Inr t \<Rightarrow>
              if sint (rq_Partition req) < 0 \<or> int (NumPartitions t) \<le> sint (rq_Partition req)
              then Inr (Inr (respond ReplicateTopicUnknown 0 0 0 []), nd)
              else
                let (p, d) = Partitions t ! nat (sint (rq_Partition req));
                    hwm = HighWatermark p; first = FirstOffset p
                in bindS (committedFor (rq_Topic req) (rq_Partition req) nd) (\<lambda>com.
                   if hwm < rq_Offset req then Inr (Inr (respond ReplicateTruncate first hwm com []), nd)
                   else
                     let maxRecords = (if rq_MaxRecords req = 0 \<or> 10000 < rq_MaxRecords req then 1000 else uint (rq_MaxRecords req));
                         maxBytes = (if rq_MaxBytes req = 0 \<or> FetchMaxBytes (cl_cfg (nd_cl nd)) < uint (rq_MaxBytes req)
                                     then FetchMaxBytes (cl_cfg (nd_cl nd)) else uint (rq_MaxBytes req))
                     in bindS (unrecovered (Read rt p d (rq_Offset req) maxRecords maxBytes)) (\<lambda>read.
                        case read of
                          Inl e \<Rightarrow>
                            if e = ErrOffsetOutOfRange then Inr (Inr (respond ReplicateTruncate first hwm com []), nd)
                            else Inr (Inl CodeInternal, nd)
                        | Inr recs \<Rightarrow>
                            bindS (noteFollowerProgress (rq_Topic req) (rq_Partition req) (rq_From req)
                                     (rq_Offset req + of_nat (length recs)) nd) (\<lambda>nd'.
                              Inr (Inr (respond ReplicateOK first hwm com (map toFetched recs)), nd'))))))"

definition isr :: "PartitionAssignment \<Rightarrow> u64 \<Rightarrow> 'z node_scheme \<Rightarrow> NodeID list" where
  "isr a hwm nd =
     filter (\<lambda>nid. nid = cl_Self (nd_cl nd) \<or>
        (case map_of (followerProgressSnapshot (pa_Topic a) (pa_Partition a) nd) nid of
           None \<Rightarrow> False
         | Some off \<Rightarrow> state_Alive (memberState (cl_members (nd_cl nd)) nid) \<and> hwm - off \<le> ReplicaLagMax (cl_cfg (nd_cl nd))))
       (pa_Replicas a)"

section \<open>Followers\<close>

definition startFollower :: "string \<Rightarrow> i32 \<Rightarrow> NodeID \<Rightarrow> 'z node_scheme \<Rightarrow> 'z node_scheme" where
  "startFollower topic part leader nd =
     nd\<lparr>nd_followCtl := AList.update (topic, part) \<lparr>fl_leader = leader, fl_running = True\<rparr> (nd_followCtl nd)\<rparr>"

definition stopFollower :: "topicPart \<Rightarrow> 'z node_scheme \<Rightarrow> 'z node_scheme" where
  "stopFollower key nd = nd\<lparr>nd_followCtl := AList.delete key (nd_followCtl nd)\<rparr>"

definition stopAllFollowers :: "'z node_scheme \<Rightarrow> 'z node_scheme" where
  "stopAllFollowers nd = nd\<lparr>nd_followCtl := []\<rparr>"

definition reconcilePart :: "string \<Rightarrow> i32 \<Rightarrow> 'z node_scheme \<Rightarrow> 'z node_scheme go" where
  "reconcilePart topic part nd =
     bindS (AssignmentFor (nd_cl nd) topic part) (\<lambda>a.
       let self = cl_Self (nd_cl nd);
           isReplica = (self \<in> set (pa_Replicas a));
           following = (map_of (nd_followCtl nd) (topic, part) \<noteq> None)
       in if \<not> isReplica \<or> pa_Leader a = self
          then Inr (if following then stopFollower (topic, part) nd else nd)
          else Inr (if \<not> following then startFollower topic part (pa_Leader a) nd else nd))"

fun reconcileParts :: "topicPart list \<Rightarrow> 'z node_scheme \<Rightarrow> 'z node_scheme go" where
  "reconcileParts [] nd = Inr nd"
| "reconcileParts ((topic, part) # keys) nd = bindS (reconcilePart topic part nd) (\<lambda>nd. reconcileParts keys nd)"

definition storeKeys :: "Store \<Rightarrow> topicPart list" where
  "storeKeys s = concat (map (\<lambda>t. map (\<lambda>(p, d). (t_Name t, p_id p)) (Partitions t)) (sortedTopics s))"

definition reconcile :: "'z node_scheme \<Rightarrow> 'z node_scheme go" where
  "reconcile nd = reconcileParts (storeKeys (nd_store nd)) nd"

text \<open>
  The truncate instruction. The node's copy of the partition comes from \<open>putPartition\<close>, also when the
  truncation failed half way.
\<close>

definition truncateTarget :: "u64 \<Rightarrow> ReplicateResponse \<Rightarrow> u64" where
  "truncateTarget localHWM resp =
     (if localHWM \<le> rp_HighWatermark resp
      then (if rp_FirstOffset resp \<le> localHWM then rp_HighWatermark resp else rp_FirstOffset resp)
      else rp_HighWatermark resp)"

definition applyTruncate :: "runtime \<Rightarrow> string \<Rightarrow> i32 \<Rightarrow> u64 \<Rightarrow> ReplicateResponse \<Rightarrow> 'z node_scheme \<Rightarrow> 'z node_scheme go" where
  "applyTruncate rt topic part localHWM resp nd =
     bindS (topicPartition topic part (nd_store nd)) (\<lambda>pd.
       case pd of
         None \<Rightarrow> Inr nd
       | Some pd \<Rightarrow>
           let (res, pd') = TruncateTo rt (truncateTarget localHWM resp) pd in
           bindS (unrecovered res) (\<lambda>res.
             case res of
               Inl _ \<Rightarrow> Inr (putPartition topic part pd' nd)
             | Inr _ \<Rightarrow>
                 let hwm = HighWatermark (fst pd');
                     com = (if hwm < rp_Committed resp then hwm else rp_Committed resp)
                 in Inr (setCommitted topic part com (putPartition topic part pd' nd))))"

text \<open>What \<open>followOnce\<close> does with a decoded answer: whether it progressed, whether the loop goes on.\<close>

definition followApply ::
  "runtime \<Rightarrow> string \<Rightarrow> i32 \<Rightarrow> u64 \<Rightarrow> Partition \<times> disk \<Rightarrow> ReplicateResponse \<Rightarrow> 'z node_scheme \<Rightarrow> ((bool \<times> bool) \<times> 'z node_scheme) go" where
  "followApply rt topic part localHWM pd resp nd =
     (if rp_Status resp = ReplicateNotLeader then Inr ((False, False), nd)
      else if rp_Status resp = ReplicateTopicUnknown then Inr ((False, True), nd)
      else if rp_Status resp = ReplicateTruncate
      then bindS (applyTruncate rt topic part localHWM resp nd) (\<lambda>nd. Inr ((True, True), nd))
      else
        let finish = (\<lambda>pd nd.
              let newHWM = HighWatermark (fst pd);
                  com = (if newHWM < rp_Committed resp then newHWM else rp_Committed resp)
              in Inr ((rp_Records resp \<noteq> [] \<and> newHWM < rp_HighWatermark resp, True), setCommitted topic part com nd))
        in if rp_Records resp = [] then finish pd nd
           else
             let (res, pd') = AppendReplica rt (map fromFetched (rp_Records resp)) pd;
                 nd = putPartition topic part pd' nd
             in bindS (unrecovered res) (\<lambda>res.
               case res of
                 Inr _ \<Rightarrow> finish pd' nd
               | Inl e \<Rightarrow>
                   if e = ErrDivergedAppend
                   then bindS (applyTruncate rt topic part localHWM resp nd) (\<lambda>nd. Inr ((True, True), nd))
                   else Inr ((False, True), nd)))"

definition replicateRequest :: "string \<Rightarrow> i32 \<Rightarrow> u64 \<Rightarrow> 'z node_scheme \<Rightarrow> ReplicateRequest" where
  "replicateRequest topic part localHWM nd =
     \<lparr>rq_From = cl_Self (nd_cl nd), rq_Topic = topic, rq_Partition = part, rq_Offset = localHWM, rq_MaxRecords = 1000,
      rq_MaxBytes = word_of_int (FetchMaxBytes (cl_cfg (nd_cl nd)))\<rparr>"

text \<open>\<open>rpc\<close> is the call to the leader with its effect on the membership table; \<open>ctxDone\<close> tells whether the loop was cancelled meanwhile.\<close>

definition followOnce ::
  "runtime \<Rightarrow> (ReplicateRequest \<Rightarrow> Cluster \<Rightarrow> (peer_error + bytes) \<times> Cluster) \<Rightarrow> bool \<Rightarrow> string \<Rightarrow> i32 \<Rightarrow> 'z node_scheme \<Rightarrow>
   ((bool \<times> bool) \<times> 'z node_scheme) go" where
  "followOnce rt rpc ctxDone topic part nd =
     bindS (topicPartition topic part (nd_store nd)) (\<lambda>pd.
       case pd of
         None \<Rightarrow> Inr ((False, True), nd)
       | Some pd \<Rightarrow>
           let localHWM = HighWatermark (fst pd);
               (answer, cl) = rpc (replicateRequest topic part localHWM nd) (nd_cl nd);
               nd = nd\<lparr>nd_cl := cl\<rparr>
           in case answer of
                Inl _ \<Rightarrow> Inr ((False, \<not> ctxDone), nd)
              | Inr body \<Rightarrow>
                  (case DecodeReplicateResponse body of
                     Inl _ \<Rightarrow> Inr ((False, True), nd)
                   | Inr resp \<Rightarrow> followApply rt topic part localHWM pd resp nd))"

text \<open>One turn of \<open>followLoop\<close>; a loop that returns keeps its entry.\<close>

definition followTurn ::
  "runtime \<Rightarrow> (NodeID \<Rightarrow> ReplicateRequest \<Rightarrow> Cluster \<Rightarrow> (peer_error + bytes) \<times> Cluster) \<Rightarrow> topicPart \<Rightarrow> 'z node_scheme \<Rightarrow> 'z node_scheme go" where
  "followTurn rt rpc key nd =
     (case map_of (nd_followCtl nd) key of
        None \<Rightarrow> Inr nd
      | Some fl \<Rightarrow>
          if \<not> fl_running fl then Inr nd
          else bindS (followOnce rt (rpc (fl_leader fl)) False (fst key) (snd key) nd) (\<lambda>((progressed, keepGoing), nd).
                 Inr (if keepGoing then nd
                      else nd\<lparr>nd_followCtl := AList.update key (fl\<lparr>fl_running := False\<rparr>) (nd_followCtl nd)\<rparr>)))"

section \<open>Topic metadata and status\<close>

fun anyReplica :: "Cluster \<Rightarrow> string \<Rightarrow> i32 list \<Rightarrow> bool go" where
  "anyReplica c topic [] = Inr False"
| "anyReplica c topic (p # ps) = bindS (IsReplicaFor c topic p) (\<lambda>b. if b then Inr True else anyReplica c topic ps)"

definition holdsAnyReplica :: "string \<Rightarrow> i32 \<Rightarrow> 'z node_scheme \<Rightarrow> bool go" where
  "holdsAnyReplica topic partitions nd = anyReplica (nd_cl nd) topic (map of_nat [0 ..< nat (sint partitions)])"

record followerProgress =
  fg_ID :: NodeID
  fg_Offset :: u64
  fg_Lag :: u64
  fg_InISR :: bool

record clusterStatusPartition =
  sp_Topic :: string
  sp_Partition :: i32
  sp_Leader :: NodeID
  sp_Replicas :: "NodeID list"
  sp_ISR :: "NodeID list"
  sp_Role :: string
  sp_HWM :: u64
  sp_Committed :: u64
  sp_Followers :: "followerProgress list"

record clusterStatusResponse =
  st_Node :: NodeID
  st_Members :: "Member list"
  st_Topics :: "(string \<times> i32) list"
  st_Partitions :: "clusterStatusPartition list"

definition followerReport :: "u64 \<Rightarrow> NodeID list \<Rightarrow> (NodeID \<times> u64) list \<Rightarrow> NodeID \<Rightarrow> followerProgress" where
  "followerReport hwm isrSet progress nid =
     (let off = (case map_of progress nid of Some off \<Rightarrow> off | None \<Rightarrow> 0)
      in \<lparr>fg_ID = nid, fg_Offset = off, fg_Lag = (if off < hwm then hwm - off else 0), fg_InISR = (nid \<in> set isrSet)\<rparr>)"

definition statusPartition :: "'z node_scheme \<Rightarrow> string \<Rightarrow> Partition \<Rightarrow> clusterStatusPartition go" where
  "statusPartition nd topic p =
     bindS (AssignmentFor (nd_cl nd) topic (p_id p)) (\<lambda>a.
     bindS (committedFor topic (p_id p) nd) (\<lambda>com.
       let hwm = HighWatermark p; self = cl_Self (nd_cl nd); inSync = isr a hwm nd;
           leads = (pa_Leader a = self)
       in Inr \<lparr>sp_Topic = topic, sp_Partition = p_id p, sp_Leader = pa_Leader a, sp_Replicas = pa_Replicas a, sp_ISR = inSync,
            sp_Role = (if leads then ''leader'' else ''follower''), sp_HWM = hwm, sp_Committed = com,
            sp_Followers = (if leads then map (followerReport hwm inSync (followerProgressSnapshot topic (p_id p) nd))
                                            (filter (\<lambda>nid. nid \<noteq> self) (pa_Replicas a)) else [])\<rparr>))"

fun statusPartitions :: "'z node_scheme \<Rightarrow> (string \<times> Partition) list \<Rightarrow> clusterStatusPartition list go" where
  "statusPartitions nd [] = Inr []"
| "statusPartitions nd ((topic, p) # ps) =
     bindS (statusPartition nd topic p) (\<lambda>s. bindS (statusPartitions nd ps) (\<lambda>ss. Inr (s # ss)))"

definition handleClusterStatus :: "'z node_scheme \<Rightarrow> clusterStatusResponse go" where
  "handleClusterStatus nd =
     bindS (statusPartitions nd (concat (map (\<lambda>t. map (\<lambda>(p, d). (t_Name t, p)) (Partitions t)) (sortedTopics (nd_store nd))))) (\<lambda>ps.
       Inr \<lparr>st_Node = cl_Self (nd_cl nd), st_Members = membersSnapshot (cl_members (nd_cl nd)),
            st_Topics = map (\<lambda>t. (t_Name t, of_nat (NumPartitions t))) (sortedTopics (nd_store nd)),
            st_Partitions = ps\<rparr>)"

section \<open>Commits\<close>

lemma replPart_setPart [simp]:
  "replPart topic' part' (setPart topic part r nd) = (if (topic', part') = (topic, part) then r else replPart topic' part' nd)"
  by (simp add: replPart_def setPart_def update_conv')

lemma setPart_fields [simp]:
  "nd_store (setPart topic part r nd) = nd_store nd" "nd_cl (setPart topic part r nd) = nd_cl nd"
  "nd_followCtl (setPart topic part r nd) = nd_followCtl nd"
  by (simp_all add: setPart_def)

lemma setCommitted_fields [simp]:
  "nd_store (setCommitted topic part off nd) = nd_store nd" "nd_cl (setCommitted topic part off nd) = nd_cl nd"
  "nd_followCtl (setCommitted topic part off nd) = nd_followCtl nd"
  "followerOffsets (replPart topic' part' (setCommitted topic part off nd)) = followerOffsets (replPart topic' part' nd)"
  by (simp_all add: setCommitted_def Let_def)

lemma committed_setCommitted:
  "committed (replPart topic' part' (setCommitted topic part off nd)) =
     (if (topic', part') = (topic, part) then max (committed (replPart topic part nd)) off else committed (replPart topic' part' nd))"
  by (auto simp: setCommitted_def Let_def max_def)

text \<open>A replica that counts for a commit of offset \<open>c\<close>.\<close>

definition confirms :: "'z node_scheme \<Rightarrow> string \<Rightarrow> i32 \<Rightarrow> u64 \<Rightarrow> NodeID \<Rightarrow> bool" where
  "confirms nd topic part c nid \<longleftrightarrow> nid = cl_Self (nd_cl nd) \<or>
     (state_Alive (memberState (cl_members (nd_cl nd)) nid) \<and>
      (case map_of (followerProgressSnapshot topic part nd) nid of None \<Rightarrow> False | Some off \<Rightarrow> c \<le> off))"

lemma isrScan_result:
  assumes "isrScan nd hwm progress ids (m, n) = (m', n')"
  shows "m' \<le> m" and "n' - n \<le> length (filter (\<lambda>nid. nid \<noteq> cl_Self (nd_cl nd) \<and>
      state_Alive (memberState (cl_members (nd_cl nd)) nid) \<and>
      (case map_of progress nid of None \<Rightarrow> False | Some off \<Rightarrow> m' \<le> off)) ids)"
  using assms
proof (induction ids arbitrary: m n)
  case (Cons i ids)
  {
    case 1
    then show ?case
      using Cons.IH(1) [of "if the (map_of progress i) < m then the (map_of progress i) else m" "n + 1"] Cons.IH(1) [of m n]
      by (auto split: if_splits option.splits)
  next
    case 2
    have skip: ?case if "isrScan nd hwm progress ids (m, n) = (m', n')"
      using Cons.IH(2) [OF that] by auto
    show ?case
    proof (cases "isrScan nd hwm progress ids (m, n) = (m', n')")
      case False
      then obtain off where o: "i \<noteq> cl_Self (nd_cl nd)" "map_of progress i = Some off"
        "state_Alive (memberState (cl_members (nd_cl nd)) i)"
        "isrScan nd hwm progress ids (if off < m then off else m, n + 1) = (m', n')"
        using 2 by (auto split: if_splits option.splits)
      have "m' \<le> off" using Cons.IH(1) [OF o(4)] by (auto split: if_splits)
      then show ?thesis using o Cons.IH(2) [OF o(4)] by simp
    qed (rule skip)
  }
qed simp_all

lemma advance_cases:
  assumes "maybeAdvanceCommit topic part nd = Inr nd'"
  obtains (Same) "nd' = nd"
  | (Raise) a p d c n where "AssignmentFor (nd_cl nd) topic part = Inr a" and "pa_Leader a = cl_Self (nd_cl nd)"
      and "topicPartition topic part (nd_store nd) = Inr (Some (p, d))"
      and "isrScan nd (HighWatermark p) (followerProgressSnapshot topic part nd) (pa_Replicas a) (HighWatermark p, 1) = (c, n)"
      and "length (pa_Replicas a) div 2 + 1 \<le> n" and "nd' = setCommitted topic part c nd"
proof -
  consider "nd' = nd" | a p d where "AssignmentFor (nd_cl nd) topic part = Inr a" and "pa_Leader a = cl_Self (nd_cl nd)"
      and "topicPartition topic part (nd_store nd) = Inr (Some (p, d))"
      and "(let (isrMin, isrSize) = isrScan nd (HighWatermark p) (followerProgressSnapshot topic part nd) (pa_Replicas a) (HighWatermark p, 1)
            in if isrSize < length (pa_Replicas a) div 2 + 1 then Inr nd else Inr (setCommitted topic part isrMin nd)) =
           (Inr nd' :: 'a node_scheme go)"
    using assms unfolding maybeAdvanceCommit_def IsLeaderFor_def Let_def
    by (auto simp: bindS_eq_Inr_iff split: if_splits option.splits)
  then show thesis
  proof cases
    case (2 a p d)
    obtain c n where scan: "isrScan nd (HighWatermark p) (followerProgressSnapshot topic part nd) (pa_Replicas a) (HighWatermark p, 1) = (c, n)"
      by force
    show thesis
    proof (cases "n < length (pa_Replicas a) div 2 + 1")
      case True
      then show thesis using 2(4) scan Same by simp
    next
      case False
      then show thesis using 2 scan Raise [OF 2(1-3) scan] by simp
    qed
  qed (rule Same)
qed

lemma advance_quorum:
  assumes scan: "isrScan nd hwm (followerProgressSnapshot topic part nd) ids (hwm, 1) = (c, n)"
    and self: "cl_Self (nd_cl nd) \<in> set ids" and c: "c' \<le> c"
  shows "n \<le> length (filter (confirms nd topic part c') ids)"
proof -
  let ?self = "cl_Self (nd_cl nd)"
  let ?P = "\<lambda>nid. nid \<noteq> ?self \<and> state_Alive (memberState (cl_members (nd_cl nd)) nid) \<and>
      (case map_of (followerProgressSnapshot topic part nd) nid of None \<Rightarrow> False | Some off \<Rightarrow> c \<le> off)"
  have "n - 1 \<le> length (filter ?P ids)" using isrScan_result(2) [OF scan] .
  moreover have "length (filter ?P ids) + length (filter (\<lambda>nid. nid = ?self) ids) \<le> length (filter (confirms nd topic part c') ids)"
    using c by (induction ids) (auto simp: confirms_def split: option.splits)
  moreover have "0 < length (filter (\<lambda>nid. nid = ?self) ids)" using self by (auto simp: filter_empty_conv)
  ultimately show ?thesis by linarith
qed

text \<open>
  Property C28. Committing is monotone and quorum-backed. Recomputing the commit of a partition
  changes nothing but the committed offset of that partition, and never lowers it. It raises
  it only on the leader, not past the leader's own log end, and only when a majority of the
  replicas counts for the new offset: the leader itself, or a live replica whose progress, as the leader has recorded it, has
  reached the offset. The record is not the replica's log: it runs ahead of it by the records in transit.
\<close>

theorem commit_needs_quorum:
  assumes "maybeAdvanceCommit topic part nd = Inr nd'" and "AssignmentFor (nd_cl nd) topic part = Inr a"
    and "pa_Leader a \<in> set (pa_Replicas a)" and "topicPartition topic part (nd_store nd) = Inr (Some (p, d))"
  shows "nd_store nd' = nd_store nd \<and> nd_cl nd' = nd_cl nd \<and> nd_followCtl nd' = nd_followCtl nd \<and>
    (\<forall>topic' part'. (topic', part') \<noteq> (topic, part) \<longrightarrow> replPart topic' part' nd' = replPart topic' part' nd) \<and>
    followerOffsets (replPart topic part nd') = followerOffsets (replPart topic part nd) \<and>
    committed (replPart topic part nd) \<le> committed (replPart topic part nd') \<and>
    (committed (replPart topic part nd') \<noteq> committed (replPart topic part nd) \<longrightarrow>
       pa_Leader a = cl_Self (nd_cl nd) \<and> committed (replPart topic part nd') \<le> HighWatermark p \<and>
       length (pa_Replicas a) div 2 + 1 \<le>
         length (filter (confirms nd topic part (committed (replPart topic part nd'))) (pa_Replicas a)))"
  using assms(1)
proof (cases rule: advance_cases)
  case Same
  then show ?thesis by simp
next
  case (Raise a' p' d' c n)
  have eqs: "a' = a" "p' = p" using Raise(1,3) assms(2,4) by simp_all
  have c: "c \<le> HighWatermark p" using isrScan_result(1) [OF Raise(4)] eqs by simp
  have "length (pa_Replicas a) div 2 + 1 \<le> length (filter (confirms nd topic part c) (pa_Replicas a))"
    using advance_quorum [OF Raise(4)] Raise(2,5) assms(3) eqs by fastforce
  moreover have "replPart topic' part' nd' = replPart topic' part' nd" if "(topic', part') \<noteq> (topic, part)" for topic' part'
    using that by (auto simp: Raise(6) setCommitted_def Let_def)
  ultimately show ?thesis using c Raise(2) eqs
    by (simp add: Raise(6) committed_setCommitted max_def split: if_splits)
qed

definition sample_node :: "Partition \<times> disk \<Rightarrow> node" where
  "sample_node pd = \<lparr>nd_store = \<lparr>s_dir = [''data''], s_opts = sample_options, defaultPartitions = 1,
       topics = [(''u'', \<lparr>t_Name = ''u'', Partitions = [pd], rr = 0\<rparr>)], s_closed = False\<rparr>,
     nd_cl = two_nodes, nd_parts = [], nd_followCtl = []\<rparr>"

definition sample_assignment :: PartitionAssignment where
  "sample_assignment = \<lparr>pa_Topic = ''u'', pa_Partition = 0, pa_Leader = ''a'', pa_Replicas = [''a'', ''b'']\<rparr>"

lemma sample_config_fields:
  "cc_Nodes (sample_config ''a'' [''a'', ''b'']) = [\<lparr>ni_ID = ''a'', ni_Addr = ''h:1''\<rparr>, \<lparr>ni_ID = ''b'', ni_Addr = ''h:1''\<rparr>]"
  "ReplicationFactor (sample_config ''a'' [''a'', ''b'']) = 2" "cc_NodeID (sample_config ''a'' [''a'', ''b'']) = ''a''"
  "FetchMaxBytes (sample_config ''a'' [''a'', ''b'']) = 2097152" "ReplicaLagMax (sample_config ''a'' [''a'', ''b'']) = 1000"
  by (simp_all add: sample_config_def cluster_withDefaults_def Let_def orDefault_def emptyConfig_def)

lemma sample_placement: "AssignmentFor two_nodes ''u'' 0 = Inr sample_assignment"
proof -
  have ids: "sortedIDs (sample_config ''a'' [''a'', ''b'']) = [''a'', ''b'']"
    unfolding sortedIDs_def sample_config_fields by (simp add: insertionSort_def)
  have h: "unat (fnv32a (bytes_of_string ''u'')) = 4027333648" by (simp add: fnv32a_def bytes_of_string_def)
  have st: "ring_start [''a'', ''b''] ''u'' 0 = 0" by (simp add: ring_start_def h flip: numeral_2_eq_2)
  show ?thesis
    by (simp add: AssignmentFor_def assignmentOverlay_def two_nodes_eq ringPlacement_ok sample_config_fields ids Let_def
        st ring_def sample_assignment_def upt_rec)
qed

lemma two_nodes_fields:
  "cl_Self two_nodes = ''a''" "cl_cfg two_nodes = sample_config ''a'' [''a'', ''b'']"
  "state_Alive (memberState (cl_members two_nodes) ''b'')"
  by (simp_all add: two_nodes_eq cl_Self_def sample_config_fields memberState_def state_Alive_def)

lemma sample_node_fields [simp]:
  "nd_cl (sample_node pd) = two_nodes" "topicPartition ''u'' 0 (nd_store (sample_node pd)) = Inr (Some pd)"
  "replPart topic part (sample_node pd) = newPartitionRepl"
  by (simp_all add: sample_node_def topicPartition_def getTopic_def NumPartitions_def replPart_def)

definition waiting_node :: node where
  "waiting_node = setPart ''u'' 0 \<lparr>committed = 0, commitCh = 0, followerOffsets = [(''b'', 1)]\<rparr>
     (sample_node (fresh_partition\<lparr>nextOffset := 1\<rparr>, fresh_disk))"

theorem commit_needs_quorum_witness:
  "\<exists>nd'. maybeAdvanceCommit ''u'' 0 waiting_node = Inr nd' \<and> committed (replPart ''u'' 0 nd') = 1 \<and>
     2 \<le> length (filter (confirms waiting_node ''u'' 0 1) [''a'', ''b''])"
proof -
  let ?nd = "setCommitted ''u'' 0 1 waiting_node"
  have fields: "nd_cl waiting_node = two_nodes"
    "topicPartition ''u'' 0 (nd_store waiting_node) = Inr (Some (fresh_partition\<lparr>nextOffset := 1\<rparr>, fresh_disk))"
    "replPart ''u'' 0 waiting_node = \<lparr>committed = 0, commitCh = 0, followerOffsets = [(''b'', 1)]\<rparr>"
    by (simp_all add: waiting_node_def)
  have m: "maybeAdvanceCommit ''u'' 0 waiting_node = Inr ?nd"
    by (simp add: maybeAdvanceCommit_def IsLeaderFor_def fields sample_placement two_nodes_fields sample_config_fields
        sample_assignment_def HighWatermark_def followerProgressSnapshot_def)
  have c: "committed (replPart ''u'' 0 ?nd) = 1" by (simp add: committed_setCommitted fields)
  show ?thesis
    using commit_needs_quorum [OF m, of sample_assignment "fresh_partition\<lparr>nextOffset := 1\<rparr>" fresh_disk] m c
    by (simp add: fields sample_placement sample_assignment_def two_nodes_fields(1) numeral_2_eq_2 del: filter.simps)
qed

section \<open>Following the leader\<close>

lemma fromFetched_toFetched [simp]: "fromFetched (toFetched r) = r"
  by (cases r) (simp add: fromFetched_def toFetched_def convertHeaders_def convertHeadersBack_def o_def map_idI)

lemma valid_toFetched: "encodable r \<Longrightarrow> valid_fetched (toFetched r)"
  by (auto simp: encodable_def valid_fetched_def toFetched_def valid_hdrs_def convertHeadersBack_def list_all_iff
      encodable_header_def valid_hdr_def MaxHeaderLen_def)

lemma topicPartition_put:
  assumes "topicPartition topic part (nd_store nd) = Inr (Some pd)"
  shows "topicPartition topic part (nd_store (putPartition topic part pd' nd)) = Inr (Some pd')"
    and "nd_cl (putPartition topic part pd' nd) = nd_cl nd"
    and "nd_followCtl (putPartition topic part pd' nd) = nd_followCtl nd"
    and "replPart topic' part' (putPartition topic part pd' nd) = replPart topic' part' nd"
  using assms
  by (auto simp: topicPartition_def getTopic_def putPartition_def NumPartitions_def replPart_def update_conv'
      split: option.splits if_splits)

lemma noteFollowerProgress_ok:
  assumes "IsLeaderFor (nd_cl nd) topic part = Inr b" and "topicPartition topic part (nd_store nd) = Inr pd"
  obtains nd' where "noteFollowerProgress topic part nid off nd = Inr nd'" and "nd_store nd' = nd_store nd" and "nd_cl nd' = nd_cl nd"
proof -
  obtain a where a: "AssignmentFor (nd_cl nd) topic part = Inr a" using assms(1) by (auto simp: IsLeaderFor_def bindS_eq_Inr_iff)
  have "\<exists>nd'. maybeAdvanceCommit topic part x = Inr nd' \<and> nd_store nd' = nd_store nd \<and> nd_cl nd' = nd_cl nd"
    if "nd_store x = nd_store nd" "nd_cl x = nd_cl nd" for x :: "'a node_scheme"
    using assms that a
    by (cases pd) (auto simp: maybeAdvanceCommit_def Let_def case_prod_beta)
  from this [OF setPart_fields(1,2)] show thesis using that
    by (cases "nid = [] \<or> nid = cl_Self (nd_cl nd)") (auto simp: noteFollowerProgress_def Let_def)
qed

lemma batch_take: "batch n b rs = take (length (batch n b rs)) rs"
  by (induction n b rs rule: batch.induct) auto

lemma batch_nonempty: "rs \<noteq> [] \<Longrightarrow> batch n b rs \<noteq> []"
  by (cases rs) simp_all

lemma batch_length: "0 < n \<Longrightarrow> length (batch n b rs) \<le> n"
proof (induction n b rs rule: batch.induct)
  case (2 n b r rs)
  then show ?case by (cases "n \<le> 1") auto
qed simp

lemma handleReplicate_ok:
  assumes "no_faults rt" and lead: "IsLeaderFor (nd_cl nd) (rq_Topic req) (rq_Partition req) = Inr True"
    and tp: "topicPartition (rq_Topic req) (rq_Partition req) (nd_store nd) = Inr (Some (p, d))" and inv: "part_inv p d rss" "\<not> closed p"
    and off: "FirstOffset p \<le> rq_Offset req" "rq_Offset req \<le> nextOffset p"
    and lim: "rq_MaxRecords req = 1000" "rq_MaxBytes req \<noteq> 0" "0 < FetchMaxBytes (cl_cfg (nd_cl nd))"
  obtains nd' com b where "handleReplicate rt (Some req) nd =
      Inr (Inr (respond ReplicateOK (FirstOffset p) (nextOffset p) com
        (map toFetched (batch 1000 b (filter (\<lambda>r. rq_Offset req \<le> Offset r) (concat rss))))), nd')"
    and "nd_store nd' = nd_store nd" and "nd_cl nd' = nd_cl nd"
    and "noteFollowerProgress (rq_Topic req) (rq_Partition req) (rq_From req)
      (rq_Offset req + of_nat (length (batch 1000 b (filter (\<lambda>r. rq_Offset req \<le> Offset r) (concat rss))))) nd = Inr nd'"
    and "int b \<le> FetchMaxBytes (cl_cfg (nd_cl nd))"
proof -
  let ?max = "FetchMaxBytes (cl_cfg (nd_cl nd))"
  obtain t where t: "getTopic (rq_Topic req) (nd_store nd) = Inr t" "0 \<le> sint (rq_Partition req)" "sint (rq_Partition req) < int (NumPartitions t)"
    "Partitions t ! nat (sint (rq_Partition req)) = (p, d)"
    using tp by (auto simp: topicPartition_def split: sum.splits if_splits)
  obtain com where com: "committedFor (rq_Topic req) (rq_Partition req) nd = Inr com" using tp by (simp add: committedFor_def Let_def)
  define mb where "mb = (if rq_MaxBytes req = 0 \<or> ?max < uint (rq_MaxBytes req) then ?max else uint (rq_MaxBytes req))"
  have "uint (rq_MaxBytes req) \<noteq> 0" using lim(2) by (simp add: uint_0_iff)
  with uint_ge_0 [of "rq_MaxBytes req"] have "0 < uint (rq_MaxBytes req)" by linarith
  then have "0 < mb" using lim(2,3) by (simp add: mb_def)
  then have rd: "Read rt p d (rq_Offset req) 1000 mb = Inr (batch 1000 (nat mb) (filter (\<lambda>r. rq_Offset req \<le> Offset r) (concat rss)))"
    using Read_ok [OF assms(1) inv off, of 1000 mb] by simp
  let ?recs = "batch 1000 (nat mb) (filter (\<lambda>r. rq_Offset req \<le> Offset r) (concat rss))"
  obtain nd' where n: "noteFollowerProgress (rq_Topic req) (rq_Partition req) (rq_From req) (rq_Offset req + of_nat (length ?recs)) nd = Inr nd'"
    "nd_store nd' = nd_store nd" "nd_cl nd' = nd_cl nd"
    using noteFollowerProgress_ok [OF lead tp] by blast
  have "handleReplicate rt (Some req) nd = Inr (Inr (respond ReplicateOK (FirstOffset p) (nextOffset p) com (map toFetched ?recs)), nd')"
    using lead t com off(2) lim(1) rd n(1) by (simp add: handleReplicate_def HighWatermark_def Let_def not_less flip: mb_def)
  moreover have "int (nat mb) \<le> ?max" using \<open>0 < mb\<close> by (simp add: mb_def split: if_splits)
  ultimately show thesis using that n by blast
qed

text \<open>
  The answer of a leader as the follower's call sees it, and one round between the two nodes. The answer travels in a frame: one
  above the cap of 4 MiB is never written, and the follower's read fails.
\<close>

definition leaderCall :: "runtime \<Rightarrow> 'y node_scheme \<Rightarrow> ReplicateRequest \<Rightarrow> Cluster \<Rightarrow> (peer_error + bytes) \<times> Cluster" where
  "leaderCall rt leader req c =
     (case handleReplicate rt (Some req) leader of
        Inl _ \<Rightarrow> (Inl (CallFailed ReadFailed), c)
      | Inr (Inl code, _) \<Rightarrow> (Inl (RemoteError code), c)
      | Inr (Inr resp, _) \<Rightarrow>
          (case bindS (WriteFrame \<lparr>f_Opcode = OpReplicate, CorrelationID = 0, Payload = EncodeReplicateResponse resp\<rparr>) ReadFrame of
             Inl _ \<Rightarrow> (Inl (CallFailed ReadFailed), c)
           | Inr (f, _) \<Rightarrow> (Inr (Payload f), c)))"

definition leaderAfter :: "runtime \<Rightarrow> string \<Rightarrow> i32 \<Rightarrow> 'z node_scheme \<Rightarrow> 'y node_scheme \<Rightarrow> 'y node_scheme" where
  "leaderAfter rt topic part nd leader =
     (case topicPartition topic part (nd_store nd) of
        Inr (Some (p, d)) \<Rightarrow>
          (case handleReplicate rt (Some (replicateRequest topic part (HighWatermark p) nd)) leader of
             Inr (_, leader') \<Rightarrow> leader' | Inl _ \<Rightarrow> leader)
      | _ \<Rightarrow> leader)"

definition replicationRound :: "runtime \<Rightarrow> string \<Rightarrow> i32 \<Rightarrow> 'y node_scheme \<times> 'z node_scheme \<Rightarrow> 'y node_scheme \<times> 'z node_scheme" where
  "replicationRound rt topic part = (\<lambda>(leader, nd).
     (leaderAfter rt topic part nd leader,
      case followOnce rt (leaderCall rt leader) False topic part nd of Inr (_, nd') \<Rightarrow> nd' | Inl _ \<Rightarrow> nd))"

text \<open>The records the follower does not have yet.\<close>

definition missing :: "Partition \<Rightarrow> Record list \<Rightarrow> Record list" where
  "missing pf rs = filter (\<lambda>r. nextOffset pf \<le> Offset r) rs"

text \<open>
  The leader serves the partition without compaction, the follower's end lies within the leader's log, and the limits
  of the storage format leave room for the leader's log.
\<close>

definition serves :: "runtime \<Rightarrow> string \<Rightarrow> i32 \<Rightarrow> Partition \<Rightarrow> Record list \<Rightarrow> 'y node_scheme \<Rightarrow> bool" where
  "serves rt topic part pl ls leader \<longleftrightarrow> no_faults rt \<and> IsLeaderFor (nd_cl leader) topic part = Inr True \<and>
     0 < FetchMaxBytes (cl_cfg (nd_cl leader)) \<and>
     (\<exists>dl rss. topicPartition topic part (nd_store leader) = Inr (Some (pl, dl)) \<and> part_inv pl dl rss \<and> concat rss = ls) \<and>
     \<not> closed pl \<and> \<not> gapsAllowed pl \<and> unat (nextOffset pl) < 2 ^ 32"

text \<open>
  Answers fit a frame: the limit of one answer is at most the default of 2 MiB, and since the limit counts keys and
  values only, the headers of a record take at most a KiB.
\<close>

definition header_bytes :: "Record \<Rightarrow> nat" where
  "header_bytes r = length (concat (map enc_hdr (convertHeadersBack (Headers r))))"

definition answers_fit :: "Cluster \<Rightarrow> Record list \<Rightarrow> bool" where
  "answers_fit c ls \<longleftrightarrow> FetchMaxBytes (cl_cfg c) \<le> 2 * 2 ^ 20 \<and> list_all (\<lambda>r. header_bytes r \<le> 1024) ls"

lemma batch_payload: "list_all (\<lambda>r. payload r \<le> m) rs \<Longrightarrow> sum_list (map payload (batch n b rs)) \<le> b + m"
proof (induction n b rs rule: batch.induct)
  case (2 n b r rs)
  show ?case
  proof (cases "n \<le> 1 \<or> b \<le> payload r")
    case True
    then show ?thesis using "2.prems" by (auto simp: trans_le_add2)
  next
    case False
    then have "sum_list (map payload (batch (n - 1) (b - payload r) rs)) \<le> b - payload r + m" using "2.IH" [OF False] "2.prems" by simp
    moreover have "payload r < b" using False by simp
    ultimately have "payload r + sum_list (map payload (batch (n - 1) (b - payload r) rs)) \<le> b + m" by linarith
    then show ?thesis using False by simp
  qed
qed simp

lemma length_enc_fetched: "length (enc_fetched (toFetched r)) = 26 + payload r + header_bytes r"
  by (simp add: enc_fetched_def toFetched_def enc_long_def enc_hdrs_def payload_def header_bytes_def)

lemma length_answer:
  "length (EncodeReplicateResponse (respond st f h c (map toFetched rs))) =
     29 + sum_list (map (\<lambda>r. 26 + payload r + header_bytes r) rs)"
proof -
  have "length (concat (map enc_fetched (map toFetched rs))) = sum_list (map (\<lambda>r. 26 + payload r + header_bytes r) rs)"
    by (simp add: length_concat o_def length_enc_fetched)
  then show ?thesis
    using foldl_append [of writeFetched enc_fetched]
    by (simp add: EncodeReplicateResponse_def respond_def Let_def write_records AppendUint32_def AppendUint64_def)
qed

lemma answer_fits:
  assumes fit: "answers_fit c ls" and rs: "set rs \<subseteq> set ls" and b: "int b \<le> FetchMaxBytes (cl_cfg c)" and small: "small_records rs"
  shows "length (EncodeReplicateResponse (respond st f h com (map toFetched (batch 1000 b rs)))) \<le> MaxPayloadSize"
proof -
  let ?bs = "batch 1000 b rs"
  have sub: "set ?bs \<subseteq> set rs" using set_take_subset [of "length ?bs" rs] batch_take [of 1000 b rs] by simp
  have "payload r < streamChunk" if "r \<in> set rs" for r
  proof -
    have "length (enc r) < streamChunk" using small that by (auto simp: small_records_def list_all_iff)
    then show ?thesis by (simp add: enc_def enc_body_def payload_def)
  qed
  then have p: "sum_list (map payload ?bs) \<le> b + streamChunk"
    by (intro batch_payload) (auto simp: list_all_iff intro: less_imp_le)
  have h: "header_bytes r \<le> 1024" if "r \<in> set ?bs" for r using fit sub rs that by (auto simp: answers_fit_def list_all_iff)
  have "sum_list (map (\<lambda>r. 26 + payload r + header_bytes r) ?bs) \<le> sum_list (map (\<lambda>r. 1050 + payload r) ?bs)"
    by (rule sum_list_mono) (use h in fastforce)
  also have "\<dots> = 1050 * length ?bs + sum_list (map payload ?bs)" by (simp add: sum_list_addf sum_list_triv)
  also have "\<dots> \<le> 1050 * 1000 + (b + streamChunk)" using p batch_length [of 1000 b rs] by (intro add_mono mult_left_mono) simp_all
  finally show ?thesis
    using b fit by (simp add: length_answer answers_fit_def MaxPayloadSize_def streamChunk_def)
qed

text \<open>
  An answer above the cap is lost: the follower keeps its log and asks for the same records again, while the leader has
  counted them as replicated. The comment on \<open>FetchMaxBytes\<close> says it caps the payload of an answer, but it counts neither
  headers nor the record that crosses it.
\<close>

lemma oversized_answer_lost:
  assumes "topicPartition topic part (nd_store nd) = Inr (Some (p, d))"
    and "handleReplicate rt (Some (replicateRequest topic part (nextOffset p) nd)) leader = Inr (Inr resp, leader')"
    and "MaxPayloadSize < length (EncodeReplicateResponse resp)"
  shows "replicationRound rt topic part (leader, nd) = (leader', nd)"
  using assms by (simp add: replicationRound_def leaderAfter_def followOnce_def leaderCall_def HighWatermark_def WriteFrame_def Let_def)

definition follows_leader :: "string \<Rightarrow> i32 \<Rightarrow> Partition \<Rightarrow> Record list \<Rightarrow> Partition \<Rightarrow> Record list \<Rightarrow> 'z node_scheme \<Rightarrow> bool" where
  "follows_leader topic part pl ls pf fs nd \<longleftrightarrow>
     0 < FetchMaxBytes (cl_cfg (nd_cl nd)) \<and> FetchMaxBytes (cl_cfg (nd_cl nd)) < 2 ^ 32 \<and>
     (\<exists>df rss. topicPartition topic part (nd_store nd) = Inr (Some (pf, df)) \<and> part_inv pf df rss \<and> concat rss = fs) \<and>
     \<not> closed pf \<and> FirstOffset pl \<le> nextOffset pf \<and> nextOffset pf \<le> nextOffset pl \<and>
     0 < MaxSegmentBytes (p_opts pf) \<and> MaxSegmentBytes (p_opts pf) + int (length (enc_all ls)) < 2 ^ 32"

lemma missing_offsets:
  assumes "map roff ls = [unat f ..< unat h]" and "f \<le> nextOffset pf" and "nextOffset pf \<le> h"
  shows "map roff (missing pf ls) = [unat (nextOffset pf) ..< unat h]"
proof -
  have "map roff (missing pf ls) = filter (\<lambda>n. unat (nextOffset pf) \<le> n) (map roff ls)"
    by (simp add: missing_def filter_map o_def word_le_nat_alt)
  also have "\<dots> = filter (\<lambda>n. unat (nextOffset pf) \<le> n) ([unat f ..< unat (nextOffset pf)] @ [unat (nextOffset pf) ..< unat h])"
    using assms by (simp add: upt_join word_le_nat_alt)
  also have "\<dots> = [unat (nextOffset pf) ..< unat h]" by (simp add: filter_empty_conv filter_id_conv)
  finally show ?thesis .
qed

lemma missing_batch:
  assumes "map roff (missing pf ls) = [unat (nextOffset pf) ..< h]" and "h < 2 ^ 64" and "k \<le> length (missing pf ls)"
  shows "map Offset (take k (missing pf ls)) = map (\<lambda>i. nextOffset pf + of_nat i) [0 ..< k]"
proof (rule nth_equalityI)
  fix i assume "i < length (map Offset (take k (missing pf ls)))"
  then have i: "i < k" "i < length (missing pf ls)" using assms(3) by simp_all
  have len: "length (missing pf ls) = h - unat (nextOffset pf)" using arg_cong [OF assms(1), of length] by simp
  have "roff (missing pf ls ! i) = unat (nextOffset pf) + i"
    using arg_cong [OF assms(1), of "\<lambda>xs. xs ! i"] i len by simp
  moreover have "unat (nextOffset pf + of_nat i) = unat (nextOffset pf) + i"
    using i len assms(2) by (simp add: unat_add_of_nat)
  ultimately show "map Offset (take k (missing pf ls)) ! i = map (\<lambda>i. nextOffset pf + of_nat i) [0 ..< k] ! i"
    using i by (simp add: word_unat_eq_iff)
qed (use assms(3) in simp)

lemma missing_step:
  assumes "map roff (missing pf ls) = [unat (nextOffset pf) ..< h]" and "h < 2 ^ 64" and "k \<le> length (missing pf ls)"
    and "nextOffset pf' = nextOffset pf + of_nat k"
  shows "missing pf' ls = drop k (missing pf ls)"
proof -
  let ?ms = "missing pf ls"
  have len: "length ?ms = h - unat (nextOffset pf)" using arg_cong [OF assms(1), of length] by simp
  have "unat (nextOffset pf) + k < 2 ^ 64"
    using assms(2,3) len unsigned_less [of "nextOffset pf", where 'a = nat] by (cases "k = 0") simp_all
  then have up: "unat (nextOffset pf') = unat (nextOffset pf) + k" by (simp add: assms(4) unat_add_of_nat)
  have roff: "roff (?ms ! i) = unat (nextOffset pf) + i" if "i < length ?ms" for i
    using arg_cong [OF assms(1), of "\<lambda>xs. xs ! i"] that len by simp
  have "missing pf' ls = filter (\<lambda>r. nextOffset pf' \<le> Offset r) ?ms"
    using up by (auto simp: missing_def word_le_nat_alt intro!: filter_cong)
  also have "\<dots> = filter (\<lambda>r. nextOffset pf' \<le> Offset r) (take k ?ms) @ filter (\<lambda>r. nextOffset pf' \<le> Offset r) (drop k ?ms)"
    by (metis append_take_drop_id filter_append)
  also have "filter (\<lambda>r. nextOffset pf' \<le> Offset r) (take k ?ms) = []"
    using roff up by (auto simp: filter_empty_conv in_set_conv_nth word_le_nat_alt)
  also have "filter (\<lambda>r. nextOffset pf' \<le> Offset r) (drop k ?ms) = drop k ?ms"
    using roff up by (auto simp: filter_id_conv in_set_conv_nth word_le_nat_alt)
  finally show ?thesis by simp
qed

lemma round_ok:
  assumes L: "serves rt topic part pl ls leader" and A: "answers_fit (nd_cl leader) ls" and F: "follows_leader topic part pl ls pf fs nd"
  obtains k pf' leader' nd' where "replicationRound rt topic part (leader, nd) = (leader', nd')"
    and "serves rt topic part pl ls leader'" and "answers_fit (nd_cl leader') ls"
    and "follows_leader topic part pl ls pf' (fs @ take k (missing pf ls)) nd'"
    and "missing pf' ls = drop k (missing pf ls)" and "missing pf ls \<noteq> [] \<longrightarrow> 0 < k"
proof -
  note Ld = L [unfolded serves_def] and Fd = F [unfolded follows_leader_def]
  have nf: "no_faults rt" using Ld by simp
  obtain dl rssl where l: "topicPartition topic part (nd_store leader) = Inr (Some (pl, dl))" "part_inv pl dl rssl" "concat rssl = ls"
    using Ld by blast
  obtain df rssf where f: "topicPartition topic part (nd_store nd) = Inr (Some (pf, df))" "part_inv pf df rssf" "concat rssf = fs"
    using Fd by blast
  let ?req = "replicateRequest topic part (nextOffset pf) nd" and ?ms = "missing pf ls"
  have mb: "rq_MaxBytes ?req \<noteq> 0" using Fd by (simp add: replicateRequest_def word_of_int_eq_0_iff) (auto dest: zdvd_imp_le)
  have req: "rq_Topic ?req = topic" "rq_Partition ?req = part" "rq_Offset ?req = nextOffset pf" "rq_MaxRecords ?req = 1000"
    by (simp_all add: replicateRequest_def)
  obtain leader' com b where h: "handleReplicate rt (Some ?req) leader =
      Inr (Inr (respond ReplicateOK (FirstOffset pl) (nextOffset pl) com (map toFetched (batch 1000 b ?ms))), leader')"
    "nd_store leader' = nd_store leader" "nd_cl leader' = nd_cl leader" "int b \<le> FetchMaxBytes (cl_cfg (nd_cl leader))"
    using handleReplicate_ok [of rt leader ?req pl dl rssl, unfolded req, OF nf _ l(1,2) _ _ _ refl]
      Ld Fd mb unfolding missing_def l(3) by blast
  define k where "k = length (batch 1000 b ?ms)"
  have bk: "batch 1000 b ?ms = take k ?ms" unfolding k_def by (rule batch_take)
  have k: "k \<le> length ?ms" "k \<le> 1000" using arg_cong [OF bk, of length] batch_length [of 1000 b ?ms] by (simp_all add: k_def)
  have k0: "?ms \<noteq> [] \<Longrightarrow> 0 < k" using batch_nonempty [of ?ms 1000 b] by (simp add: k_def)
  have offs: "map roff ?ms = [unat (nextOffset pf) ..< unat (nextOffset pl)]"
    using missing_offsets [of ls "FirstOffset pl" "nextOffset pl" pf] part_inv_offsets [OF l(2)] l(3) Ld Fd by simp
  have h64: "unat (nextOffset pl) < 2 ^ 64" using unsigned_less [of "nextOffset pl", where 'a = nat] by simp
  have sub: "set (take k ?ms) \<subseteq> set ls" using set_take_subset [of k ?ms] by (auto simp: missing_def)
  let ?resp = "respond ReplicateOK (FirstOffset pl) (nextOffset pl) com (map toFetched (take k ?ms))"
  have enc: "list_all encodable (take k ?ms)" "small_records (take k ?ms)"
    using part_inv_records [OF l(2)] sub l(3) by (auto simp: list_all_iff small_records_def)
  have "valid_batch (rp_Records ?resp)"
    using enc(1) valid_toFetched k by (auto simp: valid_batch_def respond_def list_all_iff)
  then have dec: "DecodeReplicateResponse (EncodeReplicateResponse ?resp) = Inr ?resp" by (rule replicate_roundtrip)
  have "set ?ms \<subseteq> set ls" "small_records ?ms"
    using part_inv_records [OF l(2)] l(3) by (auto simp: missing_def list_all_iff small_records_def)
  from answer_fits [OF A this(1) h(4) this(2)]
  have "length (EncodeReplicateResponse ?resp) \<le> MaxPayloadSize" unfolding bk .
  then have call: "leaderCall rt leader ?req (nd_cl nd) = (Inr (EncodeReplicateResponse ?resp), nd_cl nd)"
    using frame_read [of "\<lparr>f_Opcode = OpReplicate, CorrelationID = 0, Payload = EncodeReplicateResponse ?resp\<rparr>" "[]"]
    by (simp add: leaderCall_def h(1) bk frame_written)
  have la: "leaderAfter rt topic part nd leader = leader'" by (simp add: leaderAfter_def f(1) HighWatermark_def h(1))
  have "length (enc_all (take k ?ms)) \<le> length (enc_all ls)"
    using length_enc_all_take [of k ?ms] length_enc_all_filter [of _ ls] unfolding missing_def by (meson le_trans)
  moreover have "unat (nextOffset pf) \<le> unat (nextOffset pl)" using Fd by (simp add: word_le_nat_alt)
  then have "unat (nextOffset pf) + k \<le> unat (nextOffset pl)" using arg_cong [OF offs, of length] k(1) by simp
  ultimately have lim: "within_limits pf (take k ?ms)" using enc Ld Fd k(1) by (simp add: within_limits_def)
  obtain pf' df' rssf' where ar: "AppendReplica rt (take k ?ms) (pf, df) = (Inr (), pf', df')"
    and p': "part_inv pf' df' rssf'" "concat rssf' = fs @ take k ?ms" "nextOffset pf' = nextOffset pf + of_nat k" "closed pf' = closed pf"
      "p_opts pf' = p_opts pf"
    using AppendReplica_ok [OF nf f(2) _ lim] missing_batch [OF offs h64 k(1)] Fd k(1) f(3) by (auto simp: min_absorb2)
  have up: "unat (nextOffset pf') = unat (nextOffset pf) + k"
    using \<open>unat (nextOffset pf) + k \<le> unat (nextOffset pl)\<close> h64 by (simp add: p'(3) unat_add_of_nat)
  define nd1 where "nd1 = (if take k ?ms = [] then nd else putPartition topic part (pf', df') nd)"
  have n1: "topicPartition topic part (nd_store nd1) = Inr (Some (pf', df'))" "nd_cl nd1 = nd_cl nd"
    using ar f(1) topicPartition_put(1,2) [OF f(1)] Fd by (auto simp: nd1_def AppendReplica_def)
  obtain nd' res where fo: "followOnce rt (leaderCall rt leader) False topic part nd = Inr (res, nd')"
    "nd_store nd' = nd_store nd1" "nd_cl nd' = nd_cl nd"
  proof -
    have "rp_Status ?resp = ReplicateOK" "rp_Records ?resp = map toFetched (take k ?ms)" "rp_Committed ?resp = com"
      by (simp_all add: respond_def)
    then have "followOnce rt (leaderCall rt leader) False topic part nd =
      Inr ((rp_Records ?resp \<noteq> [] \<and> nextOffset pf' < rp_HighWatermark ?resp, True),
        setCommitted topic part (if nextOffset pf' < com then nextOffset pf' else com) nd1)"
      using f(1) call dec ar Fd
      by (simp add: followOnce_def followApply_def HighWatermark_def Let_def o_def nd1_def ReplicateOK_def ReplicateNotLeader_def
          ReplicateTopicUnknown_def ReplicateTruncate_def) (auto simp: AppendReplica_def)
    then show thesis using that n1(2) by simp
  qed
  have round: "replicationRound rt topic part (leader, nd) = (leader', nd')" by (simp add: replicationRound_def la fo(1))
  have "serves rt topic part pl ls leader'" using L by (simp add: serves_def h(2,3))
  moreover have "follows_leader topic part pl ls pf' (fs @ take k ?ms) nd'"
    using Fd fo(2,3) n1(1) p' up \<open>unat (nextOffset pf) + k \<le> unat (nextOffset pl)\<close>
    unfolding follows_leader_def by (auto simp: word_le_nat_alt)
  moreover have "missing pf' ls = drop k ?ms" by (rule missing_step [OF offs h64 k(1) p'(3)])
  ultimately show thesis using that [OF round] k0 A h(3) by simp
qed

text \<open>
  A deterministic step with an invariant and a distance that every step shortens until it is
  zero.
\<close>

locale converging_system =
  fixes step :: "'s \<Rightarrow> 's" and inv :: "'s \<Rightarrow> bool" and behind :: "'s \<Rightarrow> nat"
  assumes inv_step: "inv s \<Longrightarrow> inv (step s)"
    and behind_step: "inv s \<Longrightarrow> 0 < behind s \<Longrightarrow> behind (step s) < behind s"
    and behind_stays: "inv s \<Longrightarrow> behind s = 0 \<Longrightarrow> behind (step s) = 0"
begin

lemma inv_steps: "inv s \<Longrightarrow> inv ((step ^^ n) s)"
  by (induction n) (simp_all add: inv_step)

lemma arrives_within: "inv s \<Longrightarrow> behind s \<le> n \<Longrightarrow> behind ((step ^^ n) s) = 0"
proof (induction n arbitrary: s)
  case (Suc n)
  have "behind (step s) \<le> n" using Suc.prems behind_step [of s] behind_stays [of s] by (cases "behind s = 0") auto
  then show ?case using Suc.IH [of "step s"] Suc.prems(1) inv_step by (simp only: funpow_Suc_right o_apply)
qed simp

end

text \<open>
  The pair of nodes against what the follower's log will be: what it has and what it misses.
\<close>

definition replicating :: "runtime \<Rightarrow> string \<Rightarrow> i32 \<Rightarrow> Partition \<Rightarrow> Record list \<Rightarrow> Record list \<Rightarrow> 'y node_scheme \<times> 'z node_scheme \<Rightarrow> bool" where
  "replicating rt topic part pl ls target s \<longleftrightarrow> serves rt topic part pl ls (fst s) \<and> answers_fit (nd_cl (fst s)) ls \<and>
     (\<exists>pf fs. follows_leader topic part pl ls pf fs (snd s) \<and> fs @ missing pf ls = target)"

definition lagging :: "string \<Rightarrow> i32 \<Rightarrow> Record list \<Rightarrow> 'y node_scheme \<times> 'z node_scheme \<Rightarrow> nat" where
  "lagging topic part ls s =
     (case topicPartition topic part (nd_store (snd s)) of Inr (Some (p, d)) \<Rightarrow> length (missing p ls) | _ \<Rightarrow> 0)"

lemma lagging_eq: "follows_leader topic part pl ls pf fs nd \<Longrightarrow> lagging topic part ls (leader, nd) = length (missing pf ls)"
  by (auto simp: follows_leader_def lagging_def)

interpretation pull: converging_system "replicationRound rt topic part" "replicating rt topic part pl ls target" "lagging topic part ls"
proof
  fix s :: "'a node_scheme \<times> 'b node_scheme"
  assume inv: "replicating rt topic part pl ls target s"
  obtain leader nd where s: "s = (leader, nd)" by force
  obtain pf fs where F: "follows_leader topic part pl ls pf fs nd" "fs @ missing pf ls = target" and L: "serves rt topic part pl ls leader"
    and A: "answers_fit (nd_cl leader) ls"
    using inv unfolding s replicating_def fst_conv snd_conv by blast
  obtain k pf' leader' nd' where r: "replicationRound rt topic part (leader, nd) = (leader', nd')"
    "serves rt topic part pl ls leader'" "answers_fit (nd_cl leader') ls"
    "follows_leader topic part pl ls pf' (fs @ take k (missing pf ls)) nd'"
    "missing pf' ls = drop k (missing pf ls)" "missing pf ls \<noteq> [] \<longrightarrow> 0 < k"
    by (rule round_ok [OF L A F(1)], rule that)
  show "replicating rt topic part pl ls target (replicationRound rt topic part s)"
    unfolding replicating_def s r(1) using r(2-5) F(2)
    by (intro conjI exI [of _ pf'] exI [of _ "fs @ take k (missing pf ls)"]) simp_all
  have lag: "lagging topic part ls s = length (missing pf ls)"
    "lagging topic part ls (replicationRound rt topic part s) = length (missing pf ls) - k"
    using lagging_eq [OF F(1)] lagging_eq [OF r(4)] r(1,5) s by simp_all
  show "0 < lagging topic part ls s \<Longrightarrow> lagging topic part ls (replicationRound rt topic part s) < lagging topic part ls s"
    unfolding lag using r(6) by auto
  show "lagging topic part ls s = 0 \<Longrightarrow> lagging topic part ls (replicationRound rt topic part s) = 0"
    unfolding lag by simp
qed

lemma missing_none:
  assumes "follows_leader topic part pl ls pf fs nd" and "serves rt topic part pl ls leader" and "missing pf ls = []"
  shows "nextOffset pf = nextOffset pl"
proof -
  obtain dl rss where l: "part_inv pl dl rss" "concat rss = ls" "\<not> gapsAllowed pl" using assms(2) unfolding serves_def by blast
  have le: "FirstOffset pl \<le> nextOffset pf" "nextOffset pf \<le> nextOffset pl" using assms(1) by (auto simp: follows_leader_def)
  have "map roff (missing pf ls) = [unat (nextOffset pf) ..< unat (nextOffset pl)]"
    using missing_offsets [OF _ le] part_inv_offsets [OF l(1,3)] l(2) by simp
  then have "[unat (nextOffset pf) ..< unat (nextOffset pl)] = []" using assms(3) by simp
  then show ?thesis using le(2) by (auto simp: word_le_nat_alt word_unat_eq_iff)
qed

lemma catches_up:
  assumes "serves rt topic part pl ls leader" and "follows_leader topic part pl ls pf fs nd" and "length (missing pf ls) \<le> n"
    and "answers_fit (nd_cl leader) ls"
  shows "\<exists>leader' nd' pf' df' rss'. (replicationRound rt topic part ^^ n) (leader, nd) = (leader', nd') \<and>
    topicPartition topic part (nd_store nd') = Inr (Some (pf', df')) \<and> part_inv pf' df' rss' \<and>
    concat rss' = fs @ missing pf ls \<and> nextOffset pf' = nextOffset pl"
proof -
  let ?T = "fs @ missing pf ls" and ?s = "(replicationRound rt topic part ^^ n) (leader, nd)"
  have inv: "replicating rt topic part pl ls ?T (leader, nd)"
    unfolding replicating_def fst_conv snd_conv using assms(1,2,4) by blast
  have end_inv: "replicating rt topic part pl ls ?T ?s" by (rule pull.inv_steps [OF inv])
  have "lagging topic part ls (leader, nd) \<le> n" using assms(3) by (simp add: lagging_eq [OF assms(2)])
  note lag = pull.arrives_within [OF inv this]
  obtain leader' nd' where s: "?s = (leader', nd')" by force
  obtain pf' fs' where F: "follows_leader topic part pl ls pf' fs' nd'" "fs' @ missing pf' ls = ?T" and L: "serves rt topic part pl ls leader'"
    using end_inv unfolding s replicating_def fst_conv snd_conv by blast
  have none: "missing pf' ls = []" using lag by (simp add: s lagging_eq [OF F(1)])
  obtain df' rss' where p: "topicPartition topic part (nd_store nd') = Inr (Some (pf', df'))" "part_inv pf' df' rss'" "concat rss' = fs'"
    using F(1) unfolding follows_leader_def by blast
  show ?thesis
    using s p F(2) none missing_none [OF F(1) L none]
    by (intro exI [of _ leader'] exI [of _ nd'] exI [of _ pf'] exI [of _ df'] exI [of _ rss'] conjI) simp_all
qed

text \<open>
  Property C29. A follower catches up. Take a leader that serves a partition and a follower whose log end lies within the
  leader's log, with no I/O fault and within the limits of the format. After as many fetch rounds as
  the follower lacks records, or more, the follower's log is what it was followed by exactly the leader's
  records from there on, in order, and its log end is the leader's. The rounds go through the encoding and
  decoding of the answers, the limits of one answer, the frames they travel in and the rotation of the follower's segments. That every answer
  fits the 4 MiB of a frame is a hypothesis on the configuration and the records (\<open>answers_fit\<close>): the limit of an answer at most 2 MiB, its
  default, and at most 1 KiB of headers in a record.
\<close>

theorem follower_catches_up:
  assumes "serves rt topic part pl ls leader" and "follows_leader topic part pl ls pf fs nd" and "length (missing pf ls) \<le> n"
    and "answers_fit (nd_cl leader) ls"
  shows "\<exists>leader' nd' pf' df' rss'. (replicationRound rt topic part ^^ n) (leader, nd) = (leader', nd') \<and>
    topicPartition topic part (nd_store nd') = Inr (Some (pf', df')) \<and> part_inv pf' df' rss' \<and>
    concat rss' = fs @ missing pf ls \<and> nextOffset pf' = nextOffset pl"
  by (rule catches_up [OF assms])

definition sample_follower :: node where
  "sample_follower = (sample_node (fresh_partition, fresh_disk))\<lparr>nd_cl := two_nodes\<lparr>cl_cfg := (cl_cfg two_nodes)\<lparr>cc_NodeID := ''b''\<rparr>\<rparr>\<rparr>"

lemma sample_leader:
  obtains p d where "serves calm_runtime ''u'' 0 p [sample_record\<lparr>Offset := 0\<rparr>] (sample_node (p, d))" and "nextOffset p = 1" and "FirstOffset p = 0"
proof -
  obtain p d rss where p: "part_inv p d rss" "concat rss = stampAll 0 5 [sample_record]" "nextOffset p = 0 + of_nat (length [sample_record])"
    "\<not> closed p" "FirstOffset p = 0" "gapsAllowed p = gapsAllowed fresh_partition"
    using Append_ok [OF no_faults_calm fresh_part_inv fresh_fields(1) _ sample_within_limits, of 5]
    unfolding fresh_fields by (metis append_Nil concat.simps list.distinct(1))
  have st: "stampAll 0 5 [sample_record] = [sample_record\<lparr>Offset := 0\<rparr>]"
    by (simp add: stampAll_def stampRecord_def sample_record_def)
  have "serves calm_runtime ''u'' 0 p [sample_record\<lparr>Offset := 0\<rparr>] (sample_node (p, d))"
    unfolding serves_def using p st
    by (intro conjI exI [of _ d] exI [of _ rss])
      (simp_all add: no_faults_calm IsLeaderFor_def sample_placement sample_assignment_def two_nodes_fields sample_config_fields fresh_partition_def)
  then show thesis using that p(3,5) by simp
qed

lemma sample_follows:
  assumes "nextOffset p = 1" and "FirstOffset p = 0"
  shows "follows_leader ''u'' 0 p [sample_record\<lparr>Offset := 0\<rparr>] fresh_partition [] sample_follower"
  unfolding follows_leader_def
  by (intro conjI exI [of _ fresh_disk] exI [of _ "[[]]"])
    (simp_all add: sample_follower_def fresh_part_inv fresh_fields assms two_nodes_fields sample_config_fields length_enc_sample0,
     simp_all add: fresh_partition_def sample_options_def)

theorem follower_catches_up_witness:
  "\<exists>(leader :: node) nd' pf' df' rss'. snd ((replicationRound calm_runtime ''u'' 0 ^^ 3) (leader, sample_follower)) = nd' \<and>
     topicPartition ''u'' 0 (nd_store nd') = Inr (Some (pf', df')) \<and> part_inv pf' df' rss' \<and> concat rss' = [sample_record\<lparr>Offset := 0\<rparr>]"
proof -
  obtain p d where p: "serves calm_runtime ''u'' 0 p [sample_record\<lparr>Offset := 0\<rparr>] (sample_node (p, d))" "nextOffset p = 1" "FirstOffset p = 0"
    by (rule sample_leader)
  have "missing fresh_partition [sample_record\<lparr>Offset := 0\<rparr>] = [sample_record\<lparr>Offset := 0\<rparr>]"
    by (simp add: missing_def fresh_fields)
  moreover have "answers_fit (nd_cl (sample_node (p, d))) [sample_record\<lparr>Offset := 0\<rparr>]"
    by (simp add: answers_fit_def two_nodes_fields sample_config_fields header_bytes_def convertHeadersBack_def sample_record_def sample_header_def
        enc_hdr_def enc_short_def)
  ultimately obtain leader' nd' pf' df' rss' where "(replicationRound calm_runtime ''u'' 0 ^^ 3) (sample_node (p, d), sample_follower) = (leader', nd')"
    "topicPartition ''u'' 0 (nd_store nd') = Inr (Some (pf', df'))" "part_inv pf' df' rss'" "concat rss' = [sample_record\<lparr>Offset := 0\<rparr>]"
    using follower_catches_up [OF p(1) sample_follows [OF p(2,3)], of 3] by auto
  then show ?thesis
    by (intro exI [of _ "sample_node (p, d)"] exI [of _ nd'] exI [of _ pf'] exI [of _ df'] exI [of _ rss'] conjI) simp_all
qed

lemma advance_two:
  assumes "AssignmentFor (nd_cl nd) topic part = Inr a" and "pa_Leader a = cl_Self (nd_cl nd)"
    and "pa_Replicas a = [cl_Self (nd_cl nd), f]" and "f \<noteq> cl_Self (nd_cl nd)"
    and "topicPartition topic part (nd_store nd) = Inr (Some (p, d))" and "map_of (followerProgressSnapshot topic part nd) f = Some off"
    and "off \<le> nextOffset p" and "state_Alive (memberState (cl_members (nd_cl nd)) f)"
    and "nextOffset p - off \<le> ReplicaLagMax (cl_cfg (nd_cl nd))"
  shows "maybeAdvanceCommit topic part nd = Inr (setCommitted topic part off nd)"
proof -
  have "(if off < nextOffset p then off else nextOffset p) = off" using assms(7) by auto
  moreover have "\<not> ReplicaLagMax (cl_cfg (nd_cl nd)) < nextOffset p - off" using assms(9) by (simp only: not_less)
  ultimately have "isrScan nd (nextOffset p) (followerProgressSnapshot topic part nd) (pa_Replicas a) (nextOffset p, 1) = (off, 2)"
    using assms(4,6,8) unfolding assms(3) isrScan.simps by simp
  then show ?thesis using assms(1,2,5) by (simp add: maybeAdvanceCommit_def IsLeaderFor_def HighWatermark_def assms(3))
qed

text \<open>
  Property C30. The leader counts records as replicated when it sends them, not when the follower
  has them. With two replicas, both of which must confirm, a fetch of the other replica raises the committed
  offset past the records of the very answer, although the request says that the follower's log
  ends before them: what the fetch path shows to consumers and an acks=all produce waits for
  is then on one node only, and stays there if the answer is lost.
\<close>

theorem commit_counts_records_sent:
  assumes "serves rt topic part pl ls leader" and "AssignmentFor (nd_cl leader) topic part = Inr a"
    and "pa_Replicas a = [cl_Self (nd_cl leader), f]" and "f \<noteq> []" and "f \<noteq> cl_Self (nd_cl leader)"
    and "state_Alive (memberState (cl_members (nd_cl leader)) f)" and "nextOffset pl \<le> ReplicaLagMax (cl_cfg (nd_cl leader))"
    and "rq_From req = f" and "rq_Topic req = topic" and "rq_Partition req = part" and "FirstOffset pl \<le> rq_Offset req"
    and "rq_Offset req < nextOffset pl" and "rq_MaxRecords req = 1000" and "rq_MaxBytes req \<noteq> 0"
  shows "\<exists>resp leader'. handleReplicate rt (Some req) leader = Inr (Inr resp, leader') \<and> rp_Records resp \<noteq> [] \<and>
    committed (replPart topic part leader') = max (committed (replPart topic part leader)) (rq_Offset req + of_nat (length (rp_Records resp)))"
proof -
  obtain dl rss where l: "topicPartition topic part (nd_store leader) = Inr (Some (pl, dl))" "part_inv pl dl rss" "concat rss = ls"
    "IsLeaderFor (nd_cl leader) topic part = Inr True" "\<not> closed pl" "\<not> gapsAllowed pl" "0 < FetchMaxBytes (cl_cfg (nd_cl leader))" "no_faults rt"
    using assms(1) unfolding serves_def by blast
  define ms where "ms = filter (\<lambda>r. rq_Offset req \<le> Offset r) ls"
  obtain leader' com b where h: "handleReplicate rt (Some req) leader =
      Inr (Inr (respond ReplicateOK (FirstOffset pl) (nextOffset pl) com (map toFetched (batch 1000 b ms))), leader')"
    "noteFollowerProgress topic part f (rq_Offset req + of_nat (length (batch 1000 b ms))) leader = Inr leader'"
    using handleReplicate_ok [of rt leader req pl dl rss, unfolded assms(8-10), OF l(8,4,1,2,5) assms(11) less_imp_le [OF assms(12)] assms(13,14) l(7)]
    unfolding l(3) ms_def by blast
  have off: "map roff (missing (pl\<lparr>nextOffset := rq_Offset req\<rparr>) ls) = [unat (rq_Offset req) ..< unat (nextOffset pl)]"
    using missing_offsets [of ls "FirstOffset pl" "nextOffset pl" "pl\<lparr>nextOffset := rq_Offset req\<rparr>"] part_inv_offsets [OF l(2,6)] l(3)
      assms(11) less_imp_le [OF assms(12)] by simp
  have len: "length ms = unat (nextOffset pl) - unat (rq_Offset req)"
    using arg_cong [OF off, of length] by (simp add: missing_def ms_def)
  let ?k = "length (batch 1000 b ms)" and ?off = "rq_Offset req + of_nat (length (batch 1000 b ms))"
  have "ms \<noteq> []" using len assms(12) by (auto simp: word_less_nat_alt)
  then have ne: "batch 1000 b ms \<noteq> []" by (rule batch_nonempty)
  have k: "?k \<le> length ms" using arg_cong [OF batch_take [of 1000 b ms], of length] by (simp add: min_def split: if_splits)
  have "unat (rq_Offset req) + ?k \<le> unat (nextOffset pl)" using k len assms(12) by (simp add: word_less_nat_alt)
  moreover from this have "unat ?off = unat (rq_Offset req) + ?k"
    using unsigned_less [of "nextOffset pl", where 'a = nat] by (simp add: unat_add_of_nat)
  ultimately have le: "?off \<le> nextOffset pl" by (simp add: word_le_nat_alt)
  then have lag: "nextOffset pl - ?off \<le> ReplicaLagMax (cl_cfg (nd_cl leader))"
    using assms(7) by (metis order_trans word_sub_le)
  have lead: "pa_Leader a = cl_Self (nd_cl leader)" using l(4) assms(2) by (simp add: IsLeaderFor_def)
  let ?r = "replPart topic part leader"
  have "leader' = setCommitted topic part ?off (setPart topic part (?r\<lparr>followerOffsets := AList.update f ?off (followerOffsets ?r)\<rparr>) leader)"
  proof -
    let ?nd = "setPart topic part (?r\<lparr>followerOffsets := AList.update f ?off (followerOffsets ?r)\<rparr>) leader"
    have "maybeAdvanceCommit topic part ?nd = Inr (setCommitted topic part ?off ?nd)"
      by (rule advance_two [where a = a and f = f and p = pl and d = dl])
        (use assms(2,3,5,6) lead l(1) lag le in \<open>simp_all add: followerProgressSnapshot_def update_conv'\<close>)
    then show ?thesis using h(2) assms(4,5) by (simp add: noteFollowerProgress_def Let_def)
  qed
  then have "committed (replPart topic part leader') = max (committed ?r) ?off" by (simp add: committed_setCommitted)
  moreover have "rp_Records (respond ReplicateOK (FirstOffset pl) (nextOffset pl) com (map toFetched (batch 1000 b ms))) =
      map toFetched (batch 1000 b ms)" by (simp add: respond_def)
  ultimately show ?thesis using h(1) ne by (metis length_map map_is_Nil_conv)
qed

theorem commit_counts_records_sent_witness:
  "\<exists>(leader :: node) resp leader'.
     handleReplicate calm_runtime (Some \<lparr>rq_From = ''b'', rq_Topic = ''u'', rq_Partition = 0, rq_Offset = 0, rq_MaxRecords = 1000,
       rq_MaxBytes = 2097152\<rparr>) leader = Inr (Inr resp, leader') \<and> rp_Records resp \<noteq> []"
proof -
  obtain p d where p: "serves calm_runtime ''u'' 0 p [sample_record\<lparr>Offset := 0\<rparr>] (sample_node (p, d))" "nextOffset p = 1" "FirstOffset p = 0"
    by (rule sample_leader)
  show ?thesis
    using commit_counts_records_sent [OF p(1), of sample_assignment "''b''"
        "\<lparr>rq_From = ''b'', rq_Topic = ''u'', rq_Partition = 0, rq_Offset = 0, rq_MaxRecords = 1000, rq_MaxBytes = 2097152\<rparr>"]
      p(2,3) sample_placement two_nodes_fields
    by (fastforce simp: sample_assignment_def sample_config_fields)
qed

section \<open>Waiting for a commit\<close>

text \<open>
  \<open>waitCommitted\<close> can miss the commit it waits for. When the committed offset reaches the
  target between the comparison and the read of the channel, the waiter sleeps on the channel of the next commit: the target is
  reached, and the steps left to it without a further commit are to stay asleep or to time out with
  NOT_ENOUGH_REPLICAS.
\<close>

theorem waiter_misses_commit:
  assumes "topicPartition topic part (nd_store nd) = Inr (Some (p, d))" and "committed (replPart topic part nd) < off" and "off \<le> nextOffset p"
  shows "\<exists>g nd'. (wait_step topic part off)\<^sup>*\<^sup>* (Comparing, nd) (Sleeping g, nd') \<and>
    committedFor topic part nd' = Inr off \<and> commitCh (replPart topic part nd') = g \<and>
    (\<forall>w. wait_step topic part off (Sleeping g, nd') (w, nd') \<longrightarrow> w = Sleeping g \<or> w = Returned (Some CodeNotEnoughReplicas))"
proof -
  let ?nd = "setCommitted topic part off nd"
  let ?g = "commitCh (replPart topic part ?nd)"
  have c: "committed (replPart topic part nd) \<le> nextOffset p" using assms(2,3) by simp
  have "wait_step topic part off (Comparing, nd) (Taking, nd)"
    by (rule NotReached [where c = "committed (replPart topic part nd)"])
      (use assms c in \<open>auto simp: committedFor_def HighWatermark_def Let_def\<close>)
  moreover have "wait_step topic part off (Taking, nd) (Taking, ?nd)" by (rule Committing)
  moreover have "wait_step topic part off (Taking, ?nd) (Sleeping ?g, ?nd)" by (rule Take)
  ultimately have run: "(wait_step topic part off)\<^sup>*\<^sup>* (Comparing, nd) (Sleeping ?g, ?nd)"
    by (meson converse_rtranclp_into_rtranclp r_into_rtranclp)
  have "committedFor topic part ?nd = Inr off"
    using assms by (auto simp: committedFor_def HighWatermark_def Let_def committed_setCommitted max_def not_less)
  moreover have "w = Sleeping ?g \<or> w = Returned (Some CodeNotEnoughReplicas)" if "wait_step topic part off (Sleeping ?g, ?nd) (w, ?nd)" for w
    using that by (cases rule: wait_step.cases) auto
  ultimately show ?thesis using run by blast
qed

theorem waiter_misses_commit_witness:
  "\<exists>g nd'. (wait_step ''u'' 0 1)\<^sup>*\<^sup>* (Comparing, waiting_node) (Sleeping g, nd') \<and> committedFor ''u'' 0 nd' = Inr 1"
proof -
  have "topicPartition ''u'' 0 (nd_store waiting_node) = Inr (Some (fresh_partition\<lparr>nextOffset := 1\<rparr>, fresh_disk))"
    "committed (replPart ''u'' 0 waiting_node) < 1"
    by (simp_all add: waiting_node_def)
  from waiter_misses_commit [OF this] show ?thesis by auto
qed

section \<open>Requests that end the process\<close>

text \<open>
  A REPLICATE request can crash the leader's process. The placement is computed before the partition number is
  checked; for a negative number whose sum with the hash of the topic is negative and no multiple of the number
  of nodes the placement indexes the ring with a negative number, whatever topics the node has.
\<close>

theorem handleReplicate_panics:
  assumes "cl_overlay (nd_cl nd) = []" and "cc_Nodes (cl_cfg (nd_cl nd)) \<noteq> []" and "1 \<le> ReplicationFactor (cl_cfg (nd_cl nd))"
    and "int (unat (fnv32a (bytes_of_string (rq_Topic req)))) + sint (rq_Partition req) < 0"
    and "\<not> int (length (cc_Nodes (cl_cfg (nd_cl nd)))) dvd int (unat (fnv32a (bytes_of_string (rq_Topic req)))) + sint (rq_Partition req)"
  shows "handleReplicate rt (Some req) nd = Inl IndexOutOfRange"
  using negative_partition_panics [OF _ assms(2-5)] assms(1)
  by (simp add: handleReplicate_def IsLeaderFor_def assignmentOverlay_def)

theorem handleReplicate_panics_witness:
  "handleReplicate calm_runtime (Some \<lparr>rq_From = ''b'', rq_Topic = ''orders'', rq_Partition = - 2147483647, rq_Offset = 0,
     rq_MaxRecords = 1000, rq_MaxBytes = 1000\<rparr>) (sample_node (fresh_partition, fresh_disk)) = Inl IndexOutOfRange"
proof -
  have h: "fnv32a (bytes_of_string ''orders'') = 845059820" by (simp add: fnv32a_def bytes_of_string_def)
  show ?thesis
    by (rule handleReplicate_panics) (simp_all add: h two_nodes_eq sample_config_fields)
qed

end
