(* ===== verification/Assignor.thy ===== *)
theory Assignor
  imports Raven_Prelude "HOL-Library.Multiset"
begin

text \<open>
  The range assignor of the consumer groups (src/internal/broker/group/assignor.go):
  the partitions of every topic dealt in contiguous ranges to the subscribed members.
  Go maps are association lists; what the lookups return does not depend on their order
  because the assignor sorts the members.
\<close>

section \<open>Model\<close>

record Assignment =
  as_Topic :: string
  as_Partitions :: "i32 list"

record memberInfo =
  mi_id :: string
  mi_topics :: "string list"

type_synonym assignments = "(string \<times> Assignment list) list"

definition sortMembers :: "memberInfo list \<Rightarrow> memberInfo list" where
  "sortMembers members = sort_key mi_id members"

definition subscribedTopics :: "memberInfo list \<Rightarrow> string list" where
  "subscribedTopics ms = sort (remdups (concat (map mi_topics ms)))"

definition subscribers :: "memberInfo list \<Rightarrow> string \<Rightarrow> string list" where
  "subscribers ms topic = map mi_id (filter (\<lambda>m. topic \<in> set (mi_topics m)) ms)"

fun dealRanges :: "string \<Rightarrow> nat \<Rightarrow> nat \<Rightarrow> nat \<Rightarrow> nat \<Rightarrow> string list \<Rightarrow> assignments \<Rightarrow> assignments" where
  "dealRanges topic per extra i start [] out = out"
| "dealRanges topic per extra i start (m # subs) out =
     (let count = (if i < extra then per + 1 else per);
          parts = map of_nat [start..<start + count]
      in dealRanges topic per extra (i + 1) (start + count) subs
           (AList.update m (getList out m @ [\<lparr>as_Topic = topic, as_Partitions = parts\<rparr>]) out))"

definition assignTopic :: "(string \<Rightarrow> int option) \<Rightarrow> memberInfo list \<Rightarrow> assignments \<Rightarrow> string \<Rightarrow> assignments" where
  "assignTopic partitionsFor ms out topic =
     (case partitionsFor topic of
        None \<Rightarrow> out
      | Some n \<Rightarrow>
          if n \<le> 0 then out
          else let subs = subscribers ms topic in
            if subs = [] then out
            else dealRanges topic (nat n div length subs) (nat n mod length subs) 0 0 subs out)"

definition rangeAssign :: "memberInfo list \<Rightarrow> (string \<Rightarrow> int option) \<Rightarrow> assignments" where
  "rangeAssign members partitionsFor =
     (let ms = sortMembers members in
      foldl (assignTopic partitionsFor ms) (foldl (\<lambda>out m. AList.update (mi_id m) [] out) [] ms) (subscribedTopics ms))"

text \<open>A member owns a partition when one of its assignments lists it.\<close>

definition owns :: "assignments \<Rightarrow> string \<Rightarrow> string \<Rightarrow> i32 \<Rightarrow> bool" where
  "owns out m topic p \<longleftrightarrow> list_ex (\<lambda>a. as_Topic a = topic \<and> p \<in> set (as_Partitions a)) (getList out m)"

section \<open>What is dealt\<close>

text \<open>The start of the range of subscriber number \<open>j\<close>.\<close>

definition rangeStart :: "nat \<Rightarrow> nat \<Rightarrow> nat \<Rightarrow> nat" where
  "rangeStart n k j = j * (n div k) + min j (n mod k)"

definition dealt :: "nat \<Rightarrow> string list \<Rightarrow> string \<Rightarrow> i32 \<Rightarrow> bool" where
  "dealt n subs m p \<longleftrightarrow>
     (\<exists>j < length subs. subs ! j = m \<and>
        p \<in> of_nat ` {rangeStart n (length subs) j..<rangeStart n (length subs) (Suc j)})"

lemma rangeStart_bounds: "0 < k \<Longrightarrow> rangeStart n k 0 = 0" "0 < k \<Longrightarrow> rangeStart n k k = n"
  by (simp_all add: rangeStart_def min_absorb2 less_imp_le)

lemma rangeStart_Suc: "rangeStart n k (Suc j) = rangeStart n k j + (if j < n mod k then n div k + 1 else n div k)"
  by (auto simp: rangeStart_def min_def)

lemma rangeStart_mono: "i \<le> j \<Longrightarrow> rangeStart n k i \<le> rangeStart n k j"
  by (induction rule: dec_induct) (auto simp: rangeStart_Suc)

lemma owns_update:
  "owns (AList.update k (getList out k @ [\<lparr>as_Topic = t, as_Partitions = ps\<rparr>]) out) m topic p \<longleftrightarrow>
   owns out m topic p \<or> m = k \<and> topic = t \<and> p \<in> set ps"
  by (auto simp: owns_def)

lemma dealRanges_owns:
  "owns (dealRanges t (n div k) (n mod k) i (rangeStart n k i) subs out) m topic p \<longleftrightarrow>
   owns out m topic p \<or> topic = t \<and> (\<exists>j < length subs. subs ! j = m \<and>
     p \<in> of_nat ` {rangeStart n k (i + j)..<rangeStart n k (Suc (i + j))})"
proof (induction subs arbitrary: i out)
  case Nil
  then show ?case by simp
next
  case (Cons s subs)
  have next_start: "rangeStart n k i + (if i < n mod k then n div k + 1 else n div k) = rangeStart n k (Suc i)"
    by (simp add: rangeStart_Suc)
  have ex: "(\<exists>j < length (s # subs). (s # subs) ! j = m \<and> P j) \<longleftrightarrow>
      s = m \<and> P 0 \<or> (\<exists>j < length subs. subs ! j = m \<and> P (Suc j))" for P
    by (auto simp: less_Suc_eq_0_disj)
  have "dealRanges t (n div k) (n mod k) i (rangeStart n k i) (s # subs) out =
      dealRanges t (n div k) (n mod k) (Suc i) (rangeStart n k (Suc i)) subs
        (AList.update s (getList out s @ [\<lparr>as_Topic = t,
           as_Partitions = map of_nat [rangeStart n k i..<rangeStart n k (Suc i)]\<rparr>]) out)"
    unfolding dealRanges.simps Let_def next_start Suc_eq_plus1 ..
  then show ?case by (simp only: Cons.IH owns_update ex) auto
qed

lemma assignTopic_owns:
  "owns (assignTopic pf ms out t) m topic p \<longleftrightarrow>
   owns out m topic p \<or> topic = t \<and> (\<exists>n > 0. pf t = Some n \<and> dealt (nat n) (subscribers ms t) m p)"
proof (cases "subscribers ms t = []")
  case True
  then show ?thesis by (auto simp: assignTopic_def Let_def dealt_def split: option.split)
next
  case False
  then have "owns (dealRanges t (nat n div length (subscribers ms t)) (nat n mod length (subscribers ms t)) 0 0 (subscribers ms t) out) m topic p \<longleftrightarrow>
      owns out m topic p \<or> topic = t \<and> dealt (nat n) (subscribers ms t) m p" for n
    using dealRanges_owns [of t "nat n" "length (subscribers ms t)" 0 "subscribers ms t" out m topic p]
    by (simp add: rangeStart_bounds dealt_def)
  with False show ?thesis by (simp add: assignTopic_def Let_def split: option.split)
qed

lemma foldl_assign_owns:
  "owns (foldl (assignTopic pf ms) out ts) m topic p \<longleftrightarrow>
   owns out m topic p \<or> topic \<in> set ts \<and> (\<exists>n > 0. pf topic = Some n \<and> dealt (nat n) (subscribers ms topic) m p)"
  by (induction ts arbitrary: out) (auto simp: assignTopic_owns)

lemma init_owns: "\<not> owns (foldl (\<lambda>out m. AList.update (mi_id m) [] out) [] ms) m topic p"
proof -
  have "getList (foldl (\<lambda>out m. AList.update (mi_id m) [] out) out ms) m = []" if "getList out m = []" for out :: assignments
    using that by (induction ms arbitrary: out) auto
  moreover have "getList ([] :: assignments) m = []" by (simp add: getList_def)
  ultimately show ?thesis by (simp add: owns_def)
qed

lemma rangeAssign_owns:
  "owns (rangeAssign members pf) m topic p \<longleftrightarrow>
   (\<exists>n > 0. pf topic = Some n \<and> dealt (nat n) (subscribers (sortMembers members) topic) m p)"
proof -
  have "topic \<in> set (subscribedTopics ms)" if "dealt n (subscribers ms topic) m p" for n ms
    using that by (auto simp: dealt_def subscribers_def subscribedTopics_def filter_empty_conv intro!: bexI
        dest!: nth_mem)
  then show ?thesis by (auto simp: rangeAssign_def Let_def foldl_assign_owns init_owns)
qed

section \<open>Exact, balanced cover\<close>

lemma range_covers:
  assumes "p < rangeStart n k j"
  shows "\<exists>i < j. rangeStart n k i \<le> p \<and> p < rangeStart n k (Suc i)"
  using assms
proof (induction j)
  case 0
  then show ?case by (simp add: rangeStart_def)
next
  case (Suc j)
  show ?case
  proof (cases "p < rangeStart n k j")
    case True
    then show ?thesis using Suc.IH by (auto intro: less_SucI)
  next
    case False
    then show ?thesis using Suc.prems by auto
  qed
qed

lemma range_unique:
  assumes "rangeStart n k i \<le> p" "p < rangeStart n k (Suc i)" "rangeStart n k j \<le> p" "p < rangeStart n k (Suc j)"
  shows "i = j"
  using assms rangeStart_mono [of "Suc i" j n k] rangeStart_mono [of "Suc j" i n k] by (cases i j rule: linorder_cases) auto

text \<open>Partition numbers below \<open>2^32\<close> keep apart as \<open>int32\<close>.\<close>

lemma of_nat_in_range:
  assumes "p < n" "n \<le> 2 ^ 31" "b \<le> n"
  shows "(of_nat p :: i32) \<in> of_nat ` {a..<b} \<longleftrightarrow> a \<le> p \<and> p < b"
proof
  assume "(of_nat p :: i32) \<in> of_nat ` {a..<b}"
  then obtain q where q: "(of_nat p :: i32) = of_nat q" "a \<le> q" "q < b" by auto
  then have "unat (of_nat p :: i32) = unat (of_nat q :: i32)" by simp
  then have "p = q" using assms q unfolding unat_of_nat by simp
  then show "a \<le> p \<and> p < b" using q by simp
qed auto

lemma distinct_subscribers: "distinct (map mi_id ms) \<Longrightarrow> distinct (subscribers ms t)"
  by (induction ms) (auto simp: subscribers_def)

lemma set_subscribers: "m \<in> set (subscribers (sortMembers ms) t) \<longleftrightarrow> (\<exists>x\<in>set ms. mi_id x = m \<and> t \<in> set (mi_topics x))"
  by (auto simp: subscribers_def sortMembers_def)

lemma distinct_sortMembers: "distinct (map mi_id ms) \<Longrightarrow> distinct (map mi_id (sortMembers ms))"
  by (simp add: sortMembers_def distinct_map)

lemma dealt_once:
  assumes "p < n" "n \<le> 2 ^ 31" "subs \<noteq> []"
  shows "\<exists>!m. dealt n subs m (of_nat p)"
proof -
  let ?k = "length subs"
  have k: "0 < ?k" using assms(3) by simp
  have le: "rangeStart n ?k (Suc j) \<le> n" if "j < ?k" for j
    using rangeStart_mono [of "Suc j" ?k n ?k] rangeStart_bounds(2) [OF k, of n] that by simp
  have iff: "dealt n subs m (of_nat p) \<longleftrightarrow> (\<exists>j < ?k. subs ! j = m \<and> rangeStart n ?k j \<le> p \<and> p < rangeStart n ?k (Suc j))" for m
    unfolding dealt_def using of_nat_in_range [OF assms(1,2) le] by blast
  have "\<exists>j < ?k. rangeStart n ?k j \<le> p \<and> p < rangeStart n ?k (Suc j)"
    using range_covers [of p n ?k ?k] rangeStart_bounds(2) [OF k, of n] assms(1) by simp
  then show ?thesis unfolding iff by (metis range_unique)
qed

lemma dealt_set:
  assumes "j < length subs" "distinct subs"
  shows "{p. dealt n subs (subs ! j) p} = of_nat ` {rangeStart n (length subs) j..<rangeStart n (length subs) (Suc j)}"
  using assms by (auto simp: dealt_def nth_eq_iff_index_eq)

lemma dealt_card:
  assumes m: "m \<in> set subs" and d: "distinct subs" and n: "n \<le> 2 ^ 31"
  shows "card {p. dealt n subs m p} \<in> {n div length subs, n div length subs + 1}"
proof -
  obtain j where j: "j < length subs" "m = subs ! j" using m by (metis in_set_conv_nth)
  let ?S = "{rangeStart n (length subs) j..<rangeStart n (length subs) (Suc j)}"
  have "rangeStart n (length subs) (Suc j) \<le> n"
    using rangeStart_mono [of "Suc j" "length subs" n "length subs"] rangeStart_bounds(2) [of "length subs" n] j by fastforce
  then have "inj_on (of_nat :: nat \<Rightarrow> i32) ?S"
    using n by (auto intro!: inj_onI simp: word_unat_eq_iff unat_of_nat)
  then show ?thesis using dealt_set [OF j(1) d, of n] j(2) by (simp add: card_image rangeStart_Suc)
qed

text \<open>Go ranges over its maps in no fixed order; the assignor sorts, so the order does not show.\<close>

lemma rangeAssign_perm:
  assumes "mset ms = mset ms'" "distinct (map mi_id ms)"
  shows "rangeAssign ms pf = rangeAssign ms' pf"
proof -
  have "sortMembers ms = sortMembers ms'"
    unfolding sortMembers_def using assms
    by (intro sort_key_inj_key_eq) (auto simp: distinct_map)
  then show ?thesis by (simp add: rangeAssign_def)
qed

section \<open>Properties of the assignor\<close>

text \<open>
  Property C20. Range assignment: every partition of a topic with a subscriber goes to exactly one
  member, which subscribes to the topic; the shares of the subscribers differ by at
  most one; and the result does not depend on the order of the members.
\<close>

theorem rangeAssign_exact_cover:
  assumes "distinct (map mi_id members)" "partitionsFor topic = Some n" "0 < n" "n \<le> 2 ^ 31"
    and "\<exists>m \<in> set members. topic \<in> set (mi_topics m)"
  shows "(\<forall>p < nat n. \<exists>!m. owns (rangeAssign members partitionsFor) m topic (of_nat p)) \<and>
    (\<forall>m p. owns (rangeAssign members partitionsFor) m topic p \<longrightarrow>
       (\<exists>x \<in> set members. mi_id x = m \<and> topic \<in> set (mi_topics x)) \<and> unat p < nat n) \<and>
    (\<forall>x \<in> set members. topic \<in> set (mi_topics x) \<longrightarrow>
       card {p. owns (rangeAssign members partitionsFor) (mi_id x) topic p} \<in>
         {nat n div length (subscribers members topic), nat n div length (subscribers members topic) + 1}) \<and>
    (\<forall>members'. mset members' = mset members \<longrightarrow> rangeAssign members' partitionsFor = rangeAssign members partitionsFor)"
proof -
  let ?subs = "subscribers (sortMembers members) topic" and ?N = "nat n"
  have owns: "owns (rangeAssign members partitionsFor) m topic p \<longleftrightarrow> dealt ?N ?subs m p" for m p
    using assms(2,3) by (simp add: rangeAssign_owns)
  have d: "distinct ?subs" using assms(1) by (intro distinct_subscribers distinct_sortMembers)
  have ne: "?subs \<noteq> []" using assms(5) set_subscribers [of _ members topic] by (metis empty_iff list.set(1))
  have N: "?N \<le> 2 ^ 31" using assms(4) by simp
  have len: "length ?subs = length (subscribers members topic)"
    by (simp add: subscribers_def sortMembers_def filter_sort)
  have "unat p < ?N" if dm: "dealt ?N ?subs m p" for m p
  proof -
    obtain j q where "j < length ?subs" "p = of_nat q" "q < rangeStart ?N (length ?subs) (Suc j)"
      using dm by (auto simp: dealt_def)
    moreover have "rangeStart ?N (length ?subs) (Suc j) \<le> ?N" if "j < length ?subs" for j
      using rangeStart_mono [of "Suc j" "length ?subs" ?N "length ?subs"] rangeStart_bounds(2) [of "length ?subs" ?N] that ne by simp
    ultimately have "q < ?N" "p = of_nat q" by fastforce+
    then show ?thesis using N by (simp add: unat_of_nat)
  qed
  moreover have "m \<in> set ?subs" if "dealt ?N ?subs m p" for m p using that by (auto simp: dealt_def)
  moreover have "mi_id x \<in> set ?subs" if "x \<in> set members" "topic \<in> set (mi_topics x)" for x
    using that set_subscribers by blast
  ultimately have sound: "(\<exists>x \<in> set members. mi_id x = m \<and> topic \<in> set (mi_topics x)) \<and> unat p < ?N"
    if "dealt ?N ?subs m p" for m p using that by (simp only: set_subscribers [symmetric])
  have share: "card {p. dealt ?N ?subs (mi_id x) p} \<in> {?N div length ?subs, ?N div length ?subs + 1}"
    if "x \<in> set members" "topic \<in> set (mi_topics x)" for x
    using that set_subscribers by (intro dealt_card [OF _ d N]) blast
  show ?thesis
    unfolding owns len [symmetric]
    by (intro conjI allI impI ballI dealt_once [OF _ N ne] sound [THEN conjunct1] sound [THEN conjunct2] share
        rangeAssign_perm [OF _ assms(1), symmetric]) (assumption | erule sym)+
qed

theorem rangeAssign_exact_cover_witness:
  "\<exists>!m. owns (rangeAssign [\<lparr>mi_id = ''b'', mi_topics = [''jobs'']\<rparr>, \<lparr>mi_id = ''a'', mi_topics = [''jobs'']\<rparr>] (\<lambda>_. Some 3)) m ''jobs'' 2"
  using rangeAssign_exact_cover [of "[\<lparr>mi_id = ''b'', mi_topics = [''jobs'']\<rparr>, \<lparr>mi_id = ''a'', mi_topics = [''jobs'']\<rparr>]"
      "\<lambda>_. Some 3" "''jobs''" 3, THEN conjunct1, rule_format, of 2] by simp

end
