(* ===== verification/Offsets.thy ===== *)
theory Offsets
  imports Disk "HOL-Library.Monad_Syntax"
begin

text \<open>
  The store of committed offsets (src/internal/broker/group/offsets.go): a map from
  group, topic and partition to the next offset to consume, kept in memory and
  persisted as lines of JSON in \<open>offsets.jsonl\<close>, rewritten to one line per key once
  enough lines have accumulated. It works on the directory of \<open>Disk\<close>, so every call
  may fail and a write may stop anywhere.

  Of \<open>encoding/json\<close> the model has what the file needs: a line as the encoder writes it,
  and a decoder for lines of that form. Ids and topic names consist of letters, digits
  and the characters dot, underscore and dash, so nothing is ever escaped.
\<close>

section \<open>Lines\<close>

record offsetLine =
  ol_Group :: string
  ol_Topic :: string
  ol_Partition :: i32
  ol_Offset :: u64

declare itoa.simps [simp del]

definition showInt :: "int \<Rightarrow> string" where
  "showInt i = (if i < 0 then ''-'' @ itoa (nat (- i)) else itoa (nat i))"

definition Marshal :: "offsetLine \<Rightarrow> string" where
  "Marshal l =
     ''{\"group\":\"'' @ ol_Group l @ ''\",\"topic\":\"'' @ ol_Topic l @ ''\",\"partition\":'' @ showInt (sint (ol_Partition l)) @
     '',\"offset\":'' @ itoa (unat (ol_Offset l)) @ ''}''"

fun expect :: "string \<Rightarrow> string \<Rightarrow> string option" where
  "expect [] s = Some s"
| "expect (x # xs) [] = None"
| "expect (x # xs) (y # ys) = (if x = y then expect xs ys else None)"

text \<open>A number of JSON has no leading zero.\<close>

definition parseNat :: "string \<Rightarrow> (nat \<times> string) option" where
  "parseNat s =
     (let ds = takeWhile is_digit s in
      if ds = [] \<or> 1 < length ds \<and> hd ds = CHR ''0'' then None
      else map_option (\<lambda>n. (n, dropWhile is_digit s)) (decimal_value 0 ds))"

definition parseInt :: "string \<Rightarrow> (int \<times> string) option" where
  "parseInt s =
     (case expect ''-'' s of
        Some r \<Rightarrow> map_option (\<lambda>(n, r). (- int n, r)) (parseNat r)
      | None \<Rightarrow> map_option (\<lambda>(n, r). (int n, r)) (parseNat s))"

definition Unmarshal :: "string \<Rightarrow> offsetLine option" where
  "Unmarshal s = do {
     s \<leftarrow> expect ''{\"group\":\"'' s;
     let g = takeWhile topicChar s;
     s \<leftarrow> expect ''\",\"topic\":\"'' (dropWhile topicChar s);
     let t = takeWhile topicChar s;
     s \<leftarrow> expect ''\",\"partition\":'' (dropWhile topicChar s);
     (p, s) \<leftarrow> parseInt s;
     s \<leftarrow> expect '',\"offset\":'' s;
     (n, s) \<leftarrow> parseNat s;
     s \<leftarrow> expect ''}'' s;
     if s = [] \<and> - (2 ^ 31) \<le> p \<and> p < 2 ^ 31 \<and> n < 2 ^ 64
     then Some \<lparr>ol_Group = g, ol_Topic = t, ol_Partition = of_int p, ol_Offset = of_nat n\<rparr>
     else None }"

section \<open>The store\<close>

definition compactAfterLines :: nat where
  "compactAfterLines = 8192"

definition offsetsFile :: string where
  "offsetsFile = ''offsets.jsonl''"

type_synonym offset_data = "(string \<times> (string \<times> (i32 \<times> u64) list) list) list"

text \<open>\<open>os_open\<close>: whether the handle in \<open>file\<close> is open.\<close>

record offsetStore =
  os_data :: offset_data
  os_open :: bool
  os_lines :: nat

type_synonym 'a store_op = "(offsetStore \<times> disk, 'a) res"

definition newline :: char where
  "newline = CHR 0x0A"

definition setMem :: "string \<Rightarrow> string \<Rightarrow> i32 \<Rightarrow> u64 \<Rightarrow> offset_data \<Rightarrow> offset_data" where
  "setMem grp topic part offset data =
     (let t = getList data grp; p = getList t topic
      in AList.update grp (AList.update topic (AList.update part offset p) t) data)"

definition setLine :: "offset_data \<Rightarrow> offsetLine \<Rightarrow> offset_data" where
  "setLine data l = setMem (ol_Group l) (ol_Topic l) (ol_Partition l) (ol_Offset l) data"

text \<open>\<open>bufio.Scanner\<close>: the lines of the file, a last one without newline included.\<close>

fun scanLines :: "string \<Rightarrow> string \<Rightarrow> string list" where
  "scanLines acc [] = (if acc = [] then [] else [acc])"
| "scanLines acc (c # cs) = (if c = newline then acc # scanLines [] cs else scanLines (acc @ [c]) cs)"

text \<open>The scanner gives up at a line that does not fit its buffer of a mebibyte.\<close>

fun replayLines :: "string list \<Rightarrow> offset_data \<Rightarrow> storage_error + offset_data" where
  "replayLines [] data = Inr data"
| "replayLines (l # ls) data =
     (if 2 ^ 20 \<le> length l then Inl ErrIO
      else replayLines ls (case Unmarshal l of None \<Rightarrow> data | Some ol \<Rightarrow> setLine data ol))"

definition os_replay :: "runtime \<Rightarrow> (disk, offset_data) res" where
  "os_replay rt =
     bindR (Seek rt offsetsFile) (\<lambda>_.
     bindR (ReadAll rt offsetsFile) (\<lambda>b d.
       (replayLines (scanLines [] (string_of_bytes b)) [], d)))"

definition openOffsetStore :: "runtime \<Rightarrow> (disk, offsetStore) res" where
  "openOffsetStore rt =
     bindR (OpenFile rt offsetsFile) (\<lambda>_.
     bindR (onErr (os_replay rt) (closeF rt offsetsFile)) (\<lambda>data.
       returnR \<lparr>os_data = data, os_open = True, os_lines = 0\<rparr>))"

definition os_Get :: "offset_data \<Rightarrow> string \<Rightarrow> string \<Rightarrow> i32 \<Rightarrow> u64 option" where
  "os_Get data grp topic part =
     (case map_of data grp of
        None \<Rightarrow> None
      | Some t \<Rightarrow> (case map_of t topic of None \<Rightarrow> None | Some p \<Rightarrow> map_of p part))"

definition Snapshot :: "offset_data \<Rightarrow> string \<Rightarrow> (string \<times> (i32 \<times> u64) list) list" where
  "Snapshot data grp = getList data grp"

definition GroupIDs :: "offset_data \<Rightarrow> string list" where
  "GroupIDs data = map fst data"

text \<open>A call on the handle: an error of \<open>os.ErrClosed\<close> once it is closed.\<close>

definition onHandle :: "(disk, 'a) res \<Rightarrow> 'a store_op" where
  "onHandle m = (\<lambda>(s, d). if os_open s then on_snd m (s, d) else (Inl ErrIO, (s, d)))"

definition lineBytes :: "offsetLine \<Rightarrow> bytes" where
  "lineBytes l = bytes_of_string (Marshal l @ [newline])"

definition dataLines :: "offset_data \<Rightarrow> offsetLine list" where
  "dataLines data =
     concat (map (\<lambda>(g, ts). concat (map (\<lambda>(t, ps).
       map (\<lambda>(p, off). \<lparr>ol_Group = g, ol_Topic = t, ol_Partition = p, ol_Offset = off\<rparr>) ps) ts)) data)"

definition tmpFile :: string where
  "tmpFile = offsetsFile @ ''.tmp''"

definition writeCompacted :: "runtime \<Rightarrow> bytes \<Rightarrow> (disk, unit) res" where
  "writeCompacted rt buf =
     bindR (Create rt tmpFile) (\<lambda>_.
     bindR (onErr (if buf = [] then returnR () else WriteAt rt tmpFile buf 0) (closeF rt tmpFile)) (\<lambda>_.
     bindR (onErr (Sync rt tmpFile) (closeF rt tmpFile)) (\<lambda>_.
       CloseFile rt tmpFile)))"

text \<open>Closing releases the handle even when it reports an error.\<close>

definition closeHandle :: "runtime \<Rightarrow> unit store_op" where
  "closeHandle rt = (\<lambda>(s, d). case onHandle (CloseFile rt offsetsFile) (s, d) of (r, (s, d)) \<Rightarrow> (r, (s\<lparr>os_open := False\<rparr>, d)))"

definition compactLocked :: "runtime \<Rightarrow> unit store_op" where
  "compactLocked rt = (\<lambda>(s, d).
     bindR (on_snd (writeCompacted rt (concat (map lineBytes (dataLines (os_data s)))))) (\<lambda>_.
     bindR (closeHandle rt) (\<lambda>_.
     bindR (on_snd (Rename rt tmpFile offsetsFile)) (\<lambda>_.
     bindR (on_snd (OpenFile rt offsetsFile)) (\<lambda>_.
       modifyR (\<lambda>(s, d). (s\<lparr>os_open := True, os_lines := 0\<rparr>, d)))))) (s, d))"

definition os_Set :: "runtime \<Rightarrow> string \<Rightarrow> string \<Rightarrow> i32 \<Rightarrow> u64 \<Rightarrow> unit store_op" where
  "os_Set rt grp topic part offset =
     (let line = lineBytes \<lparr>ol_Group = grp, ol_Topic = topic, ol_Partition = part, ol_Offset = offset\<rparr> in
     bindR (modifyR (\<lambda>(s, d). (s\<lparr>os_data := setMem grp topic part offset (os_data s)\<rparr>, d))) (\<lambda>_.
     bindR (onHandle (AppendFile rt offsetsFile line)) (\<lambda>_.
     bindR (onHandle (Sync rt offsetsFile)) (\<lambda>_.
     bindR (modifyR (\<lambda>(s, d). (s\<lparr>os_lines := os_lines s + 1\<rparr>, d))) (\<lambda>_ (s, d).
       if compactAfterLines \<le> os_lines s then compactLocked rt (s, d) else (Inr (), (s, d)))))))"

definition os_Close :: "runtime \<Rightarrow> unit store_op" where
  "os_Close rt = bindR (onErr (compactLocked rt) (\<lambda>s. snd (closeHandle rt s))) (\<lambda>_. closeHandle rt)"

section \<open>The line codec\<close>

lemma expect_append [simp]: "expect xs (xs @ s) = Some s"
  by (induction xs) auto

lemma expect_SomeD: "expect xs s = Some r \<Longrightarrow> s = xs @ r"
  by (induction xs s rule: expect.induct) (auto split: if_splits)

lemma digit_char [simp]: "(of_char (char_of (48 + n mod 10 :: nat)) :: nat) = 48 + n mod 10"
  by (simp add: of_char_of)

lemma digit_char_small [simp]: "n < 10 \<Longrightarrow> (of_char (char_of (48 + n :: nat)) :: nat) = 48 + n"
  by (simp add: of_char_of)

lemma is_digit_char [simp]: "is_digit (char_of (48 + n mod 10 :: nat))" "n < 10 \<Longrightarrow> is_digit (char_of (48 + n :: nat))"
proof -
  have "n mod 10 < 10" by simp
  then show "is_digit (char_of (48 + n mod 10 :: nat))" unfolding is_digit_def digit_char by linarith
qed (simp add: is_digit_def)

lemma itoa_digits: "list_all is_digit (itoa n)"
  by (induction n rule: itoa.induct) (subst itoa.simps, simp)

lemma itoa_value: "decimal_value 0 (itoa n) = Some n"
  by (induction n rule: itoa.induct) (subst itoa.simps, simp add: decimal_value_append)

lemma itoa_not_Nil [simp]: "itoa n \<noteq> []"
  by (subst itoa.simps) simp

lemma itoa_hd: "0 < n \<Longrightarrow> hd (itoa n) \<noteq> CHR ''0''"
proof (induction n rule: itoa.induct)
  case (1 n)
  show ?case
  proof (cases "n < 10")
    case True
    have "(of_char (char_of (48 + n)) :: nat) \<noteq> of_char CHR ''0''" using 1(2) True by simp
    then have "char_of (48 + n) \<noteq> CHR ''0''" by metis
    then show ?thesis using True by (subst itoa.simps) simp
  next
    case False
    then show ?thesis using 1(1) by (subst itoa.simps) simp
  qed
qed

lemma itoa_no_leading_zero: "1 < length (itoa n) \<Longrightarrow> hd (itoa n) \<noteq> CHR ''0''"
  by (cases "n = 0") (auto simp: itoa_hd itoa.simps [of 0])

lemma length_itoa: "n < 10 ^ Suc k \<Longrightarrow> length (itoa n) \<le> Suc k"
proof (induction n arbitrary: k rule: itoa.induct)
  case (1 n)
  then show ?case by (cases k) (subst itoa.simps, simp)+
qed

lemma takeWhile_list_all: "list_all P xs \<Longrightarrow> takeWhile P (xs @ ys) = xs @ takeWhile P ys"
  and dropWhile_list_all: "list_all P xs \<Longrightarrow> dropWhile P (xs @ ys) = dropWhile P ys"
  by (induction xs) auto

lemma parseNat_itoa: "\<not> is_digit c \<Longrightarrow> parseNat (itoa n @ c # r) = Some (n, c # r)"
  using itoa_no_leading_zero [of n]
  by (simp add: parseNat_def Let_def takeWhile_list_all dropWhile_list_all itoa_digits itoa_value)

lemma expect_minus_itoa: "expect ''-'' (itoa n @ r) = None"
proof -
  have "is_digit (hd (itoa n))" using itoa_digits [of n] by (cases "itoa n") auto
  then show ?thesis by (cases "itoa n") (auto simp: is_digit_def)
qed

lemma parseInt_showInt: "\<not> is_digit c \<Longrightarrow> parseInt (showInt i @ c # r) = Some (i, c # r)"
  using parseNat_itoa [of c] expect_append [of "''-''" "itoa (nat (- i)) @ c # r"] expect_minus_itoa [of "nat i" "c # r"]
  by (auto simp: parseInt_def showInt_def)

definition valid_line :: "offsetLine \<Rightarrow> bool" where
  "valid_line l \<longleftrightarrow> list_all topicChar (ol_Group l) \<and> list_all topicChar (ol_Topic l) \<and>
     length (ol_Group l) + length (ol_Topic l) \<le> 2 ^ 16"

lemma not_topicChar [simp]: "\<not> topicChar CHR 0x22" "\<not> topicChar CHR ''{''" "\<not> topicChar CHR ''}''" "\<not> topicChar newline"
  by (simp_all add: topicChar_def char_between_def newline_def)

lemma not_digit [simp]: "\<not> is_digit CHR ''{''" "\<not> is_digit CHR ''}''" "\<not> is_digit CHR '',''" "\<not> is_digit newline"
  by (simp_all add: is_digit_def newline_def)

lemma takeWhile_id: "list_all topicChar g \<Longrightarrow> takeWhile topicChar (g @ CHR 0x22 # r) = g"
  and dropWhile_id: "list_all topicChar g \<Longrightarrow> dropWhile topicChar (g @ CHR 0x22 # r) = CHR 0x22 # r"
  by (simp_all add: takeWhile_list_all dropWhile_list_all)

lemma Unmarshal_Marshal:
  assumes "valid_line l"
  shows "Unmarshal (Marshal l) = Some l"
proof -
  let ?q = "CHR 0x22"
  have v: "list_all topicChar (ol_Group l)" "list_all topicChar (ol_Topic l)" using assms by (simp_all add: valid_line_def)
  have s: "- (2 ^ 31) \<le> sint (ol_Partition l)" "sint (ol_Partition l) < 2 ^ 31"
    using sint_greater_eq [of "ol_Partition l"] sint_less [of "ol_Partition l"] by simp_all
  have o: "unat (ol_Offset l) < 2 ^ 64" using unsigned_less [of "ol_Offset l", where 'a = nat] by simp
  show ?thesis
    unfolding Unmarshal_def Marshal_def
    using s o by (simp add: takeWhile_id [OF v(1)] takeWhile_id [OF v(2)] dropWhile_id [OF v(1)] dropWhile_id [OF v(2)]
        parseInt_showInt parseNat_itoa Let_def)
qed

lemma parseNat_SomeD: "parseNat s = Some (n, r) \<Longrightarrow> \<exists>ds. s = ds @ r \<and> CHR ''{'' \<notin> set ds"
  by (rule exI [of _ "takeWhile is_digit s"])
    (auto simp: parseNat_def Let_def split: if_splits dest: set_takeWhileD)

lemma parseInt_SomeD: "parseInt s = Some (i, r) \<Longrightarrow> \<exists>ds. s = ds @ r \<and> CHR ''{'' \<notin> set ds"
proof (cases "expect ''-'' s")
  case (Some t)
  assume "parseInt s = Some (i, r)"
  then obtain n where "parseNat t = Some (n, r)" using Some by (auto simp: parseInt_def)
  then obtain ds where "t = ds @ r" "CHR ''{'' \<notin> set ds" using parseNat_SomeD by blast
  then show ?thesis using expect_SomeD [OF Some] by (intro exI [of _ "''-'' @ ds"]) auto
next
  case None
  assume "parseInt s = Some (i, r)"
  then show ?thesis using None parseNat_SomeD by (auto simp: parseInt_def)
qed

lemma split_id: "\<exists>g. s = g @ dropWhile topicChar s \<and> CHR ''{'' \<notin> set g"
  by (rule exI [of _ "takeWhile topicChar s"]) (auto dest: set_takeWhileD)

text \<open>A line that decodes ends with its only closing brace and has one opening brace.\<close>

lemma Unmarshal_SomeD:
  assumes "Unmarshal s = Some l"
  shows "\<exists>a. s = CHR ''{'' # a @ ''}'' \<and> CHR ''{'' \<notin> set a"
proof -
  obtain s1 s2 s3 s4 s5 s6 s7 p n where e: "expect ''{\"group\":\"'' s = Some s1"
      "expect ''\",\"topic\":\"'' (dropWhile topicChar s1) = Some s2"
      "expect ''\",\"partition\":'' (dropWhile topicChar s2) = Some s3"
      "parseInt s3 = Some (p, s4)" "expect '',\"offset\":'' s4 = Some s5"
      "parseNat s5 = Some (n, s6)" "expect ''}'' s6 = Some s7" "s7 = []"
    using assms unfolding Unmarshal_def Let_def by (auto simp: Option.bind_eq_Some_conv split: prod.splits if_splits)
  obtain g where g: "s1 = g @ dropWhile topicChar s1" "CHR ''{'' \<notin> set g" using split_id by blast
  obtain t where t: "s2 = t @ dropWhile topicChar s2" "CHR ''{'' \<notin> set t" using split_id by blast
  obtain ps where ps: "s3 = ps @ s4" "CHR ''{'' \<notin> set ps" using parseInt_SomeD [OF e(4)] by blast
  obtain ds where ds: "s5 = ds @ s6" "CHR ''{'' \<notin> set ds" using parseNat_SomeD [OF e(6)] by blast
  have "s1 = g @ ''\",\"topic\":\"'' @ s2" by (rule trans [OF g(1)]) (simp only: expect_SomeD [OF e(2)])
  moreover have "s2 = t @ ''\",\"partition\":'' @ s3" by (rule trans [OF t(1)]) (simp only: expect_SomeD [OF e(3)])
  ultimately have "s = ''{\"group\":\"'' @ g @ ''\",\"topic\":\"'' @ t @ ''\",\"partition\":'' @ ps @ '',\"offset\":'' @ ds @ ''}''"
    using expect_SomeD [OF e(1)] expect_SomeD [OF e(5)] expect_SomeD [OF e(7)] ps(1) ds(1) e(8) by simp
  then show ?thesis using g(2) t(2) ps(2) ds(2)
    by (intro exI [of _ "''\"group\":\"'' @ g @ ''\",\"topic\":\"'' @ t @ ''\",\"partition\":'' @ ps @ '',\"offset\":'' @ ds"]) auto
qed

definition marshalBody :: "offsetLine \<Rightarrow> string" where
  "marshalBody l =
     ''\"group\":\"'' @ ol_Group l @ ''\",\"topic\":\"'' @ ol_Topic l @ ''\",\"partition\":'' @ showInt (sint (ol_Partition l)) @
     '',\"offset\":'' @ itoa (unat (ol_Offset l))"

lemma Marshal_body: "Marshal l = CHR ''{'' # marshalBody l @ ''}''"
  by (simp add: Marshal_def marshalBody_def)

lemma showInt_chars: "c \<in> set (showInt i) \<Longrightarrow> is_digit c \<or> c = CHR ''-''"
  using itoa_digits by (auto simp: showInt_def list_all_iff split: if_splits)

lemma marshalBody_chars:
  assumes "valid_line l" "c \<in> {CHR ''{'', CHR ''}'', newline}"
  shows "c \<notin> set (marshalBody l)"
proof -
  have nt: "\<not> topicChar c" and nd: "\<not> is_digit c" and nc: "c \<notin> set ''\"group\":\"\",\"topic\":\"\",\"partition\":,\"offset\":-''"
    using assms(2) by (auto simp: newline_def topicChar_def char_between_def is_digit_def)
  have "c \<notin> set (ol_Group l)" "c \<notin> set (ol_Topic l)" using assms(1) nt by (auto simp: valid_line_def list_all_iff)
  moreover have "c \<notin> set (showInt i)" for i using showInt_chars [of c i] nd nc by auto
  moreover have "c \<notin> set (itoa i)" for i using itoa_digits [of i] nd by (auto simp: list_all_iff)
  ultimately show ?thesis using nc by (simp add: marshalBody_def)
qed

lemma newline_Marshal: "valid_line l \<Longrightarrow> newline \<notin> set (Marshal l)"
  using marshalBody_chars [of l newline] by (auto simp: Marshal_body newline_def)

lemma length_Marshal_small:
  assumes "valid_line l"
  shows "length (Marshal l) < 100000"
proof -
  have "length (itoa (unat (ol_Offset l))) \<le> 20"
    using length_itoa [of "unat (ol_Offset l)" 19] unsigned_less [of "ol_Offset l", where 'a = nat] by simp
  moreover have "nat (sint (ol_Partition l)) < 10 ^ Suc 9" "nat (- sint (ol_Partition l)) < 10 ^ Suc 9"
    using sint_greater_eq [of "ol_Partition l"] sint_less [of "ol_Partition l"] by (simp_all add: nat_less_iff)
  then have "length (showInt (sint (ol_Partition l))) \<le> 11"
    using length_itoa [of "nat (sint (ol_Partition l))" 9] length_itoa [of "nat (- sint (ol_Partition l))" 9]
    by (auto simp: showInt_def)
  ultimately show ?thesis using assms by (simp add: Marshal_def valid_line_def)
qed

lemma length_Marshal: "valid_line l \<Longrightarrow> length (Marshal l) < 1048576"
  using length_Marshal_small [of l] by linarith

lemma Marshal_not_Nil [simp]: "Marshal l \<noteq> []"
  by (simp add: Marshal_body)

text \<open>A torn line does not decode, and neither does one that continues a torn line.\<close>

lemma Unmarshal_torn:
  assumes "valid_line l" "k < length (Marshal l)"
  shows "Unmarshal (take k (Marshal l)) = None"
proof (rule ccontr)
  assume "Unmarshal (take k (Marshal l)) \<noteq> None"
  then obtain a where a: "take k (Marshal l) = CHR ''{'' # a @ ''}''" using Unmarshal_SomeD by blast
  have "take k (Marshal l) = take k (CHR ''{'' # marshalBody l)" using assms(2) by (cases k) (simp_all add: Marshal_body)
  then have "set (take k (Marshal l)) \<subseteq> insert CHR ''{'' (set (marshalBody l))" by (metis list.simps(15) set_take_subset)
  moreover have "CHR ''}'' \<in> set (take k (Marshal l))" by (simp add: a)
  ultimately show False using marshalBody_chars [OF assms(1)] by auto
qed

lemma Unmarshal_continued:
  assumes "0 < k" "k \<le> length (Marshal l)"
  shows "Unmarshal (take k (Marshal l) @ Marshal l') = None"
proof (rule ccontr)
  assume "Unmarshal (take k (Marshal l) @ Marshal l') \<noteq> None"
  then obtain a where a: "take k (Marshal l) @ Marshal l' = CHR ''{'' # a @ ''}''" "CHR ''{'' \<notin> set a"
    using Unmarshal_SomeD by blast
  obtain j where "k = Suc j" using assms(1) by (cases k) auto
  with a(1) have "take j (marshalBody l @ ''}'') @ CHR ''{'' # marshalBody l' @ ''}'' = a @ ''}''"
    by (simp add: Marshal_body)
  then have "(take j (marshalBody l @ ''}'') @ CHR ''{'' # marshalBody l') @ ''}'' = a @ ''}''" by simp
  then have "take j (marshalBody l @ ''}'') @ CHR ''{'' # marshalBody l' = a" by (simp only: append_same_eq)
  with a(2) show False by auto
qed

section \<open>The map the file stands for\<close>

type_synonym offset_key = "string \<times> string \<times> i32"

definition committed :: "offset_data \<Rightarrow> offset_key \<Rightarrow> u64 option" where
  "committed data k = (case k of (g, t, p) \<Rightarrow> os_Get data g t p)"

definition okey :: "offsetLine \<Rightarrow> offset_key" where
  "okey l = (ol_Group l, ol_Topic l, ol_Partition l)"

text \<open>Later lines win.\<close>

definition linesMap :: "(offset_key \<Rightarrow> u64 option) \<Rightarrow> offsetLine list \<Rightarrow> offset_key \<Rightarrow> u64 option" where
  "linesMap m ls = foldl (\<lambda>m l. m(okey l \<mapsto> ol_Offset l)) m ls"

text \<open>Go's maps as association lists: keys once, values of a given kind.\<close>

definition wf_map :: "('v \<Rightarrow> bool) \<Rightarrow> ('k \<times> 'v) list \<Rightarrow> bool" where
  "wf_map P m \<longleftrightarrow> distinct (map fst m) \<and> (\<forall>x \<in> set m. P (snd x))"

definition wf_data :: "offset_data \<Rightarrow> bool" where
  "wf_data = wf_map (wf_map (wf_map (\<lambda>_. True)))"

lemma set_update_subset: "set (AList.update k v m) \<subseteq> insert (k, v) (set m)"
  by (induction m) auto

lemma wf_map_Nil [simp]: "wf_map P []"
  by (simp add: wf_map_def)

lemma wf_map_update: "wf_map P m \<Longrightarrow> P v \<Longrightarrow> wf_map P (AList.update k v m)"
  using set_update_subset [of k v m] by (force simp: wf_map_def intro: distinct_update)

lemma wf_map_lookup: "wf_map P m \<Longrightarrow> map_of m k = Some v \<longleftrightarrow> (k, v) \<in> set m"
  by (simp add: wf_map_def map_of_eq_Some_iff)

lemma wf_map_getList: "wf_map (wf_map P) m \<Longrightarrow> wf_map P (getList m k)"
  by (cases "map_of m k") (fastforce simp: getList_def wf_map_def dest: map_of_SomeD)+

lemma committed_setMem: "committed (setMem g t p off data) = (committed data)(  (g, t, p) \<mapsto> off)"
  by (auto simp: fun_eq_iff committed_def os_Get_def setMem_def Let_def update_conv getList_def split: option.splits)

lemma committed_setLine: "committed (setLine data l) = (committed data)(okey l \<mapsto> ol_Offset l)"
  by (simp add: setLine_def committed_setMem okey_def)

lemma linesMap_simps [simp]: "linesMap m [] = m" "linesMap m (l # ls) = linesMap (m(okey l \<mapsto> ol_Offset l)) ls"
  by (simp_all add: linesMap_def)

lemma committed_lines: "committed (foldl setLine data ls) = linesMap (committed data) ls"
  by (induction ls arbitrary: data) (simp_all add: committed_setLine)

lemma wf_data_setMem: "wf_data data \<Longrightarrow> wf_data (setMem g t p off data)"
  by (simp add: wf_data_def setMem_def Let_def wf_map_update wf_map_getList)

lemma wf_data_lines: "wf_data data \<Longrightarrow> wf_data (foldl setLine data ls)"
  by (induction ls arbitrary: data) (simp_all add: setLine_def wf_data_setMem)

lemma in_dataLines:
  assumes "wf_data data"
  shows "l \<in> set (dataLines data) \<longleftrightarrow> committed data (okey l) = Some (ol_Offset l)"
proof -
  have "l \<in> set (dataLines data) \<longleftrightarrow>
      (\<exists>ts ps. (ol_Group l, ts) \<in> set data \<and> (ol_Topic l, ps) \<in> set ts \<and> (ol_Partition l, ol_Offset l) \<in> set ps)"
    (is "_ \<longleftrightarrow> ?r")
  proof
    assume ?r
    then obtain ts ps where e: "(ol_Group l, ts) \<in> set data" "(ol_Topic l, ps) \<in> set ts" "(ol_Partition l, ol_Offset l) \<in> set ps" by blast
    show "l \<in> set (dataLines data)"
      unfolding dataLines_def using e(3)
      by (auto intro!: bexI [OF _ e(1)] bexI [OF _ e(2)] image_eqI [of _ _ "(ol_Partition l, ol_Offset l)"])
  qed (auto simp: dataLines_def; blast)
  also have "\<dots> \<longleftrightarrow> (\<exists>ts ps. map_of data (ol_Group l) = Some ts \<and> map_of ts (ol_Topic l) = Some ps \<and> map_of ps (ol_Partition l) = Some (ol_Offset l))"
  proof -
    have "distinct (map fst ts)" if "(g, ts) \<in> set data" for g ts using that assms by (force simp: wf_data_def wf_map_def)
    moreover have "distinct (map fst ps)" if "(g, ts) \<in> set data" "(t, ps) \<in> set ts" for g ts t ps
      using that assms by (force simp: wf_data_def wf_map_def)
    ultimately show ?thesis
      by (intro ex_cong1 conj_cong) (simp_all add: wf_map_lookup [OF assms [unfolded wf_data_def]] map_of_eq_Some_iff)
  qed
  also have "\<dots> \<longleftrightarrow> committed data (okey l) = Some (ol_Offset l)"
    by (auto simp: committed_def okey_def os_Get_def split: option.splits)
  finally show ?thesis .
qed

lemma linesMap_consistent:
  assumes "\<forall>l \<in> set ls. f (okey l) = Some (ol_Offset l)"
  shows "linesMap m ls k = (if k \<in> okey ` set ls then f k else m k)"
  using assms by (induction ls arbitrary: m) auto

text \<open>The rewritten file stands for the same map.\<close>

lemma linesMap_dataLines:
  assumes "wf_data data"
  shows "linesMap Map.empty (dataLines data) = committed data"
proof
  fix k
  show "linesMap Map.empty (dataLines data) k = committed data k"
  proof (cases "committed data k")
    case None
    then have "k \<notin> okey ` set (dataLines data)" using in_dataLines [OF assms] by auto
    then show ?thesis using None in_dataLines [OF assms] by (simp add: linesMap_consistent [of _ "committed data"])
  next
    case (Some v)
    obtain g t p where k: "k = (g, t, p)" by (cases k)
    let ?l = "\<lparr>ol_Group = g, ol_Topic = t, ol_Partition = p, ol_Offset = v\<rparr>"
    have "?l \<in> set (dataLines data)" "okey ?l = k" using Some in_dataLines [OF assms, of ?l] by (simp_all add: okey_def k)
    then have "k \<in> okey ` set (dataLines data)" by (metis imageI)
    then show ?thesis using in_dataLines [OF assms] by (simp add: linesMap_consistent [of _ "committed data"])
  qed
qed

lemma linesMap_SomeD: "linesMap m ls k = Some v \<Longrightarrow> k \<in> okey ` set ls \<or> m k = Some v"
proof (induction ls arbitrary: m)
  case (Cons l ls)
  then have "linesMap (m(okey l \<mapsto> ol_Offset l)) ls k = Some v" by simp
  from Cons.IH [OF this] show ?case by (auto split: if_splits)
qed simp

lemma valid_line_key: "okey l = okey l' \<Longrightarrow> valid_line l = valid_line l'"
  by (simp add: okey_def valid_line_def)

section \<open>Reopening\<close>

definition linesText :: "offsetLine list \<Rightarrow> string" where
  "linesText ls = concat (map (\<lambda>l. Marshal l @ [newline]) ls)"

lemma linesText_simps [simp]: "linesText [] = []" "linesText (l # ls) = Marshal l @ [newline] @ linesText ls"
  "linesText (ls @ ls') = linesText ls @ linesText ls'"
  by (simp_all add: linesText_def)

lemma lineBytes_text: "concat (map lineBytes ls) = bytes_of_string (linesText ls)"
  by (induction ls) (simp_all add: lineBytes_def bytes_of_string_def)

lemma scanLines_line: "newline \<notin> set l \<Longrightarrow> scanLines acc (l @ newline # s) = (acc @ l) # scanLines [] s"
  by (induction l arbitrary: acc) auto

lemma scanLines_rest: "newline \<notin> set l \<Longrightarrow> scanLines acc l = (if acc @ l = [] then [] else [acc @ l])"
  by (induction l arbitrary: acc) auto

lemma scanLines_text: "list_all valid_line ls \<Longrightarrow> scanLines [] (linesText ls @ s) = map Marshal ls @ scanLines [] s"
  by (induction ls) (simp_all add: scanLines_line newline_Marshal)

lemma replayLines_valid: "list_all valid_line ls \<Longrightarrow> replayLines (map Marshal ls @ rest) data = replayLines rest (foldl setLine data ls)"
  by (induction ls arbitrary: data) (simp_all add: Unmarshal_Marshal length_Marshal linorder_not_le [THEN iffD2])

lemma replayLines_all: "list_all valid_line ls \<Longrightarrow> replayLines (map Marshal ls) data = Inr (foldl setLine data ls)"
  using replayLines_valid [of ls "[]" data] by simp

lemma openOffsetStore_calm:
  assumes "no_faults rt"
  shows "openOffsetStore rt d =
    (case replayLines (scanLines [] (string_of_bytes (content d offsetsFile))) [] of
       Inl e \<Rightarrow> (Inl e, snd (openOffsetStore rt d))
     | Inr data \<Rightarrow> (Inr \<lparr>os_data = data, os_open = True, os_lines = 0\<rparr>, snd (openOffsetStore rt d)))"
  by (cases "exists_file d offsetsFile")
    (auto simp: openOffsetStore_def os_replay_def bindR_def onErr_def io_no_faults [OF assms] content_no_file closeF_def
      split: sum.split simp del: bindR_simps)

text \<open>\<open>recovers d m\<close>: opening the store on the directory finds the map \<open>m\<close>.\<close>

definition recovers :: "disk \<Rightarrow> (offset_key \<Rightarrow> u64 option) \<Rightarrow> bool" where
  "recovers d m \<longleftrightarrow> (\<forall>rt. no_faults rt \<longrightarrow> (\<exists>s. fst (openOffsetStore rt d) = Inr s \<and> wf_data (os_data s) \<and> committed (os_data s) = m))"

lemma wf_data_Nil [simp]: "wf_data []"
  by (simp add: wf_data_def)

lemma committed_Nil [simp]: "committed [] = Map.empty"
  by (auto simp: fun_eq_iff committed_def os_Get_def)

lemma recovers_replay:
  assumes "replayLines (scanLines [] (string_of_bytes (content d offsetsFile))) [] = Inr (foldl setLine [] ls)"
  shows "recovers d (linesMap Map.empty ls)"
  unfolding recovers_def
  by (intro allI impI, subst openOffsetStore_calm) (simp_all add: assms committed_lines wf_data_lines)

lemma recovers_lines:
  assumes "list_all valid_line ls" "content d offsetsFile = bytes_of_string (linesText ls)"
  shows "recovers d (linesMap Map.empty ls)"
  using scanLines_text [OF assms(1), of "[]"] replayLines_valid [OF assms(1), of "[]" "[]"] assms(2)
  by (intro recovers_replay) simp

text \<open>A write of a line that stopped after \<open>k\<close> bytes: nothing or the whole line.\<close>

lemma recovers_torn:
  assumes ls: "list_all valid_line ls" and l: "valid_line l"
    and c: "content d offsetsFile = bytes_of_string (linesText ls @ take k (Marshal l @ [newline]))"
  shows "recovers d (linesMap Map.empty ls) \<or> recovers d (linesMap Map.empty (ls @ [l]))"
proof (cases "k \<le> length (Marshal l)")
  case True
  let ?t = "take k (Marshal l)"
  have nl: "newline \<notin> set ?t" using newline_Marshal [OF l] by (meson in_set_takeD)
  have scan: "scanLines [] (string_of_bytes (content d offsetsFile)) = map Marshal ls @ (if ?t = [] then [] else [?t])"
    using c True scanLines_text [OF ls, of ?t] scanLines_rest [OF nl, of "[]"] by simp
  have len: "length ?t < 1048576" using length_Marshal [OF l] by simp
  show ?thesis
  proof (cases "k = length (Marshal l)")
    case True
    then have "recovers d (linesMap Map.empty (ls @ [l]))"
      using scan len by (intro recovers_replay) (simp add: replayLines_valid [OF ls] Unmarshal_Marshal [OF l])
    then show ?thesis ..
  next
    case False
    then have "Unmarshal ?t = None" using True l by (intro Unmarshal_torn) auto
    then have "recovers d (linesMap Map.empty ls)"
      using scan length_Marshal [OF l] by (intro recovers_replay) (simp add: replayLines_valid [OF ls] replayLines_all [OF ls])
    then show ?thesis ..
  qed
next
  case False
  then have "recovers d (linesMap Map.empty (ls @ [l]))" using ls l c by (intro recovers_lines) simp_all
  then show ?thesis ..
qed

section \<open>Operations under faults\<close>

text \<open>What the store promises of its file while it runs.\<close>

definition store_inv :: "offsetStore \<Rightarrow> disk \<Rightarrow> bool" where
  "store_inv s d \<longleftrightarrow> wf_data (os_data s) \<and>
     (\<exists>ls. list_all valid_line ls \<and> content d offsetsFile = bytes_of_string (linesText ls) \<and>
        linesMap Map.empty ls = committed (os_data s))"

lemma tmpFile_neq [simp]: "tmpFile \<noteq> offsetsFile" "offsetsFile \<noteq> tmpFile"
  by (simp_all add: tmpFile_def)

lemma content_calls [simp]:
  "content (snd (Sync rt n d)) = content d"
  "content (snd (CloseFile rt n d)) = content d"
  "content (closeF rt n d) = content d"
  "content (snd (OpenFile rt n d)) = content d"
  by (auto simp: Sync_def CloseFile_def closeF_def OpenFile_def call_ok_def call_def content_no_file fun_eq_iff split: option.split)

lemma exists_calls [simp]:
  "exists_file (snd (Sync rt n d)) = exists_file d"
  "exists_file (snd (CloseFile rt n d)) = exists_file d"
  by (auto simp: Sync_def CloseFile_def call_ok_def call_def split: option.split)

lemma AppendFile_effect:
  "AppendFile rt n data d = (r, d') \<Longrightarrow> r = Inr () \<and> content d' n = content d n @ data \<or> (\<exists>k. content d' n = content d n @ take k data)"
  by (auto simp: AppendFile_def WriteAt_def call_def overwrite_end split: option.splits)

lemma writeCompacted_effect:
  assumes "writeCompacted rt buf d = (r, d')"
  shows "content d' offsetsFile = content d offsetsFile \<and>
    (r = Inr () \<longrightarrow> exists_file d' tmpFile \<and> content d' tmpFile = buf)"
  using assms
  by (auto simp: writeCompacted_def bindR_def onErr_def Create_def WriteAt_def call_ok_def call_def overwrite_def
      Sync_def CloseFile_def split: option.splits sum.splits prod.splits if_splits simp del: bindR_simps)

lemma closeHandle_effect:
  "closeHandle rt (s, d) = (r, (s', d')) \<Longrightarrow>
   content d' = content d \<and> exists_file d' = exists_file d \<and> os_data s' = os_data s"
  by (auto simp: closeHandle_def onHandle_def on_snd_def split: prod.splits if_splits dest!: arg_cong [where f = snd])

lemma compactLocked_effect:
  assumes "compactLocked rt (s, d) = (r, (s', d'))"
  shows "os_data s' = os_data s \<and>
    (content d' offsetsFile = content d offsetsFile \<and> r \<noteq> Inr () \<or>
     content d' offsetsFile = bytes_of_string (linesText (dataLines (os_data s))))"
proof -
  let ?buf = "concat (map lineBytes (dataLines (os_data s)))"
  obtain r1 d1 where 1: "writeCompacted rt ?buf d = (r1, d1)" by fastforce
  note e1 = writeCompacted_effect [OF 1]
  obtain r2 s2 d2 where 2: "closeHandle rt (s, d1) = (r2, (s2, d2))" by (metis prod.exhaust)
  note e2 = closeHandle_effect [OF 2]
  show ?thesis
  proof (cases "r1 = Inr () \<and> r2 = Inr ()")
    case False
    then show ?thesis using assms e1 e2 1 2
      by (auto simp: compactLocked_def bindR_def on_snd_def split: sum.splits simp del: bindR_simps)
  next
    case True
    then have "compactLocked rt (s, d) = bindR (on_snd (Rename rt tmpFile offsetsFile)) (\<lambda>_.
        bindR (on_snd (OpenFile rt offsetsFile)) (\<lambda>_. modifyR (\<lambda>(s, d). (s\<lparr>os_open := True, os_lines := 0\<rparr>, d)))) (s2, d2)"
      using 1 2 by (simp add: compactLocked_def bindR_def on_snd_def)
    moreover have "exists_file d2 tmpFile" "content d2 tmpFile = ?buf" "content d2 offsetsFile = content d offsetsFile"
      using e1 e2 True by simp_all
    moreover have "content (snd (OpenFile rt offsetsFile e)) = content e" for e by simp
    ultimately show ?thesis using assms e2
      by (auto simp: bindR_def on_snd_def Rename_def call_ok_def call_def lineBytes_text OpenFile_def
          split: option.splits prod.splits sum.splits if_splits simp del: bindR_simps content_calls)
  qed
qed

lemma dataLines_valid:
  assumes "wf_data data" "list_all valid_line ls" "linesMap Map.empty ls = committed data"
  shows "list_all valid_line (dataLines data)"
  unfolding list_all_iff
proof
  fix l assume "l \<in> set (dataLines data)"
  then have "linesMap Map.empty ls (okey l) = Some (ol_Offset l)" using in_dataLines [OF assms(1)] assms(3) by simp
  then obtain l' where l': "l' \<in> set ls" "okey l = okey l'" using linesMap_SomeD by fastforce
  then show "valid_line l" using assms(2) valid_line_key [OF l'(2)] by (simp add: list_all_iff)
qed

text \<open>The whole of \<open>Set\<close>: the line is absent, torn, or there, and only the last is a success.\<close>

lemma os_Set_effect:
  assumes set: "os_Set rt g t p off (s, d) = (r, (s', d'))"
  defines "l \<equiv> \<lparr>ol_Group = g, ol_Topic = t, ol_Partition = p, ol_Offset = off\<rparr>"
  shows "os_data s' = setMem g t p off (os_data s) \<and>
    (r \<noteq> Inr () \<and> (\<exists>k. content d' offsetsFile = content d offsetsFile @ take k (lineBytes l)) \<or>
     content d' offsetsFile = content d offsetsFile @ lineBytes l \<or>
     content d' offsetsFile = bytes_of_string (linesText (dataLines (os_data s'))))"
proof -
  let ?s = "s\<lparr>os_data := setMem g t p off (os_data s)\<rparr>"
  let ?c = "content d offsetsFile"
  have run: "os_Set rt g t p off (s, d) = bindR (onHandle (AppendFile rt offsetsFile (lineBytes l))) (\<lambda>_.
     bindR (onHandle (Sync rt offsetsFile)) (\<lambda>_.
     bindR (modifyR (\<lambda>(s, d). (s\<lparr>os_lines := os_lines s + 1\<rparr>, d))) (\<lambda>_ (s, d).
       if compactAfterLines \<le> os_lines s then compactLocked rt (s, d) else (Inr (), (s, d))))) (?s, d)"
    by (simp add: os_Set_def l_def Let_def)
  obtain r1 d1 where 1: "AppendFile rt offsetsFile (lineBytes l) d = (r1, d1)" by fastforce
  obtain r2 d2 where 2: "Sync rt offsetsFile d1 = (r2, d2)" by fastforce
  have d2: "content d2 = content d1" using content_calls(1) [of rt offsetsFile d1] 2 by simp
  have whole: "content d1 offsetsFile = ?c @ lineBytes l" if "r1 = Inr ()"
    using 1 that by (auto simp: AppendFile_def WriteAt_def call_def overwrite_end split: option.splits)
  consider (closed) "\<not> os_open s" | (append) e where "os_open s" "r1 = Inl e" | (sync) e where "os_open s" "r1 = Inr ()" "r2 = Inl e"
    | (ok) "os_open s" "r1 = Inr ()" "r2 = Inr ()" by (cases r1; cases r2; auto)
  then show ?thesis
  proof cases
    case closed
    then have "os_Set rt g t p off (s, d) = (Inl ErrIO, (?s, d))" by (simp add: run onHandle_def)
    then show ?thesis using set by (auto intro: exI [of _ 0])
  next
    case append
    then have "os_Set rt g t p off (s, d) = (Inl e, (?s, d1))" by (simp add: run onHandle_def on_snd_def 1)
    moreover have "\<exists>k. content d1 offsetsFile = ?c @ take k (lineBytes l)" using AppendFile_effect [OF 1] append by simp
    ultimately show ?thesis using set by auto
  next
    case sync
    then have "os_Set rt g t p off (s, d) = (Inl e, (?s, d2))" by (simp add: run onHandle_def on_snd_def 1 2)
    then show ?thesis using set whole sync d2 by auto
  next
    case ok
    have "os_Set rt g t p off (s, d) = (if compactAfterLines \<le> os_lines s + 1 then compactLocked rt (?s\<lparr>os_lines := os_lines s + 1\<rparr>, d2)
        else (Inr (), (?s\<lparr>os_lines := os_lines s + 1\<rparr>, d2)))"
      using ok by (simp add: run onHandle_def on_snd_def 1 2)
    then consider "compactLocked rt (?s\<lparr>os_lines := os_lines s + 1\<rparr>, d2) = (r, (s', d'))" | "d' = d2" "s' = ?s\<lparr>os_lines := os_lines s + 1\<rparr>"
      using set by (auto split: if_splits)
    then show ?thesis
    proof cases
      case 1
      from compactLocked_effect [OF this] show ?thesis using whole [OF ok(2)] d2 by auto
    next
      case 2
      then show ?thesis using whole [OF ok(2)] d2 by simp
    qed
  qed
qed

lemma committed_set_lines:
  assumes "linesMap Map.empty ls = committed data" "l = \<lparr>ol_Group = g, ol_Topic = t, ol_Partition = p, ol_Offset = off\<rparr>"
  shows "linesMap Map.empty (ls @ [l]) = committed (setMem g t p off data)"
  using assms by (simp add: linesMap_def committed_setMem okey_def)

lemma os_Set_durable_lemma:
  assumes inv: "store_inv s d" and valid: "list_all topicChar g" "list_all topicChar t" "length g + length t \<le> 2 ^ 16"
    and set: "os_Set rt g t p off (s, d) = (r, (s', d'))"
  shows "(recovers d' (committed (os_data s)) \<or> recovers d' ((committed (os_data s))((g, t, p) \<mapsto> off))) \<and>
    (r = Inr () \<longrightarrow> recovers d' ((committed (os_data s))((g, t, p) \<mapsto> off)) \<and> store_inv s' d') \<and>
    committed (os_data s') = (committed (os_data s))((g, t, p) \<mapsto> off)"
proof -
  let ?l = "\<lparr>ol_Group = g, ol_Topic = t, ol_Partition = p, ol_Offset = off\<rparr>"
  obtain ls where ls: "list_all valid_line ls" "content d offsetsFile = bytes_of_string (linesText ls)"
      "linesMap Map.empty ls = committed (os_data s)" and wf: "wf_data (os_data s)"
    using inv by (auto simp: store_inv_def)
  have l: "valid_line ?l" using valid by (simp add: valid_line_def)
  note eff = os_Set_effect [OF set]
  have data: "os_data s' = setMem g t p off (os_data s)" using eff by blast
  have new: "linesMap Map.empty (ls @ [?l]) = committed (os_data s')"
    using committed_set_lines [OF ls(3), of ?l] data by simp
  have wf': "wf_data (os_data s')" using wf_data_setMem [OF wf] data by simp
  have all: "list_all valid_line (ls @ [?l])" using ls(1) l by simp
  have upd: "committed (os_data s') = (committed (os_data s))((g, t, p) \<mapsto> off)" using data by (simp add: committed_setMem)
  have bytes: "bytes_of_string (a @ b) = bytes_of_string a @ bytes_of_string b"
    "take k (bytes_of_string a) = bytes_of_string (take k a)" for a b k by (simp_all add: bytes_of_string_def take_map)
  have stored: "recovers d' (committed (os_data s')) \<and> store_inv s' d'"
    if "list_all valid_line ks" "content d' offsetsFile = bytes_of_string (linesText ks)"
      "linesMap Map.empty ks = committed (os_data s')" for ks
    using recovers_lines [OF that(1,2)] that wf' by (auto simp: store_inv_def)
  consider (torn) k where "r \<noteq> Inr ()" "content d' offsetsFile = content d offsetsFile @ take k (lineBytes ?l)"
    | (whole) "content d' offsetsFile = content d offsetsFile @ lineBytes ?l"
    | (compacted) "content d' offsetsFile = bytes_of_string (linesText (dataLines (os_data s')))"
    using eff by blast
  then show ?thesis
  proof cases
    case torn
    then have "content d' offsetsFile = bytes_of_string (linesText ls @ take k (Marshal ?l @ [newline]))"
      using ls(2) by (simp only: lineBytes_def bytes(2)) (simp only: bytes(1))
    from recovers_torn [OF ls(1) l this] have "recovers d' (committed (os_data s)) \<or> recovers d' (committed (os_data s'))"
      by (simp only: new ls(3))
    then show ?thesis using torn(1) upd by simp
  next
    case whole
    then have "content d' offsetsFile = bytes_of_string (linesText (ls @ [?l]))"
      using ls(2) by (simp add: bytes lineBytes_def)
    from stored [OF all this new] show ?thesis using upd by simp
  next
    case compacted
    from stored [OF dataLines_valid [OF wf' all new] this linesMap_dataLines [OF wf']] show ?thesis using upd by simp
  qed
qed

section \<open>Runs of commits\<close>

text \<open>Commits one after the other up to the first that fails: how many were acknowledged, and the state left.\<close>

fun setAll :: "runtime \<Rightarrow> offsetLine list \<Rightarrow> offsetStore \<times> disk \<Rightarrow> nat \<times> offsetStore \<times> disk" where
  "setAll rt [] sd = (0, sd)"
| "setAll rt (l # ls) sd =
     (case os_Set rt (ol_Group l) (ol_Topic l) (ol_Partition l) (ol_Offset l) sd of
        (Inl e, sd) \<Rightarrow> (0, sd)
      | (Inr _, sd) \<Rightarrow> (case setAll rt ls sd of (n, sd) \<Rightarrow> (Suc n, sd)))"

lemma linesMap_Cons: "linesMap m (l # ls) = linesMap (m(okey l \<mapsto> ol_Offset l)) ls"
  by (simp add: linesMap_def)

lemma linesMap_append: "linesMap m (ls @ ks) = linesMap (linesMap m ls) ks"
  by (simp add: linesMap_def)

lemma setAll_durable:
  assumes "store_inv s d" and "list_all valid_line cs" and "setAll rt cs (s, d) = (n, s', d')"
  shows "n \<le> length cs \<and>
    (n = length cs \<longrightarrow> store_inv s' d' \<and> committed (os_data s') = linesMap (committed (os_data s)) cs) \<and>
    (n < length cs \<longrightarrow> (recovers d' (linesMap (committed (os_data s)) (take n cs)) \<or>
       recovers d' (linesMap (committed (os_data s)) (take (Suc n) cs))) \<and>
       committed (os_data s') = linesMap (committed (os_data s)) (take (Suc n) cs))"
  using assms
proof (induction cs arbitrary: s d n)
  case Nil
  then show ?case by (simp add: linesMap_def)
next
  case (Cons l cs)
  obtain r s1 d1 where set: "os_Set rt (ol_Group l) (ol_Topic l) (ol_Partition l) (ol_Offset l) (s, d) = (r, s1, d1)"
    by (metis prod_cases3)
  have v: "list_all topicChar (ol_Group l)" "list_all topicChar (ol_Topic l)" "length (ol_Group l) + length (ol_Topic l) \<le> 2 ^ 16"
    using Cons.prems(2) by (simp_all add: valid_line_def)
  note one = os_Set_durable_lemma [OF Cons.prems(1) v set]
  show ?case
  proof (cases r)
    case (Inl e)
    then have "n = 0" "s1 = s'" "d1 = d'" using Cons.prems(3) set by simp_all
    then show ?thesis using one by (simp add: linesMap_def okey_def fun_upd_def)
  next
    case (Inr u)
    obtain m where m: "setAll rt cs (s1, d1) = (m, s', d')" "n = Suc m"
      using Cons.prems(3) set Inr by (auto split: prod.splits)
    have upd: "committed (os_data s1) = (committed (os_data s))(okey l \<mapsto> ol_Offset l)" and inv: "store_inv s1 d1"
      using one Inr by (simp_all add: okey_def)
    show ?thesis using Cons.IH [OF inv _ m(1)] Cons.prems(2) by (simp add: m(2) upd linesMap_Cons fun_upd_def)
  qed
qed

text \<open>A store that was opened on a file of whole lines.\<close>

lemma open_store_inv:
  assumes "no_faults rt" and "list_all valid_line ls" and "content d offsetsFile = bytes_of_string (linesText ls)"
    and "openOffsetStore rt d = (Inr s, d1)"
  shows "store_inv s d1" and "committed (os_data s) = linesMap Map.empty ls"
proof -
  have "content (snd (openOffsetStore rt d)) offsetsFile = content d offsetsFile"
    by (cases "exists_file d offsetsFile")
      (auto simp: openOffsetStore_def os_replay_def bindR_def onErr_def io_no_faults [OF assms(1)] content_no_file closeF_def
        split: sum.split simp del: bindR_simps)
  then have c: "content d1 offsetsFile = bytes_of_string (linesText ls)" using assms(3,4) by simp
  show m: "committed (os_data s) = linesMap Map.empty ls"
    using recovers_lines [OF assms(2,3)] assms(1,4) by (auto simp: recovers_def)
  have "wf_data (os_data s)" using recovers_lines [OF assms(2,3)] assms(1,4) by (auto simp: recovers_def)
  then show "store_inv s d1" using assms(2) c m by (auto simp: store_inv_def)
qed

section \<open>Properties of the offset store\<close>

text \<open>
  Property C21. Acknowledged commits are durable, up to the first commit that fails. The store is opened on a file of whole
  lines (or none) and commits run one after the other, whatever calls fail, the compaction of the file included. If all
  succeed, the file again holds whole lines and a restart finds exactly these commits on top of the old ones.
  At the first failure, or where the process stops, a restart finds all the commits acknowledged before it, and
  the failed one either completely or not at all. (What follows a failed commit in the same process is another matter: a torn line
  swallows the next commit, see \<open>torn_line_loses_next_commit\<close>.)
\<close>

theorem commits_durable:
  assumes "no_faults rt0" and "list_all valid_line ls" and "content d offsetsFile = bytes_of_string (linesText ls)"
    and "openOffsetStore rt0 d = (Inr s, d1)" and "list_all valid_line cs" and "setAll rt cs (s, d1) = (n, s', d')"
  shows "n \<le> length cs \<and>
    (n = length cs \<longrightarrow> recovers d' (linesMap Map.empty (ls @ cs)) \<and> committed (os_data s') = linesMap Map.empty (ls @ cs) \<and>
       (\<exists>ks. list_all valid_line ks \<and> content d' offsetsFile = bytes_of_string (linesText ks))) \<and>
    (n < length cs \<longrightarrow> recovers d' (linesMap Map.empty (ls @ take n cs)) \<or> recovers d' (linesMap Map.empty (ls @ take (Suc n) cs)))"
proof -
  note o = open_store_inv [OF assms(1-4)]
  note run = setAll_durable [OF o(1) assms(5,6)]
  have ok: "recovers d' (linesMap Map.empty (ls @ cs)) \<and> committed (os_data s') = linesMap Map.empty (ls @ cs) \<and>
       (\<exists>ks. list_all valid_line ks \<and> content d' offsetsFile = bytes_of_string (linesText ks))" if "n = length cs"
  proof -
    have m: "committed (os_data s') = linesMap Map.empty (ls @ cs)" and "store_inv s' d'"
      using run that by (simp_all add: o(2) linesMap_append)
    then obtain ks where ks: "list_all valid_line ks" "content d' offsetsFile = bytes_of_string (linesText ks)"
      "linesMap Map.empty ks = linesMap Map.empty (ls @ cs)"
      by (auto simp: store_inv_def)
    show ?thesis using recovers_lines [OF ks(1,2)] ks m by auto
  qed
  show ?thesis using run ok by (simp add: o(2) linesMap_append)
qed

definition empty_store :: offsetStore where
  "empty_store = \<lparr>os_data = [], os_open = True, os_lines = 0\<rparr>"

definition empty_dir :: disk where
  "empty_dir = \<lparr>files = [], ops = 0\<rparr>"

text \<open>A disk on which the first call stops after three bytes.\<close>

definition short_write :: runtime where
  "short_write = calm_runtime\<lparr>fault := (\<lambda>n. if n = 0 then Some 3 else None)\<rparr>"

lemma store_inv_empty: "store_inv empty_store empty_dir"
  by (auto simp: store_inv_def empty_store_def empty_dir_def content_def bytes_of_string_def intro!: exI [of _ "[]"])

lemma ids_valid: "list_all topicChar ''g''" "list_all topicChar ''jobs''"
  by (simp_all add: topicChar_def char_between_def)

text \<open>A disk on which the sixth call stops after three bytes: three calls open the store, two make the first commit.\<close>

definition late_short_write :: runtime where
  "late_short_write = calm_runtime\<lparr>fault := (\<lambda>n. if n = 5 then Some 3 else None)\<rparr>"

definition commit_line :: "u64 \<Rightarrow> offsetLine" where
  "commit_line off = \<lparr>ol_Group = ''g'', ol_Topic = ''jobs'', ol_Partition = 0, ol_Offset = off\<rparr>"

theorem commits_durable_witness:
  "\<exists>s d1 n s' d'. openOffsetStore calm_runtime empty_dir = (Inr s, d1) \<and>
     setAll late_short_write [commit_line 7, commit_line 9] (s, d1) = (n, s', d') \<and> n = 1 \<and>
     (recovers d' [(''g'', ''jobs'', 0) \<mapsto> 7] \<or> recovers d' [(''g'', ''jobs'', 0) \<mapsto> 9])"
proof -
  have c: "content empty_dir offsetsFile = bytes_of_string (linesText [])" by (simp add: empty_dir_def content_def bytes_of_string_def)
  have "\<not> exists_file empty_dir offsetsFile" "ops empty_dir = 0" by (simp_all add: empty_dir_def exists_file_def)
  then obtain s d1 where o: "openOffsetStore calm_runtime empty_dir = (Inr s, d1)" "os_open s" "os_lines s = 0" "ops d1 = 3"
    by (auto simp: openOffsetStore_def os_replay_def onErr_def io_no_faults [OF no_faults_calm] string_of_bytes_def returnR_def)
      (simp add: tick_def put_def)
  have v: "list_all valid_line [commit_line 7, commit_line 9]"
    using ids_valid by (simp add: valid_line_def commit_line_def)
  obtain n s' d' where r: "setAll late_short_write [commit_line 7, commit_line 9] (s, d1) = (n, s', d')" by (metis prod_cases3)
  have first: "\<exists>s2 d2. os_Set late_short_write ''g'' ''jobs'' 0 7 (s, d1) = (Inr (), s2, d2) \<and> os_open s2 \<and> ops d2 = 5"
    using o(2-4)
    by (simp add: os_Set_def Let_def onHandle_def on_snd_def AppendFile_def WriteAt_def Sync_def call_ok_def call_def bindR_def modifyR_def
        returnR_def late_short_write_def compactAfterLines_def tick_def put_def del: bindR_simps)
  have second: "\<exists>s3 d3. os_Set late_short_write ''g'' ''jobs'' 0 9 (s2, d2) = (Inl ErrIO, s3, d3)" if "os_open s2" "ops d2 = 5" for s2 d2
    using that by (simp add: os_Set_def Let_def onHandle_def on_snd_def AppendFile_def WriteAt_def call_def late_short_write_def)
  have n: "n = 1" using first second r by (fastforce simp: commit_line_def)
  have m: "linesMap Map.empty (take 1 [commit_line 7, commit_line 9]) = [(''g'', ''jobs'', 0) \<mapsto> 7]"
    "linesMap Map.empty (take (Suc 1) [commit_line 7, commit_line 9]) = [(''g'', ''jobs'', 0) \<mapsto> 9]"
    by (simp_all add: linesMap_def okey_def commit_line_def)
  show ?thesis
    using commits_durable [OF no_faults_calm _ c o(1) v r] o(1) r n m by auto
qed

text \<open>
  A torn line swallows the next commit: when one commit fails inside its write and a later
  one is acknowledged, the acknowledged commit continues the torn line, and a restart
  finds neither, although the comment in the code speaks of losing the last commit at
  worst.
\<close>

theorem torn_line_loses_next_commit:
  assumes inv: "store_inv s d" "os_open s" "os_lines s + 1 < compactAfterLines"
    and valid: "list_all topicChar g" "list_all topicChar t" "length g + length t \<le> 2 ^ 16"
      "list_all topicChar g'" "list_all topicChar t'" "length g' + length t' \<le> 2 ^ 16"
    and torn: "fault rt (ops d) = Some k" "0 < k"
      "k \<le> length (Marshal \<lparr>ol_Group = g, ol_Topic = t, ol_Partition = p, ol_Offset = off\<rparr>)"
    and calm: "no_faults rt'"
  shows "\<exists>s1 d1 s2 d2.
    os_Set rt g t p off (s, d) = (Inl ErrIO, (s1, d1)) \<and>
    os_Set rt' g' t' p' off' (s1, d1) = (Inr (), (s2, d2)) \<and>
    committed (os_data s2) (g', t', p') = Some off' \<and> recovers d2 (committed (os_data s))"
proof -
  let ?l = "\<lparr>ol_Group = g, ol_Topic = t, ol_Partition = p, ol_Offset = off\<rparr>"
  let ?l' = "\<lparr>ol_Group = g', ol_Topic = t', ol_Partition = p', ol_Offset = off'\<rparr>"
  define s1 where "s1 = s\<lparr>os_data := setMem g t p off (os_data s)\<rparr>"
  define d1 where "d1 = put offsetsFile (content d offsetsFile @ take k (lineBytes ?l)) (tick d)"
  define s2 where "s2 = s1\<lparr>os_data := setMem g' t' p' off' (os_data s1), os_lines := os_lines s1 + 1\<rparr>"
  define d2 where "d2 = tick (put offsetsFile (content d1 offsetsFile @ lineBytes ?l') (tick d1))"
  obtain ls where ls: "list_all valid_line ls" "content d offsetsFile = bytes_of_string (linesText ls)"
      "linesMap Map.empty ls = committed (os_data s)"
    using inv(1) by (auto simp: store_inv_def)
  have l: "valid_line ?l" "valid_line ?l'" using valid by (simp_all add: valid_line_def)
  have run1: "os_Set rt g t p off (s, d) = (Inl ErrIO, (s1, d1))"
    using inv(2) torn(1)
    by (simp add: os_Set_def Let_def onHandle_def on_snd_def AppendFile_def WriteAt_def call_def overwrite_end s1_def d1_def)
  have run2: "os_Set rt' g' t' p' off' (s1, d1) = (Inr (), (s2, d2))"
    using inv(2,3)
    by (simp add: os_Set_def Let_def onHandle_def on_snd_def AppendFile_def io_no_faults [OF calm] overwrite_end s1_def s2_def d2_def)
  let ?torn = "take k (Marshal ?l) @ Marshal ?l'"
  have cont: "content d2 offsetsFile = bytes_of_string (linesText ls @ ?torn @ [newline])"
    using torn(3) ls(2) by (simp add: d2_def d1_def lineBytes_def bytes_of_string_def take_map)
  have nl: "newline \<notin> set ?torn" using newline_Marshal [OF l(1)] newline_Marshal [OF l(2)] by (auto dest: in_set_takeD)
  have scan: "scanLines [] (string_of_bytes (content d2 offsetsFile)) = map Marshal ls @ [?torn]"
    using cont scanLines_text [OF ls(1), of "?torn @ [newline]"] scanLines_line [OF nl, of "[]" "[]"] by simp
  have len: "length ?torn < 1048576" using length_Marshal_small [OF l(1)] length_Marshal_small [OF l(2)] by simp
  have "recovers d2 (linesMap Map.empty ls)"
    using scan len Unmarshal_continued [OF torn(2,3), of ?l'] by (intro recovers_replay) (simp add: replayLines_valid [OF ls(1)])
  moreover have "committed (os_data s2) (g', t', p') = Some off'" by (simp add: s2_def committed_setMem)
  ultimately show ?thesis using run1 run2 ls(3) by auto
qed

theorem torn_line_loses_next_commit_witness:
  "\<exists>s1 d1 s2 d2.
     os_Set short_write ''g'' ''jobs'' 0 7 (empty_store, empty_dir) = (Inl ErrIO, (s1, d1)) \<and>
     os_Set calm_runtime ''g'' ''jobs'' 0 7 (s1, d1) = (Inr (), (s2, d2)) \<and>
     committed (os_data s2) (''g'', ''jobs'', 0) = Some 7 \<and> recovers d2 Map.empty"
proof -
  have "os_open empty_store" "os_lines empty_store + 1 < compactAfterLines" "fault short_write (ops empty_dir) = Some 3"
    by (simp_all add: empty_store_def compactAfterLines_def short_write_def empty_dir_def)
  from torn_line_loses_next_commit [OF store_inv_empty this(1,2) ids_valid _ ids_valid _ this(3) _ _ no_faults_calm, of 0 7 0 7]
  show ?thesis by (simp add: Marshal_def empty_store_def)
qed

end
