(* ===== verification/Coordinator.thy ===== *)
theory Coordinator
  imports Assignor Offsets
begin

text \<open>
  The consumer-group coordinator (src/internal/broker/group/coordinator.go): members,
  generations, assignments and committed offsets. Every operation that takes the
  coordinator's mutex is one step of the model. \<open>Commit\<close> is two: the check under the
  mutex and the write to the offset store after it is released; what other calls do to the
  coordinator between the two is its argument \<open>others\<close>. The partition counts
  the broker injects (\<open>partitionsFor\<close>) and the clock are arguments of the operations
  that read them.
\<close>

section \<open>Model\<close>

datatype group_error =
    ErrJoinArgs | ErrUnknownTopic | ErrUnknownMember | ErrRebalance | ErrNotAssigned
  | ErrTooManyGroups | ErrInvalidID | ErrOffsetStore storage_error

definition idRe :: "string \<Rightarrow> bool" where
  "idRe s \<longleftrightarrow> 1 \<le> length s \<and> length s \<le> 128 \<and> list_all topicChar s"

definition validID :: "string \<Rightarrow> group_error + unit" where
  "validID s = (if idRe s then Inr () else Inl ErrInvalidID)"

definition defaultMaxGroups :: int where
  "defaultMaxGroups = 1024"

record member =
  m_id :: string
  m_topics :: "string list"
  lastSeen :: int

record groupState =
  g_id :: string
  generation :: i32
  members :: "(string \<times> member) list"
  assignments :: assignments

record GroupInfo =
  gi_ID :: string
  gi_Generation :: i32
  gi_Members :: nat

record Coordinator =
  groups :: "(string \<times> groupState) list"
  sessionTimeout :: int
  offsets :: offsetStore
  maxGroups :: int

definition WithMaxGroups :: "int \<Rightarrow> Coordinator \<Rightarrow> Coordinator" where
  "WithMaxGroups n c = (if 0 < n then c\<lparr>maxGroups := n\<rparr> else c)"

definition NewCoordinator :: "runtime \<Rightarrow> int \<Rightarrow> (Coordinator \<Rightarrow> Coordinator) list \<Rightarrow> (disk, Coordinator) res" where
  "NewCoordinator rt timeout opts =
     bindR (openOffsetStore rt) (\<lambda>store.
       returnR (foldl (\<lambda>c opt. opt c)
         \<lparr>groups = [], sessionTimeout = timeout, offsets = store, maxGroups = defaultMaxGroups\<rparr> opts))"

fun countTopics :: "string list \<Rightarrow> (string \<Rightarrow> int) \<Rightarrow> string \<Rightarrow> int" where
  "countTopics [] seen = seen"
| "countTopics (t # ts) seen = countTopics ts (seen(t := seen t + 1))"

fun takeTopics :: "string list \<Rightarrow> (string \<Rightarrow> int) \<Rightarrow> bool" where
  "takeTopics [] seen = True"
| "takeTopics (t # ts) seen =
     (let seen = seen(t := seen t - 1) in if seen t < 0 then False else takeTopics ts seen)"

definition sameTopics :: "string list \<Rightarrow> string list \<Rightarrow> bool" where
  "sameTopics a b = (if length a \<noteq> length b then False else takeTopics b (countTopics a (\<lambda>_. 0)))"

definition memberInfos :: "groupState \<Rightarrow> memberInfo list" where
  "memberInfos g = map (\<lambda>(_, m). \<lparr>mi_id = m_id m, mi_topics = m_topics m\<rparr>) (members g)"

definition rebalanceLocked :: "(string \<Rightarrow> int option) \<Rightarrow> groupState \<Rightarrow> groupState" where
  "rebalanceLocked partitionsFor g =
     g\<lparr>generation := generation g + 1, assignments := rangeAssign (memberInfos g) partitionsFor\<rparr>"

definition putGroup :: "string \<Rightarrow> groupState \<Rightarrow> Coordinator \<Rightarrow> Coordinator" where
  "putGroup gid g c = c\<lparr>groups := AList.update gid g (groups c)\<rparr>"

definition newGroup :: "string \<Rightarrow> groupState" where
  "newGroup gid = \<lparr>g_id = gid, generation = 0, members = [], assignments = []\<rparr>"

definition joinGroup :: "(string \<Rightarrow> int option) \<Rightarrow> int \<Rightarrow> string \<Rightarrow> string list \<Rightarrow> groupState \<Rightarrow> groupState" where
  "joinGroup partitionsFor now mid topics g =
     (case map_of (members g) mid of
        Some m \<Rightarrow>
          if sameTopics (m_topics m) topics then g\<lparr>members := AList.update mid (m\<lparr>lastSeen := now\<rparr>) (members g)\<rparr>
          else rebalanceLocked partitionsFor (g\<lparr>members := AList.update mid (m\<lparr>m_topics := topics, lastSeen := now\<rparr>) (members g)\<rparr>)
      | None \<Rightarrow>
          rebalanceLocked partitionsFor
            (g\<lparr>members := AList.update mid \<lparr>m_id = mid, m_topics = topics, lastSeen = now\<rparr> (members g)\<rparr>))"

definition Join :: "(string \<Rightarrow> int option) \<Rightarrow> int \<Rightarrow> string \<Rightarrow> string \<Rightarrow> string list \<Rightarrow> Coordinator \<Rightarrow>
    (group_error + (i32 \<times> Assignment list)) \<times> Coordinator" where
  "Join partitionsFor now gid mid topics c =
     (if gid = [] \<or> mid = [] \<or> topics = [] then (Inl ErrJoinArgs, c)
      else if \<not> idRe gid \<or> \<not> idRe mid then (Inl ErrInvalidID, c)
      else if list_ex (\<lambda>t. partitionsFor t = None) topics then (Inl ErrUnknownTopic, c)
      else if map_of (groups c) gid = None \<and> maxGroups c \<le> int (length (groups c)) then (Inl ErrTooManyGroups, c)
      else let g = (case map_of (groups c) gid of Some g \<Rightarrow> g | None \<Rightarrow> newGroup gid);
               g = joinGroup partitionsFor now mid topics g
           in (Inr (generation g, getList (assignments g) mid), putGroup gid g c))"

definition Leave :: "(string \<Rightarrow> int option) \<Rightarrow> string \<Rightarrow> string \<Rightarrow> Coordinator \<Rightarrow> Coordinator" where
  "Leave partitionsFor gid mid c =
     (case map_of (groups c) gid of
        None \<Rightarrow> c
      | Some g \<Rightarrow>
          if map_of (members g) mid = None then c
          else let g = g\<lparr>members := AList.delete mid (members g)\<rparr>
               in if members g = [] then c\<lparr>groups := AList.delete gid (groups c)\<rparr>
                  else putGroup gid (rebalanceLocked partitionsFor g) c)"

definition Heartbeat :: "int \<Rightarrow> string \<Rightarrow> string \<Rightarrow> i32 \<Rightarrow> Coordinator \<Rightarrow> (group_error + unit) \<times> Coordinator" where
  "Heartbeat now gid mid gen c =
     (case map_of (groups c) gid of
        None \<Rightarrow> (Inl ErrRebalance, c)
      | Some g \<Rightarrow>
          case map_of (members g) mid of
            None \<Rightarrow> (Inl ErrRebalance, c)
          | Some m \<Rightarrow>
              if gen \<noteq> generation g then (Inl ErrRebalance, c)
              else (Inr (), putGroup gid (g\<lparr>members := AList.update mid (m\<lparr>lastSeen := now\<rparr>) (members g)\<rparr>) c))"

definition CheckFetch :: "string \<Rightarrow> string \<Rightarrow> i32 \<Rightarrow> Coordinator \<Rightarrow> group_error + unit" where
  "CheckFetch gid mid gen c =
     (case map_of (groups c) gid of
        None \<Rightarrow> Inl ErrRebalance
      | Some g \<Rightarrow>
          if map_of (members g) mid = None then Inl ErrRebalance
          else if gen \<noteq> generation g then Inl ErrRebalance
          else Inr ())"

definition CheckOffsetAccess :: "string \<Rightarrow> string \<Rightarrow> i32 \<Rightarrow> Coordinator \<Rightarrow> group_error + unit" where
  "CheckOffsetAccess gid mid gen c =
     (case map_of (groups c) gid of
        None \<Rightarrow> Inl ErrRebalance
      | Some g \<Rightarrow>
          if map_of (members g) mid = None then Inl ErrUnknownMember
          else if gen \<noteq> generation g then Inl ErrRebalance
          else Inr ())"

text \<open>The part of \<open>Commit\<close> under the mutex.\<close>

definition commitCheck :: "string \<Rightarrow> string \<Rightarrow> string \<Rightarrow> i32 \<Rightarrow> i32 \<Rightarrow> Coordinator \<Rightarrow> group_error + unit" where
  "commitCheck gid mid topic part gen c =
     (case map_of (groups c) gid of
        None \<Rightarrow> Inl ErrRebalance
      | Some g \<Rightarrow>
          if map_of (members g) mid = None then Inl ErrUnknownMember
          else if gen \<noteq> generation g then Inl ErrRebalance
          else if \<not> owns (assignments g) mid topic part then Inl ErrNotAssigned
          else Inr ())"

definition commitWrite :: "runtime \<Rightarrow> string \<Rightarrow> string \<Rightarrow> i32 \<Rightarrow> u64 \<Rightarrow> Coordinator \<times> disk \<Rightarrow> (group_error + unit) \<times> Coordinator \<times> disk" where
  "commitWrite rt gid topic part offset = (\<lambda>(c, d).
     case os_Set rt gid topic part offset (offsets c, d) of
       (Inl e, (s, d)) \<Rightarrow> (Inl (ErrOffsetStore e), (c\<lparr>offsets := s\<rparr>, d))
     | (Inr _, (s, d)) \<Rightarrow> (Inr (), (c\<lparr>offsets := s\<rparr>, d)))"

text \<open>The mutex is released between the two parts, and \<open>others\<close> run.\<close>

definition Commit :: "runtime \<Rightarrow> (Coordinator \<times> disk \<Rightarrow> Coordinator \<times> disk) \<Rightarrow> string \<Rightarrow> string \<Rightarrow> string \<Rightarrow> i32 \<Rightarrow> u64 \<Rightarrow> i32 \<Rightarrow>
    Coordinator \<times> disk \<Rightarrow> (group_error + unit) \<times> Coordinator \<times> disk" where
  "Commit rt others gid mid topic part offset gen = (\<lambda>(c, d).
     case commitCheck gid mid topic part gen c of
       Inl e \<Rightarrow> (Inl e, (c, d))
     | Inr _ \<Rightarrow> commitWrite rt gid topic part offset (others (c, d)))"

definition Committed :: "string \<Rightarrow> string \<Rightarrow> i32 \<Rightarrow> Coordinator \<Rightarrow> u64" where
  "Committed gid topic part c = (case os_Get (os_data (offsets c)) gid topic part of None \<Rightarrow> 0 | Some off \<Rightarrow> off)"

definition GroupOffsets :: "string \<Rightarrow> Coordinator \<Rightarrow> (string \<times> (i32 \<times> u64) list) list" where
  "GroupOffsets gid c = Snapshot (os_data (offsets c)) gid"

definition OffsetGroupIDs :: "Coordinator \<Rightarrow> string list" where
  "OffsetGroupIDs c = GroupIDs (os_data (offsets c))"

definition ActiveGroups :: "Coordinator \<Rightarrow> nat" where
  "ActiveGroups c = length (filter (\<lambda>(_, g). 0 < length (members g)) (groups c))"

definition GroupsInfo :: "Coordinator \<Rightarrow> GroupInfo list" where
  "GroupsInfo c = map (\<lambda>(_, g). \<lparr>gi_ID = g_id g, gi_Generation = generation g, gi_Members = length (members g)\<rparr>) (groups c)"

text \<open>What the reaper makes of one group; \<open>None\<close> drops it.\<close>

definition expireGroup :: "(string \<Rightarrow> int option) \<Rightarrow> int \<Rightarrow> int \<Rightarrow> groupState \<Rightarrow> groupState option" where
  "expireGroup partitionsFor timeout now g =
     (let live = filter (\<lambda>(_, m). \<not> timeout < now - lastSeen m) (members g) in
      if live = members g then Some g
      else if live = [] then None
      else Some (rebalanceLocked partitionsFor (g\<lparr>members := live\<rparr>)))"

definition expireDeadMembers :: "(string \<Rightarrow> int option) \<Rightarrow> int \<Rightarrow> Coordinator \<Rightarrow> Coordinator" where
  "expireDeadMembers partitionsFor now c =
     c\<lparr>groups := List.map_filter (\<lambda>(gid, g). map_option (Pair gid) (expireGroup partitionsFor (sessionTimeout c) now g)) (groups c)\<rparr>"

definition CloseCoordinator :: "runtime \<Rightarrow> Coordinator \<times> disk \<Rightarrow> (storage_error + unit) \<times> Coordinator \<times> disk" where
  "CloseCoordinator rt = (\<lambda>(c, d). case os_Close rt (offsets c, d) of (r, (s, d)) \<Rightarrow> (r, (c\<lparr>offsets := s\<rparr>, d)))"

section \<open>Subscriptions and member tables\<close>

lemma countTopics_count: "countTopics ts seen t = seen t + int (count (mset ts) t)"
  by (induction ts arbitrary: seen) auto

lemma takeTopics_count: "(\<forall>t. 0 \<le> seen t) \<Longrightarrow> takeTopics ts seen \<longleftrightarrow> (\<forall>t. int (count (mset ts) t) \<le> seen t)"
proof (induction ts arbitrary: seen)
  case (Cons x ts)
  show ?case
  proof (cases "seen x \<le> 0")
    case True
    then show ?thesis by (force simp: Let_def)
  next
    case False
    let ?seen = "seen(x := seen x - 1)"
    have "takeTopics (x # ts) seen \<longleftrightarrow> (\<forall>t. int (count (mset ts) t) \<le> ?seen t)"
    proof -
      have "\<forall>t. 0 \<le> ?seen t" using False Cons.prems by simp
      from Cons.IH [OF this] show ?thesis using False by (simp only: takeTopics.simps Let_def) simp
    qed
    also have "\<dots> \<longleftrightarrow> (\<forall>t. int (count (mset (x # ts)) t) \<le> seen t)"
      by (intro all_cong1) (auto simp: fun_upd_def)
    finally show ?thesis .
  qed
qed simp

lemma sameTopics_iff: "sameTopics a b \<longleftrightarrow> mset a = mset b"
proof -
  have "(\<forall>t. count (mset b) t \<le> count (mset a) t) \<longleftrightarrow> mset b \<subseteq># mset a" by (simp add: subseteq_mset_def)
  moreover have "mset b \<subseteq># mset a \<Longrightarrow> length a = length b \<Longrightarrow> mset a = mset b"
    by (metis mset_subset_size size_mset subset_mset.not_eq_order_implies_strict nat_less_le)
  ultimately show ?thesis
    by (auto simp: sameTopics_def takeTopics_count countTopics_count dest: mset_eq_length)
qed

lemma map_update_same: "map_of m k = Some v \<Longrightarrow> f (k, v') = f (k, v) \<Longrightarrow> map f (AList.update k v' m) = map f m"
  by (induction m) auto



lemma length_update: "length (AList.update k v m) = (if map_of m k = None then length m + 1 else length m)"
  by (induction m) auto

section \<open>The invariant\<close>

text \<open>A topic never has more partitions than an \<open>int32\<close> can number (the broker allows 64).\<close>

definition pf_ok :: "(string \<Rightarrow> int option) \<Rightarrow> bool" where
  "pf_ok pf \<longleftrightarrow> (\<forall>t n. pf t = Some n \<longrightarrow> n \<le> 2 ^ 31)"

definition group_inv :: "string \<Rightarrow> groupState \<Rightarrow> bool" where
  "group_inv gid g \<longleftrightarrow> idRe gid \<and> g_id g = gid \<and> members g \<noteq> [] \<and> distinct (map fst (members g)) \<and>
     (\<forall>(mid, m) \<in> set (members g). m_id m = mid) \<and>
     (\<exists>pf. pf_ok pf \<and> assignments g = rangeAssign (memberInfos g) pf)"

definition coord_inv :: "Coordinator \<Rightarrow> bool" where
  "coord_inv c \<longleftrightarrow> distinct (map fst (groups c)) \<and> int (length (groups c)) \<le> maxGroups c \<and>
     (\<forall>(gid, g) \<in> set (groups c). group_inv gid g)"

definition coord_init :: "Coordinator \<Rightarrow> bool" where
  "coord_init c \<longleftrightarrow> groups c = [] \<and> 0 \<le> maxGroups c"

text \<open>One step: an operation under the mutex, or a write to the offset store.\<close>

inductive coord_step :: "Coordinator \<Rightarrow> Coordinator \<Rightarrow> bool" where
  join: "pf_ok pf \<Longrightarrow> coord_step c (snd (Join pf now gid mid topics c))"
| leave: "pf_ok pf \<Longrightarrow> coord_step c (Leave pf gid mid c)"
| heartbeat: "coord_step c (snd (Heartbeat now gid mid gen c))"
| expire: "pf_ok pf \<Longrightarrow> coord_step c (expireDeadMembers pf now c)"
| commit_write: "coord_step c (fst (snd (commitWrite rt gid topic part off (c, d))))"

lemma coord_inv_lookup: "coord_inv c \<Longrightarrow> map_of (groups c) gid = Some g \<Longrightarrow> group_inv gid g"
  by (auto simp: coord_inv_def dest: map_of_SomeD)

lemma coord_inv_putGroup:
  assumes "coord_inv c" "group_inv gid g" "map_of (groups c) gid = None \<Longrightarrow> int (length (groups c)) < maxGroups c"
  shows "coord_inv (putGroup gid g c)"
  using assms set_update_subset [of gid g "groups c"]
  by (auto simp: coord_inv_def putGroup_def length_update intro: distinct_update)

lemma group_inv_rebalance:
  assumes "pf_ok pf" "idRe gid" "g_id g = gid" "members g \<noteq> []" "distinct (map fst (members g))" "\<forall>(mid, m) \<in> set (members g). m_id m = mid"
  shows "group_inv gid (rebalanceLocked pf g)"
  using assms by (auto simp: group_inv_def rebalanceLocked_def memberInfos_def)

lemma update_not_Nil [simp]: "AList.update k v m \<noteq> []"
  by (cases m) auto

lemma members_update:
  assumes "distinct (map fst ms)" "\<forall>(mid, m) \<in> set ms. m_id m = mid" "m_id m = mid"
  shows "distinct (map fst (AList.update mid m ms))" "\<forall>(mid', m') \<in> set (AList.update mid m ms). m_id m' = mid'"
  using assms set_update_subset [of mid m ms] by (auto intro: distinct_update)

text \<open>Refreshing a member leaves the assignor's view and so the assignment alone.\<close>

lemma group_inv_refresh:
  assumes "group_inv gid g" "map_of (members g) mid = Some m"
  shows "group_inv gid (g\<lparr>members := AList.update mid (m\<lparr>lastSeen := now\<rparr>) (members g)\<rparr>)"
proof -
  have "m_id m = mid" using assms by (auto simp: group_inv_def dest: map_of_SomeD)
  then show ?thesis
    using assms members_update [of "members g" "m\<lparr>lastSeen := now\<rparr>" mid]
    by (auto simp: group_inv_def memberInfos_def map_update_same [OF assms(2)])
qed

lemma group_inv_join:
  assumes g: "group_inv gid g \<or> idRe gid \<and> g = newGroup gid" and pf: "pf_ok pf"
  shows "group_inv gid (joinGroup pf now mid topics g)"
proof -
  have ms: "idRe gid" "g_id g = gid" "distinct (map fst (members g))" "\<forall>(mid, m) \<in> set (members g). m_id m = mid"
    using g by (auto simp: group_inv_def newGroup_def)
  show ?thesis
  proof (cases "map_of (members g) mid")
    case None
    then show ?thesis
      using ms members_update [OF ms(3,4), of "\<lparr>m_id = mid, m_topics = topics, lastSeen = now\<rparr>" mid]
      by (simp add: joinGroup_def group_inv_rebalance [OF pf])
  next
    case (Some m)
    then have "group_inv gid g" "m_id m = mid" using g ms(4) by (auto simp: newGroup_def dest: map_of_SomeD)
    then show ?thesis
      using Some ms group_inv_refresh members_update [OF ms(3,4), of "m\<lparr>m_topics := topics, lastSeen := now\<rparr>" mid]
      by (simp add: joinGroup_def group_inv_rebalance [OF pf])
  qed
qed

lemma coord_inv_Join:
  assumes "coord_inv c" "pf_ok pf"
  shows "coord_inv (snd (Join pf now gid mid topics c))"
proof -
  let ?g = "case map_of (groups c) gid of Some g \<Rightarrow> g | None \<Rightarrow> newGroup gid"
  have "coord_inv (putGroup gid (joinGroup pf now mid topics ?g) c)"
    if "idRe gid" "\<not> (map_of (groups c) gid = None \<and> maxGroups c \<le> int (length (groups c)))"
  proof (rule coord_inv_putGroup [OF assms(1) group_inv_join [OF _ assms(2)]])
    show "group_inv gid ?g \<or> idRe gid \<and> ?g = newGroup gid"
      using that(1) coord_inv_lookup [OF assms(1)] by (cases "map_of (groups c) gid") auto
  qed (use that(2) in auto)
  then show ?thesis using assms(1) by (auto simp: Join_def Let_def)
qed

lemma coord_inv_delete: "coord_inv c \<Longrightarrow> coord_inv (c\<lparr>groups := AList.delete gid (groups c)\<rparr>)"
  by (auto simp: coord_inv_def AList.delete_eq distinct_map_filter intro: order_trans [OF of_nat_mono [OF length_filter_le]])

lemma coord_inv_Leave:
  assumes "coord_inv c" "pf_ok pf"
  shows "coord_inv (Leave pf gid mid c)"
proof (cases "map_of (groups c) gid")
  case None
  then show ?thesis using assms by (simp add: Leave_def)
next
  case (Some g)
  note g = coord_inv_lookup [OF assms(1) Some]
  have "group_inv gid (rebalanceLocked pf (g\<lparr>members := AList.delete mid (members g)\<rparr>))" if "AList.delete mid (members g) \<noteq> []"
    using g that by (intro group_inv_rebalance [OF assms(2)]) (auto simp: group_inv_def AList.delete_eq distinct_map_filter)
  then show ?thesis using Some assms coord_inv_delete by (auto simp: Leave_def Let_def intro!: coord_inv_putGroup)
qed

lemma coord_inv_Heartbeat: "coord_inv c \<Longrightarrow> coord_inv (snd (Heartbeat now gid mid gen c))"
  by (auto simp: Heartbeat_def split: option.split intro!: coord_inv_putGroup group_inv_refresh dest: coord_inv_lookup)

lemma expireGroup_inv:
  assumes "group_inv gid g" "pf_ok pf" "expireGroup pf timeout now g = Some g'"
  shows "group_inv gid g'"
proof -
  let ?live = "filter (\<lambda>(_, m). \<not> timeout < now - lastSeen m) (members g)"
  have "group_inv gid (rebalanceLocked pf (g\<lparr>members := ?live\<rparr>))" if "?live \<noteq> []"
    using assms(1) that by (intro group_inv_rebalance [OF assms(2)]) (auto simp: group_inv_def distinct_map_filter)
  then show ?thesis using assms(1,3) by (auto simp: expireGroup_def Let_def split: if_splits)
qed

lemma map_filter_mem:
  assumes "\<And>k v. f (k, v) = map_option (Pair k) (h k v)"
  shows "(k, v') \<in> set (List.map_filter f m) \<Longrightarrow> \<exists>v. (k, v) \<in> set m \<and> h k v = Some v'"
  by (auto simp: List.map_filter_def assms)

lemma map_filter_distinct:
  assumes "\<And>k v. f (k, v) = map_option (Pair k) (h k v)"
  shows "distinct (map fst m) \<Longrightarrow> distinct (map fst (List.map_filter f m))"
proof (induction m)
  case (Cons x m)
  obtain k v where x: "x = (k, v)" by (cases x)
  have "k \<notin> fst ` set (List.map_filter f m)" using Cons.prems map_filter_mem [of f h k, OF assms] x by force
  with Cons x show ?case by (cases "h k v") (simp_all add: List.map_filter_simps assms)
qed (simp add: List.map_filter_simps)

lemma length_map_filter: "length (List.map_filter f m) \<le> length m"
  by (simp add: List.map_filter_def)

lemma coord_inv_expire:
  assumes "coord_inv c" "pf_ok pf"
  shows "coord_inv (expireDeadMembers pf now c)"
proof -
  let ?f = "\<lambda>(gid, g). map_option (Pair gid) (expireGroup pf (sessionTimeout c) now g)"
  have f: "?f (k, v) = map_option (Pair k) (expireGroup pf (sessionTimeout c) now v)" for k v by simp
  have "int (length (List.map_filter ?f (groups c))) \<le> maxGroups c"
    using length_map_filter [of ?f "groups c"] assms(1) by (simp add: coord_inv_def)
  moreover have "group_inv gid g'" if "(gid, g') \<in> set (List.map_filter ?f (groups c))" for gid g'
    using map_filter_mem [OF f that] assms expireGroup_inv by (force simp: coord_inv_def)
  ultimately show ?thesis
    using assms(1) map_filter_distinct [of ?f, OF f, of "groups c"] by (auto simp: coord_inv_def expireDeadMembers_def)
qed

lemma coord_inv_write: "coord_inv c \<Longrightarrow> coord_inv (fst (snd (commitWrite rt gid topic part off (c, d))))"
  by (auto simp: commitWrite_def coord_inv_def split: prod.split sum.split)

lemmas coord_inv_ops = coord_inv_Join coord_inv_Leave coord_inv_Heartbeat coord_inv_expire coord_inv_write

interpretation coordinator: invariant_system coord_init coord_step coord_inv
proof unfold_locales
  show "coord_init c \<Longrightarrow> coord_inv c" for c by (simp add: coord_init_def coord_inv_def)
  show "coord_inv c \<Longrightarrow> coord_step c c' \<Longrightarrow> coord_inv c'" for c c'
    by (erule coord_step.cases) (simp_all add: coord_inv_ops)
qed

section \<open>Ownership\<close>

lemma dealt_unique:
  assumes "dealt n subs a p" "dealt n subs b p" "n \<le> 2 ^ 31"
  shows "a = b"
proof -
  obtain j q where j: "j < length subs" "p = of_nat q" "q < rangeStart n (length subs) (Suc j)"
    using assms(1) by (auto simp: dealt_def)
  have "rangeStart n (length subs) (Suc j) \<le> n"
    using rangeStart_mono [of "Suc j" "length subs" n "length subs"] rangeStart_bounds(2) [of "length subs" n] j(1) by fastforce
  then have "q < n" using j by simp
  moreover have "subs \<noteq> []" using j(1) by auto
  ultimately have "\<exists>!m. dealt n subs m p" unfolding j(2) using dealt_once assms(3) by blast
  then show ?thesis using assms by blast
qed

lemma group_owner_unique:
  assumes "group_inv gid g" "owns (assignments g) a topic p" "owns (assignments g) b topic p"
  shows "a = b"
proof -
  obtain pf where pf: "pf_ok pf" "assignments g = rangeAssign (memberInfos g) pf" using assms(1) by (auto simp: group_inv_def)
  then obtain n where "pf topic = Some n" "dealt (nat n) (subscribers (sortMembers (memberInfos g)) topic) a p"
      "dealt (nat n) (subscribers (sortMembers (memberInfos g)) topic) b p"
    using assms(2,3) by (auto simp: rangeAssign_owns)
  moreover have "nat n \<le> 2 ^ 31" if "pf topic = Some n" for n
    using pf(1) that by (metis nat_le_iff of_nat_numeral of_nat_power pf_ok_def)
  ultimately show ?thesis using dealt_unique by blast
qed

lemma group_owner_subscribed:
  assumes "group_inv gid g" "owns (assignments g) a topic p"
  shows "\<exists>m. map_of (members g) a = Some m \<and> topic \<in> set (m_topics m)"
proof -
  obtain pf n where "assignments g = rangeAssign (memberInfos g) pf" "dealt n (subscribers (sortMembers (memberInfos g)) topic) a p"
    using assms by (auto simp: group_inv_def rangeAssign_owns)
  then have "a \<in> set (subscribers (sortMembers (memberInfos g)) topic)" by (auto simp: dealt_def)
  then obtain mid m where "(mid, m) \<in> set (members g)" "m_id m = a" "topic \<in> set (m_topics m)"
    by (auto simp: set_subscribers memberInfos_def)
  then show ?thesis using assms(1) by (auto simp: group_inv_def)
qed

section \<open>Properties of the coordinator\<close>

text \<open>
  Property C22. Invariant of the groups, whatever the order of joins, leaves, heartbeats, expiries and
  commits: a group has members, there are at most \<open>maxGroups\<close> groups, no two members of
  a group own the same partition, and an owner is a member subscribed to the topic.
\<close>

theorem group_ownership_exclusive:
  assumes "reachable coord_init coord_step c" "map_of (groups c) gid = Some g"
  shows "members g \<noteq> [] \<and> int (length (groups c)) \<le> maxGroups c \<and>
    (\<forall>a b topic p. owns (assignments g) a topic p \<and> owns (assignments g) b topic p \<longrightarrow> a = b) \<and>
    (\<forall>a topic p. owns (assignments g) a topic p \<longrightarrow> (\<exists>m. map_of (members g) a = Some m \<and> topic \<in> set (m_topics m)))"
proof -
  have inv: "coord_inv c" by (rule coordinator.reachable_inv [OF assms(1)])
  have g: "group_inv gid g" by (rule coord_inv_lookup [OF inv assms(2)])
  have "members g \<noteq> []" "int (length (groups c)) \<le> maxGroups c" using inv g by (simp_all add: coord_inv_def group_inv_def)
  then show ?thesis using group_owner_unique [OF g] group_owner_subscribed [OF g] by blast
qed

definition one_partition :: "string \<Rightarrow> int option" where
  "one_partition t = Some 1"

definition idle_coordinator :: Coordinator where
  "idle_coordinator = \<lparr>groups = [], sessionTimeout = 30, offsets = empty_store, maxGroups = 1024\<rparr>"

definition a_joined :: Coordinator where
  "a_joined = snd (Join one_partition 0 ''g'' ''a'' [''jobs''] idle_coordinator)"

definition b_joined :: Coordinator where
  "b_joined = snd (Join one_partition 100 ''g'' ''b'' [''jobs''] (expireDeadMembers one_partition 100 a_joined))"

definition single_group :: "string \<Rightarrow> int \<Rightarrow> groupState" where
  "single_group mid now = \<lparr>g_id = ''g'', generation = 1, members = [(mid, \<lparr>m_id = mid, m_topics = [''jobs''], lastSeen = now\<rparr>)],
     assignments = [(mid, [\<lparr>as_Topic = ''jobs'', as_Partitions = [0]\<rparr>])]\<rparr>"

lemma pf_ok_one: "pf_ok one_partition"
  by (simp add: pf_ok_def one_partition_def)

lemma rangeAssign_one: "rangeAssign [\<lparr>mi_id = mid, mi_topics = [''jobs'']\<rparr>] one_partition = [(mid, [\<lparr>as_Topic = ''jobs'', as_Partitions = [0]\<rparr>])]"
  by (simp add: rangeAssign_def sortMembers_def subscribedTopics_def assignTopic_def one_partition_def subscribers_def getList_def Let_def)

lemma Join_one:
  "idRe mid \<Longrightarrow> groups c = [] \<Longrightarrow> 0 < maxGroups c \<Longrightarrow>
   Join one_partition now ''g'' mid [''jobs''] c = (Inr (1, [\<lparr>as_Topic = ''jobs'', as_Partitions = [0]\<rparr>]), c\<lparr>groups := [(''g'', single_group mid now)]\<rparr>)"
  by (auto simp: Join_def idRe_def topicChar_def char_between_def one_partition_def [of "''jobs''"] newGroup_def joinGroup_def rebalanceLocked_def
      memberInfos_def rangeAssign_one single_group_def putGroup_def getList_def Let_def)

lemma idRe_ab: "idRe ''a''" "idRe ''b''"
  by (simp_all add: idRe_def topicChar_def char_between_def)

lemma a_joined_eq: "a_joined = idle_coordinator\<lparr>groups := [(''g'', single_group ''a'' 0)]\<rparr>"
  by (simp add: a_joined_def Join_one idRe_ab idle_coordinator_def)

lemma b_joined_eq: "b_joined = idle_coordinator\<lparr>groups := [(''g'', single_group ''b'' 100)]\<rparr>"
  by (simp add: b_joined_def a_joined_eq expireDeadMembers_def expireGroup_def List.map_filter_simps single_group_def [of "''a''"] Join_one idRe_ab
      idle_coordinator_def)

lemma reachable_a: "reachable coord_init coord_step a_joined"
  unfolding a_joined_def
proof (rule reachable_step)
  show "reachable coord_init coord_step idle_coordinator"
    by (rule reachable_init) (simp add: coord_init_def idle_coordinator_def)
qed (rule coord_step.join [OF pf_ok_one])

theorem group_ownership_exclusive_witness:
  "\<exists>g. map_of (groups a_joined) ''g'' = Some g \<and> members g \<noteq> []"
  using group_ownership_exclusive [OF reachable_a, of "''g''" "single_group ''a'' 0"] by (simp add: a_joined_eq)

section \<open>Generations\<close>

definition same_subscription :: "groupState \<Rightarrow> string \<Rightarrow> string list \<Rightarrow> bool" where
  "same_subscription g mid topics \<longleftrightarrow> (case map_of (members g) mid of None \<Rightarrow> False | Some m \<Rightarrow> mset (m_topics m) = mset topics)"

lemma Join_Inr:
  assumes "Join pf now gid mid topics c = (Inr (gen, as), c')"
  shows "\<exists>g'. g' = joinGroup pf now mid topics (case map_of (groups c) gid of Some g \<Rightarrow> g | None \<Rightarrow> newGroup gid) \<and>
    c' = putGroup gid g' c \<and> generation g' = gen \<and> getList (assignments g') mid = as"
  using assms by (auto simp: Join_def Let_def split: if_splits)

lemma joinGroup_same:
  assumes "same_subscription g mid topics"
  shows "generation (joinGroup pf now mid topics g) = generation g" "assignments (joinGroup pf now mid topics g) = assignments g"
    "map_of (members (joinGroup pf now mid topics g)) x = None \<longleftrightarrow> map_of (members g) x = None"
  using assms by (auto simp: same_subscription_def joinGroup_def sameTopics_iff update_conv split: option.splits)

lemma joinGroup_changed:
  assumes "\<not> same_subscription g mid topics"
  shows "generation (joinGroup pf now mid topics g) = generation g + 1"
  using assms by (auto simp: same_subscription_def joinGroup_def sameTopics_iff rebalanceLocked_def split: option.splits)

lemma Heartbeat_result:
  "fst (Heartbeat t gid x k c) = (case map_of (groups c) gid of
     None \<Rightarrow> Inl ErrRebalance
   | Some g \<Rightarrow> if map_of (members g) x = None \<or> k \<noteq> generation g then Inl ErrRebalance else Inr ())"
  by (auto simp: Heartbeat_def split: option.split)

lemma putGroup_lookup: "map_of (groups (putGroup gid g c)) x = (if x = gid then Some g else map_of (groups c) x)"
  by (simp add: putGroup_def update_conv)

text \<open>
  Property C23. Generations move exactly when a group changes: a member that joins again with the same
  subscription leaves the generation, the assignment and every heartbeat as they were;
  any other join starts the next generation, and everything stamped with the old one is
  refused from then on. Other groups do not notice.
\<close>

theorem Join_generation:
  assumes "Join pf now gid mid topics c = (Inr (gen, as), c')"
  shows "\<exists>g'. map_of (groups c') gid = Some g' \<and> generation g' = gen \<and> getList (assignments g') mid = as \<and>
    (\<forall>x. x \<noteq> gid \<longrightarrow> map_of (groups c') x = map_of (groups c) x) \<and>
    (case map_of (groups c) gid of
       None \<Rightarrow> gen = 1
     | Some g \<Rightarrow>
         if same_subscription g mid topics
         then gen = generation g \<and> assignments g' = assignments g \<and>
           (\<forall>t x k. fst (Heartbeat t gid x k c') = fst (Heartbeat t gid x k c))
         else gen = generation g + 1 \<and>
           (\<forall>t x. fst (Heartbeat t gid x (generation g) c') = Inl ErrRebalance \<and>
              CheckFetch gid x (generation g) c' = Inl ErrRebalance \<and>
              (\<forall>topic p. commitCheck gid x topic p (generation g) c' \<noteq> Inr ())))"
proof -
  obtain g' where g': "g' = joinGroup pf now mid topics (case map_of (groups c) gid of Some g \<Rightarrow> g | None \<Rightarrow> newGroup gid)"
      "c' = putGroup gid g' c" "generation g' = gen" "getList (assignments g') mid = as"
    using Join_Inr [OF assms] by blast
  have look: "map_of (groups c') x = (if x = gid then Some g' else map_of (groups c) x)" for x
    using g'(2) putGroup_lookup by simp
  have "\<not> same_subscription (newGroup gid) mid topics" by (simp add: same_subscription_def newGroup_def)
  then have fresh: "gen = 1" if "map_of (groups c) gid = None"
    using that g' joinGroup_changed by (auto simp: newGroup_def)
  have stale: "fst (Heartbeat t gid x k c') = Inl ErrRebalance \<and> CheckFetch gid x k c' = Inl ErrRebalance \<and>
      commitCheck gid x topic p k c' \<noteq> Inr ()" if "k \<noteq> gen" for t x k topic p
    using that g'(3) look by (auto simp: Heartbeat_def CheckFetch_def commitCheck_def split: option.split)
  have same: "gen = generation g \<and> assignments g' = assignments g \<and> fst (Heartbeat t gid x k c') = fst (Heartbeat t gid x k c)"
    if "map_of (groups c) gid = Some g" "same_subscription g mid topics" for g t x k
    using that g' joinGroup_same [OF that(2), of pf now] look [of gid] by (simp add: Heartbeat_result)
  have changed: "gen = generation g + 1" if "map_of (groups c) gid = Some g" "\<not> same_subscription g mid topics" for g
    using that g' joinGroup_changed by auto
  show ?thesis
    using look g'(3,4) fresh same changed stale by (intro exI [of _ g']) (auto split: option.split)
qed

theorem Join_generation_witness:
  "\<exists>c'. Join one_partition 5 ''g'' ''b'' [''jobs''] a_joined =
     (Inr (2, getList (assignments (joinGroup one_partition 5 ''b'' [''jobs''] (single_group ''a'' 0))) ''b''), c') \<and>
     CheckFetch ''g'' ''a'' 1 c' = Inl ErrRebalance"
proof -
  let ?g = "joinGroup one_partition 5 ''b'' [''jobs''] (single_group ''a'' 0)"
  have run: "Join one_partition 5 ''g'' ''b'' [''jobs''] a_joined =
      (Inr (2, getList (assignments ?g) ''b''), putGroup ''g'' ?g a_joined)"
    using joinGroup_changed [of "single_group ''a'' 0" "''b''" "[''jobs'']" one_partition 5]
    by (simp add: Join_def a_joined_eq idRe_ab Let_def one_partition_def [of "''jobs''"] same_subscription_def single_group_def
        idRe_def [of "''g''"] topicChar_def char_between_def)
  from Join_generation [OF run] run show ?thesis by (auto simp: a_joined_eq same_subscription_def single_group_def)
qed

section \<open>Commits\<close>

definition may_commit :: "string \<Rightarrow> string \<Rightarrow> string \<Rightarrow> i32 \<Rightarrow> i32 \<Rightarrow> Coordinator \<Rightarrow> bool" where
  "may_commit gid mid topic part gen c \<longleftrightarrow>
     (case map_of (groups c) gid of
        None \<Rightarrow> False
      | Some g \<Rightarrow> map_of (members g) mid \<noteq> None \<and> gen = generation g \<and> owns (assignments g) mid topic part)"

lemma commitCheck_iff: "commitCheck gid mid topic part gen c = Inr () \<longleftrightarrow> may_commit gid mid topic part gen c"
  by (auto simp: commitCheck_def may_commit_def split: option.split)

lemma commitWrite_effect:
  assumes "commitWrite rt gid topic part off (c, d) = (r, (c', d'))"
  shows "\<exists>r0 s'. os_Set rt gid topic part off (offsets c, d) = (r0, (s', d')) \<and> c' = c\<lparr>offsets := s'\<rparr> \<and> (r = Inr () \<longleftrightarrow> r0 = Inr ())"
  using assms by (auto simp: commitWrite_def split: prod.splits sum.splits)

text \<open>
  Property C24. A commit is written only for a member that, when it was checked, belonged to the current generation and was the
  one owner of the partition; any other commit is refused and changes neither the coordinator nor the disk.
  The check is not repeated: whatever other calls did to the groups and offsets between the check and the write (\<open>others\<close>), the write then
  sets exactly this one offset on top of what they left and leaves the groups alone. If the offset file
  held whole lines when the write began, a restart finds the old or the new offsets, and after a success the new ones.
\<close>

theorem Commit_checked_owner:
  assumes "reachable coord_init coord_step c" and "list_all topicChar topic" "length topic \<le> 128"
    and "others (c, d) = (c1, d1)" and "Commit rt others gid mid topic part off gen (c, d) = (r, (c', d'))"
  defines "new \<equiv> (committed (os_data (offsets c1)))((gid, topic, part) \<mapsto> off)"
  shows "if \<not> may_commit gid mid topic part gen c then r \<noteq> Inr () \<and> c' = c \<and> d' = d
    else (\<forall>g x. map_of (groups c) gid = Some g \<and> owns (assignments g) x topic part \<longrightarrow> x = mid) \<and>
      groups c' = groups c1 \<and> committed (os_data (offsets c')) = new \<and> Committed gid topic part c' = off \<and>
      (store_inv (offsets c1) d1 \<longrightarrow>
         (recovers d' (committed (os_data (offsets c1))) \<or> recovers d' new) \<and> (r = Inr () \<longrightarrow> recovers d' new \<and> store_inv (offsets c') d'))"
proof (cases "may_commit gid mid topic part gen c")
  case False
  then have "commitCheck gid mid topic part gen c \<noteq> Inr ()" by (simp add: commitCheck_iff)
  then show ?thesis using assms(5) False by (auto simp: Commit_def split: sum.splits)
next
  case True
  note inv = coordinator.reachable_inv [OF assms(1)]
  obtain g where g: "map_of (groups c) gid = Some g" "owns (assignments g) mid topic part"
    using True by (auto simp: may_commit_def split: option.splits)
  note ginv = coord_inv_lookup [OF inv g(1)]
  have owner: "\<forall>g x. map_of (groups c) gid = Some g \<and> owns (assignments g) x topic part \<longrightarrow> x = mid"
    using g group_owner_unique [OF ginv _ g(2)] by simp
  have "commitCheck gid mid topic part gen c = Inr ()" using True by (simp add: commitCheck_iff)
  then have "commitWrite rt gid topic part off (c1, d1) = (r, (c', d'))" using assms(4,5) by (simp add: Commit_def)
  from commitWrite_effect [OF this] obtain r0 s' where set: "os_Set rt gid topic part off (offsets c1, d1) = (r0, (s', d'))"
    and c': "c' = c1\<lparr>offsets := s'\<rparr>" "r = Inr () \<longleftrightarrow> r0 = Inr ()" by blast
  have ids: "list_all topicChar gid" "length gid + length topic \<le> 2 ^ 16"
    using ginv assms(3) by (auto simp: group_inv_def idRe_def)
  have mem: "committed (os_data s') = new" using os_Set_effect [OF set] by (simp add: committed_setMem new_def)
  have "Committed gid topic part c' = off"
    using mem c'(1) by (auto simp: Committed_def committed_def fun_eq_iff new_def)
  then show ?thesis
    using True owner mem c' os_Set_durable_lemma [OF _ ids(1) assms(2) ids(2) set] by (auto simp: new_def)
qed

text \<open>Between the check and the write of its commit the session of a member expires, and another member joins and commits.\<close>

definition takeover :: "u64 \<Rightarrow> Coordinator \<times> disk \<Rightarrow> Coordinator \<times> disk" where
  "takeover off = (\<lambda>(c, d). snd (Commit calm_runtime id ''g'' ''b'' ''jobs'' 0 off 1
     (snd (Join one_partition 100 ''g'' ''b'' [''jobs''] (expireDeadMembers one_partition 100 c)), d)))"

lemma a_may_commit: "may_commit ''g'' ''a'' ''jobs'' 0 1 a_joined"
  by (simp add: may_commit_def a_joined_eq single_group_def owns_def getList_def)

theorem Commit_checked_owner_witness:
  "committed (os_data (offsets (fst (snd (Commit calm_runtime (takeover 9) ''g'' ''a'' ''jobs'' 0 7 1 (a_joined, empty_dir))))))
     (''g'', ''jobs'', 0) = Some 7"
proof -
  obtain c1 d1 where o: "takeover 9 (a_joined, empty_dir) = (c1, d1)" by fastforce
  obtain r c' d' where run: "Commit calm_runtime (takeover 9) ''g'' ''a'' ''jobs'' 0 7 1 (a_joined, empty_dir) = (r, (c', d'))"
    by (metis prod.exhaust)
  show ?thesis
    using Commit_checked_owner [OF reachable_a ids_valid(2) _ o run] a_may_commit run by simp
qed

text \<open>
  The mutex is free between the check and the write of a commit: a
  member that passed the check, lost its session and was replaced still overwrites what
  the new owner has committed since, and is told it succeeded, although the
  comment says a member of an old generation cannot rewind committed state.
\<close>

theorem expelled_member_rewinds_offset:
  "\<exists>c4 d4 c5 d5. takeover off_b (a_joined, empty_dir) = (c4, d4) \<and> Committed ''g'' ''jobs'' 0 c4 = off_b \<and>
     commitCheck ''g'' ''a'' ''jobs'' 0 1 c4 = Inl ErrUnknownMember \<and>
     Commit calm_runtime (takeover off_b) ''g'' ''a'' ''jobs'' 0 off_a 1 (a_joined, empty_dir) = (Inr (), (c5, d5)) \<and>
     Committed ''g'' ''jobs'' 0 c5 = off_a"
proof -
  have calm_set: "\<exists>s' d'. os_Set calm_runtime ''g'' ''jobs'' 0 off (s, d) = (Inr (), (s', d')) \<and>
      os_open s' \<and> os_lines s' = os_lines s + 1 \<and> committed (os_data s') (''g'', ''jobs'', 0) = Some off"
    if "os_open s" "os_lines s + 1 < compactAfterLines" for s d off
    using that by (simp add: os_Set_def Let_def onHandle_def on_snd_def AppendFile_def io_no_faults [OF no_faults_calm] committed_setMem)
  have commit: "commitCheck ''g'' ''a'' ''jobs'' 0 1 a_joined = Inr ()" "commitCheck ''g'' ''b'' ''jobs'' 0 1 b_joined = Inr ()"
    by (simp_all add: commitCheck_def a_joined_eq b_joined_eq single_group_def owns_def getList_def)
  obtain s4 d4 where 4: "os_Set calm_runtime ''g'' ''jobs'' 0 off_b (offsets b_joined, empty_dir) = (Inr (), (s4, d4))"
      "os_open s4" "os_lines s4 = 1" "committed (os_data s4) (''g'', ''jobs'', 0) = Some off_b"
    using calm_set [of empty_store off_b empty_dir]
    by (auto simp: b_joined_eq idle_coordinator_def empty_store_def compactAfterLines_def)
  obtain s5 d5 where 5: "os_Set calm_runtime ''g'' ''jobs'' 0 off_a (s4, d4) = (Inr (), (s5, d5))"
      "committed (os_data s5) (''g'', ''jobs'', 0) = Some off_a"
    using calm_set [of s4 off_a d4] 4 by (auto simp: compactAfterLines_def)
  have o: "takeover off_b (a_joined, empty_dir) = (b_joined\<lparr>offsets := s4\<rparr>, d4)"
    unfolding takeover_def prod.case b_joined_def [symmetric] using commit(2) 4(1) by (simp add: Commit_def commitWrite_def)
  show ?thesis
    using commit(1) 4 5 o
    by (intro exI [of _ "b_joined\<lparr>offsets := s4\<rparr>"] exI [of _ d4] exI [of _ "b_joined\<lparr>offsets := s5\<rparr>"] exI [of _ d5])
      (auto simp: Commit_def commitWrite_def Committed_def committed_def commitCheck_def b_joined_eq single_group_def)
qed

end
