(* ===== verification/Broker.thy ===== *)
theory Broker
  imports Replication Coordinator
begin

text \<open>
  The broker (src/internal/broker/broker.go) with its cleanup policy (config.go) and its
  static credentials (auth.go): the operations of the wire protocol over the store, the groups and the
  replication state. A partition writer is its queue and one turn of its loop. In standalone
  mode \<open>b_repl\<close> is false and the cluster fields are not used. What other goroutines do while a
  produce waits for its quorum is an argument.
\<close>

section \<open>Configuration\<close>

record TopicOverride =
  to_RetentionMs :: "int option"
  to_RetentionBytes :: "int option"
  to_Compact :: bool

record broker_Config =
  DefaultPartitions :: int
  bc_MaxSegmentBytes :: int
  bc_IndexIntervalBytes :: int
  FsyncEvery :: int
  FsyncRecords :: int
  ProduceQueueSize :: int
  SessionTimeout :: int
  DrainTimeout :: int
  MaxConnections :: int
  MaxTopics :: int
  MaxGroups :: int
  IdleTimeout :: int
  WriteTimeout :: int
  bc_RetentionMaxAge :: int
  bc_RetentionMaxBytes :: int
  CleanupInterval :: int
  TopicConfigs :: "(string \<times> TopicOverride) list"

text \<open>The product of a duration is a 64-bit one.\<close>

definition durationMul :: "int \<Rightarrow> int \<Rightarrow> int" where
  "durationMul a b = sint (word_of_int (a * b) :: i64)"


definition durationMs :: "int \<Rightarrow> int \<Rightarrow> int" where
  "durationMs ms fallback = (if 0 < ms then durationMul ms millisecond else fallback)"

definition capReplicationFactor :: "cluster_Config \<Rightarrow> cluster_Config" where
  "capReplicationFactor c =
     (if int (length (cc_Nodes c)) < ReplicationFactor c then c\<lparr>ReplicationFactor := int (length (cc_Nodes c))\<rparr> else c)"

definition broker_withDefaults :: "broker_Config \<Rightarrow> broker_Config" where
  "broker_withDefaults c =
     c\<lparr>DefaultPartitions := orDefault 3 (DefaultPartitions c),
       bc_MaxSegmentBytes := orDefault (64 * 2 ^ 20) (bc_MaxSegmentBytes c),
       bc_IndexIntervalBytes := orDefault 4096 (bc_IndexIntervalBytes c),
       FsyncEvery := orDefault (100 * millisecond) (FsyncEvery c),
       FsyncRecords := orDefault 256 (FsyncRecords c),
       ProduceQueueSize := orDefault 1024 (ProduceQueueSize c),
       SessionTimeout := orDefault (10 * second) (SessionTimeout c),
       DrainTimeout := orDefault (5 * second) (DrainTimeout c),
       MaxConnections := orDefault 1024 (MaxConnections c),
       MaxTopics := orDefault 1024 (MaxTopics c),
       MaxGroups := orDefault 1024 (MaxGroups c),
       IdleTimeout := orDefault (300 * second) (IdleTimeout c),
       WriteTimeout := orDefault (30 * second) (WriteTimeout c),
       CleanupInterval := orDefault (300 * second) (CleanupInterval c)\<rparr>"

section \<open>The broker\<close>

record Broker = node +
  b_cfg :: broker_Config
  b_groups :: Coordinator
  b_offsetsDisk :: disk
  b_writers :: "topicPart list"
  b_repl :: bool

type_synonym 'a backend = "((go_error + 'a) \<times> Broker) go"

definition wireErr :: "error_code \<Rightarrow> Broker \<Rightarrow> 'a backend" where
  "wireErr code b = Inr (Inl (WireError code), b)"

definition registerWriter :: "string \<Rightarrow> i32 \<Rightarrow> Broker \<Rightarrow> Broker" where
  "registerWriter topic part b = b\<lparr>b_writers := List.insert (topic, part) (b_writers b)\<rparr>"

definition writerFor :: "string \<Rightarrow> i32 \<Rightarrow> Broker \<Rightarrow> bool" where
  "writerFor topic part b \<longleftrightarrow> (topic, part) \<in> set (b_writers b)"

text \<open>\<open>New\<close> once its configuration has been accepted: recovery of the store and the offsets, and the writers.\<close>

definition NewBroker :: "runtime \<Rightarrow> int \<Rightarrow> string list \<Rightarrow> broker_Config \<Rightarrow> cluster_Config option \<Rightarrow> store_fs \<Rightarrow> disk \<Rightarrow> go_error + Broker" where
  "NewBroker rt now dir cfg clusterCfg fs d =
     (let cfg = broker_withDefaults cfg in
      case OpenStore rt dir \<lparr>MaxSegmentBytes = bc_MaxSegmentBytes cfg, IndexIntervalBytes = bc_IndexIntervalBytes cfg\<rparr>
             (DefaultPartitions cfg) fs of
        Inl _ \<Rightarrow> Inl (WrappedError PlainError)
      | Inr st \<Rightarrow>
          (case NewCoordinator rt (SessionTimeout cfg) [WithMaxGroups (MaxGroups cfg)] d of
             (Inl _, _) \<Rightarrow> Inl (WrappedError PlainError)
           | (Inr gs, d) \<Rightarrow>
               let keys = storeKeys st;
                   mk = (\<lambda>c repl. foldl (\<lambda>b (topic, part). registerWriter topic part b)
                     \<lparr>nd_store = st, nd_cl = c, nd_parts = [], nd_followCtl = [], b_cfg = cfg, b_groups = gs, b_offsetsDisk = d,
                      b_writers = [], b_repl = repl\<rparr> keys)
               in case clusterCfg of
                    None \<Rightarrow> Inr (mk \<lparr>cl_cfg = emptyConfig, cl_members = NewMembership emptyConfig now, cl_overlay = [], cl_peers = []\<rparr> False)
                  | Some cc \<Rightarrow> (case NewCluster cc now of None \<Rightarrow> Inl (WrappedError PlainError) | Some c \<Rightarrow> Inr (mk c True))))"

definition partitionsFor :: "Store \<Rightarrow> string \<Rightarrow> int option" where
  "partitionsFor s topic = (case getTopic topic s of Inl _ \<Rightarrow> None | Inr t \<Rightarrow> Some (int (NumPartitions t)))"

section \<open>Topics\<close>

definition registerTopic :: "Topic \<Rightarrow> Broker \<Rightarrow> Broker" where
  "registerTopic t b = foldl (\<lambda>b (p, d). registerWriter (t_Name t) (p_id p) b) b (Partitions t)"

text \<open>\<open>dirs\<close> is what the topic's directory holds already.\<close>

definition b_CreateTopic :: "runtime \<Rightarrow> (string \<times> disk) list \<Rightarrow> string \<Rightarrow> i32 \<Rightarrow> Broker \<Rightarrow> (string \<times> i32) backend" where
  "b_CreateTopic rt dirs topic partitions b =
     (if getTopic topic (nd_store b) = Inl ErrTopicNotFound \<and> MaxTopics (b_cfg b) \<le> int (length (sortedTopics (nd_store b)))
      then wireErr CodeBadRequest b
      else bindS (CreateTopic rt topic (sint partitions) dirs (nd_store b)) (\<lambda>(res, st). Inr (case res of
        Inl e \<Rightarrow>
          (Inl (case e of
             ErrTopicExists \<Rightarrow> WireError CodeTopicExists
           | ErrInvalidTopicName \<Rightarrow> WireError CodeBadRequest
           | ErrTooManyPartitions \<Rightarrow> WireError CodeBadRequest
           | _ \<Rightarrow> WrappedError PlainError), b\<lparr>nd_store := st\<rparr>)
      | Inr t \<Rightarrow>
          (Inr (t_Name t, of_nat (NumPartitions t)), registerTopic t (b\<lparr>nd_store := st\<rparr>)))))"

definition ensureTopicLocal :: "runtime \<Rightarrow> (string \<times> disk) list \<Rightarrow> string \<Rightarrow> i32 \<Rightarrow> Broker \<Rightarrow> ((store_error + unit) \<times> Broker) go" where
  "ensureTopicLocal rt dirs name partitions b =
     (case getTopic name (nd_store b) of
        Inr _ \<Rightarrow> Inr (Inr (), b)
      | Inl e \<Rightarrow>
          if e \<noteq> ErrTopicNotFound then Inr (Inl e, b)
          else bindS (CreateTopic rt name (sint partitions) dirs (nd_store b)) (\<lambda>(res, st). Inr (case res of
            Inl e \<Rightarrow> (if e = ErrTopicExists then Inr () else Inl e, b\<lparr>nd_store := st\<rparr>)
          | Inr t \<Rightarrow> (Inr (), registerTopic t (b\<lparr>nd_store := st\<rparr>)))))"

definition ListTopics :: "Broker \<Rightarrow> (string \<times> (i32 \<times> u64) list) list" where
  "ListTopics b = map (\<lambda>t. (t_Name t, map (\<lambda>(p, d). (p_id p, HighWatermark p)) (Partitions t))) (sortedTopics (nd_store b))"

text \<open>
  One topic of a peer's status report against the local topics. A conflict in the partition count
  keeps the local topic.
\<close>

definition syncTopic :: "runtime \<Rightarrow> (string \<Rightarrow> (string \<times> disk) list) \<Rightarrow> (string \<times> i32) list \<times> Broker \<Rightarrow> string \<times> i32 \<Rightarrow> ((string \<times> i32) list \<times> Broker) go" where
  "syncTopic rt dirs = (\<lambda>(local, b) (name, partitions).
     if map_of local name \<noteq> None then Inr (local, b)
     else bindS (holdsAnyReplica name partitions b) (\<lambda>holds.
       if \<not> holds then Inr (local, b)
       else bindS (ensureTopicLocal rt (dirs name) name partitions b) (\<lambda>(res, b). Inr (case res of
         Inl _ \<Rightarrow> (local, b)
       | Inr _ \<Rightarrow> (AList.update name partitions local, b)))))"

fun syncTopicList ::
  "runtime \<Rightarrow> (string \<Rightarrow> (string \<times> disk) list) \<Rightarrow> (string \<times> i32) list \<Rightarrow> (string \<times> i32) list \<times> Broker \<Rightarrow> ((string \<times> i32) list \<times> Broker) go" where
  "syncTopicList rt dirs [] s = Inr s"
| "syncTopicList rt dirs (t # ts) s = bindS (syncTopic rt dirs s t) (\<lambda>s. syncTopicList rt dirs ts s)"

text \<open>\<open>status\<close> is the decoded status report of a peer, \<open>None\<close> when the call or the decoding failed.\<close>

definition syncTopics ::
  "runtime \<Rightarrow> (string \<Rightarrow> (string \<times> disk) list) \<Rightarrow> (NodeID \<Rightarrow> (string \<times> i32) list option) \<Rightarrow> Broker \<Rightarrow> Broker go" where
  "syncTopics rt dirs status b =
     (let local = map (\<lambda>t. (t_Name t, of_nat (NumPartitions t))) (sortedTopics (nd_store b));
          peers = filter (\<lambda>m. ni_ID (mb_Info m) \<noteq> cl_Self (nd_cl b) \<and> state_Alive (mb_State m)) (membersSnapshot (cl_members (nd_cl b)));
          reports = concat (map (\<lambda>m. case status (ni_ID (mb_Info m)) of None \<Rightarrow> [] | Some ts \<Rightarrow> ts) peers)
      in bindS (syncTopicList rt dirs reports (local, b)) (\<lambda>(_, b). Inr b))"

section \<open>Produce\<close>

text \<open>The partition of every record; the round-robin counter moves even when a later record is refused.\<close>

fun assignPartitions :: "i32 \<Rightarrow> Message list \<Rightarrow> Topic \<Rightarrow> ((error_code + i32 list) \<times> Topic) go" where
  "assignPartitions req [] t = Inr (Inr [], t)"
| "assignPartitions req (m # ms) t =
     (let (pick, t) = (if sint req < 0 then PickPartition (m_Key m) t else (Inr (nat (sint req)), t)) in
      case pick of
        Inl _ \<Rightarrow> Inl DivideByZero
      | Inr i \<Rightarrow>
          if NumPartitions t \<le> i then Inr (Inl CodeBadRequest, t)
          else bindS (assignPartitions req ms t) (\<lambda>(rest, t).
            Inr (case rest of Inl e \<Rightarrow> Inl e | Inr ps \<Rightarrow> Inr (of_nat i # ps), t)))"

fun checkLeaders :: "Cluster \<Rightarrow> string \<Rightarrow> i32 list \<Rightarrow> (error_code + unit) go" where
  "checkLeaders c topic [] = Inr (Inr ())"
| "checkLeaders c topic (p # ps) =
     bindS (AssignmentFor c topic p) (\<lambda>a. if pa_Leader a \<noteq> cl_Self c then Inr (Inl CodeNotLeader) else checkLeaders c topic ps)"

definition toRecord :: "Message \<Rightarrow> Record" where
  "toRecord m = \<lparr>Offset = 0, TimestampMs = 0, Key = m_Key m, Value = m_Value m, Headers = convertHeaders (m_Headers m)\<rparr>"

text \<open>The partitions in the order of their first record, and for each its records with their positions in the request.\<close>

type_synonym batches = "i32 list \<times> (i32 \<times> (nat \<times> Record) list) list"

definition addRecord :: "batches \<Rightarrow> i32 \<times> nat \<times> Record \<Rightarrow> batches" where
  "addRecord = (\<lambda>(order, batches) (p, ir).
     (if map_of batches p = None then order @ [p] else order, AList.update p (getList batches p @ [ir]) batches))"

definition groupRecords :: "i32 list \<Rightarrow> Message list \<Rightarrow> batches" where
  "groupRecords parts ms = foldl addRecord ([], []) (zip parts (enumerate 0 (map toRecord ms)))"

text \<open>What becomes of one batch handed to a writer.\<close>

datatype handover = Answered | SendCancelled | QueueFull | AnswerCancelled

text \<open>
  One turn of a writer: append, then flush when enough records are pending. A writer has its partition,
  the third case cannot come up for a registered one.
\<close>

definition writerTurn :: "runtime \<Rightarrow> i64 \<Rightarrow> string \<Rightarrow> i32 \<Rightarrow> Record list \<Rightarrow> Broker \<Rightarrow> ((storage_error + u64) \<times> Broker) go" where
  "writerTurn rt now topic part recs b =
     bindS (topicPartition topic part (nd_store b)) (\<lambda>pd.
       case pd of
         Some pd \<Rightarrow>
           let (res, pd) = Append rt now recs pd;
               pd = (if FsyncRecords (b_cfg b) \<le> int (RecordsSinceFlush (fst pd)) then snd (Flush rt pd) else pd)
           in Inr (res, putPartition topic part pd b)
       | None \<Rightarrow> Inr (Inl ErrNotExist, b))"

definition fillResults :: "i32 \<Rightarrow> u64 \<Rightarrow> (nat \<times> Record) list \<Rightarrow> ProduceResult list \<Rightarrow> ProduceResult list" where
  "fillResults part base sub results =
     foldl (\<lambda>rs (j, (idx, r)). rs[idx := \<lparr>res_Partition = part, res_Offset = base + of_nat j\<rparr>]) results (enumerate 0 sub)"

text \<open>
  A run of \<open>waitCommitted\<close>: \<open>Turn\<close> is a step of the waiter, \<open>CommitTo\<close> a \<open>setCommitted\<close> of another
  goroutine, \<open>TimeUp\<close> the timer. At the end of the list the request's context is cancelled.
\<close>

datatype wait_event = Turn | CommitTo u64 | TimeUp

fun waitCommitted :: "string \<Rightarrow> i32 \<Rightarrow> u64 \<Rightarrow> wait_event list \<Rightarrow> waiter \<Rightarrow> Broker \<Rightarrow> (go_error option \<times> Broker) go" where
  "waitCommitted topic part off evs (Returned r) b = Inr (map_option WireError r, b)"
| "waitCommitted topic part off [] Comparing b =
     bindS (committedFor topic part b) (\<lambda>c. Inr (if off \<le> c then None else Some PlainError, b))"
| "waitCommitted topic part off [] w b = Inr (Some PlainError, b)"
| "waitCommitted topic part off (CommitTo c # evs) w b = waitCommitted topic part off evs w (setCommitted topic part c b)"
| "waitCommitted topic part off (Turn # evs) Comparing b =
     bindS (committedFor topic part b) (\<lambda>c. waitCommitted topic part off evs (if off \<le> c then Returned None else Taking) b)"
| "waitCommitted topic part off (Turn # evs) Taking b =
     waitCommitted topic part off evs (Sleeping (commitCh (replPart topic part b))) b"
| "waitCommitted topic part off (Turn # evs) (Sleeping g) b =
     waitCommitted topic part off evs (if commitCh (replPart topic part b) \<noteq> g then Comparing else Sleeping g) b"
| "waitCommitted topic part off (TimeUp # evs) w b =
     waitCommitted topic part off evs (case w of Sleeping g \<Rightarrow> Returned (Some CodeNotEnoughReplicas) | _ \<Rightarrow> w) b"

text \<open>
  The loop over the partitions. \<open>send\<close> says what becomes of each batch, \<open>evs\<close> what happens during
  the wait of an acks=all produce.
\<close>

fun produceBatches ::
  "runtime \<Rightarrow> i64 \<Rightarrow> (i32 \<Rightarrow> handover) \<Rightarrow> (i32 \<Rightarrow> wait_event list) \<Rightarrow> string \<Rightarrow> byte \<Rightarrow>
   (i32 \<times> (nat \<times> Record) list) list \<Rightarrow> i32 list \<Rightarrow> ProduceResult list \<Rightarrow> Broker \<Rightarrow> ProduceResult list backend" where
  "produceBatches rt now send evs topic acks batches [] results b = Inr (Inr results, b)"
| "produceBatches rt now send evs topic acks batches (p # ps) results b =
     (if \<not> writerFor topic p b then wireErr CodeInternal b
      else if send p = QueueFull then wireErr CodeBrokerBusy b
      else if send p = SendCancelled then Inr (Inl PlainError, b)
      else
        let sub = getList batches p; recs = map snd sub in
        bindS (writerTurn rt now topic p recs b) (\<lambda>(res, b).
          if send p = AnswerCancelled then Inr (Inl PlainError, b)
          else case res of
            Inl _ \<Rightarrow> Inr (Inl (WrappedError PlainError), b)
          | Inr base \<Rightarrow>
              let results = fillResults p base sub results in
              if \<not> b_repl b then produceBatches rt now send evs topic acks batches ps results b
              else bindS (maybeAdvanceCommit topic p b) (\<lambda>b.
                bindS (if acks = AcksAll then waitCommitted topic p (base + of_nat (length recs)) (evs p) Comparing b else Inr (None, b))
                  (\<lambda>(err, b). case err of
                     Some e \<Rightarrow> Inr (Inl e, b)
                   | None \<Rightarrow> produceBatches rt now send evs topic acks batches ps results b))))"

definition putTopic :: "string \<Rightarrow> Topic \<Rightarrow> Broker \<Rightarrow> Broker" where
  "putTopic name t b = b\<lparr>nd_store := (nd_store b)\<lparr>topics := AList.update name t (topics (nd_store b))\<rparr>\<rparr>"

definition Produce ::
  "runtime \<Rightarrow> i64 \<Rightarrow> (i32 \<Rightarrow> handover) \<Rightarrow> (i32 \<Rightarrow> wait_event list) \<Rightarrow> ProduceRequest \<Rightarrow> Broker \<Rightarrow> ProduceResult list backend" where
  "Produce rt now send evs req b =
     (if pr_Records req = [] then wireErr CodeBadRequest b
      else case getTopic (pr_Topic req) (nd_store b) of
        Inl e \<Rightarrow> if e = ErrTopicNotFound then wireErr CodeTopicNotFound b else Inr (Inl (WrappedError PlainError), b)
      | Inr t \<Rightarrow>
          bindS (assignPartitions (pr_Partition req) (pr_Records req) t) (\<lambda>(assigned, t).
            let b = putTopic (pr_Topic req) t b in
            case assigned of
              Inl code \<Rightarrow> wireErr code b
            | Inr parts \<Rightarrow>
                bindS (if b_repl b then checkLeaders (nd_cl b) (pr_Topic req) parts else Inr (Inr ())) (\<lambda>lead.
                  case lead of
                    Inl code \<Rightarrow> wireErr code b
                  | Inr _ \<Rightarrow>
                      let (order, batches) = groupRecords parts (pr_Records req);
                          acks = (if pr_Acks req = 0 then AcksLeader else pr_Acks req)
                      in if acks \<noteq> AcksLeader \<and> acks \<noteq> AcksAll then wireErr CodeBadRequest b
                         else produceBatches rt now send evs (pr_Topic req) acks batches order
                                (replicate (length (pr_Records req)) \<lparr>res_Partition = 0, res_Offset = 0\<rparr>) b)))"

section \<open>Fetch\<close>

definition fetchMaxRecords :: "u32 \<Rightarrow> int" where
  "fetchMaxRecords w = (let m = (if w = 0 then 100 else uint w) in if 10000 < m then 10000 else m)"

definition fetchMaxBytes :: "u32 \<Rightarrow> int" where
  "fetchMaxBytes w = (let m = (if w = 0 then 2 ^ 20 else uint w) in if 3 * 2 ^ 20 < m then 3 * 2 ^ 20 else m)"

definition b_Fetch :: "runtime \<Rightarrow> FetchRequest \<Rightarrow> Broker \<Rightarrow> (go_error + FetchResponse) go" where
  "b_Fetch rt req b =
     (case getTopic (fr_Topic req) (nd_store b) of
        Inl e \<Rightarrow> Inr (Inl (if e = ErrTopicNotFound then WireError CodeTopicNotFound else WrappedError PlainError))
      | Inr t \<Rightarrow>
          if sint (fr_Partition req) < 0 \<or> int (NumPartitions t) \<le> sint (fr_Partition req) then Inr (Inl (WireError CodeBadRequest))
          else if fr_Group req \<noteq> [] \<and> CheckFetch (fr_Group req) (fr_MemberID req) (fr_Generation req) (b_groups b) \<noteq> Inr ()
          then Inr (Inl (WireError CodeRebalance))
          else
            let (p, d) = Partitions t ! nat (sint (fr_Partition req));
                maxRecords = fetchMaxRecords (fr_MaxRecords req);
                maxBytes = fetchMaxBytes (fr_MaxBytes req)
            in bindS (unrecovered (Read rt p d (fr_Offset req) maxRecords maxBytes)) (\<lambda>read.
               case read of
                 Inl e \<Rightarrow> Inr (Inl (if e = ErrOffsetOutOfRange then WireError CodeOffsetOutOfRange else WrappedError PlainError))
               | Inr recs \<Rightarrow>
                   bindS (if b_repl b then committedFor (fr_Topic req) (fr_Partition req) b else Inr (HighWatermark p)) (\<lambda>c.
                     let readLimit = (if c < HighWatermark p then c else HighWatermark p);
                         visible = (if b_repl b then takeWhile (\<lambda>r. \<not> readLimit \<le> Offset r) recs else recs)
                     in Inr (Inr \<lparr>fp_HighWatermark = readLimit, fp_Records = map toFetched visible\<rparr>))))"

section \<open>Groups and offsets\<close>

definition checkTopicPartition :: "string \<Rightarrow> i32 \<Rightarrow> Broker \<Rightarrow> go_error + Topic" where
  "checkTopicPartition topic part b =
     (case getTopic topic (nd_store b) of
        Inl e \<Rightarrow> Inl (if e = ErrTopicNotFound then WireError CodeTopicNotFound else PlainError)
      | Inr t \<Rightarrow> if sint part < 0 \<or> int (NumPartitions t) \<le> sint part then Inl (WireError CodeBadRequest) else Inr t)"

text \<open>\<open>others\<close> is what other calls do to the groups while this one is between its check and its write.\<close>

definition b_CommitOffset ::
  "runtime \<Rightarrow> (Coordinator \<times> disk \<Rightarrow> Coordinator \<times> disk) \<Rightarrow> string \<Rightarrow> string \<Rightarrow> string \<Rightarrow> i32 \<Rightarrow> u64 \<Rightarrow> i32 \<Rightarrow> Broker \<Rightarrow> (go_error + unit) \<times> Broker" where
  "b_CommitOffset rt others grp mid topic part offset gen b =
     (case checkTopicPartition topic part b of
        Inl e \<Rightarrow> (Inl e, b)
      | Inr t \<Rightarrow>
          if HighWatermark (fst (Partitions t ! nat (sint part))) < offset then (Inl (WireError CodeOffsetOutOfRange), b)
          else case Commit rt others grp mid topic part offset gen (b_groups b, b_offsetsDisk b) of
            (r, (gs, d)) \<Rightarrow>
              (case r of
                 Inl ErrRebalance \<Rightarrow> Inl (WireError CodeRebalance)
               | Inl ErrUnknownMember \<Rightarrow> Inl (WireError CodeUnknownMember)
               | Inl ErrNotAssigned \<Rightarrow> Inl (WireError CodeBadRequest)
               | Inl _ \<Rightarrow> Inl (WrappedError PlainError)
               | Inr _ \<Rightarrow> Inr (), b\<lparr>b_groups := gs, b_offsetsDisk := d\<rparr>))"

definition b_FetchOffset :: "string \<Rightarrow> string \<Rightarrow> string \<Rightarrow> i32 \<Rightarrow> i32 \<Rightarrow> Broker \<Rightarrow> go_error + u64" where
  "b_FetchOffset grp mid topic part gen b =
     bindS (checkTopicPartition topic part b) (\<lambda>_.
       case CheckOffsetAccess grp mid gen (b_groups b) of
         Inl ErrUnknownMember \<Rightarrow> Inl (WireError CodeUnknownMember)
       | Inl ErrRebalance \<Rightarrow> Inl (WireError CodeRebalance)
       | Inl _ \<Rightarrow> Inl (WrappedError PlainError)
       | Inr _ \<Rightarrow> Inr (Committed grp topic part (b_groups b)))"

definition b_JoinGroup :: "int \<Rightarrow> string \<Rightarrow> string \<Rightarrow> string list \<Rightarrow> Broker \<Rightarrow> (go_error + (i32 \<times> Assignment list)) \<times> Broker" where
  "b_JoinGroup now grp mid ts b =
     (case Join (partitionsFor (nd_store b)) now grp mid ts (b_groups b) of
        (Inl e, gs) \<Rightarrow> (Inl (WireError (if e = ErrUnknownTopic then CodeTopicNotFound else CodeBadRequest)), b\<lparr>b_groups := gs\<rparr>)
      | (Inr r, gs) \<Rightarrow> (Inr r, b\<lparr>b_groups := gs\<rparr>))"

definition b_LeaveGroup :: "string \<Rightarrow> string \<Rightarrow> Broker \<Rightarrow> Broker" where
  "b_LeaveGroup grp mid b = b\<lparr>b_groups := Leave (partitionsFor (nd_store b)) grp mid (b_groups b)\<rparr>"

definition b_Heartbeat :: "int \<Rightarrow> string \<Rightarrow> string \<Rightarrow> i32 \<Rightarrow> Broker \<Rightarrow> (go_error + unit) \<times> Broker" where
  "b_Heartbeat now grp mid gen b =
     (case Heartbeat now grp mid gen (b_groups b) of
        (Inl e, gs) \<Rightarrow> (Inl (if e = ErrRebalance then WireError CodeRebalance else WrappedError PlainError), b\<lparr>b_groups := gs\<rparr>)
      | (Inr _, gs) \<Rightarrow> (Inr (), b\<lparr>b_groups := gs\<rparr>))"

section \<open>Cleanup and status\<close>





record GroupOffsetStatus =
  gs_Committed :: u64
  Lag :: u64

record PartitionStatus =
  ps_ID :: i32
  ps_HighWatermark :: u64
  ps_Groups :: "(string \<times> GroupOffsetStatus) list"

record TopicStatus =
  ts_Name :: string
  ts_Partitions :: "PartitionStatus list"

record Status =
  st_Topics :: "TopicStatus list"
  st_Groups :: "GroupInfo list"

definition groupLag :: "u64 \<Rightarrow> u64 \<Rightarrow> u64" where
  "groupLag hwm c = (if c < hwm then hwm - c else 0)"

definition partitionStatus :: "(string \<times> (string \<times> (i32 \<times> u64) list) list) list \<Rightarrow> string \<Rightarrow> Partition \<Rightarrow> PartitionStatus" where
  "partitionStatus snapshots topic p =
     \<lparr>ps_ID = p_id p, ps_HighWatermark = HighWatermark p,
      ps_Groups = concat (map (\<lambda>(g, ts).
        case map_of (getList ts topic) (p_id p) of
          None \<Rightarrow> []
        | Some c \<Rightarrow> [(g, \<lparr>gs_Committed = c, Lag = groupLag (HighWatermark p) c\<rparr>)]) snapshots)\<rparr>"

definition b_Status :: "Broker \<Rightarrow> Status" where
  "b_Status b =
     (let snapshots = map (\<lambda>g. (g, GroupOffsets g (b_groups b))) (OffsetGroupIDs (b_groups b)) in
      \<lparr>st_Topics = map (\<lambda>t. \<lparr>ts_Name = t_Name t, ts_Partitions = map (\<lambda>(p, d). partitionStatus snapshots (t_Name t) p) (Partitions t)\<rparr>)
         (sortedTopics (nd_store b)),
       st_Groups = GroupsInfo (b_groups b)\<rparr>)"

section \<open>A flush keeps the log\<close>

lemma part_inv_files:
  assumes "files d' = files d" and "segments p' = segments p" "gapsAllowed p' = gapsAllowed p" "nextOffset p' = nextOffset p"
  shows "part_inv p' d' rss = part_inv p d rss"
proof -
  have f: "content d' = content d" "exists_file d' = exists_file d"
    using assms(1) by (auto simp: content_def exists_file_def fun_eq_iff)
  then have "seg_state d' = seg_state d" "own_files d' = own_files d"
    by (auto simp: seg_state_def seg_inv_def index_file_ok_def own_files_def fun_eq_iff)
  then show ?thesis unfolding part_inv_def assms(2-4) by simp
qed

lemma Sync_files: "files (snd (Sync rt n d)) = files d"
  by (simp add: Sync_def call_ok_def call_def failR_def returnR_def tick_def split: option.split)

lemma seg_sync_files: "files (snd (seg_sync rt s d)) = files d"
  using Sync_files [of rt "segmentLogName (baseOffset s)" d] Sync_files [of rt "segmentIndexName (baseOffset s)"]
  by (auto simp: seg_sync_def bindR_def split: prod.split sum.split)

lemma sync_all_files: "files (snd (forR ss (seg_sync rt) d)) = files d"
proof (induction ss arbitrary: d)
  case (Cons s ss)
  then show ?case using seg_sync_files [of rt s d] by (auto simp: bindR_def split: prod.split sum.split)
qed (simp add: returnR_def)

text \<open>An open partition whose log is the given records, and the fields a flush leaves alone.\<close>

definition holds_log :: "Partition \<times> disk \<Rightarrow> Record list \<Rightarrow> bool" where
  "holds_log pd rs \<longleftrightarrow> \<not> closed (fst pd) \<and> (\<exists>rss. part_inv (fst pd) (snd pd) rss \<and> concat rss = rs)"

lemma Flush_keeps:
  "files (snd (snd (Flush rt pd))) = files (snd pd)" "segments (fst (snd (Flush rt pd))) = segments (fst pd)"
  "nextOffset (fst (snd (Flush rt pd))) = nextOffset (fst pd)" "gapsAllowed (fst (snd (Flush rt pd))) = gapsAllowed (fst pd)"
  "closed (fst (snd (Flush rt pd))) = closed (fst pd)"
  using sync_all_files [of "dirtySegments (fst pd)" rt "snd pd"]
  by (auto simp: Flush_def bindR_def on_snd_def modifyR_def split: prod.split sum.split)

lemma Flush_holds_log: "holds_log (snd (Flush rt pd)) rs = holds_log pd rs"
  by (simp add: holds_log_def Flush_keeps part_inv_files [OF Flush_keeps(1,2,4,3)])

lemma Flush_FirstOffset: "FirstOffset (fst (snd (Flush rt pd))) = FirstOffset (fst pd)"
  by (simp add: FirstOffset_def Flush_keeps)

lemma writerTurn_ok:
  assumes "no_faults rt" and "topicPartition topic part (nd_store b) = Inr (Some pd)" and "holds_log pd log" and "recs \<noteq> []"
    and "within_limits (fst pd) recs"
  obtains pd' where "writerTurn rt now topic part recs b = Inr (Inr (nextOffset (fst pd)), putPartition topic part pd' b)"
    and "holds_log pd' (log @ stampAll (nextOffset (fst pd)) now recs)"
    and "nextOffset (fst pd') = nextOffset (fst pd) + of_nat (length recs)" and "FirstOffset (fst pd') = FirstOffset (fst pd)"
proof -
  obtain rss where rss: "\<not> closed (fst pd)" "part_inv (fst pd) (snd pd) rss" "concat rss = log"
    using assms(3) by (auto simp: holds_log_def)
  obtain p d rss' where ap: "Append rt now recs (fst pd, snd pd) = (Inr (nextOffset (fst pd)), p, d)" and p: "part_inv p d rss'"
    "concat rss' = concat rss @ stampAll (nextOffset (fst pd)) now recs" "nextOffset p = nextOffset (fst pd) + of_nat (length recs)"
    "\<not> closed p" "FirstOffset p = FirstOffset (fst pd)"
    using Append_ok [OF assms(1) rss(2,1) assms(4,5), of now] by metis
  let ?pd = "if FsyncRecords (b_cfg b) \<le> int (RecordsSinceFlush p) then snd (Flush rt (p, d)) else (p, d)"
  have "writerTurn rt now topic part recs b = Inr (Inr (nextOffset (fst pd)), putPartition topic part ?pd b)"
    using ap by (simp add: writerTurn_def assms(2) Let_def)
  moreover have "holds_log ?pd (log @ stampAll (nextOffset (fst pd)) now recs)"
    using p(1,2,4) rss(3) Flush_holds_log [of rt "(p, d)"] by (auto simp: holds_log_def)
  moreover have "nextOffset (fst ?pd) = nextOffset (fst pd) + of_nat (length recs)" "FirstOffset (fst ?pd) = FirstOffset (fst pd)"
    using p(3,5) Flush_keeps(3) [of rt "(p, d)"] Flush_FirstOffset [of rt "(p, d)"] by simp_all
  ultimately show thesis by (rule that)
qed

section \<open>The grouping of a batch\<close>

lemma groupRecords_fold:
  assumes "foldl addRecord ([], []) xs = (order, bs)"
  shows "distinct order" and "set order = fst ` set xs" and "getList bs p = map snd (filter (\<lambda>x. fst x = p) xs)"
    and "map_of bs p = None \<longleftrightarrow> p \<notin> fst ` set xs"
proof -
  have "distinct order \<and> set order = fst ` set xs \<and> (\<forall>p. getList bs p = map snd (filter (\<lambda>x. fst x = p) xs)) \<and>
    (\<forall>p. map_of bs p = None \<longleftrightarrow> p \<notin> fst ` set xs)"
    using assms
  proof (induction xs arbitrary: order bs rule: rev_induct)
    case Nil
    then show ?case by (simp add: getList_def)
  next
    case (snoc x xs)
    obtain o' b' where f: "foldl addRecord ([], []) xs = (o', b')" by fastforce
    obtain q ir where x: "x = (q, ir)" by (cases x)
    note ih = snoc.IH [OF f]
    have "addRecord (o', b') (q, ir) = (order, bs)" using snoc.prems f by (simp add: x)
    then have o: "order = (if q \<in> fst ` set xs then o' else o' @ [q])" and b: "bs = AList.update q (getList b' q @ [ir]) b'"
      using ih by (simp_all add: addRecord_def split: if_splits)
    have s: "fst ` set (xs @ [x]) = insert q (fst ` set xs)" by (simp add: x)
    show ?case
    proof (intro conjI allI)
      show "distinct order" "set order = fst ` set (xs @ [x])" unfolding s o using ih by (simp_all add: insert_absorb)
      show "getList bs p = map snd (filter (\<lambda>x. fst x = p) (xs @ [x]))" for p using ih by (simp add: b x)
      show "map_of bs p = None \<longleftrightarrow> p \<notin> fst ` set (xs @ [x])" for p unfolding s using ih by (simp add: b update_conv')
    qed
  qed
  then show "distinct order" "set order = fst ` set xs" "getList bs p = map snd (filter (\<lambda>x. fst x = p) xs)"
    "map_of bs p = None \<longleftrightarrow> p \<notin> fst ` set xs" by blast+
qed

lemma fillResults_length [simp]: "length (fillResults part base sub results) = length results"
proof -
  have "length (foldl (\<lambda>rs (j, (idx, r)). rs[idx := \<lparr>res_Partition = part, res_Offset = base + of_nat j\<rparr>]) results xs) = length results" for xs
    by (induction xs arbitrary: results) auto
  then show ?thesis by (simp add: fillResults_def)
qed

lemma fillResults_snoc:
  "fillResults part base (sub @ [(idx, r)]) results =
     (fillResults part base sub results)[idx := \<lparr>res_Partition = part, res_Offset = base + of_nat (length sub)\<rparr>]"
  by (simp add: fillResults_def enumerate_append_eq)

lemma fillResults_nth:
  assumes "distinct (map fst sub)" and "i < length results"
  shows "fillResults part base sub results ! i =
    (if i \<in> fst ` set sub then \<lparr>res_Partition = part, res_Offset = base + of_nat (length (takeWhile (\<lambda>x. fst x \<noteq> i) sub))\<rparr> else results ! i)"
  using assms
proof (induction sub rule: rev_induct)
  case Nil
  then show ?case by (simp add: fillResults_def)
next
  case (snoc x sub)
  obtain idx r where x: "x = (idx, r)" by fastforce
  have idx: "idx \<notin> fst ` set sub" using snoc.prems(1) by (simp add: x)
  then have "takeWhile (\<lambda>x. fst x \<noteq> idx) (sub @ [x]) = sub"
    by (subst takeWhile_append2) (auto simp: x)
  moreover have "takeWhile (\<lambda>x. fst x \<noteq> i) (sub @ [x]) = takeWhile (\<lambda>x. fst x \<noteq> i) sub" if i: "i \<in> fst ` set sub"
  proof -
    obtain y where "y \<in> set sub" "fst y = i" using i by blast
    then show ?thesis by (intro takeWhile_append1) simp_all
  qed
  moreover have "fillResults part base sub results ! i =
    (if i \<in> fst ` set sub then \<lparr>res_Partition = part, res_Offset = base + of_nat (length (takeWhile (\<lambda>x. fst x \<noteq> i) sub))\<rparr> else results ! i)"
    using snoc.IH snoc.prems by simp
  ultimately show ?case
    using idx snoc.prems(2) by (cases "i = idx") (simp_all add: x fillResults_snoc del: image_iff)
qed

section \<open>Produce on a standalone broker\<close>

lemma sint_partition [simp]:
  assumes "i < 2 ^ 31"
  shows "sint (of_nat i :: i32) = int i"
proof -
  have "sint (of_nat i :: i32) = sint (word_of_int (int i) :: i32)" by simp
  also have "\<dots> = signed_take_bit 31 (int i)" by (simp only: sint_sbintrunc') simp
  finally show ?thesis using assms by (simp add: signed_take_bit_int_eq_self)
qed

lemma topicPartition_at:
  "map_of (topics s) topic = Some t \<Longrightarrow> i < length (Partitions t) \<Longrightarrow> length (Partitions t) < 2 ^ 31 \<Longrightarrow>
     topicPartition topic (of_nat i) s = Inr (Some (Partitions t ! i))"
  by (simp add: topicPartition_def getTopic_def NumPartitions_def)

lemma putPartition_fields:
  assumes "map_of (topics (nd_store b)) topic = Some t" and "i < 2 ^ 31"
  shows "map_of (topics (nd_store (putPartition topic (of_nat i) pd b))) topic = Some (t\<lparr>Partitions := (Partitions t)[i := pd]\<rparr>)"
    and "b_repl (putPartition topic (of_nat i) pd b) = b_repl b" and "b_writers (putPartition topic (of_nat i) pd b) = b_writers b"
  using assms by (simp_all add: putPartition_def update_conv')

lemma produceBatches_ok:
  assumes "no_faults rt" and "\<not> b_repl b" and "map_of (topics (nd_store b)) topic = Some t" and "length (Partitions t) < 2 ^ 31"
    and "\<And>i. i < length (Partitions t) \<Longrightarrow> holds_log (Partitions t ! i) (log i)" and "\<And>i. i < length (Partitions t) \<Longrightarrow> writerFor topic (of_nat i) b"
    and "distinct is" and "\<And>p. send p = Answered"
    and "\<And>i. i \<in> set is \<Longrightarrow> i < length (Partitions t) \<and> recs i \<noteq> [] \<and> within_limits (fst (Partitions t ! i)) (recs i)"
    and "\<And>i. i \<in> set is \<Longrightarrow> map snd (getList batches (of_nat i)) = recs i"
  shows "\<exists>b' t'. produceBatches rt now send evs topic acks batches (map of_nat is) results b =
      Inr (Inr (foldl (\<lambda>rs i. fillResults (of_nat i) (nextOffset (fst (Partitions t ! i))) (getList batches (of_nat i)) rs) results is), b') \<and>
    map_of (topics (nd_store b')) topic = Some t' \<and> length (Partitions t') = length (Partitions t) \<and> \<not> b_repl b' \<and> b_writers b' = b_writers b \<and>
    (\<forall>i < length (Partitions t). FirstOffset (fst (Partitions t' ! i)) = FirstOffset (fst (Partitions t ! i)) \<and>
      nextOffset (fst (Partitions t' ! i)) = nextOffset (fst (Partitions t ! i)) + (if i \<in> set is then of_nat (length (recs i)) else 0) \<and>
      holds_log (Partitions t' ! i) (log i @ (if i \<in> set is then stampAll (nextOffset (fst (Partitions t ! i))) now (recs i) else [])))"
  using assms
proof (induction "is" arbitrary: b t log results)
  case Nil
  then show ?case by (intro exI [of _ b] exI [of _ t]) simp
next
  case (Cons i "is")
  have i: "i < length (Partitions t)" "recs i \<noteq> []" "within_limits (fst (Partitions t ! i)) (recs i)" "map snd (getList batches (of_nat i)) = recs i"
    "i < 2 ^ 31" using Cons.prems(4,9,10) by fastforce+
  obtain pd where w: "writerTurn rt now topic (of_nat i) (recs i) b = Inr (Inr (nextOffset (fst (Partitions t ! i))), putPartition topic (of_nat i) pd b)"
    and pd: "holds_log pd (log i @ stampAll (nextOffset (fst (Partitions t ! i))) now (recs i))"
      "nextOffset (fst pd) = nextOffset (fst (Partitions t ! i)) + of_nat (length (recs i))" "FirstOffset (fst pd) = FirstOffset (fst (Partitions t ! i))"
    using writerTurn_ok [OF Cons.prems(1) topicPartition_at [OF Cons.prems(3) i(1) Cons.prems(4)] Cons.prems(5) [OF i(1)] i(2,3), of now] .
  let ?b = "putPartition topic (of_nat i) pd b" and ?t = "t\<lparr>Partitions := (Partitions t)[i := pd]\<rparr>"
  let ?log = "log(i := log i @ stampAll (nextOffset (fst (Partitions t ! i))) now (recs i))"
  let ?fill = "\<lambda>t rs i. fillResults (of_nat i) (nextOffset (fst (Partitions t ! i))) (getList batches (of_nat i)) rs"
  let ?res = "?fill t results i"
  note f = putPartition_fields [OF Cons.prems(3) i(5), of pd]
  have ni: "i \<notin> set is" using Cons.prems(7) by simp
  then have other: "Partitions ?t ! j = Partitions t ! j" if "j \<in> set is" for j
    using that by (cases "j = i") simp_all
  have 1: "holds_log (Partitions ?t ! j) (?log j)" if "j < length (Partitions ?t)" for j
    using that Cons.prems(5) [of j] pd(1) i(1) by (cases "j = i") auto
  have 2: "writerFor topic (of_nat j) ?b" if "j < length (Partitions ?t)" for j
    using Cons.prems(6) [of j] that f(3) by (simp add: writerFor_def)
  have 3: "j < length (Partitions ?t) \<and> recs j \<noteq> [] \<and> within_limits (fst (Partitions ?t ! j)) (recs j)" if "j \<in> set is" for j
    using Cons.prems(9) [of j] other [OF that] that by simp
  have rep: "\<not> b_repl ?b" and len: "length (Partitions ?t) < 2 ^ 31" using f(2) Cons.prems(2,4) by simp_all
  have dist: "distinct is" using Cons.prems(7) by simp
  have sub: "map snd (getList batches (of_nat j)) = recs j" if "j \<in> set is" for j using Cons.prems(10) that by simp
  obtain b' t' where ih: "produceBatches rt now send evs topic acks batches (map of_nat is) ?res ?b = Inr (Inr (foldl (?fill ?t) ?res is), b')"
      "map_of (topics (nd_store b')) topic = Some t'" "length (Partitions t') = length (Partitions ?t)" "\<not> b_repl b'" "b_writers b' = b_writers ?b"
    and parts: "\<forall>j < length (Partitions ?t). FirstOffset (fst (Partitions t' ! j)) = FirstOffset (fst (Partitions ?t ! j)) \<and>
      nextOffset (fst (Partitions t' ! j)) = nextOffset (fst (Partitions ?t ! j)) + (if j \<in> set is then of_nat (length (recs j)) else 0) \<and>
      holds_log (Partitions t' ! j) (?log j @ (if j \<in> set is then stampAll (nextOffset (fst (Partitions ?t ! j))) now (recs j) else []))"
    using Cons.IH [OF Cons.prems(1) rep f(1) len 1 2 dist Cons.prems(8) 3 sub, of ?res] by blast
  have "foldl (?fill ?t) ?res is = foldl (?fill t) results (i # is)"
    using other by (simp cong: foldl_cong)
  then have run: "produceBatches rt now send evs topic acks batches (map of_nat (i # is)) results b = Inr (Inr (foldl (?fill t) results (i # is)), b')"
    using w i ih(1) rep Cons.prems(6,8) by (simp add: Let_def)
  show ?case
  proof (rule exI [of _ b'], rule exI [of _ t'], intro conjI allI impI)
    fix j assume j: "j < length (Partitions t)"
    then have p: "FirstOffset (fst (Partitions t' ! j)) = FirstOffset (fst (Partitions ?t ! j))"
      "nextOffset (fst (Partitions t' ! j)) = nextOffset (fst (Partitions ?t ! j)) + (if j \<in> set is then of_nat (length (recs j)) else 0)"
      "holds_log (Partitions t' ! j) (?log j @ (if j \<in> set is then stampAll (nextOffset (fst (Partitions ?t ! j))) now (recs j) else []))"
      using parts by auto
    show "FirstOffset (fst (Partitions t' ! j)) = FirstOffset (fst (Partitions t ! j))" using p(1) pd(3) j i(1) by (cases "j = i") auto
    show "nextOffset (fst (Partitions t' ! j)) = nextOffset (fst (Partitions t ! j)) + (if j \<in> set (i # is) then of_nat (length (recs j)) else 0)"
      using p(2) pd(2) j i(1) ni by (cases "j = i") auto
    show "holds_log (Partitions t' ! j) (log j @ (if j \<in> set (i # is) then stampAll (nextOffset (fst (Partitions t ! j))) now (recs j) else []))"
      using p(3) j i(1) ni by (cases "j = i") auto
  qed (use run ih f(3) in simp_all)
qed

text \<open>Where the records go: the requested partition, or by the hash of the key, or anywhere when there is none.\<close>

definition routed :: "i32 \<Rightarrow> nat \<Rightarrow> Message list \<Rightarrow> nat list \<Rightarrow> bool" where
  "routed req n ms ps \<longleftrightarrow> list_all2 (\<lambda>m p. p < n \<and>
     (if sint req < 0 then m_Key m \<noteq> [] \<longrightarrow> p = unat (fnv32a (m_Key m)) mod n else p = nat (sint req))) ms ps"

lemma assignPartitions_ok:
  assumes "0 < length (Partitions t)" and "sint req < int (length (Partitions t))"
  shows "\<exists>ps c. assignPartitions req ms t = Inr (Inr (map of_nat ps), t\<lparr>rr := c\<rparr>) \<and> routed req (length (Partitions t)) ms ps"
  using assms
proof (induction ms arbitrary: t)
  case Nil
  show ?case by (intro exI [of _ "[]"] exI [of _ "rr t"]) (simp add: routed_def)
next
  case (Cons m ms)
  let ?n = "length (Partitions t)"
  obtain i c where pick: "(if sint req < 0 then PickPartition (m_Key m) t else (Inr (nat (sint req)), t)) = (Inr i, t\<lparr>rr := c\<rparr>)"
    and i: "i < ?n" "if sint req < 0 then m_Key m \<noteq> [] \<longrightarrow> i = unat (fnv32a (m_Key m)) mod ?n else i = nat (sint req)"
  proof (cases "sint req < 0")
    case True
    then show thesis using Cons.prems that [of "unat (fnv32a (m_Key m)) mod ?n" "rr t"] that [of "unat (rr t + 1) mod ?n" "rr t + 1"]
      by (cases "m_Key m = []") (simp_all add: PickPartition_def)
  next
    case False
    then show thesis using Cons.prems that [of "nat (sint req)" "rr t"] by (simp add: nat_less_iff)
  qed
  obtain ps c' where "assignPartitions req ms (t\<lparr>rr := c\<rparr>) = Inr (Inr (map of_nat ps), t\<lparr>rr := c\<rparr>\<lparr>rr := c'\<rparr>)" "routed req ?n ms ps"
    using Cons.IH [of "t\<lparr>rr := c\<rparr>"] Cons.prems by auto
  then have "assignPartitions req (m # ms) t = Inr (Inr (map of_nat (i # ps)), t\<lparr>rr := c'\<rparr>) \<and> routed req ?n (m # ms) (i # ps)"
    using pick i by (simp add: Let_def NumPartitions_def routed_def)
  then show ?case by blast
qed

lemma within_limits_filter: "within_limits p (map f xs) \<Longrightarrow> within_limits p (map f (filter P xs))"
proof -
  assume w: "within_limits p (map f xs)"
  have l: "length (enc_all (map f (filter P xs))) \<le> length (enc_all (map f xs))"
    by (induction xs) (simp_all add: enc_all_def)
  have "length (filter P xs) \<le> length xs" by simp
  then have "length (map f (filter P xs)) \<le> length (map f xs)" by simp
  moreover have "list_all encodable (map f (filter P xs))" "small_records (map f (filter P xs))"
    using w by (auto simp: within_limits_def list_all_iff small_records_def)
  ultimately show ?thesis using w l unfolding within_limits_def by linarith
qed

text \<open>The records of partition \<open>i\<close> with their positions.\<close>

definition share :: "nat list \<Rightarrow> 'a list \<Rightarrow> nat \<Rightarrow> (nat \<times> 'a) list" where
  "share ps rs i = map snd (filter (\<lambda>x. fst x = i) (zip ps (enumerate 0 rs)))"

lemma share_records: "map snd (share ps rs i) = map snd (filter (\<lambda>x. fst x = i) (zip ps rs))"
proof -
  have "map snd (map snd (filter (\<lambda>x. fst x = i) (zip ps (enumerate k rs)))) = map snd (filter (\<lambda>x. fst x = i) (zip ps rs))" for k
  proof (induction ps arbitrary: rs k)
    case (Cons q ps)
    then show ?case by (cases rs) simp_all
  qed simp
  then show ?thesis by (simp add: share_def)
qed

lemma share_positions: "length ps = length rs \<Longrightarrow> map fst (share ps rs i) = filter (\<lambda>j. ps ! j = i) [0 ..< length ps]"
proof (induction ps rs rule: rev_induct2)
  case (4 q ps r rs)
  then show ?case by (auto simp: share_def enumerate_append_eq nth_append intro!: filter_cong)
qed (simp_all add: share_def)

lemma share_place:
  assumes "length ps = length rs" and "j < length ps" and "ps ! j = i"
  shows "length (takeWhile (\<lambda>x. fst x \<noteq> j) (share ps rs i)) = count_list (take j ps) i"
proof -
  have up: "[0 ..< length ps] = [0 ..< j] @ j # [Suc j ..< length ps]"
    using assms(2) upt_join [of 0 j "length ps"] by (simp add: upt_conv_Cons)
  have "map fst (takeWhile (\<lambda>x. fst x \<noteq> j) (share ps rs i)) = takeWhile (\<lambda>k. k \<noteq> j) (map fst (share ps rs i))"
    by (simp add: takeWhile_map comp_def)
  also have "\<dots> = filter (\<lambda>k. ps ! k = i) [0 ..< j]"
    unfolding share_positions [OF assms(1)] up using assms(3) by (subst filter_append, subst takeWhile_append2) auto
  finally have "length (takeWhile (\<lambda>x. fst x \<noteq> j) (share ps rs i)) = length (filter (\<lambda>k. ps ! k = i) [0 ..< j])" by (metis length_map)
  also have "\<dots> = length (filter (\<lambda>q. q = i) (map ((!) ps) [0 ..< j]))" by (simp add: filter_map comp_def)
  also have "map ((!) ps) [0 ..< j] = take j ps" using assms(2) by (simp add: list_eq_iff_nth_eq)
  also have "length (filter (\<lambda>q. q = i) (take j ps)) = count_list (take j ps) i"
    unfolding count_list_eq_length_filter by (rule arg_cong [of _ _ length], rule filter_cong) auto
  finally show ?thesis .
qed

lemma fill_all_nth:
  assumes "j < length results" and "\<And>i. i \<in> set is \<Longrightarrow> distinct (map fst (sub i))" and "\<And>i. i \<in> set is \<Longrightarrow> j \<in> fst ` set (sub i) \<Longrightarrow> i = k"
    and "k \<in> set is" and "j \<in> fst ` set (sub k)"
  shows "foldl (\<lambda>rs i. fillResults (of_nat i) (base i) (sub i) rs) results is ! j =
    \<lparr>res_Partition = of_nat k, res_Offset = base k + of_nat (length (takeWhile (\<lambda>x. fst x \<noteq> j) (sub k)))\<rparr>"
  using assms(2-4)
proof (induction "is" rule: rev_induct)
  case (snoc i "is")
  let ?rs = "foldl (\<lambda>rs i. fillResults (of_nat i) (base i) (sub i) rs) results is"
  have l: "length ?rs = length results" by (induction "is" arbitrary: results) simp_all
  show ?case
  proof (cases "i = k")
    case True
    then show ?thesis using fillResults_nth [of "sub k" j ?rs] snoc.prems(1) assms(1,5) l by simp
  next
    case False
    then have "j \<notin> fst ` set (sub i)" "k \<in> set is" using snoc.prems(2,3) by auto
    then show ?thesis using fillResults_nth [of "sub i" j ?rs] snoc assms(1) l by simp
  qed
qed simp

text \<open>A topic of a standalone broker with a log and a writer for every partition.\<close>

definition serves_topic :: "Broker \<Rightarrow> string \<Rightarrow> Topic \<Rightarrow> (nat \<Rightarrow> Record list) \<Rightarrow> bool" where
  "serves_topic b topic t log \<longleftrightarrow> \<not> b_repl b \<and> map_of (topics (nd_store b)) topic = Some t \<and>
     0 < length (Partitions t) \<and> length (Partitions t) < 2 ^ 31 \<and>
     (\<forall>i < length (Partitions t). holds_log (Partitions t ! i) (log i) \<and> writerFor topic (of_nat i) b)"

definition partitionEnd :: "Topic \<Rightarrow> nat \<Rightarrow> u64" where
  "partitionEnd t i = nextOffset (fst (Partitions t ! i))"

definition produceResults :: "Topic \<Rightarrow> nat list \<Rightarrow> ProduceResult list" where
  "produceResults t ps = map (\<lambda>j. \<lparr>res_Partition = of_nat (ps ! j),
     res_Offset = partitionEnd t (ps ! j) + of_nat (count_list (take j ps) (ps ! j))\<rparr>) [0 ..< length ps]"

definition extendedLog :: "Topic \<Rightarrow> i64 \<Rightarrow> nat list \<Rightarrow> Message list \<Rightarrow> (nat \<Rightarrow> Record list) \<Rightarrow> nat \<Rightarrow> Record list" where
  "extendedLog t now ps ms log i =
     log i @ stampAll (partitionEnd t i) now (map (toRecord \<circ> snd) (filter (\<lambda>x. fst x = i) (zip ps ms)))"

lemma groupRecords_share:
  assumes g: "groupRecords (map of_nat ps) ms = (order, bs)" and ps: "length ps = length ms" "\<And>p. p \<in> set ps \<Longrightarrow> p < 2 ^ 31"
  obtains "is" where "order = map of_nat is" and "distinct is" and "set is = set ps"
    and "\<And>i. i < 2 ^ 31 \<Longrightarrow> getList bs (of_nat i) = share ps (map toRecord ms) i"
proof -
  let ?xs = "zip (map of_nat ps) (enumerate 0 (map toRecord ms)) :: (i32 \<times> nat \<times> Record) list"
  note f = groupRecords_fold [OF g [unfolded groupRecords_def]]
  have "fst ` set ?xs = set (map fst ?xs)" by simp
  also have "map fst ?xs = map of_nat ps" using ps(1) by simp
  finally have so: "set order = (of_nat :: nat \<Rightarrow> i32) ` set ps" using f(2) by simp
  have inv: "nat (sint (of_nat i :: i32)) = i" if "i < 2 ^ 31" for i using that by simp
  have "order = map (of_nat \<circ> (\<lambda>w. nat (sint w))) order"
    using so inv ps(2) by (intro map_idI [symmetric]) fastforce
  then have o: "order = map of_nat (map (\<lambda>w. nat (sint w)) order)" by simp
  have inj: "inj_on (\<lambda>w. nat (sint w)) (set order)"
    unfolding so using inv ps(2) by (fastforce intro!: inj_onI)
  have si: "set (map (\<lambda>w. nat (sint w)) order) = set ps"
    using inv ps(2) by (force simp: so image_image)
  have sub: "getList bs (of_nat i) = share ps (map toRecord ms) i" if "i < 2 ^ 31" for i
  proof -
    have eq: "(of_nat q :: i32) = of_nat i \<longleftrightarrow> q = i" if "q \<in> set ps" for q using inv \<open>i < 2 ^ 31\<close> ps(2) [OF that] by metis
    have "?xs = map (\<lambda>(q, x). (of_nat q, x)) (zip ps (enumerate 0 (map toRecord ms)))" by (simp add: zip_map1)
    then have "map snd (filter (\<lambda>x. fst x = of_nat i) ?xs) =
      map snd (filter (\<lambda>x. (of_nat (fst x) :: i32) = of_nat i) (zip ps (enumerate 0 (map toRecord ms))))"
      by (simp add: filter_map comp_def case_prod_beta)
    also have "filter (\<lambda>x. (of_nat (fst x) :: i32) = of_nat i) (zip ps (enumerate 0 (map toRecord ms))) =
      filter (\<lambda>x. fst x = i) (zip ps (enumerate 0 (map toRecord ms)))"
      using eq by (intro filter_cong) (auto dest: set_zip_leftD)
    finally show ?thesis using f(3) [of "of_nat i"] by (simp add: share_def)
  qed
  show thesis using that [OF o _ si sub] f(1) inj by (simp add: distinct_map)
qed

lemma putTopic_fields [simp]:
  "map_of (topics (nd_store (putTopic name t b))) name = Some t" "b_repl (putTopic name t b) = b_repl b"
  "b_writers (putTopic name t b) = b_writers b" "writerFor topic p (putTopic name t b) = writerFor topic p b"
  by (simp_all add: putTopic_def update_conv' writerFor_def)

lemma replPart_put: "replPart topic part (putTopic name t b) = replPart topic part b" "nd_cl (putTopic name t b) = nd_cl b"
  by (simp_all add: putTopic_def replPart_def)

lemma share_message: "map snd (share ps (map f ms) i) = map (f \<circ> snd) (filter (\<lambda>x. fst x = i) (zip ps ms))"
  by (simp add: share_records zip_map2 filter_map comp_def case_prod_beta)

lemma share_length: "length ps = length ms \<Longrightarrow> length (filter (\<lambda>x. fst x = i) (zip ps ms)) = count_list ps i"
proof -
  assume l: "length ps = length ms"
  have "length (filter (\<lambda>x. fst x = i) (zip ps ms)) = length (map fst (filter (\<lambda>x. fst x = i) (zip ps ms)))" by simp
  also have "map fst (filter (\<lambda>x. fst x = i) (zip ps ms)) = filter (\<lambda>p. p = i) (map fst (zip ps ms))"
    by (simp add: filter_map comp_def)
  finally show ?thesis using l by (simp add: count_list_eq_length_filter) (metis (mono_tags))
qed

lemma share_limits:
  assumes "length ps = length ms" and "within_limits p (map toRecord ms)"
  shows "within_limits p (map (toRecord \<circ> snd) (filter (\<lambda>x. fst x = i) (zip ps ms)))"
proof -
  have "map (toRecord \<circ> snd) (zip ps ms) = map toRecord ms" using assms(1) by (metis map_map map_snd_zip)
  then show ?thesis using within_limits_filter [of p "toRecord \<circ> snd" "zip ps ms"] assms(2) by simp
qed

lemma produceResults_fold:
  assumes "length ps = length ms" and "set is = set ps"
  shows "foldl (\<lambda>rs i. fillResults (of_nat i) (partitionEnd t i) (share ps ms i) rs) (replicate (length ms) z) is = produceResults t ps"
    (is "?l = _")
proof (rule nth_equalityI)
  have "length (foldl (\<lambda>rs i. fillResults (of_nat i) (partitionEnd t i) (share ps ms i) rs) xs is) = length xs" for xs
    by (induction "is" arbitrary: xs) simp_all
  then show len: "length ?l = length (produceResults t ps)" using assms(1) by (simp add: produceResults_def)
  fix j assume "j < length ?l"
  then have j: "j < length ps" using len by (simp add: produceResults_def)
  have pos: "k \<in> fst ` set (share ps ms i) \<longleftrightarrow> k < length ps \<and> ps ! k = i" for k i
  proof -
    have "fst ` set (share ps ms i) = set (map fst (share ps ms i))" by simp
    then show ?thesis unfolding share_positions [OF assms(1)] by auto
  qed
  have "?l ! j = \<lparr>res_Partition = of_nat (ps ! j),
    res_Offset = partitionEnd t (ps ! j) + of_nat (length (takeWhile (\<lambda>x. fst x \<noteq> j) (share ps ms (ps ! j))))\<rparr>"
    by (rule fill_all_nth) (use j assms in \<open>auto simp: pos share_positions\<close>)
  then show "?l ! j = produceResults t ps ! j"
    using share_place [OF assms(1) j] j by (simp add: produceResults_def)
qed

lemma acks_cases: "(a :: byte) \<le> 2 \<Longrightarrow> a = 0 \<or> a = AcksLeader \<or> a = AcksAll"
  unfolding AcksLeader_def AcksAll_def by unat_arith

lemma Produce_ok:
  assumes nf: "no_faults rt" and srv: "serves_topic b (pr_Topic req) t log" and ne: "pr_Records req \<noteq> []"
    and part: "sint (pr_Partition req) < int (length (Partitions t))" and acks: "pr_Acks req \<le> 2" and send: "send = (\<lambda>_. Answered)"
    and lim: "\<forall>i < length (Partitions t). within_limits (fst (Partitions t ! i)) (map toRecord (pr_Records req))"
  obtains ps b' t' where "routed (pr_Partition req) (length (Partitions t)) (pr_Records req) ps"
    and "Produce rt now send evs req b = Inr (Inr (produceResults t ps), b')"
    and "serves_topic b' (pr_Topic req) t' (extendedLog t now ps (pr_Records req) log)" and "length (Partitions t') = length (Partitions t)"
    and "\<And>i. i < length (Partitions t) \<Longrightarrow> FirstOffset (fst (Partitions t' ! i)) = FirstOffset (fst (Partitions t ! i)) \<and>
      partitionEnd t' i = partitionEnd t i + of_nat (count_list ps i)"
proof -
  let ?ms = "pr_Records req" and ?T = "pr_Topic req" and ?n = "length (Partitions t)"
  note s = srv [unfolded serves_topic_def]
  obtain ps c where as: "assignPartitions (pr_Partition req) ?ms t = Inr (Inr (map of_nat ps), t\<lparr>rr := c\<rparr>)"
    and r: "routed (pr_Partition req) ?n ?ms ps"
    using assignPartitions_ok [of t "pr_Partition req" ?ms] s part by auto
  have ps: "length ps = length ?ms" "\<And>p. p \<in> set ps \<Longrightarrow> p < ?n"
    using r by (auto simp: routed_def list_all2_conv_all_nth in_set_conv_nth)
  obtain order bs where g: "groupRecords (map of_nat ps) ?ms = (order, bs)" by fastforce
  obtain "is" where o: "order = map of_nat is" "distinct is" "set is = set ps"
    and sub: "\<And>i. i < 2 ^ 31 \<Longrightarrow> getList bs (of_nat i) = share ps (map toRecord ?ms) i"
    by (rule groupRecords_share [OF g ps(1)]) (use ps(2) s in fastforce, rule that)
  let ?b = "putTopic ?T (t\<lparr>rr := c\<rparr>) b" and ?t = "t\<lparr>rr := c\<rparr>"
  let ?acks = "if pr_Acks req = 0 then AcksLeader else pr_Acks req"
  let ?recs = "\<lambda>i. map (toRecord \<circ> snd) (filter (\<lambda>x. fst x = i) (zip ps ?ms))"
  let ?rs0 = "replicate (length ?ms) \<lparr>res_Partition = 0, res_Offset = 0\<rparr>"
  have small: "i < 2 ^ 31" if "i \<in> set is" for i using that ps(2) [of i] o(3) s by simp
  have w1: "i < length (Partitions ?t) \<and> ?recs i \<noteq> [] \<and> within_limits (fst (Partitions ?t ! i)) (?recs i)" if "i \<in> set is" for i
  proof -
    have i: "i \<in> set ps" "i < ?n" using that o(3) ps(2) by auto
    then have "?recs i \<noteq> []" using share_length [OF ps(1), of i] by (metis count_list_0_iff length_0_conv map_is_Nil_conv)
    then show ?thesis using share_limits [OF ps(1) lim [rule_format, OF i(2)]] i(2) by simp
  qed
  have w2: "map snd (getList bs (of_nat i)) = ?recs i" if "i \<in> set is" for i
    using sub [OF small [OF that]] by (simp add: share_message)
  obtain b' t' where run: "produceBatches rt now send evs ?T ?acks bs (map of_nat is) ?rs0 ?b =
      Inr (Inr (foldl (\<lambda>rs i. fillResults (of_nat i) (nextOffset (fst (Partitions ?t ! i))) (getList bs (of_nat i)) rs) ?rs0 is), b')"
    and b': "map_of (topics (nd_store b')) ?T = Some t'" "length (Partitions t') = length (Partitions ?t)" "\<not> b_repl b'" "b_writers b' = b_writers ?b"
    and parts: "\<forall>i < length (Partitions ?t). FirstOffset (fst (Partitions t' ! i)) = FirstOffset (fst (Partitions ?t ! i)) \<and>
      nextOffset (fst (Partitions t' ! i)) = nextOffset (fst (Partitions ?t ! i)) + (if i \<in> set is then of_nat (length (?recs i)) else 0) \<and>
      holds_log (Partitions t' ! i) (log i @ (if i \<in> set is then stampAll (nextOffset (fst (Partitions ?t ! i))) now (?recs i) else []))"
    using produceBatches_ok [of rt ?b ?T ?t log "is" send ?recs bs now evs ?acks ?rs0, OF nf _ _ _ _ _ o(2) _ w1 w2] send s by auto
  have "foldl (\<lambda>rs i. fillResults (of_nat i) (nextOffset (fst (Partitions ?t ! i))) (getList bs (of_nat i)) rs) ?rs0 is =
    foldl (\<lambda>rs i. fillResults (of_nat i) (partitionEnd t i) (share ps (map toRecord ?ms) i) rs) ?rs0 is"
    by (rule foldl_cong) (use sub small in \<open>simp_all add: partitionEnd_def\<close>)
  also have "\<dots> = produceResults t ps" using produceResults_fold [of ps "map toRecord ?ms" "is" t] ps(1) o(3) by simp
  finally have "foldl (\<lambda>rs i. fillResults (of_nat i) (nextOffset (fst (Partitions ?t ! i))) (getList bs (of_nat i)) rs) ?rs0 is = produceResults t ps" .
  then have prod: "Produce rt now send evs req b = Inr (Inr (produceResults t ps), b')"
    using run ne s as g o(1) acks_cases [OF acks] by (auto simp: Produce_def getTopic_def Let_def)
  have "holds_log (Partitions t' ! i) (extendedLog t now ps ?ms log i)" if i: "i < ?n" for i
  proof (cases "i \<in> set is")
    case False
    then have "?recs i = []" using share_length [OF ps(1), of i] o(3) by (simp add: count_list_0_iff)
    then have "stampAll (partitionEnd t i) now (?recs i) = []" by (simp add: stampAll_def)
    moreover have "holds_log (Partitions t' ! i) (log i @ [])" using parts [rule_format, of i] i False by simp
    ultimately show ?thesis by (simp add: extendedLog_def)
  next
    case True
    then show ?thesis using parts [rule_format, of i] i by (simp add: extendedLog_def partitionEnd_def)
  qed
  then have srv': "serves_topic b' ?T t' (extendedLog t now ps ?ms log)"
    unfolding serves_topic_def using b' s by (simp add: writerFor_def)
  show thesis
  proof (rule that [OF r prod srv'])
    fix i assume i: "i < ?n"
    have "(if i \<in> set is then of_nat (length (?recs i)) else 0) = (of_nat (count_list ps i) :: u64)"
      using share_length [OF ps(1), of i] o(3) by (simp add: count_list_0_iff)
    then show "FirstOffset (fst (Partitions t' ! i)) = FirstOffset (fst (Partitions t ! i)) \<and>
      partitionEnd t' i = partitionEnd t i + of_nat (count_list ps i)"
      using parts [rule_format, of i] i by (simp add: partitionEnd_def)
  qed (use b'(2) in simp)
qed

section \<open>Fetch on the log\<close>

text \<open>How far consumers may read: the committed offset in a cluster, the end of the log otherwise.\<close>

definition readableEnd :: "string \<Rightarrow> nat \<Rightarrow> Topic \<Rightarrow> Broker \<Rightarrow> u64" where
  "readableEnd topic i t b =
     (if b_repl b then min (partitionRepl.committed (replPart topic (of_nat i) b)) (partitionEnd t i) else partitionEnd t i)"

lemma part_inv_below:
  assumes "part_inv p d rss" and "r \<in> set (concat rss)"
  shows "Offset r < nextOffset p"
proof -
  obtain ss s crs rs where segs: "segments p = ss @ [s]" "rss = crs @ [rs]" and ch: "chain (gapsAllowed p) ss crs (unat (baseOffset s))"
    and rng: "range_ok (gapsAllowed p) (unat (baseOffset s)) rs (unat (nextOffset p))"
    using assms(1) unfolding part_inv_def by blast
  have "roff r < unat (nextOffset p)"
    using assms(2) chain_records [OF ch, of r] rng segs by (cases "r \<in> set rs") (auto simp: range_ok_def)
  then show ?thesis by (simp add: word_less_nat_alt)
qed

lemma part_inv_first: "part_inv p d rss \<Longrightarrow> FirstOffset p \<le> nextOffset p"
proof -
  assume inv: "part_inv p d rss"
  obtain ss s crs rs where segs: "segments p = ss @ [s]" "rss = crs @ [rs]" and ch: "chain (gapsAllowed p) ss crs (unat (baseOffset s))"
    using inv unfolding part_inv_def by blast
  have "unat (baseOffset (hd (ss @ [s]))) \<le> unat (baseOffset s)" using chain_bases [OF ch, of "hd ss"] by (cases ss) simp_all
  also have "\<dots> \<le> unat (nextOffset p)" using part_invD(6) [OF inv] segs by simp
  finally show ?thesis using segs by (simp add: FirstOffset_def word_le_nat_alt)
qed

lemma holds_log_below: "holds_log pd log \<Longrightarrow> r \<in> set log \<Longrightarrow> Offset r < nextOffset (fst pd)"
  unfolding holds_log_def by (elim conjE exE) (rule part_inv_below, assumption, simp)

lemma holds_log_first: "holds_log pd log \<Longrightarrow> FirstOffset (fst pd) \<le> nextOffset (fst pd)"
  unfolding holds_log_def using part_inv_first by blast

lemma batch_subset: "set (batch n m rs) \<subseteq> set rs"
  by (induction n m rs rule: batch.induct) auto

definition fetchResponse :: "u64 \<Rightarrow> FetchRequest \<Rightarrow> Record list \<Rightarrow> FetchResponse" where
  "fetchResponse e req log = \<lparr>fp_HighWatermark = e,
     fp_Records = map toFetched (takeWhile (\<lambda>r. Offset r < e)
       (batch (nat (fetchMaxRecords (fr_MaxRecords req))) (nat (fetchMaxBytes (fr_MaxBytes req))) (filter (\<lambda>r. fr_Offset req \<le> Offset r) log)))\<rparr>"

lemma fetch_limits_pos: "0 < fetchMaxRecords w" "0 < fetchMaxBytes w"
proof -
  have "w \<noteq> 0 \<Longrightarrow> 0 < uint w" by (simp add: word_neq_0_conv word_less_def)
  then show "0 < fetchMaxRecords w" "0 < fetchMaxBytes w" by (auto simp: fetchMaxRecords_def fetchMaxBytes_def Let_def)
qed

lemma Fetch_ok:
  assumes nf: "no_faults rt" and t: "map_of (topics (nd_store b)) (fr_Topic req) = Some t" and i: "i < length (Partitions t)" "length (Partitions t) < 2 ^ 31"
    and part: "fr_Partition req = of_nat i" and log: "holds_log (Partitions t ! i) log"
    and grp: "fr_Group req = [] \<or> CheckFetch (fr_Group req) (fr_MemberID req) (fr_Generation req) (b_groups b) = Inr ()"
    and off: "FirstOffset (fst (Partitions t ! i)) \<le> fr_Offset req" "fr_Offset req \<le> partitionEnd t i"
  shows "b_Fetch rt req b = Inr (Inr (fetchResponse (readableEnd (fr_Topic req) i t b) req log))"
proof -
  obtain p d where pd: "Partitions t ! i = (p, d)" by fastforce
  let ?m = "fetchMaxRecords (fr_MaxRecords req)" and ?y = "fetchMaxBytes (fr_MaxBytes req)"
  let ?recs = "batch (nat ?m) (nat ?y) (filter (\<lambda>r. fr_Offset req \<le> Offset r) log)"
  obtain rss where rss: "part_inv p d rss" "\<not> closed p" "concat rss = log" using log by (auto simp: holds_log_def pd)
  have rd: "Read rt p d (fr_Offset req) ?m ?y = Inr ?recs"
    using Read_ok [OF nf rss(1,2) _ _ fetch_limits_pos, of "fr_Offset req"] off rss(3) by (simp add: pd partitionEnd_def)
  have "Offset r < partitionEnd t i" if "r \<in> set ?recs" for r
    using that batch_subset [of "nat ?m" "nat ?y"] holds_log_below [OF log] by (fastforce simp: partitionEnd_def)
  then have all: "takeWhile (\<lambda>r. Offset r < partitionEnd t i) ?recs = ?recs" by simp
  have tp: "topicPartition (fr_Topic req) (of_nat i) (nd_store b) = Inr (Some (p, d))" using topicPartition_at [OF t i] pd by simp
  have c: "(if b_repl b then committedFor (fr_Topic req) (of_nat i) b else Inr (HighWatermark p)) = Inr (readableEnd (fr_Topic req) i t b)"
    using tp by (auto simp: committedFor_def Let_def readableEnd_def HighWatermark_def partitionEnd_def pd min_def)
  have e: "(if readableEnd (fr_Topic req) i t b < HighWatermark p then readableEnd (fr_Topic req) i t b else HighWatermark p) = readableEnd (fr_Topic req) i t b"
    by (simp add: readableEnd_def HighWatermark_def partitionEnd_def pd min_def)
  have v: "(if b_repl b then takeWhile (\<lambda>r. \<not> readableEnd (fr_Topic req) i t b \<le> Offset r) ?recs else ?recs) =
    takeWhile (\<lambda>r. Offset r < readableEnd (fr_Topic req) i t b) ?recs"
  proof (cases "b_repl b")
    case False
    then have "takeWhile (\<lambda>r. Offset r < readableEnd (fr_Topic req) i t b) ?recs = ?recs" using all by (simp only: readableEnd_def if_False)
    then show ?thesis using False by (simp only: if_False)
  qed (simp add: not_le)
  have g: "\<not> (fr_Group req \<noteq> [] \<and> CheckFetch (fr_Group req) (fr_MemberID req) (fr_Generation req) (b_groups b) \<noteq> Inr ())" using grp by blast
  have s: "sint (fr_Partition req) = int i" using part i by simp
  have r: "\<not> (int i < 0 \<or> int (NumPartitions t) \<le> int i)" using i by (simp add: NumPartitions_def)
  show ?thesis
    unfolding b_Fetch_def getTopic_def t option.case sum.case s if_not_P [OF r] if_not_P [OF g] Let_def nat_int pd prod.case rd
    unfolding unrecovered_simps(1) part c bindS_simps sum.case e v fetchResponse_def
    by (rule refl)
qed

section \<open>What was produced is fetched\<close>

lemma share_nth:
  assumes "length ps = length ms" and "j < length ps"
  shows "count_list (take j ps) (ps ! j) < count_list ps (ps ! j)"
    and "filter (\<lambda>x. fst x = ps ! j) (zip ps ms) ! count_list (take j ps) (ps ! j) = (ps ! j, ms ! j)"
proof -
  have z: "zip ps ms = zip (take j ps) (take j ms) @ (ps ! j, ms ! j) # zip (drop (Suc j) ps) (drop (Suc j) ms)"
    using assms by (metis id_take_nth_drop length_take length_zip min_less_iff_conj nth_zip take_zip drop_zip)
  have l: "length (filter (\<lambda>x. fst x = ps ! j) (zip (take j ps) (take j ms))) = count_list (take j ps) (ps ! j)"
    using share_length [of "take j ps" "take j ms" "ps ! j"] assms by simp
  show "filter (\<lambda>x. fst x = ps ! j) (zip ps ms) ! count_list (take j ps) (ps ! j) = (ps ! j, ms ! j)"
    unfolding z using l by (simp add: nth_append)
  have "ps = take j ps @ ps ! j # drop (Suc j) ps" using assms(2) by (rule id_take_nth_drop)
  then have "count_list ps (ps ! j) = count_list (take j ps @ ps ! j # drop (Suc j) ps) (ps ! j)" by (rule arg_cong [where f = "\<lambda>xs. count_list xs (ps ! j)"])
  also have "\<dots> = count_list (take j ps) (ps ! j) + (1 + count_list (drop (Suc j) ps) (ps ! j))" by simp
  finally show "count_list (take j ps) (ps ! j) < count_list ps (ps ! j)" by simp
qed

lemma unat_add_small: "unat (w :: u64) + k < 2 ^ 64 \<Longrightarrow> unat (w + of_nat k) = unat w + k"
  by (simp add: unat_word_ariths unat_of_nat)

lemma filter_stamped:
  assumes "\<And>r. r \<in> set log \<Longrightarrow> Offset r < base" and "unat base + length rs < 2 ^ 64" and "k < length rs"
  shows "filter (\<lambda>r. base + of_nat k \<le> Offset r) (log @ stampAll base now rs) = drop k (stampAll base now rs)"
proof -
  have o: "unat (base + of_nat i :: u64) = unat base + i" if "i < length rs" for i
    using that assms(2) by (intro unat_add_small) simp
  have "filter (\<lambda>r. base + of_nat k \<le> Offset r) log = []"
  proof (rule ccontr)
    assume "filter (\<lambda>r. base + of_nat k \<le> Offset r) log \<noteq> []"
    then obtain r where r: "r \<in> set log" "base + of_nat k \<le> Offset r" by (auto simp: filter_empty_conv)
    then show False using assms(1) [OF r(1)] o [OF assms(3)] by (simp add: word_le_nat_alt word_less_nat_alt)
  qed
  moreover have "filter (\<lambda>r. base + of_nat k \<le> Offset r) (take k (stampAll base now rs)) = []"
    using o assms(3) by (auto simp: filter_empty_conv in_set_conv_nth stampAll_nth stampRecord_def word_le_nat_alt)
  moreover have "filter (\<lambda>r. base + of_nat k \<le> Offset r) (drop k (stampAll base now rs)) = drop k (stampAll base now rs)"
  proof (rule filter_True, rule ballI)
    fix r assume "r \<in> set (drop k (stampAll base now rs))"
    then obtain i where "i < length rs - k" "r = stampAll base now rs ! (k + i)" by (auto simp: in_set_conv_nth)
    then have i: "k + i < length rs" "r = stampAll base now rs ! (k + i)" by simp_all
    then have "Offset r = base + of_nat (k + i)" by (simp add: stampAll_nth stampRecord_def)
    then show "base + of_nat k \<le> Offset r" using o [OF i(1)] o [OF assms(3)] by (simp only: word_le_nat_alt)
  qed
  ultimately show ?thesis by (metis append_Nil append_take_drop_id filter_append)
qed

lemma hd_batch: "rs \<noteq> [] \<Longrightarrow> batch n m rs \<noteq> [] \<and> hd (batch n m rs) = hd rs"
  by (cases rs) simp_all

lemma headers_back [simp]: "convertHeadersBack (convertHeaders hs) = hs"
  unfolding convertHeaders_def convertHeadersBack_def map_map by (rule map_idI) simp

lemma extendedLog_from:
  assumes "holds_log (Partitions t ! (ps ! j)) (log (ps ! j))" and "length ps = length ms" and "j < length ps"
    and "unat (partitionEnd t (ps ! j)) + length ms < 2 ^ 64"
  shows "\<exists>rest. filter (\<lambda>r. partitionEnd t (ps ! j) + of_nat (count_list (take j ps) (ps ! j)) \<le> Offset r) (extendedLog t now ps ms log (ps ! j)) =
    stampRecord (partitionEnd t (ps ! j)) now (count_list (take j ps) (ps ! j)) (toRecord (ms ! j)) # rest"
proof -
  let ?i = "ps ! j" and ?k = "count_list (take j ps) (ps ! j)"
  let ?rs = "map (toRecord \<circ> snd) (filter (\<lambda>x. fst x = ?i) (zip ps ms))"
  note k = share_nth [OF assms(2,3)]
  have len: "length ?rs = count_list ps ?i" using share_length [OF assms(2)] by simp
  have "count_list ps ?i \<le> length ms" using assms(2) count_le_length [of ps ?i] by simp
  then have "filter (\<lambda>r. partitionEnd t ?i + of_nat ?k \<le> Offset r) (log ?i @ stampAll (partitionEnd t ?i) now ?rs) = drop ?k (stampAll (partitionEnd t ?i) now ?rs)"
    using holds_log_below [OF assms(1)] assms(4) len k(1) by (intro filter_stamped) (simp_all add: partitionEnd_def)
  also have "\<dots> = stampAll (partitionEnd t ?i) now ?rs ! ?k # drop (Suc ?k) (stampAll (partitionEnd t ?i) now ?rs)"
    using k(1) len by (intro Cons_nth_drop_Suc [symmetric]) simp
  also have "stampAll (partitionEnd t ?i) now ?rs ! ?k = stampRecord (partitionEnd t ?i) now ?k (toRecord (ms ! j))"
    using k len by (simp add: stampAll_nth)
  finally show ?thesis unfolding extendedLog_def by blast
qed

text \<open>The request that reads a partition from an offset on, outside any group.\<close>

definition fetchFrom :: "string \<Rightarrow> ProduceResult \<Rightarrow> FetchRequest" where
  "fetchFrom topic r = \<lparr>fr_Topic = topic, fr_Partition = res_Partition r, fr_Offset = res_Offset r, fr_MaxRecords = 0, fr_MaxBytes = 0,
     fr_Group = [], fr_MemberID = [], fr_Generation = 0\<rparr>"

definition fetchedAs :: "i64 \<Rightarrow> ProduceResult \<Rightarrow> Message \<Rightarrow> FetchedMessage" where
  "fetchedAs now r m = \<lparr>fm_Offset = res_Offset r, fm_Timestamp = now, fm_Key = m_Key m, fm_Value = m_Value m, fm_Headers = m_Headers m\<rparr>"

lemma fetch_produced:
  assumes nf: "no_faults rt" and srv: "serves_topic b topic t log" and srv': "serves_topic b' topic t' (extendedLog t now ps ms log)"
    and n: "length (Partitions t') = length (Partitions t)" and ps: "length ps = length ms" "\<And>p. p \<in> set ps \<Longrightarrow> p < length (Partitions t)"
    and ends: "\<And>i. i < length (Partitions t) \<Longrightarrow> FirstOffset (fst (Partitions t' ! i)) = FirstOffset (fst (Partitions t ! i)) \<and>
      partitionEnd t' i = partitionEnd t i + of_nat (count_list ps i)"
    and small: "\<And>i. i < length (Partitions t) \<Longrightarrow> unat (partitionEnd t i) + length ms < 2 ^ 64" and j: "j < length ms"
  shows "\<exists>resp rest. b_Fetch rt (fetchFrom topic (produceResults t ps ! j)) b' = Inr (Inr resp) \<and>
    fp_Records resp = fetchedAs now (produceResults t ps ! j) (ms ! j) # rest"
proof -
  let ?i = "ps ! j" and ?k = "count_list (take j ps) (ps ! j)" and ?r = "produceResults t ps ! j"
  let ?off = "partitionEnd t ?i + of_nat ?k" and ?log = "extendedLog t now ps ms log ?i"
  have jps: "j < length ps" using j ps(1) by simp
  then have i: "?i < length (Partitions t)" "?i < length (Partitions t')" using ps(2) n by simp_all
  have r: "?r = \<lparr>res_Partition = of_nat ?i, res_Offset = ?off\<rparr>" using jps by (simp add: produceResults_def)
  have s: "holds_log (Partitions t ! ?i) (log ?i)" "holds_log (Partitions t' ! ?i) ?log" "length (Partitions t') < 2 ^ 31"
    "map_of (topics (nd_store b')) topic = Some t'" "\<not> b_repl b'"
    using srv srv' i by (simp_all add: serves_topic_def)
  have lt: "?k < count_list ps ?i" using share_nth(1) [OF ps(1) jps] .
  have "count_list ps ?i \<le> length ms" using count_le_length [of ps ?i] ps(1) by simp
  then have un: "unat ?off = unat (partitionEnd t ?i) + ?k" "unat (partitionEnd t' ?i) = unat (partitionEnd t ?i) + count_list ps ?i"
    using small [OF i(1)] lt ends [OF i(1)] unat_add_small [of "partitionEnd t ?i" ?k] unat_add_small [of "partitionEnd t ?i" "count_list ps ?i"] by simp_all
  have "FirstOffset (fst (Partitions t' ! ?i)) \<le> partitionEnd t ?i" using holds_log_first [OF s(1)] ends [OF i(1)] by (simp add: partitionEnd_def)
  then have o: "FirstOffset (fst (Partitions t' ! ?i)) \<le> ?off" "?off \<le> partitionEnd t' ?i" "?off < partitionEnd t' ?i"
    using un lt by (simp_all add: word_le_nat_alt word_less_nat_alt)
  obtain rest where f: "filter (\<lambda>r. ?off \<le> Offset r) ?log = stampRecord (partitionEnd t ?i) now ?k (toRecord (ms ! j)) # rest"
    using extendedLog_from [of t ps j log ms now, OF s(1) ps(1) jps small [OF i(1)]] by blast
  have fetch: "b_Fetch rt (fetchFrom topic ?r) b' = Inr (Inr (fetchResponse (readableEnd topic ?i t' b') (fetchFrom topic ?r) ?log))"
    using Fetch_ok [OF nf, of b' "fetchFrom topic ?r" t' ?i ?log] s i o by (simp add: fetchFrom_def r)
  have "toFetched (stampRecord (partitionEnd t ?i) now ?k (toRecord (ms ! j))) = fetchedAs now ?r (ms ! j)"
    by (simp add: toFetched_def stampRecord_def toRecord_def fetchedAs_def r)
  then have "\<exists>rest. fp_Records (fetchResponse (readableEnd topic ?i t' b') (fetchFrom topic ?r) ?log) = fetchedAs now ?r (ms ! j) # rest"
    using f o(3) s(5) by (simp add: fetchResponse_def fetchFrom_def r readableEnd_def stampRecord_def)
  then show ?thesis using fetch by blast
qed

section \<open>Properties\<close>

text \<open>
  Property C31. PRODUCE on a standalone broker, on a topic with any number of partitions and any mix of keyed and
  keyless records: it succeeds, every record goes to the requested partition or to the one of its key, each partition's log grows
  by its records in the order of the request, and the answer gives record \<open>j\<close> the offset at which it was stored.
\<close>

theorem Produce_stores:
  assumes "no_faults rt" and "serves_topic b (pr_Topic req) t log" and "pr_Records req \<noteq> []"
    and "sint (pr_Partition req) < int (length (Partitions t))" and "pr_Acks req \<le> 2" and "send = (\<lambda>_. Answered)"
    and "\<forall>i < length (Partitions t). within_limits (fst (Partitions t ! i)) (map toRecord (pr_Records req))"
  shows "\<exists>ps b' t'. routed (pr_Partition req) (length (Partitions t)) (pr_Records req) ps \<and>
    Produce rt now send evs req b = Inr (Inr (produceResults t ps), b') \<and>
    serves_topic b' (pr_Topic req) t' (extendedLog t now ps (pr_Records req) log) \<and>
    (\<forall>i < length (Partitions t). partitionEnd t' i = partitionEnd t i + of_nat (count_list ps i))"
  by (rule Produce_ok [where now = now and evs = evs, OF assms]) blast

text \<open>
  Property C32. What a producer was told is what a consumer gets: after a PRODUCE on a standalone broker, a FETCH at the
  partition and offset of the \<open>j\<close>-th result returns the \<open>j\<close>-th message first, its key, value and headers unchanged. The
  records are within the limits of \<open>within_limits\<close>: encodable, each below the 256 KiB chunk of the scan, and room for their
  offsets and bytes.
\<close>

theorem produce_then_fetch:
  assumes "no_faults rt" and "serves_topic b (pr_Topic req) t log" and "pr_Records req \<noteq> []"
    and "sint (pr_Partition req) < int (length (Partitions t))" and "pr_Acks req \<le> 2" and "send = (\<lambda>_. Answered)"
    and "\<forall>i < length (Partitions t). within_limits (fst (Partitions t ! i)) (map toRecord (pr_Records req))"
  shows "\<exists>results b'. Produce rt now send evs req b = Inr (Inr results, b') \<and> length results = length (pr_Records req) \<and>
    (\<forall>j < length results. \<exists>resp rest. b_Fetch rt (fetchFrom (pr_Topic req) (results ! j)) b' = Inr (Inr resp) \<and>
       fp_Records resp = fetchedAs now (results ! j) (pr_Records req ! j) # rest)"
proof -
  obtain ps b' t' where r: "routed (pr_Partition req) (length (Partitions t)) (pr_Records req) ps"
    and p: "Produce rt now send evs req b = Inr (Inr (produceResults t ps), b')"
    and s: "serves_topic b' (pr_Topic req) t' (extendedLog t now ps (pr_Records req) log)" "length (Partitions t') = length (Partitions t)"
    and e: "\<And>i. i < length (Partitions t) \<Longrightarrow> FirstOffset (fst (Partitions t' ! i)) = FirstOffset (fst (Partitions t ! i)) \<and>
      partitionEnd t' i = partitionEnd t i + of_nat (count_list ps i)"
    by (rule Produce_ok [where now = now and evs = evs, OF assms]) (rule that)
  have ps: "length ps = length (pr_Records req)" "\<And>p. p \<in> set ps \<Longrightarrow> p < length (Partitions t)"
    using r by (auto simp: routed_def list_all2_conv_all_nth in_set_conv_nth)
  have small: "unat (partitionEnd t i) + length (pr_Records req) < 2 ^ 64" if "i < length (Partitions t)" for i
    using assms(7) [rule_format, OF that] by (simp add: within_limits_def partitionEnd_def)
  have len: "length (produceResults t ps) = length (pr_Records req)" using ps(1) by (simp add: produceResults_def)
  show ?thesis
    using p len fetch_produced [OF assms(1,2) s ps e small] by auto
qed

section \<open>Commit marks during a produce\<close>

abbreviation mark :: "string \<Rightarrow> i32 \<Rightarrow> Broker \<Rightarrow> u64" where
  "mark topic part b \<equiv> partitionRepl.committed (replPart topic part b)"

text \<open>What the replication calls of a produce keep: the store, the mode and the marks, which only grow.\<close>

definition marks_grow :: "Broker \<Rightarrow> Broker \<Rightarrow> bool" where
  "marks_grow b b' \<longleftrightarrow> nd_store b' = nd_store b \<and> b_repl b' = b_repl b \<and> (\<forall>topic part. mark topic part b \<le> mark topic part b')"

lemma marks_grow_refl [simp]: "marks_grow b b"
  by (simp add: marks_grow_def)

lemma marks_grow_trans: "marks_grow a b \<Longrightarrow> marks_grow b c \<Longrightarrow> marks_grow a c"
  unfolding marks_grow_def by (metis order_trans)

lemma marks_grow_setCommitted [simp]: "marks_grow b (setCommitted topic part c b)"
proof -
  have "b_repl (setCommitted topic part c b) = b_repl b" by (simp add: setCommitted_def setPart_def Let_def)
  then show ?thesis by (auto simp: marks_grow_def committed_setCommitted)
qed

lemma marks_grow_maybeAdvance: "maybeAdvanceCommit topic part b = Inr b' \<Longrightarrow> marks_grow b b'"
  unfolding maybeAdvanceCommit_def bindS_eq_Inr_iff
  by (fastforce simp: bindS_eq_Inr_iff Let_def case_prod_beta split: if_splits option.splits)

lemma marks_grow_wait: "waitCommitted topic part off evs w b = Inr (r, b') \<Longrightarrow> marks_grow b b'"
proof (induction evs arbitrary: w b)
  case Nil
  then show ?case by (cases w) (auto simp: bindS_eq_Inr_iff)
next
  case (Cons e evs)
  show ?case
  proof (cases e)
    case (CommitTo c)
    show ?thesis using Cons.prems Cons.IH [of w "setCommitted topic part c b"] marks_grow_trans [OF marks_grow_setCommitted]
      by (cases w) (auto simp: CommitTo)
  qed (use Cons.prems in \<open>cases w; auto simp: bindS_eq_Inr_iff dest: Cons.IH\<close>)+
qed

lemma committedFor_le: "committedFor topic part b = Inr c \<Longrightarrow> c \<le> mark topic part b"
  by (auto simp: committedFor_def bindS_eq_Inr_iff Let_def split: option.splits prod.splits if_splits)

lemma wait_reached:
  "waitCommitted topic part off evs w b = Inr (None, b') \<Longrightarrow> (w = Returned None \<Longrightarrow> off \<le> mark topic part b) \<Longrightarrow> off \<le> mark topic part b'"
proof (induction evs arbitrary: w b)
  case Nil
  then show ?case using committedFor_le by (cases w) (fastforce simp: bindS_eq_Inr_iff split: if_splits)+
next
  case (Cons e evs)
  show ?case
  proof (cases e)
    case Turn
    show ?thesis
    proof (cases w)
      case Comparing
      then obtain c where c: "committedFor topic part b = Inr c"
        "waitCommitted topic part off evs (if off \<le> c then Returned None else Taking) b = Inr (None, b')"
        using Cons.prems(1) by (auto simp: Turn bindS_eq_Inr_iff)
      show ?thesis by (rule Cons.IH [OF c(2)]) (use committedFor_le [OF c(1)] in \<open>auto split: if_splits\<close>)
    next
      case (Sleeping g)
      show ?thesis by (rule Cons.IH [of "if commitCh (replPart topic part b) \<noteq> g then Comparing else Sleeping g" b])
        (use Cons.prems in \<open>auto simp: Turn Sleeping split: if_splits\<close>)
    qed (use Cons in \<open>auto simp: Turn\<close>)
  next
    case (CommitTo c)
    show ?thesis using Cons.prems Cons.IH [of w "setCommitted topic part c b"]
      by (cases w) (auto simp: CommitTo committed_setCommitted)
  next
    case TimeUp
    then show ?thesis using Cons.prems by (cases w) (auto dest: Cons.IH)
  qed
qed

lemma Append_base: "Append rt now recs pd = (Inr base, pd') \<Longrightarrow> base = nextOffset (fst pd)"
  by (auto simp: Append_def bindR_def returnR_def split: prod.splits sum.splits if_splits)

lemma writerTurn_base:
  assumes "writerTurn rt now topic part recs b = Inr (Inr base, b')"
  obtains pd pd' where "topicPartition topic part (nd_store b) = Inr (Some pd)" and "base = nextOffset (fst pd)" and "b' = putPartition topic part pd' b"
proof -
  obtain pd where pd: "topicPartition topic part (nd_store b) = Inr (Some pd)"
    using assms by (auto simp: writerTurn_def bindS_eq_Inr_iff split: option.splits)
  obtain res pd1 where a: "Append rt now recs pd = (res, pd1)" by (cases "Append rt now recs pd")
  then have "res = Inr base" "b' = putPartition topic part (if FsyncRecords (b_cfg b) \<le> int (RecordsSinceFlush (fst pd1)) then snd (Flush rt pd1) else pd1) b"
    using assms pd by (simp_all add: writerTurn_def Let_def)
  then show thesis using that [OF pd] Append_base [of rt now recs pd base pd1] a by blast
qed

lemma putPartition_marks [simp]:
  "replPart topic' part' (putPartition topic part pd b) = replPart topic' part' b" "b_repl (putPartition topic part pd b) = b_repl b"
  by (simp_all add: putPartition_def replPart_def split: option.split)

lemma topicPartition_other:
  assumes "topicPartition topic p (nd_store b) = Inr (Some pd)" and "q \<noteq> p"
  shows "topicPartition topic q (nd_store (putPartition topic p pd' b)) = topicPartition topic q (nd_store b)"
proof (cases "map_of (topics (nd_store b)) topic")
  case (Some t)
  have p: "0 \<le> sint p" using assms(1) Some by (auto simp: topicPartition_def getTopic_def split: if_splits)
  have "nat (sint q) \<noteq> nat (sint p)" if "0 \<le> sint q"
  proof
    assume "nat (sint q) = nat (sint p)"
    then have "sint q = sint p" using p that by simp
    then have "q = p" by (rule signed_word_eqI)
    then show False using assms(2) by contradiction
  qed
  then show ?thesis using Some by (auto simp: topicPartition_def getTopic_def putPartition_def update_conv' NumPartitions_def)
qed (simp add: putPartition_def)

lemma fillResults_below:
  assumes "distinct (map fst sub)" and "i < length results" and "i \<in> fst ` set sub" and "unat base + length sub < 2 ^ 64" and "base + of_nat (length sub) \<le> c"
  shows "res_Partition (fillResults part base sub results ! i) = part \<and> res_Offset (fillResults part base sub results ! i) < c"
proof -
  let ?k = "length (takeWhile (\<lambda>x. fst x \<noteq> i) sub)"
  obtain x where "x \<in> set sub" "fst x = i" using assms(3) by blast
  then have "takeWhile (\<lambda>x. fst x \<noteq> i) sub \<noteq> sub" by (auto simp: takeWhile_eq_all_conv)
  then have "?k < length sub" by (metis length_takeWhile_le order_le_imp_less_or_eq takeWhile_eq_take take_all_iff order_refl)
  then have "base + of_nat ?k < base + of_nat (length sub)"
    using assms(4) unat_add_small [of base ?k] unat_add_small [of base "length sub"] by (simp add: word_less_nat_alt)
  then show ?thesis using assms by (simp add: fillResults_nth)
qed

lemma produceBatches_step:
  assumes "produceBatches rt now send evs topic AcksAll bs (p # ps) results b = Inr (Inr results', b')" and "b_repl b"
  obtains base b1 where "writerTurn rt now topic p (map snd (getList bs p)) b = Inr (Inr base, b1)"
    and "bindS (maybeAdvanceCommit topic p b1) (\<lambda>b. bindS (waitCommitted topic p (base + of_nat (length (getList bs p))) (evs p) Comparing b)
      (\<lambda>(err, b). case err of Some e \<Rightarrow> Inr (Inl e, b)
        | None \<Rightarrow> produceBatches rt now send evs topic AcksAll bs ps (fillResults p base (getList bs p) results) b)) = Inr (Inr results', b')"
proof -
  obtain res b1 where w: "writerTurn rt now topic p (map snd (getList bs p)) b = Inr (res, b1)" and n: "writerFor topic p b" "send p \<noteq> QueueFull"
      "send p \<noteq> SendCancelled" "send p \<noteq> AnswerCancelled"
    using assms(1) by (auto simp: wireErr_def Let_def bindS_eq_Inr_iff split: if_splits)
  then obtain base where res: "res = Inr base" using assms(1) by (cases res) (simp_all add: Let_def)
  have "b_repl b1" using writerTurn_base [OF w [unfolded res]] assms(2) by (metis putPartition_marks(2))
  then show thesis using that [OF w [unfolded res]] assms(1) n w by (simp add: res Let_def)
qed

lemma produceBatches_acks:
  assumes "produceBatches rt now send evs topic AcksAll bs ps results b = Inr (Inr results', b')" and "b_repl b" and "distinct ps"
    and "\<And>p. p \<in> set ps \<Longrightarrow> distinct (map fst (getList bs p))"
    and "\<And>p pd. p \<in> set ps \<Longrightarrow> topicPartition topic p (nd_store b) = Inr (Some pd) \<Longrightarrow> unat (nextOffset (fst pd)) + length (getList bs p) < 2 ^ 64"
  shows "length results' = length results \<and> (\<forall>topic part. mark topic part b \<le> mark topic part b') \<and>
    (\<forall>i < length results. if \<exists>p \<in> set ps. i \<in> fst ` set (getList bs p)
      then res_Offset (results' ! i) < mark topic (res_Partition (results' ! i)) b' else results' ! i = results ! i)"
  using assms
proof (induction ps arbitrary: results b)
  case (Cons p ps)
  let ?sub = "getList bs p"
  obtain base b1 where w: "writerTurn rt now topic p (map snd ?sub) b = Inr (Inr base, b1)"
    and run: "bindS (maybeAdvanceCommit topic p b1) (\<lambda>b. bindS (waitCommitted topic p (base + of_nat (length ?sub)) (evs p) Comparing b)
      (\<lambda>(err, b). case err of Some e \<Rightarrow> Inr (Inl e, b)
        | None \<Rightarrow> produceBatches rt now send evs topic AcksAll bs ps (fillResults p base ?sub results) b)) = Inr (Inr results', b')"
    by (rule produceBatches_step [OF Cons.prems(1,2)]) (rule that, assumption, simp)
  obtain pd pd' where pd: "topicPartition topic p (nd_store b) = Inr (Some pd)" "base = nextOffset (fst pd)" "b1 = putPartition topic p pd' b"
    using writerTurn_base [OF w] .
  obtain b2 b3 where adv: "maybeAdvanceCommit topic p b1 = Inr b2" and wait: "waitCommitted topic p (base + of_nat (length ?sub)) (evs p) Comparing b2 = Inr (None, b3)"
    and rest: "produceBatches rt now send evs topic AcksAll bs ps (fillResults p base ?sub results) b3 = Inr (Inr results', b')"
    using run by (auto simp: bindS_eq_Inr_iff split: option.splits)
  have g: "marks_grow b1 b3" by (rule marks_grow_trans [OF marks_grow_maybeAdvance [OF adv] marks_grow_wait [OF wait]])
  have repl: "b_repl b3" and grow: "\<And>topic part. mark topic part b \<le> mark topic part b3" and st: "nd_store b3 = nd_store b1"
    using g Cons.prems(2) pd(3) by (simp_all add: marks_grow_def)
  have "unat (nextOffset (fst qd)) + length (getList bs q) < 2 ^ 64" if "q \<in> set ps" "topicPartition topic q (nd_store b3) = Inr (Some qd)" for q qd
  proof -
    have "q \<noteq> p" using that(1) Cons.prems(3) by auto
    then show ?thesis using Cons.prems(5) [of q qd] that topicPartition_other [OF pd(1), of q pd'] st pd(3) by simp
  qed
  then have ih: "length results' = length (fillResults p base ?sub results) \<and> (\<forall>topic part. mark topic part b3 \<le> mark topic part b') \<and>
    (\<forall>i < length (fillResults p base ?sub results). if \<exists>p \<in> set ps. i \<in> fst ` set (getList bs p)
      then res_Offset (results' ! i) < mark topic (res_Partition (results' ! i)) b' else results' ! i = fillResults p base ?sub results ! i)"
    using Cons.IH [OF rest repl] Cons.prems(3,4) by simp
  have d: "distinct (map fst ?sub)" and small: "unat base + length ?sub < 2 ^ 64" using Cons.prems(4,5) [of p] pd(1,2) by simp_all
  have reached: "base + of_nat (length ?sub) \<le> mark topic p b3" by (rule wait_reached [OF wait]) simp
  show ?case
  proof (intro conjI allI impI)
    show "length results' = length results" using ih by simp
    show "mark topic part b \<le> mark topic part b'" for topic part using grow [of topic part] ih order_trans by blast
    fix i assume i: "i < length results"
    consider "\<exists>p \<in> set ps. i \<in> fst ` set (getList bs p)" | "\<not> (\<exists>p \<in> set ps. i \<in> fst ` set (getList bs p))" "i \<in> fst ` set ?sub"
      | "\<not> (\<exists>p \<in> set (p # ps). i \<in> fst ` set (getList bs p))" by auto
    then show "if \<exists>p \<in> set (p # ps). i \<in> fst ` set (getList bs p)
      then res_Offset (results' ! i) < mark topic (res_Partition (results' ! i)) b' else results' ! i = results ! i"
    proof cases
      case 1
      then show ?thesis using ih i by auto
    next
      case 2
      have "results' ! i = fillResults p base ?sub results ! i" using ih i 2(1) by simp
      moreover have "base + of_nat (length ?sub) \<le> mark topic p b'" using reached ih order_trans by blast
      ultimately show ?thesis using fillResults_below [OF d i 2(2) small] 2(2) by auto
    next
      case 3
      then show ?thesis using ih i fillResults_nth [OF d i] by auto
    qed
  qed
qed simp

lemma assignPartitions_fields:
  "assignPartitions req ms t = Inr (r, t') \<Longrightarrow> Partitions t' = Partitions t \<and> (case r of Inl _ \<Rightarrow> True | Inr ps \<Rightarrow> length ps = length ms)"
proof (induction ms arbitrary: t r)
  case (Cons m ms)
  obtain pick t1 where p: "(if sint req < 0 then PickPartition (m_Key m) t else (Inr (nat (sint req)), t)) = (pick, t1)" by fastforce
  then have t1: "Partitions t1 = Partitions t" by (auto simp: PickPartition_def Let_def split: if_splits)
  show ?case
  proof (cases pick)
    case (Inr i)
    then show ?thesis using Cons.prems Cons.IH [of t1] p t1
      by (auto simp: Let_def bindS_eq_Inr_iff split: if_splits sum.splits)
  qed (use Cons.prems p in \<open>simp add: Let_def\<close>)
qed simp

lemma groupRecords_positions:
  assumes "groupRecords parts ms = (order, bs)" and "length parts = length ms"
  shows "distinct order" and "distinct (map fst (getList bs p))" and "length (getList bs p) \<le> length ms"
    and "i < length ms \<Longrightarrow> parts ! i \<in> set order \<and> i \<in> fst ` set (getList bs (parts ! i))"
proof -
  let ?xs = "zip parts (enumerate 0 (map toRecord ms))"
  note f = groupRecords_fold [OF assms(1) [unfolded groupRecords_def]]
  show "distinct order" by (rule f(1))
  show "length (getList bs p) \<le> length ms" unfolding f(3) using length_filter_le [of "\<lambda>x. fst x = p" ?xs] assms(2) by simp
  have "map (fst \<circ> snd) ?xs = map fst (map snd ?xs)" by simp
  also have "\<dots> = [0 ..< length ms]" using assms(2) by simp
  finally have "distinct (map (fst \<circ> snd) ?xs)" by simp
  then have "distinct (map (fst \<circ> snd) (filter (\<lambda>x. fst x = p) ?xs))" by (rule distinct_map_filter)
  then show "distinct (map fst (getList bs p))" by (simp add: f(3))
  assume i: "i < length ms"
  then have "?xs ! i \<in> set ?xs" using assms(2) by (intro nth_mem) simp
  moreover have "?xs ! i = (parts ! i, i, toRecord (ms ! i))" using i assms(2) by (simp add: nth_enumerate_eq)
  ultimately have "(parts ! i, i, toRecord (ms ! i)) \<in> set ?xs" by simp
  then show "parts ! i \<in> set order \<and> i \<in> fst ` set (getList bs (parts ! i))" unfolding f(2,3) by force
qed

lemma Produce_acks_all:
  assumes run: "Produce rt now send evs req b = Inr (Inr results, b')" and repl: "b_repl b" and acks: "pr_Acks req = AcksAll"
    and t: "map_of (topics (nd_store b)) (pr_Topic req) = Some t"
    and small: "\<forall>pd \<in> set (Partitions t). unat (nextOffset (fst pd)) + length (pr_Records req) < 2 ^ 64"
  shows "length results = length (pr_Records req) \<and> (\<forall>r \<in> set results. res_Offset r < mark (pr_Topic req) (res_Partition r) b')"
proof -
  let ?ms = "pr_Records req" and ?T = "pr_Topic req"
  have a2: "AcksAll \<noteq> 0" by (simp add: AcksAll_def)
  have ne: "?ms \<noteq> []" using run by (auto simp: Produce_def wireErr_def)
  obtain r t1 where as0: "assignPartitions (pr_Partition req) ?ms t = Inr (r, t1)"
  proof (cases "assignPartitions (pr_Partition req) ?ms t")
    case (Inr x)
    then show thesis using that [of "fst x" "snd x"] by simp
  qed (use run t ne in \<open>simp add: Produce_def getTopic_def\<close>)
  obtain parts where "r = Inr parts" using run t ne as0 by (cases r) (simp_all add: Produce_def getTopic_def wireErr_def)
  with as0 have as: "assignPartitions (pr_Partition req) ?ms t = Inr (Inr parts, t1)" by simp
  obtain order bs where g: "groupRecords parts ?ms = (order, bs)" by fastforce
  let ?b = "putTopic ?T t1 b" and ?rs0 = "replicate (length ?ms) \<lparr>res_Partition = 0, res_Offset = 0\<rparr>"
  have loop: "produceBatches rt now send evs ?T AcksAll bs order ?rs0 ?b = Inr (Inr results, b')"
    using run t ne as g acks a2 repl 
    by (cases "checkLeaders (nd_cl ?b) ?T parts") (auto simp: Produce_def getTopic_def wireErr_def Let_def split: sum.splits)
  have pt: "Partitions t1 = Partitions t" "length parts = length ?ms" using assignPartitions_fields [OF as] by simp_all
  note pos = groupRecords_positions [OF g pt(2)]
  have fits: "unat (nextOffset (fst pd)) + length (getList bs p) < 2 ^ 64" if "topicPartition ?T p (nd_store ?b) = Inr (Some pd)" for p pd
  proof -
    have "pd = Partitions t ! nat (sint p)" "nat (sint p) < length (Partitions t)"
      using that by (auto simp: topicPartition_def getTopic_def NumPartitions_def pt nat_less_iff split: if_splits)
    then show ?thesis using small pos(3) [of p] nth_mem by fastforce
  qed
  have all: "length results = length ?rs0 \<and> (\<forall>topic part. mark topic part ?b \<le> mark topic part b') \<and>
    (\<forall>i < length ?rs0. if \<exists>p \<in> set order. i \<in> fst ` set (getList bs p)
      then res_Offset (results ! i) < mark ?T (res_Partition (results ! i)) b' else results ! i = ?rs0 ! i)"
    using produceBatches_acks [OF loop _ pos(1,2) fits] repl by simp
  show ?thesis
  proof (intro conjI ballI)
    show "length results = length ?ms" using all by simp
    fix r assume "r \<in> set results"
    then obtain i where i: "i < length ?ms" "r = results ! i" using all by (auto simp: in_set_conv_nth)
    then have "\<exists>p \<in> set order. i \<in> fst ` set (getList bs p)" using pos(4) [OF i(1)] by blast
    then show "res_Offset r < mark ?T (res_Partition r) b'" using all i by simp
  qed
qed

text \<open>
  Property C33. An acks=all PRODUCE that succeeds in cluster mode has its records committed: whatever I/O fails and however
  the wait interleaves with other commits, the offset of every result is below the committed offset of its partition.
\<close>

theorem acks_all_committed:
  assumes "Produce rt now send evs req b = Inr (Inr results, b')" and "b_repl b" and "pr_Acks req = AcksAll"
    and "map_of (topics (nd_store b)) (pr_Topic req) = Some t"
    and "\<forall>pd \<in> set (Partitions t). unat (nextOffset (fst pd)) + length (pr_Records req) < 2 ^ 64"
  shows "length results = length (pr_Records req) \<and>
    (\<forall>r \<in> set results. res_Offset r < partitionRepl.committed (replPart (pr_Topic req) (res_Partition r) b'))"
  by (rule Produce_acks_all [OF assms])

text \<open>
  Property C34. FETCH on any partition of the broker: the answer is the longest run of the log from the offset that the limits
  allow, cut at the committed offset in cluster mode. A consumer never gets a record that is not committed.
\<close>

theorem Fetch_committed:
  assumes "no_faults rt" and "map_of (topics (nd_store b)) (fr_Topic req) = Some t" and "i < length (Partitions t)" and "length (Partitions t) < 2 ^ 31"
    and "fr_Partition req = of_nat i" and "holds_log (Partitions t ! i) log"
    and "fr_Group req = [] \<or> CheckFetch (fr_Group req) (fr_MemberID req) (fr_Generation req) (b_groups b) = Inr ()"
    and "FirstOffset (fst (Partitions t ! i)) \<le> fr_Offset req" and "fr_Offset req \<le> partitionEnd t i"
  shows "\<exists>resp. b_Fetch rt req b = Inr (Inr resp) \<and> resp = fetchResponse (readableEnd (fr_Topic req) i t b) req log \<and>
    (\<forall>m \<in> set (fp_Records resp). m \<in> toFetched ` set log \<and> fr_Offset req \<le> fm_Offset m \<and>
      (b_repl b \<longrightarrow> fm_Offset m < partitionRepl.committed (replPart (fr_Topic req) (fr_Partition req) b)))"
proof (intro exI conjI ballI impI)
  let ?e = "readableEnd (fr_Topic req) i t b"
  show "b_Fetch rt req b = Inr (Inr (fetchResponse ?e req log))" by (rule Fetch_ok [OF assms])
  fix m assume "m \<in> set (fp_Records (fetchResponse ?e req log))"
  then obtain r where rm: "m = toFetched r" and "r \<in> set (takeWhile (\<lambda>r. Offset r < ?e) (batch (nat (fetchMaxRecords (fr_MaxRecords req)))
      (nat (fetchMaxBytes (fr_MaxBytes req))) (filter (\<lambda>r. fr_Offset req \<le> Offset r) log)))"
    unfolding fetchResponse_def by auto
  from rm set_takeWhileD [OF this(2)] have r: "m = toFetched r" "Offset r < ?e" "r \<in> set log" "fr_Offset req \<le> Offset r"
    using batch_subset [of _ _ "filter (\<lambda>r. fr_Offset req \<le> Offset r) log"] by auto
  show "m \<in> toFetched ` set log" "fr_Offset req \<le> fm_Offset m" using r by (simp_all add: toFetched_def)
  assume "b_repl b"
  then show "fm_Offset m < partitionRepl.committed (replPart (fr_Topic req) (fr_Partition req) b)"
    using r(1,2) assms(5) by (simp add: readableEnd_def toFetched_def)
qed simp

section \<open>Cleanup and committed offsets\<close>















section \<open>Examples\<close>

definition sample_settings :: broker_Config where
  "sample_settings = \<lparr>DefaultPartitions = 1, bc_MaxSegmentBytes = 1048576, bc_IndexIntervalBytes = 4096, FsyncEvery = 100, FsyncRecords = 1,
     ProduceQueueSize = 8, SessionTimeout = 10, DrainTimeout = 5, MaxConnections = 8, MaxTopics = 8, MaxGroups = 8, IdleTimeout = 300,
     WriteTimeout = 30, bc_RetentionMaxAge = 0, bc_RetentionMaxBytes = 1, CleanupInterval = 300, TopicConfigs = []\<rparr>"

definition sample_offsets :: offsetStore where
  "sample_offsets = \<lparr>os_data = [(''g'', [(''u'', [(0, 1)])])], os_open = True, os_lines = 1\<rparr>"

definition sample_broker :: "bool \<Rightarrow> Partition \<times> disk \<Rightarrow> Broker" where
  "sample_broker repl pd = \<lparr>nd_store = nd_store (sample_node pd), nd_cl = two_nodes, nd_parts = [], nd_followCtl = [], b_cfg = sample_settings,
     b_groups = \<lparr>groups = [], sessionTimeout = 10, offsets = sample_offsets, maxGroups = 8\<rparr>, b_offsetsDisk = fresh_disk,
     b_writers = [(''u'', 0)], b_repl = repl\<rparr>"

definition sample_message :: Message where
  "sample_message = \<lparr>m_Key = [65], m_Value = [66, 67], m_Headers = [\<lparr>wh_Key = ''t'', wh_Value = [1, 2]\<rparr>]\<rparr>"

definition sample_request :: "byte \<Rightarrow> ProduceRequest" where
  "sample_request acks = \<lparr>pr_Topic = ''u'', pr_Partition = -1, pr_Records = [sample_message], pr_Acks = acks\<rparr>"

definition sample_topic_of :: "Partition \<times> disk \<Rightarrow> Topic" where
  "sample_topic_of pd = \<lparr>t_Name = ''u'', Partitions = [pd], rr = 0\<rparr>"

lemma sample_broker_fields [simp]:
  "map_of (topics (nd_store (sample_broker r pd))) ''u'' = Some (sample_topic_of pd)" "nd_cl (sample_broker r pd) = two_nodes"
  "Partitions (sample_topic_of pd) = [pd]" "b_repl (sample_broker r pd) = r" "writerFor ''u'' 0 (sample_broker r pd)"
  "replPart topic part (sample_broker r pd) = newPartitionRepl" "t_Name (sample_topic_of pd) = ''u''"
  by (simp_all add: sample_broker_def sample_node_def sample_topic_of_def writerFor_def replPart_def)

lemma sample_message_record: "toRecord sample_message = sample_record\<lparr>Offset := 0, TimestampMs := 0\<rparr>"
  by (simp add: toRecord_def sample_message_def sample_record_def sample_header_def convertHeaders_def)

lemma sample_message_fits: "within_limits fresh_partition [toRecord sample_message]"
proof -
  have "length (enc (sample_record\<lparr>Offset := 0, TimestampMs := 0\<rparr>)) = 40" "encodable (sample_record\<lparr>Offset := 0, TimestampMs := 0\<rparr>)"
    using encodable_sample by (simp_all add: enc_def enc_body_def sample_record_def sample_header_def enc_header_def encodable_def)
  then show ?thesis
    by (simp add: within_limits_def sample_message_record fresh_partition_def sample_options_def streamChunk_def fresh_segment_def)
qed

lemma fresh_holds_log: "holds_log (fresh_partition, fresh_disk) []"
  using fresh_part_inv fresh_fields by (auto simp: holds_log_def intro!: exI [of _ "[[]]"])

lemma sample_serves: "serves_topic (sample_broker False (fresh_partition, fresh_disk)) ''u'' (sample_topic_of (fresh_partition, fresh_disk)) (\<lambda>_. [])"
  by (simp add: serves_topic_def fresh_holds_log)

theorem Produce_stores_witness:
  "\<exists>b' t' log'. Produce calm_runtime 5 (\<lambda>_. Answered) (\<lambda>_. []) (sample_request 1) (sample_broker False (fresh_partition, fresh_disk)) =
       Inr (Inr [\<lparr>res_Partition = 0, res_Offset = 0\<rparr>], b') \<and>
     serves_topic b' ''u'' t' log' \<and> log' 0 = [sample_record\<lparr>Offset := 0, TimestampMs := 5\<rparr>]"
proof -
  let ?t = "sample_topic_of (fresh_partition, fresh_disk)"
  have "\<exists>ps b' t'. routed (pr_Partition (sample_request 1)) (length (Partitions ?t)) (pr_Records (sample_request 1)) ps \<and>
    Produce calm_runtime 5 (\<lambda>_. Answered) (\<lambda>_. []) (sample_request 1) (sample_broker False (fresh_partition, fresh_disk)) = Inr (Inr (produceResults ?t ps), b') \<and>
    serves_topic b' (pr_Topic (sample_request 1)) t' (extendedLog ?t 5 ps (pr_Records (sample_request 1)) (\<lambda>_. [])) \<and>
    (\<forall>i < length (Partitions ?t). partitionEnd t' i = partitionEnd ?t i + of_nat (count_list ps i))"
    by (rule Produce_stores [OF no_faults_calm])
      (simp_all add: sample_request_def sample_serves sample_message_fits)
  then obtain ps b' t' where r: "routed (-1) 1 [sample_message] ps"
    and p: "Produce calm_runtime 5 (\<lambda>_. Answered) (\<lambda>_. []) (sample_request 1) (sample_broker False (fresh_partition, fresh_disk)) = Inr (Inr (produceResults ?t ps), b')"
    and s: "serves_topic b' ''u'' t' (extendedLog ?t 5 ps [sample_message] (\<lambda>_. []))"
    by (auto simp: sample_request_def)
  have ps: "ps = [0]" using r by (auto simp: routed_def list_all2_Cons1)
  have "produceResults ?t ps = [\<lparr>res_Partition = 0, res_Offset = 0\<rparr>]"
    "extendedLog ?t 5 ps [sample_message] (\<lambda>_. []) 0 = [sample_record\<lparr>Offset := 0, TimestampMs := 5\<rparr>]"
    by (simp_all add: ps produceResults_def extendedLog_def partitionEnd_def fresh_fields stampAll_def stampRecord_def sample_message_record)
  then show ?thesis using p s by metis
qed

theorem produce_then_fetch_witness:
  "\<exists>results b' resp rest. Produce calm_runtime 5 (\<lambda>_. Answered) (\<lambda>_. []) (sample_request 1) (sample_broker False (fresh_partition, fresh_disk)) = Inr (Inr results, b') \<and>
     b_Fetch calm_runtime (fetchFrom ''u'' (hd results)) b' = Inr (Inr resp) \<and> fp_Records resp = fetchedAs 5 (hd results) sample_message # rest"
proof -
  have "\<exists>results b'. Produce calm_runtime 5 (\<lambda>_. Answered) (\<lambda>_. []) (sample_request 1) (sample_broker False (fresh_partition, fresh_disk)) = Inr (Inr results, b') \<and>
    length results = length (pr_Records (sample_request 1)) \<and>
    (\<forall>j < length results. \<exists>resp rest. b_Fetch calm_runtime (fetchFrom (pr_Topic (sample_request 1)) (results ! j)) b' = Inr (Inr resp) \<and>
       fp_Records resp = fetchedAs 5 (results ! j) (pr_Records (sample_request 1) ! j) # rest)"
    by (rule produce_then_fetch [OF no_faults_calm, where t = "sample_topic_of (fresh_partition, fresh_disk)" and log = "\<lambda>_. []"])
      (simp_all add: sample_request_def sample_serves sample_message_fits)
  then obtain results b' where r: "Produce calm_runtime 5 (\<lambda>_. Answered) (\<lambda>_. []) (sample_request 1) (sample_broker False (fresh_partition, fresh_disk)) = Inr (Inr results, b')"
    and l: "length results = 1"
    and f: "\<forall>j < length results. \<exists>resp rest. b_Fetch calm_runtime (fetchFrom ''u'' (results ! j)) b' = Inr (Inr resp) \<and>
       fp_Records resp = fetchedAs 5 (results ! j) ([sample_message] ! j) # rest"
    by (auto simp: sample_request_def)
  have "hd results = results ! 0" using l by (cases results) simp_all
  then show ?thesis using r f [rule_format, of 0] l by auto
qed

lemma sample_waits:
  obtains b' where "Produce calm_runtime 5 (\<lambda>_. Answered) (\<lambda>_. [CommitTo 1]) (sample_request 2) (sample_broker True (fresh_partition, fresh_disk)) =
    Inr (Inr [\<lparr>res_Partition = 0, res_Offset = 0\<rparr>], b')"
proof -
  let ?b = "sample_broker True (fresh_partition, fresh_disk)" and ?t = "sample_topic_of (fresh_partition, fresh_disk)"
  let ?c = "putTopic ''u'' ?t ?b"
  have c: "topicPartition ''u'' 0 (nd_store ?c) = Inr (Some (fresh_partition, fresh_disk))"
    by (simp add: topicPartition_def getTopic_def NumPartitions_def)
  obtain pd where w: "writerTurn calm_runtime 5 ''u'' 0 [toRecord sample_message] ?c =
      Inr (Inr (nextOffset fresh_partition), putPartition ''u'' 0 pd ?c)"
    and pd: "nextOffset (fst pd) = nextOffset fresh_partition + of_nat (length [toRecord sample_message])"
    by (rule writerTurn_ok [OF no_faults_calm c fresh_holds_log, of "[toRecord sample_message]" 5])
      (use sample_message_fits in simp_all)
  let ?d = "putPartition ''u'' 0 pd ?c"
  have d: "nd_cl ?d = two_nodes" "topicPartition ''u'' 0 (nd_store ?d) = Inr (Some pd)" 
    by (simp_all add: putPartition_def putTopic_def update_conv' topicPartition_def getTopic_def NumPartitions_def)
  have m: "maybeAdvanceCommit ''u'' 0 ?d = Inr ?d"
    by (simp add: case_prod_beta maybeAdvanceCommit_def IsLeaderFor_def d replPart_put sample_placement two_nodes_fields sample_config_fields
        sample_assignment_def HighWatermark_def followerProgressSnapshot_def newPartitionRepl_def)
  have w1: "waitCommitted ''u'' 0 1 [CommitTo 1] Comparing ?d = Inr (None, setCommitted ''u'' 0 1 ?d)"
    using pd by (simp add: case_prod_beta committedFor_def d committed_setCommitted replPart_put HighWatermark_def fresh_fields newPartitionRepl_def)
  have g: "groupRecords [0] [sample_message] = ([0], [(0, [(0, toRecord sample_message)])])"
    by (simp add: groupRecords_def addRecord_def getList_def enumerate_eq_zip)
  have k: "assignPartitions (-1) [sample_message] ?t = Inr (Inr [0], ?t)"
    by (simp add: PickPartition_def sample_message_def NumPartitions_def)
  have l: "checkLeaders two_nodes ''u'' [0] = Inr (Inr ())" using sample_placement by (simp add: two_nodes_fields sample_assignment_def)
  have "Produce calm_runtime 5 (\<lambda>_. Answered) (\<lambda>_. [CommitTo 1]) (sample_request 2) ?b = Inr (Inr [\<lparr>res_Partition = 0, res_Offset = 0\<rparr>], setCommitted ''u'' 0 1 ?d)"
    using w m w1 g k l
    by (simp add: Produce_def sample_request_def getTopic_def AcksAll_def AcksLeader_def Let_def getList_def fillResults_def fresh_fields
        enumerate_eq_zip replPart_put(2) del: assignPartitions.simps checkLeaders.simps waitCommitted.simps)
  then show thesis by (rule that)
qed

theorem acks_all_committed_witness:
  "\<exists>b'. Produce calm_runtime 5 (\<lambda>_. Answered) (\<lambda>_. [CommitTo 1]) (sample_request 2) (sample_broker True (fresh_partition, fresh_disk)) =
       Inr (Inr [\<lparr>res_Partition = 0, res_Offset = 0\<rparr>], b') \<and> 0 < partitionRepl.committed (replPart ''u'' 0 b')"
proof -
  obtain b' where p: "Produce calm_runtime 5 (\<lambda>_. Answered) (\<lambda>_. [CommitTo 1]) (sample_request 2) (sample_broker True (fresh_partition, fresh_disk)) =
    Inr (Inr [\<lparr>res_Partition = 0, res_Offset = 0\<rparr>], b')" by (rule sample_waits)
  show ?thesis
    using p acks_all_committed [OF p, of "sample_topic_of (fresh_partition, fresh_disk)"]
    by (simp add: sample_request_def AcksAll_def fresh_fields)
qed

theorem Fetch_committed_witness:
  "\<exists>resp. b_Fetch calm_runtime (fetchFrom ''u'' \<lparr>res_Partition = 0, res_Offset = 0\<rparr>) (sample_broker True (two_partition, two_disk)) = Inr (Inr resp) \<and>
     fp_Records resp = []"
proof -
  have "\<not> closed two_partition" "FirstOffset two_partition = 0" by (simp_all add: two_partition_def fresh_partition_def fresh_segment_def FirstOffset_def)
  then have "holds_log (two_partition, two_disk) keyed_records" using two_part_inv by (auto simp: holds_log_def intro!: exI [of _ "[keyed_records, []]"])
  then obtain resp where "b_Fetch calm_runtime (fetchFrom ''u'' \<lparr>res_Partition = 0, res_Offset = 0\<rparr>) (sample_broker True (two_partition, two_disk)) = Inr (Inr resp)"
    "\<forall>m \<in> set (fp_Records resp). fm_Offset m < 0"
    using Fetch_committed [OF no_faults_calm, of "sample_broker True (two_partition, two_disk)" "fetchFrom ''u'' \<lparr>res_Partition = 0, res_Offset = 0\<rparr>"
        "sample_topic_of (two_partition, two_disk)" 0 keyed_records] \<open>FirstOffset two_partition = 0\<close>
    by (auto simp: fetchFrom_def newPartitionRepl_def)
  then show ?thesis by (auto intro: list.set_cases simp: word_not_simps)
qed


end
