(* ===== verification/Server.thy ===== *)
theory Server
  imports Broker "HOL-Library.Multiset"
begin

text \<open>
  The TCP front end (src/internal/broker/server/server.go and auth.go) and the static credentials of the
  broker (src/internal/broker/auth.go). The server knows the backend by its interface: a record
  of one function per operation. A connection is a step relation over its goroutines: the read loop takes frames and waits for
  slots, the handlers answer the frames in flight in any order, the writer sends the queued responses until a write fails, and other
  connections change the backend at any time. JSON and SHA-256 are
  arguments. The text of an error message is left out, an error frame carries the code.
\<close>

section \<open>Opcodes\<close>

definition OpCreateTopic :: Opcode where "OpCreateTopic = 0x01"

definition OpListTopics :: Opcode where "OpListTopics = 0x02"

definition OpProduce :: Opcode where "OpProduce = 0x03"

definition OpFetch :: Opcode where "OpFetch = 0x04"

definition OpCommitOffset :: Opcode where "OpCommitOffset = 0x05"

definition OpFetchOffset :: Opcode where "OpFetchOffset = 0x06"

definition OpJoinGroup :: Opcode where "OpJoinGroup = 0x07"

definition OpLeaveGroup :: Opcode where "OpLeaveGroup = 0x08"

definition OpHeartbeat :: Opcode where "OpHeartbeat = 0x09"

definition OpAuth :: Opcode where "OpAuth = 0x0A"

section \<open>Requests and responses\<close>

record CreateTopicRequest =
  ct_Topic :: string
  ct_Partitions :: i32

record CommitOffsetRequest =
  co_Group :: string
  co_MemberID :: string
  co_Topic :: string
  co_Partition :: i32
  co_Offset :: u64
  co_Generation :: i32

record FetchOffsetRequest =
  fo_Group :: string
  fo_MemberID :: string
  fo_Topic :: string
  fo_Partition :: i32
  fo_Generation :: i32

record JoinGroupRequest =
  jg_Group :: string
  jg_MemberID :: string
  jg_Topics :: "string list"

record LeaveGroupRequest =
  lg_Group :: string
  lg_MemberID :: string

record HeartbeatRequest =
  hb_Group :: string
  hb_MemberID :: string
  hb_Generation :: i32

record AuthRequest =
  au_ID :: string
  au_Secret :: string

record Principal =
  pl_ID :: string
  TopicsRead :: "string list"
  TopicsWrite :: "string list"
  pl_Admin :: bool

datatype control_response =
    CreateTopicResponse string i32
  | ListTopicsResponse "(string \<times> (i32 \<times> u64) list) list"
  | FetchOffsetResponse u64
  | JoinGroupResponse i32 string "Assignment list"
  | AuthResponse Principal
  | EmptyResponse
  | ErrorResponse error_code

text \<open>\<open>json.Unmarshal\<close> into each request type, \<open>None\<close> for its error, and \<open>json.Marshal\<close> of a response.\<close>

record codec =
  unCreateTopic :: "bytes \<Rightarrow> CreateTopicRequest option"
  unCommitOffset :: "bytes \<Rightarrow> CommitOffsetRequest option"
  unFetchOffset :: "bytes \<Rightarrow> FetchOffsetRequest option"
  unJoinGroup :: "bytes \<Rightarrow> JoinGroupRequest option"
  unLeaveGroup :: "bytes \<Rightarrow> LeaveGroupRequest option"
  unHeartbeat :: "bytes \<Rightarrow> HeartbeatRequest option"
  unAuth :: "bytes \<Rightarrow> AuthRequest option"
  mustJSON :: "control_response \<Rightarrow> bytes"

definition ErrorFrame :: "codec \<Rightarrow> u64 \<Rightarrow> go_error \<Rightarrow> Frame" where
  "ErrorFrame cd corr err = \<lparr>f_Opcode = OpError, CorrelationID = corr, Payload = mustJSON cd (ErrorResponse (ErrorCode err))\<rparr>"

section \<open>The interfaces\<close>

text \<open>
  The \<open>Backend\<close> interface over a state \<open>'b\<close>. \<open>'e\<close> is what surrounds one call: the clock, the I/O faults, what other
  goroutines do meanwhile.
\<close>

type_synonym ('e, 'b, 'q, 'r) call_of = "'e \<Rightarrow> 'q \<Rightarrow> 'b \<Rightarrow> ((go_error + 'r) \<times> 'b) go"

record ('e, 'b) Backend =
  be_CreateTopic :: "('e, 'b, CreateTopicRequest, string \<times> i32) call_of"
  be_ListTopics :: "('e, 'b, unit, (string \<times> (i32 \<times> u64) list) list) call_of"
  be_Produce :: "('e, 'b, ProduceRequest, ProduceResult list) call_of"
  be_Fetch :: "('e, 'b, FetchRequest, FetchResponse) call_of"
  be_CommitOffset :: "('e, 'b, CommitOffsetRequest, unit) call_of"
  be_FetchOffset :: "('e, 'b, FetchOffsetRequest, u64) call_of"
  be_JoinGroup :: "('e, 'b, JoinGroupRequest, i32 \<times> Assignment list) call_of"
  be_LeaveGroup :: "('e, 'b, LeaveGroupRequest, unit) call_of"
  be_Heartbeat :: "('e, 'b, HeartbeatRequest, unit) call_of"

text \<open>An authenticator: the principal of an id and secret, \<open>None\<close> for any error.\<close>

type_synonym Authenticator = "string \<Rightarrow> string \<Rightarrow> Principal option"

record Server =
  maxConns :: int
  idleTimeout :: int
  writeTimeout :: int
  handshakeTimeout :: int
  maxAuthFailures :: int
  authTimeout :: int
  authenticator :: "Authenticator option"
  useTLS :: bool

definition maxInFlightPerConn :: nat where
  "maxInFlightPerConn = 64"

definition defaultMaxConnections :: int where
  "defaultMaxConnections = 1024"

definition defaultIdleTimeout :: int where
  "defaultIdleTimeout = 300 * second"

definition defaultWriteTimeout :: int where
  "defaultWriteTimeout = 30 * second"

definition defaultHandshakeTimeout :: int where
  "defaultHandshakeTimeout = 10 * second"

definition defaultMaxAuthFailures :: int where
  "defaultMaxAuthFailures = 5"

definition defaultAuthTimeout :: int where
  "defaultAuthTimeout = 10 * second"

definition WithMaxConnections :: "int \<Rightarrow> Server \<Rightarrow> Server" where
  "WithMaxConnections n s = (if 0 < n then s\<lparr>maxConns := n\<rparr> else s)"

definition WithIdleTimeout :: "int \<Rightarrow> Server \<Rightarrow> Server" where
  "WithIdleTimeout d s = (if 0 < d then s\<lparr>idleTimeout := d\<rparr> else s)"

definition WithWriteTimeout :: "int \<Rightarrow> Server \<Rightarrow> Server" where
  "WithWriteTimeout d s = (if 0 < d then s\<lparr>writeTimeout := d\<rparr> else s)"

definition WithHandshakeTimeout :: "int \<Rightarrow> Server \<Rightarrow> Server" where
  "WithHandshakeTimeout d s = (if 0 < d then s\<lparr>handshakeTimeout := d\<rparr> else s)"

definition WithAuthTimeout :: "int \<Rightarrow> Server \<Rightarrow> Server" where
  "WithAuthTimeout d s = (if 0 < d then s\<lparr>authTimeout := d\<rparr> else s)"

definition WithMaxAuthFailures :: "int \<Rightarrow> Server \<Rightarrow> Server" where
  "WithMaxAuthFailures n s = (if 0 < n then s\<lparr>maxAuthFailures := n\<rparr> else s)"

definition WithAuthenticator :: "Authenticator option \<Rightarrow> Server \<Rightarrow> Server" where
  "WithAuthenticator a s = s\<lparr>authenticator := a\<rparr>"

definition WithTLS :: "bool \<Rightarrow> Server \<Rightarrow> Server" where
  "WithTLS cfg s = s\<lparr>useTLS := cfg\<rparr>"

definition NewServer :: "(Server \<Rightarrow> Server) list \<Rightarrow> Server" where
  "NewServer opts = foldl (\<lambda>s opt. opt s)
     \<lparr>maxConns = defaultMaxConnections, idleTimeout = defaultIdleTimeout, writeTimeout = defaultWriteTimeout,
      handshakeTimeout = defaultHandshakeTimeout, maxAuthFailures = defaultMaxAuthFailures, authTimeout = defaultAuthTimeout, authenticator = None, useTLS = False\<rparr> opts"

section \<open>Accepting connections\<close>

text \<open>
  What the accept loop does with a connection: \<open>closing\<close> is set once the shutdown has begun, \<open>conns\<close> are
  the tracked connections.
\<close>

datatype accept_result = Dropped | Refused "Frame option" | Served

definition acceptConn :: "codec \<Rightarrow> Server \<Rightarrow> bool \<Rightarrow> nat list \<Rightarrow> nat \<Rightarrow> accept_result \<times> nat list" where
  "acceptConn cd s closing conns conn =
     (if closing then (Dropped, conns)
      else if maxConns s \<le> int (length conns) then
        (Refused (if useTLS s then None else Some (ErrorFrame cd 0 (WireError CodeBrokerBusy))), conns)
      else (Served, List.insert conn conns))"

definition untrack :: "nat \<Rightarrow> nat list \<Rightarrow> nat list" where
  "untrack conn conns = remove1 conn conns"

section \<open>Access control\<close>

datatype access = accessNone | accessRead | accessWrite | accessAdmin

fun patternMatches :: "string \<Rightarrow> string \<Rightarrow> bool" where
  "patternMatches pat topic \<longleftrightarrow>
     pat = ''*'' \<or> pat = topic \<or>
     (1 < length pat \<and> last pat = CHR ''*'' \<and> length pat - 1 \<le> length topic \<and>
      take (length pat - 1) topic = take (length pat - 1) pat)"

definition topicAllowed :: "string list \<Rightarrow> string \<Rightarrow> bool" where
  "topicAllowed patterns topic = list_ex (\<lambda>pat. patternMatches pat topic) patterns"

definition authorize :: "Server \<Rightarrow> Principal option \<Rightarrow> access \<Rightarrow> string \<Rightarrow> go_error + unit" where
  "authorize s p acc topic =
     (if authenticator s = None then Inr ()
      else case p of
        None \<Rightarrow> Inl (WireError CodeUnauthenticated)
      | Some p \<Rightarrow>
          if pl_Admin p then Inr ()
          else if (case acc of
                     accessNone \<Rightarrow> True
                   | accessRead \<Rightarrow> topicAllowed (TopicsRead p) topic
                   | accessWrite \<Rightarrow> topicAllowed (TopicsWrite p) topic
                   | accessAdmin \<Rightarrow> False) then Inr ()
          else Inl (WireError CodeUnauthorized))"

fun authorizeAll :: "Server \<Rightarrow> Principal option \<Rightarrow> access \<Rightarrow> string list \<Rightarrow> go_error + unit" where
  "authorizeAll s p acc [] = Inr ()"
| "authorizeAll s p acc (t # ts) = bindS (authorize s p acc t) (\<lambda>_. authorizeAll s p acc ts)"

text \<open>
  One frame before authentication: the response, whether the connection stays open, the count of rejections and
  the principal of the connection.
\<close>

definition handlePreAuth :: "codec \<Rightarrow> Server \<Rightarrow> Authenticator \<Rightarrow> Frame \<Rightarrow> int \<Rightarrow> (Frame \<times> bool) \<times> int \<times> Principal option" where
  "handlePreAuth cd s auth f failures =
     (let reject = (\<lambda>code. ((ErrorFrame cd (CorrelationID f) (WireError code), failures + 1 < maxAuthFailures s), failures + 1, None)) in
      if f_Opcode f \<noteq> OpAuth then reject CodeUnauthenticated
      else case unAuth cd (Payload f) of
        None \<Rightarrow> reject CodeBadRequest
      | Some req \<Rightarrow>
          if au_ID req = [] \<or> au_Secret req = [] then reject CodeBadRequest
          else case auth (au_ID req) (au_Secret req) of
            None \<Rightarrow> reject CodeUnauthenticated
          | Some p \<Rightarrow>
              ((\<lparr>f_Opcode = OpAuth, CorrelationID = CorrelationID f, Payload = mustJSON cd (AuthResponse p)\<rparr>, True), failures, Some p))"

section \<open>Dispatch\<close>

text \<open>
  The tail every operation shares: call the backend, answer its error or its response. \<open>guarded\<close> is the access check before it.
\<close>

definition answer :: "codec \<Rightarrow> Frame \<Rightarrow> ('r \<Rightarrow> bytes) \<Rightarrow> ((go_error + 'r) \<times> 'b) go \<Rightarrow> (Frame \<times> 'b) go" where
  "answer cd f body res = bindS res (\<lambda>(r, b).
     Inr (case r of
            Inl err \<Rightarrow> ErrorFrame cd (CorrelationID f) err
          | Inr x \<Rightarrow> \<lparr>f_Opcode = f_Opcode f, CorrelationID = CorrelationID f, Payload = body x\<rparr>, b))"

definition jsonBody :: "codec \<Rightarrow> ('r \<Rightarrow> control_response) \<Rightarrow> 'r \<Rightarrow> bytes" where
  "jsonBody cd mk r = mustJSON cd (mk r)"

definition failWith :: "codec \<Rightarrow> Frame \<Rightarrow> 'b \<Rightarrow> error_code \<Rightarrow> (Frame \<times> 'b) go" where
  "failWith cd f b code = Inr (ErrorFrame cd (CorrelationID f) (WireError code), b)"

definition guarded :: "codec \<Rightarrow> Frame \<Rightarrow> 'b \<Rightarrow> go_error + unit \<Rightarrow> (Frame \<times> 'b) go \<Rightarrow> (Frame \<times> 'b) go" where
  "guarded cd f b check rest = (case check of Inl err \<Rightarrow> Inr (ErrorFrame cd (CorrelationID f) err, b) | Inr _ \<Rightarrow> rest)"

definition srv_dispatch :: "codec \<Rightarrow> Server \<Rightarrow> ('e, 'b) Backend \<Rightarrow> 'e \<Rightarrow> Frame \<Rightarrow> Principal option \<Rightarrow> 'b \<Rightarrow> (Frame \<times> 'b) go" where
  "srv_dispatch cd s be e f p b =
     (let badReq = failWith cd f b CodeBadRequest; op = f_Opcode f in
      if op = OpAuth then failWith cd f b (if authenticator s = None then CodeUnknownOpcode else CodeBadRequest)
      else if op = OpCreateTopic then
        guarded cd f b (authorize s p accessAdmin []) (case unCreateTopic cd (Payload f) of
          None \<Rightarrow> badReq
        | Some req \<Rightarrow> answer cd f (jsonBody cd (\<lambda>(topic, n). CreateTopicResponse topic n)) (be_CreateTopic be e req b))
      else if op = OpListTopics then
        guarded cd f b (authorize s p accessAdmin []) (answer cd f (jsonBody cd ListTopicsResponse) (be_ListTopics be e () b))
      else if op = OpProduce then
        (case DecodeProduceRequest (Payload f) of
           Inl _ \<Rightarrow> badReq
         | Inr req \<Rightarrow> guarded cd f b (authorize s p accessWrite (pr_Topic req)) (answer cd f EncodeProduceResponse (be_Produce be e req b)))
      else if op = OpFetch then
        (case DecodeFetchRequest (Payload f) of
           Inl _ \<Rightarrow> badReq
         | Inr req \<Rightarrow> guarded cd f b (authorize s p accessRead (fr_Topic req)) (answer cd f EncodeFetchResponse (be_Fetch be e req b)))
      else if op = OpCommitOffset then
        (case unCommitOffset cd (Payload f) of
           None \<Rightarrow> badReq
         | Some req \<Rightarrow> guarded cd f b (authorize s p accessRead (co_Topic req)) (answer cd f (jsonBody cd (\<lambda>_. EmptyResponse)) (be_CommitOffset be e req b)))
      else if op = OpFetchOffset then
        (case unFetchOffset cd (Payload f) of
           None \<Rightarrow> badReq
         | Some req \<Rightarrow> guarded cd f b (authorize s p accessRead (fo_Topic req)) (answer cd f (jsonBody cd FetchOffsetResponse) (be_FetchOffset be e req b)))
      else if op = OpJoinGroup then
        (case unJoinGroup cd (Payload f) of
           None \<Rightarrow> badReq
         | Some req \<Rightarrow>
             guarded cd f b (authorizeAll s p accessRead (jg_Topics req))
               (answer cd f (jsonBody cd (\<lambda>(gen, as). JoinGroupResponse gen (jg_MemberID req) as)) (be_JoinGroup be e req b)))
      else if op = OpLeaveGroup then
        (case unLeaveGroup cd (Payload f) of
           None \<Rightarrow> badReq
         | Some req \<Rightarrow> answer cd f (jsonBody cd (\<lambda>_. EmptyResponse)) (be_LeaveGroup be e req b))
      else if op = OpHeartbeat then
        (case unHeartbeat cd (Payload f) of
           None \<Rightarrow> badReq
         | Some req \<Rightarrow> answer cd f (jsonBody cd (\<lambda>_. EmptyResponse)) (be_Heartbeat be e req b))
      else failWith cd f b CodeUnknownOpcode)"

section \<open>A connection\<close>

text \<open>
  Where the read loop of \<open>serveConn\<close> stands: at the next frame, sending a reply of the pre-auth gate, with a frame for
  which it tries to get a slot, with a frame for which it found all slots taken, or past the loop, where it waits for the handlers.
\<close>

datatype read_loop = Reading | Replying Frame bool | WantsSlot Frame | Blocked Frame | Draining

text \<open>
  The state of \<open>serveConn\<close>. A handler holds its slot while it runs (\<open>cn_inflight\<close>, with the principal its frame was read under)
  and until it has sent its response (\<open>cn_finished\<close>) to the channel \<open>resCh\<close> (\<open>cn_queue\<close>), which the writer empties as long as it
  lives (\<open>cn_writer\<close>) and the connection is open. \<open>cn_read\<close> are the frames read, \<open>cn_out\<close> the responses written, \<open>cn_lost\<close>
  a response whose write failed, \<open>cn_dropped\<close> a frame given up at a shutdown.
\<close>

record conn =
  cn_principal :: "Principal option"
  cn_failures :: int
  cn_loop :: read_loop
  cn_inflight :: "(Frame \<times> Principal option) list"
  cn_finished :: "Frame list"
  cn_queue :: "Frame list"
  cn_writer :: bool
  cn_open :: bool
  cn_ctxDone :: bool
  cn_closing :: bool
  cn_read :: "Frame list"
  cn_out :: "Frame list"
  cn_lost :: "Frame list"
  cn_dropped :: "Frame list"

definition newConn :: conn where
  "newConn = \<lparr>cn_principal = None, cn_failures = 0, cn_loop = Reading, cn_inflight = [], cn_finished = [], cn_queue = [], cn_writer = True,
     cn_open = True, cn_ctxDone = False, cn_closing = False, cn_read = [], cn_out = [], cn_lost = [], cn_dropped = []\<rparr>"

definition readDeadline :: "Server \<Rightarrow> conn \<Rightarrow> int" where
  "readDeadline s cn = (if authenticator s \<noteq> None \<and> cn_principal cn = None then authTimeout s else idleTimeout s)"

text \<open>The read loop with the next frame, up to the send of a pre-auth reply or the wait for a slot.\<close>

definition readLoop :: "codec \<Rightarrow> Server \<Rightarrow> Frame \<Rightarrow> conn \<Rightarrow> conn" where
  "readLoop cd s f cn =
     (let cn = cn\<lparr>cn_read := cn_read cn @ [f]\<rparr> in
      case (authenticator s, cn_principal cn) of
        (Some auth, None) \<Rightarrow>
          (case handlePreAuth cd s auth f (cn_failures cn) of
             ((resp, keepGoing), failures, p) \<Rightarrow>
               cn\<lparr>cn_failures := failures, cn_principal := p, cn_loop := Replying resp keepGoing\<rparr>)
      | _ \<Rightarrow> cn\<lparr>cn_loop := WantsSlot f\<rparr>)"

definition sendReply :: "Frame \<Rightarrow> bool \<Rightarrow> conn \<Rightarrow> conn" where
  "sendReply resp keepGoing cn = cn\<lparr>cn_queue := cn_queue cn @ [resp], cn_loop := (if keepGoing then Reading else Draining)\<rparr>"

text \<open>The semaphore: a free slot starts a handler, and a server that is closing reads no further frame.\<close>

definition slots :: "conn \<Rightarrow> nat" where
  "slots cn = length (cn_inflight cn) + length (cn_finished cn)"

definition acquireSlot :: "Frame \<Rightarrow> conn \<Rightarrow> conn" where
  "acquireSlot f cn =
     (if slots cn < maxInFlightPerConn
      then cn\<lparr>cn_inflight := cn_inflight cn @ [(f, cn_principal cn)], cn_loop := (if cn_closing cn then Draining else Reading)\<rparr>
      else cn\<lparr>cn_loop := Blocked f\<rparr>)"

text \<open>Shutdown while the cap is full: the frame that was read is given up.\<close>

definition dropFrame :: "Frame \<Rightarrow> conn \<Rightarrow> conn" where
  "dropFrame f cn = cn\<lparr>cn_dropped := cn_dropped cn @ [f], cn_loop := Draining\<rparr>"

text \<open>The handler of the \<open>i\<close>-th frame in flight runs up to its response, and the \<open>i\<close>-th finished one sends it.\<close>

definition handleFrame :: "codec \<Rightarrow> Server \<Rightarrow> ('e, 'b) Backend \<Rightarrow> 'e \<Rightarrow> nat \<Rightarrow> conn \<times> 'b \<Rightarrow> (conn \<times> 'b) go" where
  "handleFrame cd s be e i = (\<lambda>(cn, b).
     let (f, p) = cn_inflight cn ! i in
     bindS (srv_dispatch cd s be e f p b) (\<lambda>(resp, b).
       Inr (cn\<lparr>cn_inflight := take i (cn_inflight cn) @ drop (Suc i) (cn_inflight cn), cn_finished := cn_finished cn @ [resp]\<rparr>, b)))"

definition sendResponse :: "nat \<Rightarrow> conn \<Rightarrow> conn" where
  "sendResponse i cn =
     cn\<lparr>cn_queue := cn_queue cn @ [cn_finished cn ! i], cn_finished := take i (cn_finished cn) @ drop (Suc i) (cn_finished cn)\<rparr>"

text \<open>
  The writer with the next response; \<open>ok\<close> tells whether the network takes it. A failed write, of a response above the frame cap
  too, closes the connection and ends the writer.
\<close>

definition writeResponse :: "bool \<Rightarrow> conn \<Rightarrow> conn" where
  "writeResponse ok cn =
     (case cn_queue cn of
        [] \<Rightarrow> cn
      | r # rs \<Rightarrow>
          if ok \<and> cn_open cn \<and> \<not> isl (WriteFrame r) then cn\<lparr>cn_queue := rs, cn_out := cn_out cn @ [r]\<rparr>
          else cn\<lparr>cn_queue := rs, cn_lost := cn_lost cn @ [r], cn_open := False, cn_writer := False\<rparr>)"

text \<open>
  The goroutines of a connection, one step at a time. A send to \<open>resCh\<close> waits for room: \<open>connDone\<close>, the alternative of
  the code, is closed only when \<open>serveConn\<close> returns. \<open>ReadFails\<close>: the peer has closed, a deadline has passed, a frame was too large,
  or the connection is closed. \<open>Cancel\<close>, \<open>Close\<close> and \<open>ForceClose\<close> are the stages of a shutdown. \<open>Others\<close>: the rest of the
  broker. A panic of a handler ends the process and is no step.
\<close>

inductive conn_step :: "codec \<Rightarrow> Server \<Rightarrow> ('e, 'b) Backend \<Rightarrow> conn \<times> 'b \<Rightarrow> conn \<times> 'b \<Rightarrow> bool" for cd s be where
  Reads: "cn_loop cn = Reading \<Longrightarrow> cn_open cn \<Longrightarrow> conn_step cd s be (cn, b) (readLoop cd s f cn, b)"
| ReadFails: "cn_loop cn = Reading \<Longrightarrow> conn_step cd s be (cn, b) (cn\<lparr>cn_loop := Draining\<rparr>, b)"
| Reply: "cn_loop cn = Replying resp keepGoing \<Longrightarrow> length (cn_queue cn) < maxInFlightPerConn \<Longrightarrow>
    conn_step cd s be (cn, b) (sendReply resp keepGoing cn, b)"
| Acquire: "cn_loop cn = WantsSlot f \<or> cn_loop cn = Blocked f \<Longrightarrow> conn_step cd s be (cn, b) (acquireSlot f cn, b)"
| Drop: "cn_loop cn = Blocked f \<Longrightarrow> cn_ctxDone cn \<Longrightarrow> conn_step cd s be (cn, b) (dropFrame f cn, b)"
| Handle: "i < length (cn_inflight cn) \<Longrightarrow> handleFrame cd s be e i (cn, b) = Inr (cn', b') \<Longrightarrow> conn_step cd s be (cn, b) (cn', b')"
| Send: "i < length (cn_finished cn) \<Longrightarrow> length (cn_queue cn) < maxInFlightPerConn \<Longrightarrow>
    conn_step cd s be (cn, b) (sendResponse i cn, b)"
| Write: "cn_writer cn \<Longrightarrow> conn_step cd s be (cn, b) (writeResponse ok cn, b)"
| Cancel: "conn_step cd s be (cn, b) (cn\<lparr>cn_ctxDone := True\<rparr>, b)"
| Close: "cn_ctxDone cn \<Longrightarrow> conn_step cd s be (cn, b) (cn\<lparr>cn_closing := True\<rparr>, b)"
| ForceClose: "cn_closing cn \<Longrightarrow> conn_step cd s be (cn, b) (cn\<lparr>cn_open := False\<rparr>, b)"
| Others: "conn_step cd s be (cn, b) (cn, b')"

abbreviation connected :: "codec \<Rightarrow> Server \<Rightarrow> ('e, 'b) Backend \<Rightarrow> conn \<Rightarrow> 'b \<Rightarrow> bool" where
  "connected cd s be cn b \<equiv> \<exists>b0. (conn_step cd s be)\<^sup>*\<^sup>* (newConn, b0) (cn, b)"

section \<open>Static credentials\<close>

record APIKey =
  k_ID :: string
  SecretSHA256 :: string
  k_TopicsRead :: "string list"
  k_TopicsWrite :: "string list"
  k_Admin :: bool

datatype key_error = InvalidJSON | MissingID | DuplicateID | BadHash | EmptyPattern | RedundantGrants

text \<open>\<open>encoding/hex\<close>: two digits of either case for a byte.\<close>

definition hexValue :: "char \<Rightarrow> nat option" where
  "hexValue c = (let n = of_char c in
     if 48 \<le> n \<and> n \<le> 57 then Some (n - 48)
     else if 97 \<le> n \<and> n \<le> 102 then Some (n - 87)
     else if 65 \<le> n \<and> n \<le> 70 then Some (n - 55) else None)"

fun hexDecode :: "string \<Rightarrow> bytes option" where
  "hexDecode [] = Some []"
| "hexDecode [c] = None"
| "hexDecode (c # c' # cs) =
     (case (hexValue c, hexValue c', hexDecode cs) of
        (Some h, Some l, Some bs) \<Rightarrow> Some (of_nat (16 * h + l) # bs)
      | _ \<Rightarrow> None)"

definition sha256Size :: nat where
  "sha256Size = 32"

definition keyHash :: "APIKey \<Rightarrow> bytes option" where
  "keyHash k = (case hexDecode (SecretSHA256 k) of None \<Rightarrow> None | Some h \<Rightarrow> if length h \<noteq> sha256Size then None else Some h)"

fun checkKeys :: "string list \<Rightarrow> APIKey list \<Rightarrow> key_error + unit" where
  "checkKeys seen [] = Inr ()"
| "checkKeys seen (k # ks) =
     (if k_ID k = [] then Inl MissingID
      else if k_ID k \<in> set seen then Inl DuplicateID
      else if keyHash k = None then Inl BadHash
      else if [] \<in> set (k_TopicsRead k @ k_TopicsWrite k) then Inl EmptyPattern
      else if k_Admin k \<and> (k_TopicsRead k \<noteq> [] \<or> k_TopicsWrite k \<noteq> []) then Inl RedundantGrants
      else checkKeys (k_ID k # seen) ks)"

definition parseAPIKeys :: "(string \<Rightarrow> APIKey list option) \<Rightarrow> string \<Rightarrow> key_error + APIKey list" where
  "parseAPIKeys unmarshal raw =
     (if TrimSpace raw = [] then Inr []
      else case unmarshal raw of
        None \<Rightarrow> Inl InvalidJSON
      | Some keys \<Rightarrow> bindS (checkKeys [] keys) (\<lambda>_. Inr keys))"

type_synonym apiKeyEntry = "bytes \<times> Principal"

definition keyPrincipal :: "APIKey \<Rightarrow> Principal" where
  "keyPrincipal k = \<lparr>pl_ID = k_ID k, TopicsRead = k_TopicsRead k, TopicsWrite = k_TopicsWrite k, pl_Admin = k_Admin k\<rparr>"

fun addKeys :: "(string \<times> apiKeyEntry) list \<Rightarrow> APIKey list \<Rightarrow> key_error + (string \<times> apiKeyEntry) list" where
  "addKeys m [] = Inr m"
| "addKeys m (k # ks) = (case keyHash k of None \<Rightarrow> Inl BadHash | Some h \<Rightarrow> addKeys (AList.update (k_ID k) (h, keyPrincipal k) m) ks)"

definition newStaticAuthenticator :: "APIKey list \<Rightarrow> key_error + (string \<times> apiKeyEntry) list" where
  "newStaticAuthenticator keys = addKeys [] keys"

definition dummyHash :: "(string \<Rightarrow> bytes) \<Rightarrow> bytes" where
  "dummyHash sha256 = sha256 ''raven-broker-auth-dummy''"

definition Authenticate :: "(string \<Rightarrow> bytes) \<Rightarrow> (string \<times> apiKeyEntry) list \<Rightarrow> Authenticator" where
  "Authenticate sha256 keys i secret =
     (let e = map_of keys i; hash = (case e of None \<Rightarrow> dummyHash sha256 | Some (h, _) \<Rightarrow> h)
      in if sha256 secret \<noteq> hash \<or> e = None then None else map_option snd e)"

text \<open>How \<open>New\<close> turns the configured keys into the server's authenticator: no keys means open mode.\<close>

definition brokerAuthenticator :: "(string \<Rightarrow> bytes) \<Rightarrow> (string \<Rightarrow> APIKey list option) \<Rightarrow> string \<Rightarrow> key_error + Authenticator option" where
  "brokerAuthenticator sha256 unmarshal raw =
     bindS (parseAPIKeys unmarshal raw) (\<lambda>keys.
       if keys = [] then Inr None else bindS (newStaticAuthenticator keys) (\<lambda>m. Inr (Some (Authenticate sha256 m))))"

section \<open>The broker as backend\<close>

text \<open>
  What surrounds one call of the broker; \<open>re_dirs\<close> are the directories already on disk of a topic to create,
  \<open>re_others\<close> is what other calls do to the groups between the check and the write of a commit.
\<close>

record request_env =
  re_rt :: runtime
  re_now :: i64
  re_clock :: int
  re_send :: "i32 \<Rightarrow> handover"
  re_evs :: "i32 \<Rightarrow> wait_event list"
  re_dirs :: "string \<Rightarrow> (string \<times> disk) list"
  re_others :: "Coordinator \<times> disk \<Rightarrow> Coordinator \<times> disk"

definition broker_backend :: "(request_env, Broker) Backend" where
  "broker_backend =
     \<lparr>be_CreateTopic = (\<lambda>e q b. b_CreateTopic (re_rt e) (re_dirs e (ct_Topic q)) (ct_Topic q) (ct_Partitions q) b),
      be_ListTopics = (\<lambda>e q b. Inr (Inr (ListTopics b), b)),
      be_Produce = (\<lambda>e q b. Produce (re_rt e) (re_now e) (re_send e) (re_evs e) q b),
      be_Fetch = (\<lambda>e q b. bindS (b_Fetch (re_rt e) q b) (\<lambda>r. Inr (r, b))),
      be_CommitOffset = (\<lambda>e q b. Inr (b_CommitOffset (re_rt e) (re_others e) (co_Group q) (co_MemberID q) (co_Topic q) (co_Partition q) (co_Offset q) (co_Generation q) b)),
      be_FetchOffset = (\<lambda>e q b. Inr (b_FetchOffset (fo_Group q) (fo_MemberID q) (fo_Topic q) (fo_Partition q) (fo_Generation q) b, b)),
      be_JoinGroup = (\<lambda>e q b. Inr (b_JoinGroup (re_clock e) (jg_Group q) (jg_MemberID q) (jg_Topics q) b)),
      be_LeaveGroup = (\<lambda>e q b. Inr (Inr (), b_LeaveGroup (lg_Group q) (lg_MemberID q) b)),
      be_Heartbeat = (\<lambda>e q b. Inr (b_Heartbeat (re_clock e) (hb_Group q) (hb_MemberID q) (hb_Generation q) b))\<rparr>"

section \<open>What an operation may change\<close>

lemma answer_state: "answer cd f body res = Inr (resp, b') \<longleftrightarrow>
    (\<exists>r. res = Inr (r, b') \<and> resp = (case r of Inl err \<Rightarrow> ErrorFrame cd (CorrelationID f) err
      | Inr x \<Rightarrow> \<lparr>f_Opcode = f_Opcode f, CorrelationID = CorrelationID f, Payload = body x\<rparr>))"
  by (auto simp: answer_def bindS_eq_Inr_iff)

lemma guarded_state: "guarded cd f b check rest = Inr (resp, b') \<longleftrightarrow>
    (\<exists>err. check = Inl err \<and> resp = ErrorFrame cd (CorrelationID f) err \<and> b' = b) \<or> check = Inr () \<and> rest = Inr (resp, b')"
  by (auto simp: guarded_def split: sum.split)

text \<open>A condition on the outcomes of a handler, and how it goes through the branches of \<open>srv_dispatch\<close>.\<close>

definition outcomes :: "(Frame \<Rightarrow> 'b \<Rightarrow> bool) \<Rightarrow> (Frame \<times> 'b) go \<Rightarrow> bool" where
  "outcomes P m \<longleftrightarrow> (\<forall>resp b. m = Inr (resp, b) \<longrightarrow> P resp b)"

lemma outcomes_branches:
  "outcomes P m \<Longrightarrow> outcomes P n \<Longrightarrow> outcomes P (if c then m else n)"
  "outcomes P m \<Longrightarrow> (\<And>x. outcomes P (g x)) \<Longrightarrow> outcomes P (case o1 of None \<Rightarrow> m | Some x \<Rightarrow> g x)"
  "(\<And>e. outcomes P (h e)) \<Longrightarrow> (\<And>x. outcomes P (g' x)) \<Longrightarrow> outcomes P (case o2 of Inl e \<Rightarrow> h e | Inr x \<Rightarrow> g' x)"
  by (simp_all split: option.split sum.split)

lemma outcomes_guarded:
  assumes "\<And>err. P (ErrorFrame cd (CorrelationID f) err) b" and "check = Inr () \<Longrightarrow> outcomes P rest"
  shows "outcomes P (guarded cd f b check rest)"
  using assms by (auto simp: outcomes_def guarded_state)

lemma outcomes_failWith: "P (ErrorFrame cd (CorrelationID f) (WireError code)) b \<Longrightarrow> outcomes P (failWith cd f b code)"
  by (simp add: outcomes_def failWith_def)

lemma outcomes_answer: "(\<And>r b' resp. res = Inr (r, b') \<Longrightarrow> CorrelationID resp = CorrelationID f \<Longrightarrow> P resp b') \<Longrightarrow> outcomes P (answer cd f body res)"
proof -
  have "CorrelationID (case r of Inl err \<Rightarrow> ErrorFrame cd (CorrelationID f) err
      | Inr x \<Rightarrow> \<lparr>f_Opcode = f_Opcode f, CorrelationID = CorrelationID f, Payload = body x\<rparr>) = CorrelationID f" for r
    by (cases r) (simp_all add: ErrorFrame_def)
  moreover assume "\<And>r b' resp. res = Inr (r, b') \<Longrightarrow> CorrelationID resp = CorrelationID f \<Longrightarrow> P resp b'"
  ultimately show ?thesis by (auto simp: outcomes_def answer_state)
qed

lemmas outcomes_intros = outcomes_branches outcomes_guarded outcomes_failWith outcomes_answer

text \<open>A backend whose topics only CREATE_TOPIC and a PRODUCE on them change.\<close>

locale topic_backend =
  fixes be :: "('e, 'b) Backend" and view :: "'b \<Rightarrow> string \<Rightarrow> 'v"
  assumes list_keeps: "be_ListTopics be e u b = Inr (r1, b') \<Longrightarrow> view b' = view b"
    and produce_keeps: "be_Produce be e pq b = Inr (r2, b') \<Longrightarrow> topic \<noteq> pr_Topic pq \<Longrightarrow> view b' topic = view b topic"
    and fetch_keeps: "be_Fetch be e fq b = Inr (r3, b') \<Longrightarrow> view b' = view b"
    and commit_keeps: "be_CommitOffset be e cq b = Inr (r4, b') \<Longrightarrow> view b' = view b"
    and offset_keeps: "be_FetchOffset be e oq b = Inr (r5, b') \<Longrightarrow> view b' = view b"
    and join_keeps: "be_JoinGroup be e jq b = Inr (r6, b') \<Longrightarrow> view b' = view b"
    and leave_keeps: "be_LeaveGroup be e lq b = Inr (r7, b') \<Longrightarrow> view b' = view b"
    and heartbeat_keeps: "be_Heartbeat be e hq b = Inr (r8, b') \<Longrightarrow> view b' = view b"
begin

lemmas keeps = list_keeps fetch_keeps commit_keeps offset_keeps join_keeps leave_keeps heartbeat_keeps

lemma produce_or: "be_Produce be e q b = Inr (r, b') \<Longrightarrow> view b' topic = view b topic \<or> pr_Topic q = topic"
  using produce_keeps by metis

lemma dispatch_backed:
  assumes "srv_dispatch cd s be e f p b = Inr (resp, b')" and "view b' topic \<noteq> view b topic"
  shows "authenticator s = None \<or> (\<exists>q. p = Some q \<and> (pl_Admin q \<or> topicAllowed (TopicsWrite q) topic))"
proof -
  have "topicAllowed (TopicsWrite q) topic" if "authorize s p accessWrite topic = Inr ()" "p = Some q" "\<not> pl_Admin q" "authenticator s \<noteq> None" for q
    using that by (simp add: authorize_def split: if_splits)
  moreover have "\<exists>q. p = Some q \<and> pl_Admin q" if "authorize s p accessAdmin t = Inr ()" "authenticator s \<noteq> None" for t
    using that by (auto simp: authorize_def split: option.splits if_splits)
  moreover have "p \<noteq> None" if "authorize s p accessWrite topic = Inr ()" "authenticator s \<noteq> None"
    using that by (cases p) (auto simp: authorize_def)
  moreover have "authorize s p accessAdmin [] = Inr () \<or> authorize s p accessWrite topic = Inr ()"
  proof -
    have "outcomes (\<lambda>_ b'. view b' topic = view b topic \<or> authorize s p accessAdmin [] = Inr () \<or> authorize s p accessWrite topic = Inr ())
      (srv_dispatch cd s be e f p b)"
      unfolding srv_dispatch_def Let_def
      by (intro outcomes_intros) (auto dest: keeps produce_or [where topic = topic])
    then show ?thesis using assms by (auto simp: outcomes_def)
  qed
  ultimately show ?thesis by blast
qed

end

section \<open>The frames of a connection\<close>

text \<open>The principal comes from an AUTH frame that was read.\<close>

definition authed :: "codec \<Rightarrow> Authenticator \<Rightarrow> Frame list \<Rightarrow> Principal \<Rightarrow> bool" where
  "authed cd auth fs q \<longleftrightarrow> (\<exists>g \<in> set fs. f_Opcode g = OpAuth \<and>
     (\<exists>req. unAuth cd (Payload g) = Some req \<and> auth (au_ID req) (au_Secret req) = Some q))"

text \<open>
  Every frame read is at exactly one place: answered, lost or on its way through queue, handlers and read loop, or dropped. What is in
  flight has been authenticated.
\<close>

fun loopFrames :: "read_loop \<Rightarrow> Frame list" where
  "loopFrames (Replying resp keepGoing) = [resp]"
| "loopFrames (WantsSlot f) = [f]"
| "loopFrames (Blocked f) = [f]"
| "loopFrames _ = []"

definition answered :: "conn \<Rightarrow> bool" where
  "answered cn \<longleftrightarrow> image_mset CorrelationID (mset (cn_read cn)) = image_mset CorrelationID (mset (cn_out cn @ cn_lost cn @ cn_queue cn @
     cn_finished cn @ map fst (cn_inflight cn) @ loopFrames (cn_loop cn) @ cn_dropped cn))"

definition bounded :: "conn \<Rightarrow> bool" where
  "bounded cn \<longleftrightarrow> slots cn \<le> maxInFlightPerConn \<and> length (cn_queue cn) \<le> maxInFlightPerConn \<and>
     (cn_lost cn = [] \<or> length (cn_lost cn) = 1 \<and> \<not> cn_writer cn \<and> \<not> cn_open cn) \<and>
     (cn_dropped cn = [] \<or> length (cn_dropped cn) = 1 \<and> cn_ctxDone cn \<and> cn_loop cn = Draining)"

definition backed :: "codec \<Rightarrow> Authenticator \<Rightarrow> conn \<Rightarrow> bool" where
  "backed cd auth cn \<longleftrightarrow>
     (cn_principal cn = None \<longrightarrow> cn_inflight cn = [] \<and> cn_finished cn = [] \<and> (\<forall>f. cn_loop cn \<noteq> WantsSlot f \<and> cn_loop cn \<noteq> Blocked f)) \<and>
     (\<forall>q. cn_principal cn = Some q \<longrightarrow> authed cd auth (cn_read cn) q) \<and>
     (\<forall>x \<in> set (cn_inflight cn). \<exists>q. snd x = Some q \<and> authed cd auth (cn_read cn) q)"

definition conn_inv :: "codec \<Rightarrow> Server \<Rightarrow> conn \<Rightarrow> bool" where
  "conn_inv cd s cn \<longleftrightarrow> answered cn \<and> bounded cn \<and> (\<forall>auth. authenticator s = Some auth \<longrightarrow> backed cd auth cn)"

lemmas conn_inv_defs = conn_inv_def answered_def bounded_def backed_def

lemma authed_more: "authed cd auth fs q \<Longrightarrow> authed cd auth (fs @ gs) q"
  by (auto simp: authed_def)

lemma handlePreAuth_facts:
  assumes "handlePreAuth cd s auth f failures = ((resp, keep), failures', p)"
  shows "CorrelationID resp = CorrelationID f" and "p = Some q \<Longrightarrow> authed cd auth [f] q"
  using assms by (auto simp: handlePreAuth_def ErrorFrame_def authed_def Let_def split: if_splits option.splits)

lemma dispatch_correlation: "outcomes (\<lambda>resp _. CorrelationID resp = CorrelationID f) (srv_dispatch cd s be e f p b)"
  unfolding srv_dispatch_def Let_def by (intro outcomes_intros) (simp_all add: ErrorFrame_def)

lemma conn_inv_read:
  assumes "conn_inv cd s cn" and "cn_loop cn = Reading"
  shows "conn_inv cd s (readLoop cd s f cn)"
proof (cases "authenticator s = None \<or> cn_principal cn \<noteq> None")
  case True
  then have r: "readLoop cd s f cn = cn\<lparr>cn_read := cn_read cn @ [f], cn_loop := WantsSlot f\<rparr>"
    by (auto simp: readLoop_def Let_def split: option.split)
  have "backed cd auth (cn\<lparr>cn_read := cn_read cn @ [f], cn_loop := WantsSlot f\<rparr>)" if au: "authenticator s = Some auth" for auth
    using assms(1) au True authed_more [of cd auth "cn_read cn" _ "[f]"] by (fastforce simp: conn_inv_def backed_def)
  then show ?thesis using assms unfolding r by (simp add: conn_inv_def answered_def bounded_def slots_def)
next
  case False
  then obtain auth where auth: "authenticator s = Some auth" "cn_principal cn = None" by auto
  obtain resp keep failures p where h: "handlePreAuth cd s auth f (cn_failures cn) = ((resp, keep), failures, p)" by (metis prod.collapse)
  have "authed cd auth (cn_read cn @ [f]) q" if "p = Some q" for q
    using handlePreAuth_facts(2) [OF h that] by (auto simp: authed_def)
  then show ?thesis
    using assms auth h handlePreAuth_facts(1) [OF h] by (simp add: conn_inv_defs readLoop_def Let_def slots_def)
qed

lemma conn_inv_slot:
  assumes "conn_inv cd s cn" and "cn_loop cn = WantsSlot f \<or> cn_loop cn = Blocked f"
  shows "conn_inv cd s (acquireSlot f cn)"
proof (cases "slots cn < maxInFlightPerConn")
  case True
  have "\<exists>q. cn_principal cn = Some q \<and> authed cd auth (cn_read cn) q" if "authenticator s = Some auth" for auth
    using assms that by (cases "cn_principal cn") (auto simp: conn_inv_def backed_def)
  then show ?thesis using assms True by (fastforce simp: acquireSlot_def conn_inv_defs slots_def)
next
  case False
  then show ?thesis using assms by (auto simp: acquireSlot_def conn_inv_defs slots_def)
qed

lemma mset_remove_nth: "i < length xs \<Longrightarrow> mset xs = add_mset (xs ! i) (mset (take i xs @ drop (Suc i) xs))"
  by (subst id_take_nth_drop [of i xs]) simp_all

lemma conn_inv_handle:
  assumes "conn_inv cd s cn" and "i < length (cn_inflight cn)" and "handleFrame cd s be e i (cn, b) = Inr (cn', b')"
  shows "conn_inv cd s cn'"
proof -
  let ?rest = "take i (cn_inflight cn) @ drop (Suc i) (cn_inflight cn)"
  obtain f p where fp: "cn_inflight cn ! i = (f, p)" by fastforce
  obtain resp where d: "srv_dispatch cd s be e f p b = Inr (resp, b')" and cn': "cn' = cn\<lparr>cn_inflight := ?rest, cn_finished := cn_finished cn @ [resp]\<rparr>"
    using assms(3) by (auto simp: handleFrame_def fp bindS_eq_Inr_iff)
  have c: "CorrelationID resp = CorrelationID f" using dispatch_correlation [of f cd s be e p b] d by (auto simp: outcomes_def)
  have "mset (map fst (cn_inflight cn)) = add_mset f (mset (map fst ?rest))"
    using arg_cong [OF mset_remove_nth [OF assms(2)], of "image_mset fst"] fp by simp
  then have "answered cn'" using assms(1) c by (simp add: conn_inv_def answered_def cn')
  moreover have "set ?rest \<subseteq> set (cn_inflight cn)" by (auto dest: in_set_takeD in_set_dropD)
  then have "backed cd auth cn'" if "authenticator s = Some auth" for auth
    using assms(1,2) that by (auto simp: conn_inv_def backed_def cn')
  moreover have "bounded cn'" using assms(1,2) by (auto simp: conn_inv_def bounded_def slots_def cn')
  ultimately show ?thesis by (simp add: conn_inv_def)
qed

lemma conn_inv_send:
  assumes "conn_inv cd s cn" and "i < length (cn_finished cn)" and "length (cn_queue cn) < maxInFlightPerConn"
  shows "conn_inv cd s (sendResponse i cn)"
proof -
  have "cn_principal cn \<noteq> None" if "authenticator s = Some auth" for auth
    using assms(1,2) that by (auto simp: conn_inv_def backed_def)
  moreover have "answered (sendResponse i cn)"
    using assms(1) mset_remove_nth [OF assms(2)] by (simp add: conn_inv_def answered_def sendResponse_def)
  ultimately show ?thesis using assms by (auto simp: conn_inv_def bounded_def backed_def sendResponse_def slots_def)
qed

lemma conn_inv_write:
  assumes "conn_inv cd s cn" and "cn_writer cn"
  shows "conn_inv cd s (writeResponse ok cn)"
  using assms by (cases "cn_queue cn") (auto simp: conn_inv_defs writeResponse_def slots_def)

lemma conn_inv_flags:
  assumes "conn_inv cd s cn"
  shows "cn_loop cn = Reading \<Longrightarrow> conn_inv cd s (cn\<lparr>cn_loop := Draining\<rparr>)"
    and "cn_loop cn = Replying resp keep \<Longrightarrow> length (cn_queue cn) < maxInFlightPerConn \<Longrightarrow> conn_inv cd s (sendReply resp keep cn)"
    and "cn_loop cn = Blocked f \<Longrightarrow> cn_ctxDone cn \<Longrightarrow> conn_inv cd s (dropFrame f cn)"
    and "conn_inv cd s (cn\<lparr>cn_ctxDone := True\<rparr>)" and "conn_inv cd s (cn\<lparr>cn_closing := True\<rparr>)" and "conn_inv cd s (cn\<lparr>cn_open := False\<rparr>)"
  using assms by (auto simp: conn_inv_defs sendReply_def dropFrame_def slots_def)

lemma connected_inv:
  assumes "(conn_step cd s be)\<^sup>*\<^sup>* (newConn, b0) (cn, b)"
  shows "conn_inv cd s cn"
proof -
  have "conn_inv cd s (fst x)" if "(conn_step cd s be)\<^sup>*\<^sup>* (newConn, b0) x" for x
    using that
  proof (induction rule: rtranclp_induct)
    case base
    show ?case by (simp add: conn_inv_defs newConn_def slots_def)
  next
    case (step y z)
    from step(2) show ?case
      by (cases rule: conn_step.cases)
        (use step.IH in \<open>simp_all add: conn_inv_read conn_inv_slot conn_inv_handle conn_inv_send conn_inv_write conn_inv_flags\<close>)
  qed
  from this [OF assms] show ?thesis by simp
qed

text \<open>
  The comment in \<open>serveConn\<close> says a send to \<open>resCh\<close> can never block. Once the writer is gone it can, and for good: with the channel full,
  nothing ever takes a response from it, a handler that has finished never gets rid of its response, and \<open>serveConn\<close>, which waits for the
  handlers, does not return.
\<close>

lemma dead_writer_blocks_handlers:
  assumes "(conn_step cd s be)\<^sup>*\<^sup>* (cn, b) (cn', b')" and "\<not> cn_writer cn" and "length (cn_queue cn) = maxInFlightPerConn"
  shows "cn_queue cn' = cn_queue cn \<and> \<not> cn_writer cn' \<and> (\<exists>more. cn_finished cn' = cn_finished cn @ more)"
proof -
  have "cn_queue (fst x) = cn_queue cn \<and> \<not> cn_writer (fst x) \<and> (\<exists>more. cn_finished (fst x) = cn_finished cn @ more)"
    if "(conn_step cd s be)\<^sup>*\<^sup>* (cn, b) x" for x
    using that
  proof (induction rule: rtranclp_induct)
    case base
    then show ?case using assms(2) by simp
  next
    case (step y z)
    from step(2) show ?case
    proof (cases rule: conn_step.cases)
      case (Reads c b f)
      then show ?thesis using step.IH by (auto simp: readLoop_def Let_def split: option.split prod.split)
    next
      case (Acquire c f b)
      then show ?thesis using step.IH by (auto simp: acquireSlot_def)
    next
      case (Handle i c e b c' b')
      then show ?thesis using step.IH by (auto simp: handleFrame_def bindS_eq_Inr_iff split: prod.splits)
    qed (use step.IH assms(3) in \<open>auto simp: dropFrame_def\<close>)
  qed
  from this [OF assms(1)] show ?thesis by simp
qed

section \<open>The broker keeps the contract\<close>

definition topic_view :: "Broker \<Rightarrow> string \<Rightarrow> Topic option" where
  "topic_view b topic = map_of (topics (nd_store b)) topic"

lemma topic_view_store: "nd_store b' = nd_store b \<Longrightarrow> topic_view b' = topic_view b"
  by (simp add: topic_view_def fun_eq_iff)

lemma topic_view_put [simp]:
  "topic' \<noteq> topic \<Longrightarrow> topic_view (putPartition topic part pd b) topic' = topic_view b topic'"
  "topic' \<noteq> topic \<Longrightarrow> topic_view (putTopic topic t b) topic' = topic_view b topic'"
  by (simp_all add: topic_view_def putPartition_def putTopic_def update_conv' split: option.split)

text \<open>A call that leaves a topic as it was, and how this goes through the constructs of the calls.\<close>

definition leaves :: "string \<Rightarrow> Broker \<Rightarrow> ('r \<times> Broker) go \<Rightarrow> bool" where
  "leaves topic b m \<longleftrightarrow> (\<forall>r b'. m = Inr (r, b') \<longrightarrow> topic_view b' topic = topic_view b topic)"

lemma leaves_return: "topic_view b' topic = topic_view b topic \<Longrightarrow> leaves topic b (Inr (r, b'))"
  "topic_view b' topic = topic_view b topic \<Longrightarrow> leaves topic b (wireErr code b')"
  by (simp_all add: leaves_def wireErr_def)

lemma leaves_branch:
  "leaves topic b m \<Longrightarrow> leaves topic b n \<Longrightarrow> leaves topic b (if c then m else n)"
  "leaves topic b m \<Longrightarrow> (\<And>x. leaves topic b (g x)) \<Longrightarrow> leaves topic b (case x1 of None \<Rightarrow> m | Some x \<Rightarrow> g x)"
  "(\<And>e. leaves topic b (h e)) \<Longrightarrow> (\<And>x. leaves topic b (g' x)) \<Longrightarrow> leaves topic b (case x2 of Inl e \<Rightarrow> h e | Inr x \<Rightarrow> g' x)"
  "(\<And>x y. x3 = (x, y) \<Longrightarrow> leaves topic b (k x y)) \<Longrightarrow> leaves topic b (case x3 of (x, y) \<Rightarrow> k x y)"
  by (simp_all split: option.split sum.split prod.split)

lemma leaves_bind: "(\<And>x. m = Inr x \<Longrightarrow> leaves topic b (k x)) \<Longrightarrow> leaves topic b (bindS m k)"
  by (cases m) (simp_all add: leaves_def)

lemma leaves_view: "leaves topic b m \<Longrightarrow> m = Inr (r, b') \<Longrightarrow> topic_view b' topic = topic_view b topic"
  by (simp add: leaves_def)

lemma leaves_from: "leaves topic b1 m \<Longrightarrow> topic_view b1 topic = topic_view b topic \<Longrightarrow> leaves topic b m"
  by (simp add: leaves_def)

lemma writerTurn_keeps: "topic' \<noteq> topic \<Longrightarrow> leaves topic' b (writerTurn rt now topic part recs b)"
  unfolding writerTurn_def Let_def by (intro leaves_bind leaves_branch leaves_return) simp_all

lemma waiting_keeps:
  assumes "maybeAdvanceCommit topic p b = Inr b1"
    and "(if acks = AcksAll then waitCommitted topic p off evs Comparing b1 else Inr (None, b1)) = Inr (err, b2)"
  shows "topic_view b2 = topic_view b"
proof -
  have "marks_grow b1 b2" using assms(2) marks_grow_wait by (auto split: if_splits)
  then show ?thesis using marks_grow_maybeAdvance [OF assms(1)] by (intro topic_view_store) (simp add: marks_grow_def)
qed

lemma produceBatches_keeps: "topic' \<noteq> topic \<Longrightarrow> leaves topic' b (produceBatches rt now send evs topic acks bs ps results b)"
proof (induction ps arbitrary: results b)
  case (Cons p ps)
  have w: "topic_view b1 topic' = topic_view b topic'" if "writerTurn rt now topic p recs b = Inr (r, b1)" for recs r b1
    by (rule leaves_view [OF writerTurn_keeps [OF Cons.prems] that])
  have step: "leaves topic' b (produceBatches rt now send evs topic acks bs ps rs b1)" if "topic_view b1 topic' = topic_view b topic'" for rs b1
    by (rule leaves_from [OF Cons.IH [OF Cons.prems] that])
  show ?case
    unfolding produceBatches.simps Let_def
    by (intro leaves_branch leaves_bind leaves_return step) (auto dest!: w waiting_keeps)
qed (simp add: leaves_return)

lemma Produce_keeps: "topic \<noteq> pr_Topic req \<Longrightarrow> leaves topic b (Produce rt now send evs req b)"
  unfolding Produce_def Let_def
  by (intro leaves_branch leaves_bind leaves_return leaves_from [OF produceBatches_keeps]) simp_all

lemma CommitOffset_store: "b_CommitOffset rt others g m topic part off gen b = (r, b') \<Longrightarrow> nd_store b' = nd_store b"
  by (auto simp: b_CommitOffset_def split: sum.splits prod.splits if_splits)

interpretation bk: topic_backend broker_backend topic_view
proof unfold_locales
  show "be_Produce broker_backend e pq b = Inr (r2, b') \<Longrightarrow> topic \<noteq> pr_Topic pq \<Longrightarrow> topic_view b' topic = topic_view b topic" for e pq b r2 b' topic
    using leaves_view [OF Produce_keeps] by (fastforce simp: broker_backend_def)
  show "be_CommitOffset broker_backend e cq b = Inr (r4, b') \<Longrightarrow> topic_view b' = topic_view b" for e cq b r4 b'
    by (auto simp: broker_backend_def dest!: CommitOffset_store intro: topic_view_store)
qed (auto simp: broker_backend_def topic_view_def bindS_eq_Inr_iff b_JoinGroup_def b_LeaveGroup_def b_Heartbeat_def split: sum.splits prod.splits)

section \<open>Credentials\<close>

lemma checkKeys_ok: "checkKeys seen ks = Inr () \<Longrightarrow> distinct (map k_ID ks) \<and> set (map k_ID ks) \<inter> set seen = {} \<and> (\<forall>k \<in> set ks. keyHash k \<noteq> None)"
proof (induction ks arbitrary: seen)
  case (Cons k ks)
  have "checkKeys (k_ID k # seen) ks = Inr ()" "k_ID k \<notin> set seen" "keyHash k \<noteq> None" using Cons.prems by (auto split: if_splits)
  then show ?case using Cons.IH [of "k_ID k # seen"] by auto
qed simp

lemma addKeys_ok:
  assumes "addKeys m ks = Inr m'" and "distinct (map k_ID ks)" and "set (map k_ID ks) \<inter> dom (map_of m) = {}"
  shows "map_of m' i = Some (h, p) \<longleftrightarrow> map_of m i = Some (h, p) \<or> (\<exists>k \<in> set ks. k_ID k = i \<and> keyHash k = Some h \<and> p = keyPrincipal k)"
  using assms
proof (induction ks arbitrary: m)
  case (Cons k ks)
  obtain h' where h': "keyHash k = Some h'" "addKeys (AList.update (k_ID k) (h', keyPrincipal k) m) ks = Inr m'"
    using Cons.prems(1) by (auto split: option.splits)
  have d: "dom (map_of (AList.update (k_ID k) (h', keyPrincipal k) m)) = insert (k_ID k) (dom (map_of m))" by (auto simp: update_conv')
  have n: "map_of m (k_ID k) = None" using Cons.prems(3) by auto
  have "map_of m' i = Some (h, p) \<longleftrightarrow> map_of (AList.update (k_ID k) (h', keyPrincipal k) m) i = Some (h, p) \<or>
      (\<exists>k \<in> set ks. k_ID k = i \<and> keyHash k = Some h \<and> p = keyPrincipal k)"
    by (rule Cons.IH [OF h'(2)]) (use Cons.prems(2,3) d in auto)
  then show ?case using h'(1) n by (auto simp: update_conv')
qed simp

lemma addKeys_total: "\<forall>k \<in> set ks. keyHash k \<noteq> None \<Longrightarrow> \<exists>m'. addKeys m ks = Inr m'"
  by (induction ks arbitrary: m) (auto split: option.split)

section \<open>Properties\<close>

text \<open>
  Property C38. The credentials of a broker that booted with keys: \<open>Authenticate\<close> succeeds for exactly the ids of the configuration
  with a secret of the configured hash, and gives the grants of that key. A configuration that passes the checks always gives an
  authenticator. An AUTH frame is refused before that if its id or its secret is empty.
\<close>

theorem credentials_exact:
  assumes "TrimSpace raw \<noteq> []" and "unmarshal raw = Some keys" and "keys \<noteq> []" and "checkKeys [] keys = Inr ()"
  shows "\<exists>auth. brokerAuthenticator sha256 unmarshal raw = Inr (Some auth) \<and>
    (\<forall>i secret p. auth i secret = Some p \<longleftrightarrow> (\<exists>k \<in> set keys. k_ID k = i \<and> keyHash k = Some (sha256 secret) \<and> p = keyPrincipal k))"
proof -
  note c = checkKeys_ok [OF assms(4)]
  obtain m where m: "addKeys [] keys = Inr m" using addKeys_total c by blast
  have "Authenticate sha256 m i secret = Some p \<longleftrightarrow> map_of m i = Some (sha256 secret, p)" for i secret p
    by (auto simp: Authenticate_def Let_def split: option.splits)
  then show ?thesis
    using addKeys_ok [OF m] c assms m by (auto simp: brokerAuthenticator_def parseAPIKeys_def newStaticAuthenticator_def)
qed


text \<open>
  Property C36. With authentication on, a handler on the broker changes a topic, its partitions or its log, only for credentials that were
  presented on this connection and whose principal is an admin or has a write grant for that topic.
\<close>

theorem topic_change_backed:
  assumes "(conn_step cd s broker_backend)\<^sup>*\<^sup>* (newConn, b0) (cn, b)" and "authenticator s = Some auth" and "i < length (cn_inflight cn)"
    and "handleFrame cd s broker_backend e i (cn, b) = Inr (cn', b')" and "map_of (topics (nd_store b')) topic \<noteq> map_of (topics (nd_store b)) topic"
  shows "\<exists>g req q. g \<in> set (cn_read cn) \<and> f_Opcode g = OpAuth \<and> unAuth cd (Payload g) = Some req \<and>
    auth (au_ID req) (au_Secret req) = Some q \<and> (pl_Admin q \<or> topicAllowed (TopicsWrite q) topic)"
proof -
  obtain f p where fp: "cn_inflight cn ! i = (f, p)" by fastforce
  obtain resp where d: "srv_dispatch cd s broker_backend e f p b = Inr (resp, b')"
    using assms(4) by (auto simp: handleFrame_def fp bindS_eq_Inr_iff)
  have "(f, p) \<in> set (cn_inflight cn)" using assms(3) fp nth_mem by metis
  then obtain q where q: "p = Some q" "authed cd auth (cn_read cn) q"
    using connected_inv [OF assms(1)] assms(2) by (fastforce simp: conn_inv_def backed_def)
  have "pl_Admin q \<or> topicAllowed (TopicsWrite q) topic"
    using bk.dispatch_backed [OF d, of topic] assms(2,5) q(1) by (simp add: topic_view_def)
  then show ?thesis using q(2) unfolding authed_def by blast
qed

section \<open>Examples\<close>

definition sample_key :: APIKey where
  "sample_key = \<lparr>k_ID = ''w'', SecretSHA256 = replicate 64 (CHR ''0''), k_TopicsRead = [''u''], k_TopicsWrite = [''u*''], k_Admin = False\<rparr>"

definition sample_sha :: "string \<Rightarrow> bytes" where
  "sample_sha secret = replicate 32 (if secret = ''pw'' then 0 else 1)"

lemma sample_hash: "keyHash sample_key = Some (replicate 32 0)"
  by (simp add: keyHash_def sample_key_def hexValue_def sha256Size_def numeral_eq_Suc)

theorem credentials_exact_witness:
  "\<exists>auth. brokerAuthenticator sample_sha (\<lambda>_. Some [sample_key]) ''[]'' = Inr (Some auth) \<and>
     auth ''w'' ''pw'' = Some (keyPrincipal sample_key) \<and> auth ''w'' ''no'' = None"
proof -
  have "TrimSpace ''[]'' \<noteq> []" by code_simp
  moreover have "checkKeys [] [sample_key] = Inr ()" using sample_hash by (simp add: sample_key_def)
  ultimately obtain auth where a: "brokerAuthenticator sample_sha (\<lambda>_. Some [sample_key]) ''[]'' = Inr (Some auth)"
    "\<forall>i secret p. auth i secret = Some p \<longleftrightarrow> (\<exists>k \<in> set [sample_key]. k_ID k = i \<and> keyHash k = Some (sample_sha secret) \<and> p = keyPrincipal k)"
    using credentials_exact [of "''[]''" "\<lambda>_. Some [sample_key]" "[sample_key]" sample_sha] by auto
  have "auth ''w'' ''pw'' = Some (keyPrincipal sample_key)" using a(2) sample_hash by (simp add: sample_sha_def) (simp add: sample_key_def)
  moreover have "auth ''w'' ''no'' = None"
    using a(2) sample_hash by (cases "auth ''w'' ''no''") (auto simp: sample_sha_def numeral_eq_Suc)
  ultimately show ?thesis using a(1) by blast
qed

definition sample_codec :: codec where
  "sample_codec = \<lparr>unCreateTopic = (\<lambda>_. None), unCommitOffset = (\<lambda>_. None), unFetchOffset = (\<lambda>_. None), unJoinGroup = (\<lambda>_. None),
     unLeaveGroup = (\<lambda>_. None), unHeartbeat = (\<lambda>_. None), unAuth = (\<lambda>_. Some \<lparr>au_ID = ''w'', au_Secret = ''pw''\<rparr>), mustJSON = (\<lambda>_. [])\<rparr>"

definition sample_auth :: Authenticator where
  "sample_auth i secret = (if i = ''w'' \<and> secret = ''pw'' then Some (keyPrincipal sample_key) else None)"

definition sample_server :: Server where
  "sample_server = NewServer [WithAuthenticator (Some sample_auth)]"

definition auth_frame :: Frame where
  "auth_frame = \<lparr>f_Opcode = OpAuth, CorrelationID = 1, Payload = []\<rparr>"

definition produce_frame :: Frame where
  "produce_frame = \<lparr>f_Opcode = OpProduce, CorrelationID = 2, Payload = EncodeProduceRequest (sample_request 1)\<rparr>"

definition auth_response :: Frame where
  "auth_response = \<lparr>f_Opcode = OpAuth, CorrelationID = 1, Payload = []\<rparr>"

definition sample_authed :: conn where
  "sample_authed = sendReply auth_response True (readLoop sample_codec sample_server auth_frame newConn)"

definition sample_conn :: conn where
  "sample_conn = acquireSlot produce_frame (readLoop sample_codec sample_server produce_frame sample_authed)"

lemma sample_auth_read:
  "readLoop sample_codec sample_server auth_frame newConn =
     newConn\<lparr>cn_principal := Some (keyPrincipal sample_key), cn_loop := Replying auth_response True, cn_read := [auth_frame]\<rparr>"
  by (simp add: readLoop_def handlePreAuth_def sample_server_def NewServer_def WithAuthenticator_def newConn_def auth_frame_def
      sample_codec_def sample_auth_def auth_response_def Let_def)

lemma sample_authed_eq:
  "sample_authed = newConn\<lparr>cn_principal := Some (keyPrincipal sample_key), cn_queue := [auth_response], cn_read := [auth_frame]\<rparr>"
  unfolding sample_authed_def sample_auth_read by (simp add: sendReply_def newConn_def)

lemma sample_produce_read:
  "readLoop sample_codec sample_server produce_frame sample_authed =
     sample_authed\<lparr>cn_loop := WantsSlot produce_frame, cn_read := [auth_frame, produce_frame]\<rparr>"
  by (simp add: readLoop_def sample_authed_eq newConn_def Let_def split: option.split)

lemma sample_conn_eq:
  "sample_conn = newConn\<lparr>cn_principal := Some (keyPrincipal sample_key), cn_inflight := [(produce_frame, Some (keyPrincipal sample_key))],
     cn_queue := [auth_response], cn_read := [auth_frame, produce_frame]\<rparr>"
  unfolding sample_conn_def sample_produce_read
  by (simp add: acquireSlot_def slots_def sample_authed_eq newConn_def maxInFlightPerConn_def)

lemma sample_connected: "(conn_step sample_codec sample_server be)\<^sup>*\<^sup>* (newConn, b) (sample_conn, b)"
proof -
  have 1: "conn_step sample_codec sample_server be (newConn, b) (readLoop sample_codec sample_server auth_frame newConn, b)"
    by (rule Reads) (simp_all add: newConn_def)
  have 2: "conn_step sample_codec sample_server be (readLoop sample_codec sample_server auth_frame newConn, b) (sample_authed, b)"
    unfolding sample_authed_def sample_auth_read by (rule Reply) (simp_all add: newConn_def maxInFlightPerConn_def)
  have 3: "conn_step sample_codec sample_server be (sample_authed, b) (readLoop sample_codec sample_server produce_frame sample_authed, b)"
    by (rule Reads) (simp_all add: sample_authed_eq newConn_def)
  have 4: "conn_step sample_codec sample_server be (readLoop sample_codec sample_server produce_frame sample_authed, b) (sample_conn, b)"
    unfolding sample_conn_def by (rule Acquire) (simp add: sample_produce_read)
  show ?thesis using 1 2 3 4 by (meson rtranclp.rtrancl_refl rtranclp.rtrancl_into_rtrancl)
qed




definition sample_env :: request_env where
  "sample_env = \<lparr>re_rt = calm_runtime, re_now = 5, re_clock = 5, re_send = (\<lambda>_. Answered), re_evs = (\<lambda>_. []), re_dirs = (\<lambda>_. []), re_others = id\<rparr>"

lemma sample_handled:
  obtains cn' b' where "handleFrame sample_codec sample_server broker_backend sample_env 0 (sample_conn, sample_broker False (fresh_partition, fresh_disk)) = Inr (cn', b')"
    and "map_of (topics (nd_store b')) ''u'' \<noteq> map_of (topics (nd_store (sample_broker False (fresh_partition, fresh_disk)))) ''u''"
proof -
  let ?b = "sample_broker False (fresh_partition, fresh_disk)" and ?t = "sample_topic_of (fresh_partition, fresh_disk)"
  have req: "pr_Topic (sample_request 1) = ''u''" "pr_Records (sample_request 1) = [sample_message]" "pr_Acks (sample_request 1) = 1"
    "sint (pr_Partition (sample_request 1)) < 1" by (simp_all add: sample_request_def)
  have h: "serves_topic ?b (pr_Topic (sample_request 1)) ?t (\<lambda>_. [])" "pr_Records (sample_request 1) \<noteq> []"
    "sint (pr_Partition (sample_request 1)) < int (length (Partitions ?t))" "pr_Acks (sample_request 1) \<le> 2" "(\<lambda>_. Answered) = (\<lambda>_ :: i32. Answered)"
    "\<forall>i < length (Partitions ?t). within_limits (fst (Partitions ?t ! i)) (map toRecord (pr_Records (sample_request 1)))"
    using req sample_serves sample_message_fits by simp_all
  obtain ps b' t' where r: "routed (pr_Partition (sample_request 1)) (length (Partitions ?t)) (pr_Records (sample_request 1)) ps"
    and p: "Produce calm_runtime 5 (\<lambda>_. Answered) (\<lambda>_. []) (sample_request 1) ?b = Inr (Inr (produceResults ?t ps), b')"
    and s: "serves_topic b' (pr_Topic (sample_request 1)) t' (extendedLog ?t 5 ps (pr_Records (sample_request 1)) (\<lambda>_. []))"
    and e: "\<And>i. i < length (Partitions ?t) \<Longrightarrow> FirstOffset (fst (Partitions t' ! i)) = FirstOffset (fst (Partitions ?t ! i)) \<and>
      partitionEnd t' i = partitionEnd ?t i + of_nat (count_list ps i)"
    by (rule Produce_ok [where now = 5 and evs = "\<lambda>_. []", OF no_faults_calm h]) (rule that)
  have "ps = [0]" using r req(2) by (auto simp: routed_def list_all2_Cons1)
  then have "partitionEnd t' 0 = 1" using e [of 0] by (simp add: partitionEnd_def fresh_fields)
  then have "t' \<noteq> ?t" by (auto simp: partitionEnd_def fresh_fields)
  then have ch: "map_of (topics (nd_store b')) ''u'' \<noteq> map_of (topics (nd_store ?b)) ''u''" using s req(1) by (simp add: serves_topic_def)
  have v: "DecodeProduceRequest (EncodeProduceRequest (sample_request 1)) = Inr (sample_request 1)"
    by (rule produce_roundtrip) (simp add: valid_produce_def sample_request_def sample_message_def valid_msg_def valid_hdrs_def valid_hdr_def)
  have a: "authorize sample_server (Some (keyPrincipal sample_key)) accessWrite ''u'' = Inr ()"
    by (simp add: authorize_def keyPrincipal_def sample_key_def topicAllowed_def)
  have "srv_dispatch sample_codec sample_server broker_backend sample_env produce_frame (Some (keyPrincipal sample_key)) ?b =
    Inr (\<lparr>f_Opcode = OpProduce, CorrelationID = 2, Payload = EncodeProduceResponse (produceResults ?t ps)\<rparr>, b')"
    using p a v by (simp add: srv_dispatch_def produce_frame_def OpProduce_def OpAuth_def OpCreateTopic_def OpListTopics_def req(1) guarded_def answer_def
        broker_backend_def sample_env_def)
  then show thesis using that [OF _ ch] by (simp add: handleFrame_def sample_conn_eq)
qed

theorem topic_change_backed_witness:
  "\<exists>g req q. g \<in> {auth_frame, produce_frame} \<and> f_Opcode g = OpAuth \<and> unAuth sample_codec (Payload g) = Some req \<and>
     sample_auth (au_ID req) (au_Secret req) = Some q \<and> (pl_Admin q \<or> topicAllowed (TopicsWrite q) ''u'')"
proof -
  obtain cn' b' where h: "handleFrame sample_codec sample_server broker_backend sample_env 0 (sample_conn, sample_broker False (fresh_partition, fresh_disk)) = Inr (cn', b')"
    "map_of (topics (nd_store b')) ''u'' \<noteq> map_of (topics (nd_store (sample_broker False (fresh_partition, fresh_disk)))) ''u''"
    by (rule sample_handled)
  have s: "authenticator sample_server = Some sample_auth" "0 < length (cn_inflight sample_conn)"
    by (simp_all add: sample_server_def NewServer_def WithAuthenticator_def sample_conn_eq newConn_def)
  show ?thesis using topic_change_backed [OF sample_connected s h] by (simp add: sample_conn_eq)
qed

end
