(* ===== verification/Cron.thy ===== *)
theory Cron
  imports Go_Text
begin

text \<open>
  The cron expressions of src/services/jobs/cron.go: the parser of the five fields, with
  the 64-bit additions of its loop written out, and the search for the next fire time.
  Times are nanoseconds since the epoch and days are counted from it; the calendar is the
  Gregorian one of package \<open>time\<close>, in UTC.
\<close>

section \<open>Fields\<close>

datatype cron_error =
    WantFields nat
  | EmptyItem string
  | BadStep string
  | ReversedRange string
  | NotANumber string
  | ValueOutOfRange int
  | SelectsNothing string

definition add64 :: "int \<Rightarrow> int \<Rightarrow> int" where
  "add64 a b = (a + b + 2 ^ 63) mod 2 ^ 64 - 2 ^ 63"

definition parseCronValue :: "string \<Rightarrow> int \<Rightarrow> int \<Rightarrow> cron_error + int" where
  "parseCronValue s mn mx =
     (case Atoi s of
        None \<Rightarrow> Inl (NotANumber s)
      | Some v \<Rightarrow> if v < mn \<or> mx < v then Inl (ValueOutOfRange v) else Inr v)"

text \<open>One item of a list: its bounds and its step.\<close>

definition parseItem :: "string \<Rightarrow> int \<Rightarrow> int \<Rightarrow> cron_error + (int \<times> int \<times> int)" where
  "parseItem part mn mx =
     (let (base, stepStr) = (case Cut ''/'' part of None \<Rightarrow> (part, None) | Some (b, s) \<Rightarrow> (b, Some s))
      in bindS (case stepStr of
                  None \<Rightarrow> Inr 1
                | Some s \<Rightarrow> (case Atoi s of None \<Rightarrow> Inl (BadStep part) | Some n \<Rightarrow> if n < 1 then Inl (BadStep part) else Inr n))
           (\<lambda>step.
             if base = ''*'' then Inr (mn, mx, step)
             else case Cut ''-'' base of
               Some (a, b) \<Rightarrow>
                 bindS (parseCronValue a mn mx) (\<lambda>lo.
                 bindS (parseCronValue b mn mx) (\<lambda>hi.
                   if hi < lo then Inl (ReversedRange part) else Inr (lo, hi, step)))
             | None \<Rightarrow>
                 bindS (parseCronValue base mn mx) (\<lambda>v.
                   Inr (v, if stepStr \<noteq> None then mx else v, step))))"

text \<open>
  \<open>for v := lo; v <= hi; v += step\<close>, with the wrap-around of the addition; \<open>None\<close> would be
  a loop that does not end.
\<close>

partial_function (option) addRange :: "(int \<Rightarrow> int) \<Rightarrow> int \<Rightarrow> int \<Rightarrow> int \<Rightarrow> int list \<Rightarrow> int list option" where
  "addRange mapVal hi step v out =
     (if v \<le> hi then addRange mapVal hi step (add64 v step) (List.insert (mapVal v) out) else Some out)"

declare addRange.simps [code]

fun addItems :: "(int \<Rightarrow> int) \<Rightarrow> int \<Rightarrow> int \<Rightarrow> string \<Rightarrow> string list \<Rightarrow> int list \<Rightarrow> (cron_error + int list) option" where
  "addItems mapVal mn mx spec [] out = Some (Inr out)"
| "addItems mapVal mn mx spec (part # parts) out =
     (let part = TrimSpace part in
      if part = [] then Some (Inl (EmptyItem spec))
      else case parseItem part mn mx of
        Inl e \<Rightarrow> Some (Inl e)
      | Inr (lo, hi, step) \<Rightarrow>
          Option.bind (addRange mapVal hi step lo out) (\<lambda>out. addItems mapVal mn mx spec parts out))"

definition parseCronField :: "string \<Rightarrow> int \<Rightarrow> int \<Rightarrow> (int \<Rightarrow> int) \<Rightarrow> (cron_error + int list) option" where
  "parseCronField spec mn mx mapVal =
     map_option (\<lambda>r. bindS r (\<lambda>out. if out = [] then Inl (SelectsNothing spec) else Inr out))
       (addItems mapVal mn mx spec (Split CHR '','' spec) [])"

section \<open>Schedules\<close>

record cronSchedule =
  minutes :: "int list"
  hours :: "int list"
  dom :: "int list"
  months :: "int list"
  dow :: "int list"
  domRestricted :: bool
  dowRestricted :: bool
  sortedMinutes :: "int list"
  sortedHours :: "int list"

definition sortedKeys :: "int list \<Rightarrow> int list" where
  "sortedKeys keys = sort keys"

definition foldSunday :: "int \<Rightarrow> int" where
  "foldSunday v = (if v = 7 then 0 else v)"

definition thenField :: "(cron_error + 'a) option \<Rightarrow> ('a \<Rightarrow> (cron_error + 'b) option) \<Rightarrow> (cron_error + 'b) option" where
  "thenField m f = Option.bind m (\<lambda>r. case r of Inl e \<Rightarrow> Some (Inl e) | Inr x \<Rightarrow> f x)"

definition ParseCron :: "string \<Rightarrow> (cron_error + cronSchedule) option" where
  "ParseCron expr =
     (let fields = Fields expr in
      if length fields \<noteq> 5 then Some (Inl (WantFields (length fields)))
      else
        thenField (parseCronField (fields ! 0) 0 59 id) (\<lambda>mi.
        thenField (parseCronField (fields ! 1) 0 23 id) (\<lambda>ho.
        thenField (parseCronField (fields ! 2) 1 31 id) (\<lambda>dm.
        thenField (parseCronField (fields ! 3) 1 12 id) (\<lambda>mo.
        thenField (parseCronField (fields ! 4) 0 7 foldSunday) (\<lambda>dw.
          Some (Inr \<lparr>minutes = mi, hours = ho, dom = dm, months = mo, dow = dw,
                     domRestricted = (length dm < 31), dowRestricted = (length dw < 7),
                     sortedMinutes = sortedKeys mi, sortedHours = sortedKeys ho\<rparr>)))))))"

section \<open>The calendar\<close>

definition isLeap :: "nat \<Rightarrow> bool" where
  "isLeap y \<longleftrightarrow> y mod 4 = 0 \<and> (y mod 100 \<noteq> 0 \<or> y mod 400 = 0)"

definition yearDays :: "nat \<Rightarrow> nat" where
  "yearDays y = (if isLeap y then 366 else 365)"

definition daysIn :: "nat \<Rightarrow> nat \<Rightarrow> nat" where
  "daysIn y m = (if m = 2 then (if isLeap y then 29 else 28) else if m = 4 \<or> m = 6 \<or> m = 9 \<or> m = 11 then 30 else 31)"

lemma yearDays_pos [simp]: "0 < yearDays y"
  by (simp add: yearDays_def)

lemma daysIn_pos [simp]: "0 < daysIn y m"
  by (simp add: daysIn_def)

function yearFrom :: "nat \<Rightarrow> nat \<Rightarrow> nat \<times> nat" where
  "yearFrom y n = (if n < yearDays y then (y, n) else yearFrom (Suc y) (n - yearDays y))"
  by auto
termination
proof (relation "measure snd", simp)
  fix y n assume "\<not> n < yearDays y"
  then have "n - yearDays y < n" using yearDays_pos [of y] by linarith
  then show "((Suc y, n - yearDays y), y, n) \<in> measure snd" by simp
qed

function monthFrom :: "nat \<Rightarrow> nat \<Rightarrow> nat \<Rightarrow> nat \<times> nat" where
  "monthFrom y m n = (if 12 \<le> m \<or> n < daysIn y m then (m, Suc n) else monthFrom y (Suc m) (n - daysIn y m))"
  by auto
termination by (relation "measure (\<lambda>(y, m, n). 12 - m)") auto

declare yearFrom.simps [simp del] monthFrom.simps [simp del]

definition date :: "nat \<Rightarrow> nat \<times> nat \<times> nat" where
  "date day = (let (y, yd) = yearFrom 1970 day; (m, d) = monthFrom y 1 yd in (y, m, d))"

definition weekday :: "nat \<Rightarrow> nat" where
  "weekday day = (day + 4) mod 7"

section \<open>The next fire time\<close>

definition matchesDay :: "cronSchedule \<Rightarrow> nat \<Rightarrow> bool" where
  "matchesDay c day =
     (let (y, m, d) = date day in
      if int m \<notin> set (months c) then False
      else let domHit = int d \<in> set (dom c); dowHit = int (weekday day) \<in> set (dow c)
           in if domRestricted c \<and> dowRestricted c then domHit \<or> dowHit else domHit \<and> dowHit)"

definition cronMaxSearchDays :: nat where
  "cronMaxSearchDays = 5 * 366"

definition minuteNs :: nat where
  "minuteNs = 60 * 10 ^ 9"

text \<open>The candidates of a day in the order of the two inner loops, as minutes since the epoch.\<close>

definition candidates :: "cronSchedule \<Rightarrow> nat \<Rightarrow> int list" where
  "candidates c day = concat (map (\<lambda>h. map (\<lambda>m. int day * 1440 + h * 60 + m) (sortedMinutes c)) (sortedHours c))"

fun searchDays :: "cronSchedule \<Rightarrow> int \<Rightarrow> nat \<Rightarrow> nat \<Rightarrow> int option" where
  "searchDays c earliest 0 day = None"
| "searchDays c earliest (Suc n) day =
     (if matchesDay c day then
        (case List.find (\<lambda>cand. \<not> cand < earliest) (candidates c day) of
           Some cand \<Rightarrow> Some cand
         | None \<Rightarrow> searchDays c earliest n (Suc day))
      else searchDays c earliest n (Suc day))"

definition Next :: "cronSchedule \<Rightarrow> nat \<Rightarrow> int option" where
  "Next c frm =
     (let earliest = frm div minuteNs + 1
      in map_option (\<lambda>cand. cand * int minuteNs) (searchDays c (int earliest) cronMaxSearchDays (earliest div 1440)))"

section \<open>The loop of a field ends\<close>

definition wrap64 :: "int \<Rightarrow> int" where
  "wrap64 x = (x + 2 ^ 63) mod 2 ^ 64 - 2 ^ 63"

lemma add64_wrap: "add64 a b = wrap64 (a + b)"
  by (simp add: add64_def wrap64_def)

lemma wrap64_id: "- (2 ^ 63) \<le> x \<Longrightarrow> x < 2 ^ 63 \<Longrightarrow> wrap64 x = x"
  by (simp add: wrap64_def)

lemma wrap64_mod: "wrap64 x = wrap64 y \<longleftrightarrow> x mod 2 ^ 64 = y mod 2 ^ 64"
proof -
  have "wrap64 x = wrap64 y \<longleftrightarrow> (x + 2 ^ 63) mod 2 ^ 64 = (y + 2 ^ 63) mod 2 ^ 64"
    by (simp add: wrap64_def)
  also have "\<dots> \<longleftrightarrow> x mod 2 ^ 64 = y mod 2 ^ 64"
    by (simp only: mod_eq_dvd_iff) simp
  finally show ?thesis .
qed

lemma wrap64_mod_self: "wrap64 x mod 2 ^ 64 = x mod 2 ^ 64"
  by (simp add: wrap64_def mod_diff_left_eq)

lemma wrap64_add: "wrap64 (wrap64 x + s) = wrap64 (x + s)"
  unfolding wrap64_mod using mod_add_cong [OF wrap64_mod_self refl] .

lemma wrap64_range: "- (2 ^ 63) \<le> wrap64 x \<and> wrap64 x < 2 ^ 63"
  by (simp add: wrap64_def)

lemma addRange_steps:
  "hi < wrap64 (v + int n * step) \<Longrightarrow> wrap64 v = v \<Longrightarrow> \<exists>out'. addRange f hi step v out = Some out'"
proof (induction n arbitrary: v out)
  case 0
  then show ?case by (subst addRange.simps) simp
next
  case (Suc n)
  have v: "wrap64 (add64 v step) = add64 v step"
    unfolding add64_wrap using wrap64_range [of "v + step"] by (intro wrap64_id) auto
  have "wrap64 (add64 v step + int n * step) = wrap64 (v + int (Suc n) * step)"
    by (simp add: add64_wrap wrap64_add algebra_simps)
  with Suc.IH [OF _ v] Suc.prems(1) obtain out'
    where "addRange f hi step (add64 v step) (List.insert (f v) out) = Some out'" by metis
  then show ?case by (subst addRange.simps) simp
qed

text \<open>A step that cannot leap over the values above \<open>hi\<close>, and one that can.\<close>

lemma short_step_leaves:
  assumes "0 < s" and "s \<le> 2 ^ 63 - 1 - hi" and "v \<le> hi" and "- (2 ^ 63) \<le> v"
  shows "\<exists>n. hi < wrap64 (v + int n * s)"
proof -
  define n where "n = nat ((hi - v) div s + 1)"
  have n: "int n = (hi - v) div s + 1" using assms by (simp add: n_def pos_imp_zdiv_nonneg_iff)
  have "(hi - v) mod s < s" "0 \<le> (hi - v) mod s" using assms by simp_all
  moreover have "int n * s = hi - v - (hi - v) mod s + s"
    using div_mult_mod_eq [of "hi - v" s] unfolding n distrib_right by linarith
  ultimately have "hi < v + int n * s" "v + int n * s \<le> hi + s" by linarith+
  with assms have "wrap64 (v + int n * s) = v + int n * s" by (intro wrap64_id) linarith+
  with \<open>hi < v + int n * s\<close> show ?thesis by metis
qed

lemma long_step_leaves:
  assumes "s = 2 ^ 63 - k" and "0 < k" and "k \<le> hi" and "hi < 2 ^ 61" and "v \<le> hi" and "- (2 ^ 63) \<le> v"
  shows "\<exists>n. hi < wrap64 (v + int n * s)"
proof -
  define m where "m = (v + 2 ^ 63) div (2 * k) + 1"
  have m0: "0 \<le> m" using assms by (simp add: m_def pos_imp_zdiv_nonneg_iff add_nonneg_nonneg)
  have "(v + 2 ^ 63) mod (2 * k) < 2 * k" "0 \<le> (v + 2 ^ 63) mod (2 * k)" using assms by simp_all
  moreover have "m * (2 * k) = v + 2 ^ 63 - (v + 2 ^ 63) mod (2 * k) + 2 * k"
    using div_mult_mod_eq [of "v + 2 ^ 63" "2 * k"] unfolding m_def distrib_right by linarith
  ultimately have b: "v - m * (2 * k) < - (2 ^ 63)" "- (2 ^ 63) - 2 * k \<le> v - m * (2 * k)"
    by linarith+
  define x where "x = v - m * (2 * k)"
  have x: "x < - 9223372036854775808" "- 9223372036854775808 - 2 * k \<le> x" "k < 2305843009213693952"
    using b assms by (simp_all add: x_def)
  have "v + int (nat (2 * m)) * s = x + 2 ^ 64 + (m - 1) * 2 ^ 64"
    using m0 by (simp add: assms(1) x_def algebra_simps)
  then have "wrap64 (v + int (nat (2 * m)) * s) = wrap64 (x + 2 ^ 64)"
    unfolding wrap64_mod by (simp only: mod_mult_self1)
  also have "\<dots> = x + 2 ^ 64"
    using x by (intro wrap64_id) simp_all
  finally have "wrap64 (v + int (nat (2 * m)) * s) = x + 2 ^ 64" .
  moreover have "hi < x + 2 ^ 64" using x assms(2-4) by simp
  ultimately show ?thesis by metis
qed

lemma addRange_ends:
  assumes "0 < step" and "step < 2 ^ 63" and "0 \<le> hi" and "hi < 2 ^ 61" and "- (2 ^ 63) \<le> v" and "v < 2 ^ 63"
  shows "\<exists>out'. addRange f hi step v out = Some out'"
proof -
  have "\<exists>n. hi < wrap64 (v + int n * step)"
  proof (cases "hi < v")
    case True
    then show ?thesis using assms by (intro exI [of _ 0]) (simp add: wrap64_id)
  next
    case False
    show ?thesis
    proof (cases "step \<le> 2 ^ 63 - 1 - hi")
      case True
      with assms False show ?thesis by (intro short_step_leaves) auto
    next
      case f: False
      with assms False show ?thesis by (intro long_step_leaves [where k = "2 ^ 63 - step"]) auto
    qed
  qed
  then obtain n where "hi < wrap64 (v + int n * step)" by blast
  with assms show ?thesis by (intro addRange_steps) (simp_all add: wrap64_id)
qed

section \<open>What a field selects\<close>

lemma Atoi_range: "Atoi s = Some v \<Longrightarrow> - (2 ^ 63) \<le> v \<and> v < 2 ^ 63"
  by (auto simp: Atoi_def Let_def split: if_splits option.splits)

lemma parseCronValue_range: "parseCronValue s mn mx = Inr v \<Longrightarrow> mn \<le> v \<and> v \<le> mx"
  by (auto simp: parseCronValue_def split: option.splits if_splits)

lemma parseItem_range:
  assumes "parseItem part mn mx = Inr (lo, hi, step)" and "mn \<le> mx"
  shows "mn \<le> lo \<and> lo \<le> hi \<and> hi \<le> mx \<and> 0 < step \<and> step < 2 ^ 63"
proof -
  obtain base st where b: "(case Cut ''/'' part of None \<Rightarrow> (part, None) | Some (b, s) \<Rightarrow> (b, Some s)) = (base, st)"
    by (cases "case Cut ''/'' part of None \<Rightarrow> (part, None) | Some (b, s) \<Rightarrow> (b, Some s)")
  show ?thesis
    using assms Atoi_range unfolding parseItem_def b
    by (fastforce simp: bindS_eq_Inr_iff dest: parseCronValue_range split: option.splits if_splits)
qed

text \<open>
  The grammar of an item, independently of the parser. A range is the whole field, one value, or two values with a dash between;
  an item is a range with step 1 or a range \<open>/\<close> step, where a single value followed by a step runs to the end of the
  field. Values and steps are decimal numbers as \<open>strconv.Atoi\<close> reads them.
\<close>

definition value_of :: "int \<Rightarrow> int \<Rightarrow> string \<Rightarrow> int \<Rightarrow> bool" where
  "value_of mn mx s v \<longleftrightarrow> Atoi s = Some v \<and> mn \<le> v \<and> v \<le> mx"

inductive item_of :: "int \<Rightarrow> int \<Rightarrow> string \<Rightarrow> int \<Rightarrow> int \<Rightarrow> int \<Rightarrow> bool" for mn mx where
  every: "item_of mn mx ''*'' mn mx 1"
| single: "CHR ''-'' \<notin> set a \<Longrightarrow> value_of mn mx a v \<Longrightarrow> item_of mn mx a v v 1"
| range: "CHR ''-'' \<notin> set a \<Longrightarrow> value_of mn mx a lo \<Longrightarrow> value_of mn mx b hi \<Longrightarrow> lo \<le> hi \<Longrightarrow> item_of mn mx (a @ ''-'' @ b) lo hi 1"
| every_step: "Atoi n = Some step \<Longrightarrow> 1 \<le> step \<Longrightarrow> item_of mn mx (''*/'' @ n) mn mx step"
| range_step: "CHR ''-'' \<notin> set a \<Longrightarrow> value_of mn mx a lo \<Longrightarrow> value_of mn mx b hi \<Longrightarrow> lo \<le> hi \<Longrightarrow> Atoi n = Some step \<Longrightarrow> 1 \<le> step \<Longrightarrow>
    item_of mn mx (a @ ''-'' @ b @ ''/'' @ n) lo hi step"
| from_step: "CHR ''-'' \<notin> set a \<Longrightarrow> value_of mn mx a lo \<Longrightarrow> Atoi n = Some step \<Longrightarrow> 1 \<le> step \<Longrightarrow> item_of mn mx (a @ ''/'' @ n) lo mx step"

text \<open>The parser agrees with the grammar.\<close>

lemma Cut_char_None: "Cut [c] s = None \<longleftrightarrow> c \<notin> set s"
  by (induction s) (auto split: option.splits)

lemma Cut_char_Some: "Cut [c] s = Some (a, b) \<longleftrightarrow> s = a @ c # b \<and> c \<notin> set a"
proof (induction s arbitrary: a)
  case (Cons x s)
  then show ?case by (cases a) auto
qed simp

lemma decimal_digits: "decimal_value n s = Some k \<Longrightarrow> list_all is_digit s"
  by (induction s arbitrary: n) (auto split: if_splits)

lemma Atoi_no_slash:
  assumes "Atoi s = Some v"
  shows "CHR ''/'' \<notin> set s" and "s \<noteq> ''*''"
proof -
  have "(\<exists>k. decimal_value 0 s = Some k) \<or> (\<exists>k. hd s \<in> {CHR ''-'', CHR ''+''} \<and> s \<noteq> [] \<and> decimal_value 0 (tl s) = Some k)"
    using assms by (auto simp: Atoi_def Let_def split: if_splits option.splits)
  then have "list_all (\<lambda>c. is_digit c \<or> c \<in> {CHR ''-'', CHR ''+''}) s"
    by (cases s) (auto simp del: decimal_value.simps dest!: decimal_digits elim: list.pred_mono_strong)
  then show "CHR ''/'' \<notin> set s" and "s \<noteq> ''*''" by (auto simp: list_all_iff is_digit_def)
qed

lemma parseCronValue_iff: "parseCronValue s mn mx = Inr v \<longleftrightarrow> value_of mn mx s v"
  by (auto simp: parseCronValue_def value_of_def split: option.splits)

definition parseBase :: "string \<Rightarrow> bool \<Rightarrow> int \<Rightarrow> int \<Rightarrow> int \<Rightarrow> int \<Rightarrow> bool" where
  "parseBase base stepped mn mx lo hi \<longleftrightarrow> base = ''*'' \<and> lo = mn \<and> hi = mx \<or>
     (\<exists>a b. base = a @ CHR ''-'' # b \<and> CHR ''-'' \<notin> set a \<and> value_of mn mx a lo \<and> value_of mn mx b hi \<and> lo \<le> hi) \<or>
     CHR ''-'' \<notin> set base \<and> value_of mn mx base lo \<and> hi = (if stepped then mx else lo)"

lemma parseItem_base:
  "(if base = ''*'' then Inr (mn, mx, step)
    else case Cut ''-'' base of
      Some (a, b) \<Rightarrow>
        bindS (parseCronValue a mn mx) (\<lambda>lo.
        bindS (parseCronValue b mn mx) (\<lambda>hi. if hi < lo then Inl (ReversedRange part) else Inr (lo, hi, step)))
    | None \<Rightarrow> bindS (parseCronValue base mn mx) (\<lambda>v. Inr (v, if s \<noteq> None then mx else v, step))) = Inr (lo, hi, step') \<longleftrightarrow>
   step' = step \<and> parseBase base (s \<noteq> None) mn mx lo hi"
proof (cases "base = ''*''")
  case True
  then show ?thesis using Atoi_no_slash(2) [of base] by (auto simp: parseBase_def value_of_def Cons_eq_append_conv)
next
  case f: False
  show ?thesis
  proof (cases "Cut ''-'' base")
    case None
    then have "CHR ''-'' \<notin> set base" by (simp add: Cut_char_None)
    then show ?thesis using f None by (auto simp: parseBase_def bindS_eq_Inr_iff parseCronValue_iff)
  next
    case (Some ab)
    then obtain a b where ab: "Cut ''-'' base = Some (a, b)" by (cases ab) auto
    then have c: "base = a @ CHR ''-'' # b" "CHR ''-'' \<notin> set a" by (simp_all add: Cut_char_Some)
    have u: "a' = a \<and> b' = b" if "base = a' @ CHR ''-'' # b'" "CHR ''-'' \<notin> set a'" for a' b'
      using that ab Cut_char_Some [of "CHR ''-''" base a' b'] by simp
    then have "parseBase base (s \<noteq> None) mn mx lo hi \<longleftrightarrow> value_of mn mx a lo \<and> value_of mn mx b hi \<and> lo \<le> hi"
      using f c by (simp add: parseBase_def) blast
    then show ?thesis using f ab by (auto simp: bindS_eq_Inr_iff parseCronValue_iff not_less split: if_splits)
  qed
qed

lemma parseItem_whole:
  assumes "CHR ''/'' \<notin> set part"
  shows "parseItem part mn mx = Inr (lo, hi, step) \<longleftrightarrow> step = 1 \<and> parseBase part False mn mx lo hi"
proof -
  have "Cut ''/'' part = None" using assms by (simp add: Cut_char_None)
  then show ?thesis by (simp only: parseItem_def Let_def option.case prod.case bindS_simps parseItem_base) simp
qed

lemma parseItem_stepped:
  assumes "CHR ''/'' \<notin> set base"
  shows "parseItem (base @ CHR ''/'' # n) mn mx = Inr (lo, hi, step) \<longleftrightarrow> Atoi n = Some step \<and> 1 \<le> step \<and> parseBase base True mn mx lo hi"
proof -
  have "Cut ''/'' (base @ CHR ''/'' # n) = Some (base, n)" using assms by (simp add: Cut_char_Some)
  then show ?thesis
    by (simp only: parseItem_def Let_def option.case prod.case bindS_eq_Inr_iff parseItem_base)
      (auto split: option.splits if_splits)
qed

lemma value_no_slash: "value_of mn mx s v \<Longrightarrow> CHR ''/'' \<notin> set s"
  using Atoi_no_slash(1) by (auto simp: value_of_def)

lemma parseItem_grammar: "parseItem part mn mx = Inr (lo, hi, step) \<longleftrightarrow> item_of mn mx part lo hi step"
proof
  assume p: "parseItem part mn mx = Inr (lo, hi, step)"
  show "item_of mn mx part lo hi step"
  proof (cases "CHR ''/'' \<in> set part")
    case False
    with p show ?thesis
      using item_of.every item_of.single item_of.range [where mn = mn and mx = mx]
      by (fastforce simp: parseItem_whole parseBase_def)
  next
    case True
    then obtain base n where part: "part = base @ CHR ''/'' # n" "CHR ''/'' \<notin> set base" by (metis split_list_first)
    with p have n: "Atoi n = Some step" "1 \<le> step" and "parseBase base True mn mx lo hi" by (simp_all add: parseItem_stepped)
    then show ?thesis
      using item_of.every_step [OF n, of mn mx] item_of.from_step [OF _ _ n, of base mn mx lo] item_of.range_step [OF _ _ _ _ n, where mn = mn and mx = mx]
      by (fastforce simp: parseBase_def part(1))
  qed
next
  assume "item_of mn mx part lo hi step"
  then show "parseItem part mn mx = Inr (lo, hi, step)"
  proof cases
    case (range_step a b n)
    then have "CHR ''/'' \<notin> set (a @ ''-'' @ b)" by (auto dest: value_no_slash)
    from parseItem_stepped [OF this, of n mn mx lo hi step] range_step show ?thesis by (auto simp: parseBase_def)
  next
    case (every_step n)
    then show ?thesis using parseItem_stepped [of "''*''" n mn mx lo hi step] by (auto simp: parseBase_def)
  next
    case (from_step a n)
    then show ?thesis using parseItem_stepped [of a n mn mx lo hi step] by (auto simp: parseBase_def dest: value_no_slash)
  next
    case (range a b)
    then have "CHR ''/'' \<notin> set (a @ ''-'' @ b)" by (auto dest: value_no_slash)
    from parseItem_whole [OF this, of mn mx lo hi step] range show ?thesis by (auto simp: parseBase_def)
  next
    case single
    then show ?thesis using parseItem_whole [of part mn mx lo hi step] by (auto simp: parseBase_def dest: value_no_slash)
  qed (simp add: parseItem_whole parseBase_def)
qed

text \<open>The values an item of a field stands for, and those a whole field does.\<close>

definition selects :: "int \<Rightarrow> int \<Rightarrow> string \<Rightarrow> int \<Rightarrow> bool" where
  "selects mn mx part v \<longleftrightarrow> (\<exists>lo hi step. item_of mn mx (TrimSpace part) lo hi step \<and> lo \<le> v \<and> v \<le> hi \<and> step dvd v - lo)"

definition selected :: "int \<Rightarrow> int \<Rightarrow> string \<Rightarrow> int set" where
  "selected mn mx spec = {v. \<exists>part \<in> set (Split CHR '','' spec). selects mn mx part v}"

text \<open>A field is well formed if its items are; its steps are small if they stay below \<open>2 ^ 62\<close>.\<close>

definition wellFormed :: "int \<Rightarrow> int \<Rightarrow> string \<Rightarrow> bool" where
  "wellFormed mn mx spec \<longleftrightarrow> (\<forall>part \<in> set (Split CHR '','' spec). \<exists>lo hi step. item_of mn mx (TrimSpace part) lo hi step)"

definition smallSteps :: "int \<Rightarrow> int \<Rightarrow> string \<Rightarrow> bool" where
  "smallSteps mn mx spec \<longleftrightarrow>
     (\<forall>part \<in> set (Split CHR '','' spec). \<forall>lo hi step. item_of mn mx (TrimSpace part) lo hi step \<longrightarrow> step < 2 ^ 62)"

lemma selects_eq:
  "selects mn mx part v \<longleftrightarrow>
     (case parseItem (TrimSpace part) mn mx of
        Inl _ \<Rightarrow> False
      | Inr (lo, hi, step) \<Rightarrow> lo \<le> v \<and> v \<le> hi \<and> step dvd v - lo)"
  unfolding selects_def parseItem_grammar [symmetric] by (auto split: sum.split)

lemma smallSteps_eq [code]:
  "smallSteps mn mx spec =
     list_all (\<lambda>part. case parseItem (TrimSpace part) mn mx of Inl _ \<Rightarrow> True | Inr (lo, hi, step) \<Rightarrow> step < 2 ^ 62)
       (Split CHR '','' spec)"
  unfolding smallSteps_def parseItem_grammar [symmetric] list_all_iff by (auto split: sum.split)

lemma addRange_short:
  assumes "0 < step" and "step < 2 ^ 62" and "hi < 2 ^ 61" and "0 \<le> v"
  shows "\<exists>out'. addRange f hi step v out = Some out' \<and> distinct out' = distinct out \<and>
    set out' = set out \<union> f ` {w. v \<le> w \<and> w \<le> hi \<and> step dvd w - v}"
  using assms(4)
proof (induction "nat (hi + 1 - v)" arbitrary: v out rule: less_induct)
  case less
  show ?case
  proof (cases "v \<le> hi")
    case False
    then have "{w. v \<le> w \<and> w \<le> hi \<and> step dvd w - v} = {}" by auto
    with False show ?thesis by (subst addRange.simps) (simp only: if_False, auto)
  next
    case True
    have a: "add64 v step = v + step"
      unfolding add64_wrap using assms True less.prems by (intro wrap64_id) simp_all
    have "nat (hi + 1 - (v + step)) < nat (hi + 1 - v)" using True assms(1) by simp
    from less.hyps [OF this, of "List.insert (f v) out"] less.prems assms(1)
    obtain out' where o: "addRange f hi step (v + step) (List.insert (f v) out) = Some out'"
      "distinct out' = distinct (List.insert (f v) out)"
      "set out' = set (List.insert (f v) out) \<union> f ` {w. v + step \<le> w \<and> w \<le> hi \<and> step dvd w - (v + step)}"
      by auto
    have "{w. v \<le> w \<and> w \<le> hi \<and> step dvd w - v} = insert v {w. v + step \<le> w \<and> w \<le> hi \<and> step dvd w - (v + step)}"
      (is "?l = insert v ?r")
    proof (rule set_eqI)
      fix w
      have "step dvd w - v \<longleftrightarrow> step dvd w - (v + step)"
        using dvd_add_triv_right_iff [of step "w - (v + step)"] by (simp add: algebra_simps)
      moreover have "w = v \<or> v + step \<le> w" if "step dvd w - v" "v \<le> w"
        using zdvd_imp_le [of step "w - v"] that by linarith
      ultimately show "w \<in> ?l \<longleftrightarrow> w \<in> insert v ?r" using True assms(1) by auto
    qed
    with o True a show ?thesis by (subst addRange.simps) (auto simp: distinct_insert)
  qed
qed

lemma addItems_returns:
  "0 \<le> mn \<Longrightarrow> mn \<le> mx \<Longrightarrow> mx < 2 ^ 61 \<Longrightarrow> \<exists>r. addItems f mn mx spec parts out = Some r"
proof (induction parts arbitrary: out)
  case (Cons part parts)
  show ?case
  proof (cases "parseItem (TrimSpace part) mn mx")
    case (Inr r)
    then obtain lo hi step where r: "parseItem (TrimSpace part) mn mx = Inr (lo, hi, step)" by (cases r) auto
    note range = parseItem_range [OF r Cons.prems(2)]
    have "\<exists>out'. addRange f hi step lo out = Some out'"
      using range Cons.prems by (intro addRange_ends) auto
    with Cons r show ?thesis by (auto simp: Let_def)
  qed (simp add: Let_def)
qed simp

lemma addItems_selected:
  assumes "0 \<le> mn" and "mn \<le> mx" and "mx < 2 ^ 61"
    and "list_all (\<lambda>part. case parseItem (TrimSpace part) mn mx of Inl _ \<Rightarrow> True | Inr (lo, hi, step) \<Rightarrow> step < 2 ^ 62) parts"
    and "addItems f mn mx spec parts out = Some (Inr out')"
  shows "distinct out' = distinct out \<and> set out' = set out \<union> f ` {v. \<exists>part \<in> set parts. selects mn mx part v}"
  using assms(4,5)
proof (induction parts arbitrary: out)
  case (Cons part parts)
  from Cons.prems(2) obtain lo hi step where r: "parseItem (TrimSpace part) mn mx = Inr (lo, hi, step)"
    by (auto simp: Let_def split: if_splits sum.splits)
  note range = parseItem_range [OF r assms(2)]
  have "step < 2 ^ 62" using Cons.prems(1) r by simp
  moreover have "hi < 2 ^ 61" "0 \<le> lo" using range assms by auto
  ultimately obtain out1 where o: "addRange f hi step lo out = Some out1" "distinct out1 = distinct out"
    "set out1 = set out \<union> f ` {w. lo \<le> w \<and> w \<le> hi \<and> step dvd w - lo}"
    using addRange_short [of step hi lo f out] range by auto
  have "addItems f mn mx spec parts out1 = Some (Inr out')"
    using Cons.prems(2) r o(1) by (simp add: Let_def split: if_splits)
  with Cons.IH Cons.prems(1) o r show ?case by (auto simp: selects_eq)
qed simp

lemma addRange_keeps:
  assumes "addRange f hi step v out = Some out'"
  shows "set out \<subseteq> set out'"
proof (rule addRange.raw_induct [where P = "\<lambda>f hi step v out out'. set out \<subseteq> set out'", OF _ assms])
  fix loop :: "(int \<Rightarrow> int) \<Rightarrow> int \<Rightarrow> int \<Rightarrow> int \<Rightarrow> int list \<Rightarrow> int list option" and f hi step v out out'
  assume "\<And>f hi step v out out'. loop f hi step v out = Some out' \<Longrightarrow> set out \<subseteq> set out'"
    and "(if v \<le> hi then loop f hi step (add64 v step) (List.insert (f v) out) else Some out) = Some out'"
  then show "set out \<subseteq> set out'" by (fastforce split: if_splits)
qed

lemma addItems_keeps: "addItems f mn mx spec parts out = Some (Inr out') \<Longrightarrow> set out \<subseteq> set out'"
proof (induction parts arbitrary: out)
  case (Cons part parts)
  then obtain lo hi step out1 where "addRange f hi step lo out = Some out1" "addItems f mn mx spec parts out1 = Some (Inr out')"
    by (auto simp: Let_def bind_eq_Some_conv split: if_splits sum.splits)
  with Cons.IH [of out1] addRange_keeps show ?case by blast
qed simp

lemma addItems_nonempty:
  assumes "addItems f mn mx spec parts out = Some (Inr out')" and "parts \<noteq> []" and "mn \<le> mx"
  shows "out' \<noteq> []"
proof -
  obtain part rest where parts: "parts = part # rest" using assms(2) by (cases parts) auto
  with assms(1) obtain lo hi step out1 where r: "parseItem (TrimSpace part) mn mx = Inr (lo, hi, step)"
    "addRange f hi step lo out = Some out1" "addItems f mn mx spec rest out1 = Some (Inr out')"
    by (auto simp: Let_def bind_eq_Some_conv split: if_splits sum.splits)
  have "lo \<le> hi" using parseItem_range [OF r(1) assms(3)] by blast
  with r(2) have "f lo \<in> set out1"
    using addRange_keeps [of f hi step "add64 lo step" "List.insert (f lo) out" out1] by (auto simp: addRange.simps [of f hi step lo])
  with addItems_keeps [OF r(3)] show ?thesis by auto
qed

lemma addItems_accepts:
  assumes "0 \<le> mn" and "mn \<le> mx" and "mx < 2 ^ 61"
  shows "(\<exists>out'. addItems f mn mx spec parts out = Some (Inr out')) \<longleftrightarrow>
    (\<forall>part \<in> set parts. \<exists>lo hi step. item_of mn mx (TrimSpace part) lo hi step)"
proof (induction parts arbitrary: out)
  case (Cons part parts)
  show ?case
  proof (cases "\<exists>lo hi step. item_of mn mx (TrimSpace part) lo hi step")
    case True
    then obtain lo hi step where r: "parseItem (TrimSpace part) mn mx = Inr (lo, hi, step)" by (auto simp: parseItem_grammar)
    then have ne: "TrimSpace part \<noteq> []" by (auto simp: parseItem_def parseCronValue_def Atoi_def)
    obtain out1 where "addRange f hi step lo out = Some out1"
      using parseItem_range [OF r assms(2)] assms addRange_ends [of step hi lo f out] by auto
    with r ne True show ?thesis using Cons.IH [of out1] by (simp add: Let_def)
  next
    case False
    then have "isl (parseItem (TrimSpace part) mn mx)"
      by (cases "parseItem (TrimSpace part) mn mx") (auto simp: parseItem_grammar)
    with False show ?thesis by (auto simp: Let_def split: sum.splits)
  qed
qed simp

lemma parseCronField_returns:
  "0 \<le> mn \<Longrightarrow> mn \<le> mx \<Longrightarrow> mx < 2 ^ 61 \<Longrightarrow> \<exists>r. parseCronField spec mn mx f = Some r"
  using addItems_returns [of mn mx f spec "Split CHR '','' spec" "[]"] by (auto simp: parseCronField_def)

lemma parseCronField_selected:
  assumes "0 \<le> mn" and "mn \<le> mx" and "mx < 2 ^ 61" and "smallSteps mn mx spec"
    and "parseCronField spec mn mx f = Some (Inr out)"
  shows "distinct out \<and> set out = f ` selected mn mx spec"
proof -
  from assms(5) have "addItems f mn mx spec (Split CHR '','' spec) [] = Some (Inr out)"
    by (auto simp: parseCronField_def bindS_eq_Inr_iff split: if_splits)
  with addItems_selected [OF assms(1-3)] assms(4) show ?thesis
    by (fastforce simp: smallSteps_eq selected_def)
qed

lemma parseCronField_accepts:
  assumes "0 \<le> mn" and "mn \<le> mx" and "mx < 2 ^ 61"
  shows "(\<exists>out. parseCronField spec mn mx f = Some (Inr out)) \<longleftrightarrow> wellFormed mn mx spec"
proof
  assume "\<exists>out. parseCronField spec mn mx f = Some (Inr out)"
  then have "\<exists>out. addItems f mn mx spec (Split CHR '','' spec) [] = Some (Inr out)"
    by (auto simp: parseCronField_def bindS_eq_Inr_iff split: if_splits)
  then show "wellFormed mn mx spec" unfolding addItems_accepts [OF assms] wellFormed_def .
next
  assume w: "wellFormed mn mx spec"
  then obtain out where o: "addItems f mn mx spec (Split CHR '','' spec) [] = Some (Inr out)"
    using addItems_accepts [OF assms, of f spec "Split CHR '','' spec" "[]"] unfolding wellFormed_def by blast
  then have "out \<noteq> []" using addItems_nonempty [OF _ Split_not_Nil assms(2)] by blast
  with o show "\<exists>out. parseCronField spec mn mx f = Some (Inr out)" by (simp add: parseCronField_def)
qed

lemma selected_range: "mn \<le> mx \<Longrightarrow> selected mn mx spec \<subseteq> {mn..mx}"
proof
  fix v assume "mn \<le> mx" "v \<in> selected mn mx spec"
  then obtain part where p: "selects mn mx part v" by (auto simp: selected_def)
  then obtain lo hi step where "parseItem (TrimSpace part) mn mx = Inr (lo, hi, step)" "lo \<le> v" "v \<le> hi"
    by (auto simp: selects_def parseItem_grammar)
  with \<open>mn \<le> mx\<close> show "v \<in> {mn..mx}" using parseItem_range by fastforce
qed

lemma thenField_eq_Inr_iff: "thenField m f = Some (Inr y) \<longleftrightarrow> (\<exists>x. m = Some (Inr x) \<and> f x = Some (Inr y))"
  by (cases m) (auto simp: thenField_def split: sum.splits)

lemma thenField_returns: "\<exists>r. m = Some r \<Longrightarrow> (\<And>x. \<exists>r. f x = Some r) \<Longrightarrow> \<exists>r. thenField m f = Some r"
  by (auto simp: thenField_def split: sum.splits)

lemma ParseCron_returns: "\<exists>r. ParseCron expr = Some r"
proof (cases "length (Fields expr) = 5")
  case True
  then show ?thesis
    unfolding ParseCron_def Let_def by (simp, intro thenField_returns parseCronField_returns) simp_all
qed (simp add: ParseCron_def)

text \<open>A schedule as the parser builds it.\<close>

definition wf_cron :: "cronSchedule \<Rightarrow> bool" where
  "wf_cron c \<longleftrightarrow> distinct (minutes c) \<and> set (minutes c) \<subseteq> {0..59} \<and> distinct (hours c) \<and> set (hours c) \<subseteq> {0..23} \<and>
     set (dom c) \<subseteq> {1..31} \<and> set (months c) \<subseteq> {1..12} \<and> set (dow c) \<subseteq> {0..6} \<and>
     (domRestricted c \<longleftrightarrow> set (dom c) \<noteq> {1..31}) \<and> (dowRestricted c \<longleftrightarrow> set (dow c) \<noteq> {0..6}) \<and>
     sortedMinutes c = sort (minutes c) \<and> sortedHours c = sort (hours c)"

lemma restricted_iff:
  assumes "distinct xs" and "set xs \<subseteq> {a..b :: int}"
  shows "length xs < nat (b + 1 - a) \<longleftrightarrow> set xs \<noteq> {a..b}"
proof -
  have c: "card (set xs) = length xs" using assms(1) by (rule distinct_card)
  have "card (set xs) < card {a..b} \<longleftrightarrow> set xs \<noteq> {a..b}"
    using assms(2) psubset_card_mono [of "{a..b}" "set xs"] by auto
  then show ?thesis by (simp add: c algebra_simps)
qed

lemma foldSunday_image: "S \<subseteq> {0..7} \<Longrightarrow> foldSunday ` S \<subseteq> {0..6}"
  by (auto simp: foldSunday_def)

definition small_steps :: "string \<Rightarrow> bool" where
  "small_steps expr =
     (case Fields expr of
        [mi, ho, dm, mo, dw] \<Rightarrow> smallSteps 0 59 mi \<and> smallSteps 0 23 ho \<and> smallSteps 1 31 dm \<and> smallSteps 1 12 mo \<and> smallSteps 0 7 dw
      | _ \<Rightarrow> True)"

definition cron_meaning :: "string \<Rightarrow> cronSchedule \<Rightarrow> bool" where
  "cron_meaning expr c \<longleftrightarrow>
     (case Fields expr of
        [mi, ho, dm, mo, dw] \<Rightarrow>
          set (minutes c) = selected 0 59 mi \<and> set (hours c) = selected 0 23 ho \<and> set (dom c) = selected 1 31 dm \<and>
          set (months c) = selected 1 12 mo \<and> set (dow c) = foldSunday ` selected 0 7 dw
      | _ \<Rightarrow> False)"

definition cron_syntax :: "string \<Rightarrow> bool" where
  "cron_syntax expr \<longleftrightarrow>
     (case Fields expr of
        [mi, ho, dm, mo, dw] \<Rightarrow> wellFormed 0 59 mi \<and> wellFormed 0 23 ho \<and> wellFormed 1 31 dm \<and> wellFormed 1 12 mo \<and> wellFormed 0 7 dw
      | _ \<Rightarrow> False)"

lemma five_fields: "length xs = 5 \<longleftrightarrow> (\<exists>a b c d e. xs = [a, b, c, d, e])"
  by (auto simp: length_Suc_conv numeral_eq_Suc)

lemma ParseCron_accepted:
  assumes "ParseCron expr = Some (Inr c)" and "small_steps expr"
  shows "cron_meaning expr c \<and> wf_cron c"
proof -
  from assms(1) have "length (Fields expr) = 5" by (auto simp: ParseCron_def Let_def split: if_splits)
  then obtain mi ho dm mo dw where f: "Fields expr = [mi, ho, dm, mo, dw]" by (auto simp: five_fields)
  from assms(1) obtain a1 a2 a3 a4 a5 where p:
    "parseCronField mi 0 59 id = Some (Inr a1)" "parseCronField ho 0 23 id = Some (Inr a2)"
    "parseCronField dm 1 31 id = Some (Inr a3)" "parseCronField mo 1 12 id = Some (Inr a4)"
    "parseCronField dw 0 7 foldSunday = Some (Inr a5)"
    and c: "c = \<lparr>minutes = a1, hours = a2, dom = a3, months = a4, dow = a5,
      domRestricted = (length a3 < 31), dowRestricted = (length a5 < 7),
      sortedMinutes = sortedKeys a1, sortedHours = sortedKeys a2\<rparr>"
    unfolding ParseCron_def f by (simp add: thenField_eq_Inr_iff) blast
  have s: "smallSteps 0 59 mi" "smallSteps 0 23 ho" "smallSteps 1 31 dm" "smallSteps 1 12 mo" "smallSteps 0 7 dw"
    using assms(2) by (simp_all add: small_steps_def f)
  note sel = parseCronField_selected [OF _ _ _ s(1) p(1)] parseCronField_selected [OF _ _ _ s(2) p(2)]
    parseCronField_selected [OF _ _ _ s(3) p(3)] parseCronField_selected [OF _ _ _ s(4) p(4)]
    parseCronField_selected [OF _ _ _ s(5) p(5)]
  have sets: "distinct a1" "set a1 = selected 0 59 mi" "distinct a2" "set a2 = selected 0 23 ho"
    "distinct a3" "set a3 = selected 1 31 dm" "distinct a4" "set a4 = selected 1 12 mo"
    "distinct a5" "set a5 = foldSunday ` selected 0 7 dw"
    using sel by simp_all
  have ranges: "set a1 \<subseteq> {0..59}" "set a2 \<subseteq> {0..23}" "set a3 \<subseteq> {1..31}" "set a4 \<subseteq> {1..12}" "set a5 \<subseteq> {0..6}"
    unfolding sets by (rule selected_range foldSunday_image selected_range [THEN foldSunday_image], simp)+
  have "length a3 < 31 \<longleftrightarrow> set a3 \<noteq> {1..31}" "length a5 < 7 \<longleftrightarrow> set a5 \<noteq> {0..6}"
    using restricted_iff [OF sets(5) ranges(3)] restricted_iff [OF sets(9) ranges(5)] by simp_all
  with sets ranges show ?thesis
    by (simp add: wf_cron_def cron_meaning_def f c sortedKeys_def)
qed

lemma ParseCron_accepts: "(\<exists>c. ParseCron expr = Some (Inr c)) \<longleftrightarrow> cron_syntax expr"
proof (cases "length (Fields expr) = 5")
  case False
  then show ?thesis by (auto simp: ParseCron_def cron_syntax_def Let_def split: list.splits)
next
  case True
  then obtain mi ho dm mo dw where f: "Fields expr = [mi, ho, dm, mo, dw]" by (auto simp: five_fields)
  have "(\<exists>c. ParseCron expr = Some (Inr c)) \<longleftrightarrow> (\<exists>x. parseCronField mi 0 59 id = Some (Inr x)) \<and> (\<exists>x. parseCronField ho 0 23 id = Some (Inr x)) \<and>
      (\<exists>x. parseCronField dm 1 31 id = Some (Inr x)) \<and> (\<exists>x. parseCronField mo 1 12 id = Some (Inr x)) \<and>
      (\<exists>x. parseCronField dw 0 7 foldSunday = Some (Inr x))"
    unfolding ParseCron_def f by (simp add: thenField_eq_Inr_iff) blast
  also have "\<dots> \<longleftrightarrow> cron_syntax expr" by (simp add: cron_syntax_def f parseCronField_accepts)
  finally show ?thesis .
qed

section \<open>The calendar is Gregorian\<close>

text \<open>The day after a date: \<open>AddDate(0, 0, 1)\<close> on dates, the successor on day numbers.\<close>

fun nextDate :: "nat \<times> nat \<times> nat \<Rightarrow> nat \<times> nat \<times> nat" where
  "nextDate (y, m, d) =
     (if d < daysIn y m then (y, m, Suc d) else if m < 12 then (y, Suc m, 1) else (Suc y, 1, 1))"

lemma monthFrom_Suc:
  "m \<le> 12 \<Longrightarrow> n < (\<Sum>k = m..12. daysIn y k) \<Longrightarrow>
   (case monthFrom y m n of (m', d) \<Rightarrow> nextDate (y, m', d)) =
   (if Suc n < (\<Sum>k = m..12. daysIn y k) then (y, monthFrom y m (Suc n)) else (Suc y, 1, 1))"
proof (induction y m n rule: monthFrom.induct)
  case (1 y m n)
  show ?case
  proof (cases "m = 12")
    case True
    with 1 show ?thesis by (auto simp: monthFrom.simps [of y 12])
  next
    case False
    with 1(2) have s: "(\<Sum>k = m..12. daysIn y k) = daysIn y m + (\<Sum>k = Suc m..12. daysIn y k)"
      by (intro sum.atLeast_Suc_atMost) simp
    have s': "0 < (\<Sum>k = Suc m..12. daysIn y k)"
      using False 1(2) daysIn_pos [of y 12] by (intro sum_pos) auto
    show ?thesis
    proof (cases "n < daysIn y m")
      case True
      with False 1(2) s s' show ?thesis
        by (cases "Suc n = daysIn y m") (auto simp: monthFrom.simps [of y m] monthFrom.simps [of y "Suc m" 0])
    next
      case n: False
      then have d: "Suc n - daysIn y m = Suc (n - daysIn y m)" by simp
      have "(Suc n < (\<Sum>k = m..12. daysIn y k)) = (Suc (n - daysIn y m) < (\<Sum>k = Suc m..12. daysIn y k))"
        using n s by linarith
      moreover have "(case monthFrom y (Suc m) (n - daysIn y m) of (m', d) \<Rightarrow> nextDate (y, m', d)) =
          (if Suc (n - daysIn y m) < (\<Sum>k = Suc m..12. daysIn y k)
           then (y, monthFrom y (Suc m) (Suc (n - daysIn y m))) else (Suc y, 1, 1))"
        using 1 n False s by (intro 1(1)) auto
      ultimately show ?thesis
        using n False 1(2) d by (simp add: monthFrom.simps [of y m] del: nextDate.simps)
    qed
  qed
qed

lemma yearDays_sum: "(\<Sum>k = 1..12. daysIn y k) = yearDays y"
  by (simp add: numeral_eq_Suc sum.atLeast_Suc_atMost daysIn_def yearDays_def)

lemma yearFrom_Suc:
  "yearFrom y (Suc n) = (case yearFrom y n of (y', yd) \<Rightarrow> if Suc yd < yearDays y' then (y', Suc yd) else (Suc y', 0))"
proof (induction y n rule: yearFrom.induct)
  case (1 y n)
  show ?case
  proof (cases "n < yearDays y")
    case True
    then show ?thesis
      by (cases "Suc n = yearDays y")
        (auto simp: yearFrom.simps [of y] yearFrom.simps [of "Suc y" 0])
  next
    case False
    with 1 show ?thesis by (simp add: yearFrom.simps [of y] Suc_diff_le)
  qed
qed

lemma yearFrom_less: "yearFrom y n = (y', yd) \<Longrightarrow> yd < yearDays y'"
  by (induction y n rule: yearFrom.induct) (simp add: yearFrom.simps split: if_splits)

lemma date_Suc: "date (Suc day) = nextDate (date day)"
proof -
  obtain y yd where y: "yearFrom 1970 day = (y, yd)" by (cases "yearFrom 1970 day")
  obtain m d where m: "monthFrom y 1 yd = (m, d)" by (cases "monthFrom y 1 yd")
  note less = yearFrom_less [OF y]
  have "nextDate (y, m, d) = (if Suc yd < yearDays y then (y, monthFrom y 1 (Suc yd)) else (Suc y, 1, 1))"
    using monthFrom_Suc [of 1 yd y] less by (simp add: m yearDays_sum del: nextDate.simps One_nat_def)
  moreover have "monthFrom (Suc y) 1 0 = (1, 1)" by (subst monthFrom.simps) simp
  ultimately show ?thesis
    by (simp add: date_def y m yearFrom_Suc case_prod_unfold del: nextDate.simps One_nat_def)
qed

section \<open>The search\<close>

text \<open>
  The days of a schedule: in one of its months, and, if the day of the month and the day of the week both leave something out, on
  one of the days of either list, otherwise on a day in both.
\<close>

definition dayRule :: "cronSchedule \<Rightarrow> nat \<Rightarrow> bool" where
  "dayRule c day \<longleftrightarrow> (case date day of (y, m, d) \<Rightarrow> int m \<in> set (months c) \<and>
     (if set (dom c) \<noteq> {1..31} \<and> set (dow c) \<noteq> {0..6}
      then int d \<in> set (dom c) \<or> int (weekday day) \<in> set (dow c)
      else int d \<in> set (dom c) \<and> int (weekday day) \<in> set (dow c)))"

lemma matchesDay_rule: "wf_cron c \<Longrightarrow> matchesDay c day = dayRule c day"
  by (auto simp: matchesDay_def dayRule_def wf_cron_def Let_def split: prod.split)

text \<open>A minute since the epoch at which a schedule fires.\<close>

definition fires :: "cronSchedule \<Rightarrow> nat \<Rightarrow> bool" where
  "fires c t \<longleftrightarrow> dayRule c (t div 1440) \<and> int (t mod 1440 div 60) \<in> set (hours c) \<and> int (t mod 60) \<in> set (minutes c)"

lemma sorted_grid:
  assumes "sorted_wrt (<) hs" and "sorted ms" and "set ms \<subseteq> {0..59 :: int}"
  shows "sorted (concat (map (\<lambda>h. map (\<lambda>m. b + h * 60 + m) ms) hs))"
  using assms(1)
proof (induction hs)
  case (Cons h hs)
  have "sorted (map (\<lambda>m. b + h * 60 + m) ms)" using assms(2) by (simp add: sorted_map)
  moreover have "b + h * 60 + m \<le> b + h' * 60 + m'" if "h' \<in> set hs" "m \<in> set ms" "m' \<in> set ms" for h' m m'
  proof -
    have "h < h'" using Cons.prems that by simp
    moreover have "m \<le> 59" "0 \<le> m'" using assms(3) that by auto
    ultimately show ?thesis by linarith
  qed
  ultimately show ?case using Cons by (auto simp: sorted_append)
qed simp

lemma find_least:
  assumes "sorted xs"
  shows "case List.find (\<lambda>x. \<not> x < e) xs of
      Some x \<Rightarrow> x \<in> set xs \<and> e \<le> x \<and> (\<forall>z \<in> set xs. e \<le> z \<longrightarrow> x \<le> z)
    | None \<Rightarrow> \<forall>z \<in> set xs. z < (e :: int)"
  using assms by (induction xs) (auto split: option.splits)

lemma candidates_sorted: "wf_cron c \<Longrightarrow> sorted (candidates c day)"
  unfolding candidates_def wf_cron_def
  by (intro sorted_grid) (auto simp: strict_sorted_iff)

lemma clock_parts:
  assumes "h < 24" and "m < (60 :: nat)"
  shows "(day * 1440 + h * 60 + m) div 1440 = day" and "(day * 1440 + h * 60 + m) mod 1440 div 60 = h"
    and "(day * 1440 + h * 60 + m) mod 60 = m"
proof -
  have l: "h * 60 + m < 1440" using assms by linarith
  have a: "day * 1440 + h * 60 + m = (h * 60 + m) + day * 1440" by simp
  show "(day * 1440 + h * 60 + m) div 1440 = day" unfolding a using l by (subst div_mult_self1) simp_all
  show "(day * 1440 + h * 60 + m) mod 1440 div 60 = h" unfolding a using l assms by (simp only: mod_mult_self1) simp
  have "day * 1440 + h * 60 + m = m + (day * 24 + h) * 60" by simp
  then show "(day * 1440 + h * 60 + m) mod 60 = m" using assms by (simp only: mod_mult_self1) simp
qed

lemma candidates_mem:
  assumes "wf_cron c"
  shows "x \<in> set (candidates c day) \<longleftrightarrow> (\<exists>h \<in> set (hours c). \<exists>m \<in> set (minutes c). x = int day * 1440 + h * 60 + m)"
proof -
  have "set (sortedMinutes c) = set (minutes c)" "set (sortedHours c) = set (hours c)"
    using assms by (simp_all add: wf_cron_def)
  then show ?thesis by (auto simp: candidates_def)
qed

lemma candidates_iff:
  assumes "wf_cron c"
  shows "x \<in> set (candidates c day) \<longleftrightarrow>
    (\<exists>t. x = int t \<and> t div 1440 = day \<and> int (t mod 1440 div 60) \<in> set (hours c) \<and> int (t mod 60) \<in> set (minutes c))"
proof
  assume "x \<in> set (candidates c day)"
  then obtain h m where hm: "h \<in> set (hours c)" "m \<in> set (minutes c)" "x = int day * 1440 + h * 60 + m"
    unfolding candidates_mem [OF assms] by blast
  with assms have r: "0 \<le> h" "h \<le> 23" "0 \<le> m" "m \<le> 59" by (auto simp: wf_cron_def)
  define t where "t = day * 1440 + nat h * 60 + nat m"
  have "int t = x" using r hm(3) by (simp add: t_def)
  moreover have "t div 1440 = day" "t mod 1440 div 60 = nat h" "t mod 60 = nat m"
    using clock_parts [of "nat h" "nat m" day] r by (simp_all add: t_def)
  ultimately show "\<exists>t. x = int t \<and> t div 1440 = day \<and> int (t mod 1440 div 60) \<in> set (hours c) \<and> int (t mod 60) \<in> set (minutes c)"
    using hm(1,2) r by (intro exI [of _ t]) simp_all
next
  assume "\<exists>t. x = int t \<and> t div 1440 = day \<and> int (t mod 1440 div 60) \<in> set (hours c) \<and> int (t mod 60) \<in> set (minutes c)"
  then obtain t where t: "x = int t" "t div 1440 = day" "int (t mod 1440 div 60) \<in> set (hours c)" "int (t mod 60) \<in> set (minutes c)"
    by blast
  have "t mod 1440 mod 60 = t mod 60" by (rule mod_mod_cancel) simp
  then have "t = day * 1440 + (t mod 1440 div 60) * 60 + t mod 60"
    using div_mult_mod_eq [of t 1440] div_mult_mod_eq [of "t mod 1440" 60] unfolding t(2) by linarith
  from arg_cong [OF this, of int] have "x = int day * 1440 + int (t mod 1440 div 60) * 60 + int (t mod 60)"
    unfolding t(1) of_nat_add of_nat_mult of_nat_numeral .
  with t show "x \<in> set (candidates c day)" unfolding candidates_mem [OF assms] by blast
qed

lemma searchDays_least:
  assumes "wf_cron c"
  shows "case searchDays c earliest n day of
      Some x \<Rightarrow> earliest \<le> x \<and> 0 \<le> x \<and> fires c (nat x) \<and>
        (\<forall>t. day \<le> t div 1440 \<longrightarrow> earliest \<le> int t \<longrightarrow> int t < x \<longrightarrow> \<not> fires c t)
    | None \<Rightarrow> \<forall>t. day \<le> t div 1440 \<longrightarrow> t div 1440 < day + n \<longrightarrow> earliest \<le> int t \<longrightarrow> \<not> fires c t"
proof (induction n arbitrary: day)
  case 0
  then show ?case by simp
next
  case (Suc n)
  have here: "fires c t \<Longrightarrow> t div 1440 = day \<Longrightarrow> matchesDay c day \<and> int t \<in> set (candidates c day)" for t
    using candidates_iff [OF assms, of "int t" day] by (auto simp: fires_def matchesDay_rule [OF assms])
  have later: "case searchDays c earliest n (Suc day) of
      Some x \<Rightarrow> earliest \<le> x \<and> 0 \<le> x \<and> fires c (nat x) \<and>
        (\<forall>t. day \<le> t div 1440 \<longrightarrow> earliest \<le> int t \<longrightarrow> int t < x \<longrightarrow> \<not> fires c t)
    | None \<Rightarrow> \<forall>t. day \<le> t div 1440 \<longrightarrow> t div 1440 < day + Suc n \<longrightarrow> earliest \<le> int t \<longrightarrow> \<not> fires c t"
    if none: "\<And>t. t div 1440 = day \<Longrightarrow> earliest \<le> int t \<Longrightarrow> \<not> fires c t"
  proof -
    have d: "day \<le> k \<longleftrightarrow> k = day \<or> Suc day \<le> k" for k by auto
    show ?thesis using Suc.IH [of "Suc day"] none by (simp add: d split: option.splits)
  qed
  note least = find_least [OF candidates_sorted [OF assms, of day], of earliest]
  show ?case
  proof (cases "matchesDay c day")
    case False
    then show ?thesis using later here by auto
  next
    case True
    show ?thesis
    proof (cases "List.find (\<lambda>x. \<not> x < earliest) (candidates c day)")
      case None
      with least have "\<forall>z \<in> set (candidates c day). z < earliest" by simp
      with True None later here show ?thesis by fastforce
    next
      case (Some x)
      with least have x: "x \<in> set (candidates c day)" "earliest \<le> x" "\<forall>z \<in> set (candidates c day). earliest \<le> z \<longrightarrow> x \<le> z"
        by simp_all
      from x(1) candidates_iff [OF assms, of x day] obtain t0 where t0: "x = int t0" "t0 div 1440 = day"
        "int (t0 mod 1440 div 60) \<in> set (hours c)" "int (t0 mod 60) \<in> set (minutes c)" by blast
      have "\<not> fires c t" if "day \<le> t div 1440" "earliest \<le> int t" "int t < x" for t
      proof
        assume "fires c t"
        moreover have "t div 1440 \<le> t0 div 1440" using that(3) t0(1) by (intro div_le_mono) simp
        ultimately have "int t \<in> set (candidates c day)" using here that(1) t0(2) by simp
        with x(3) that show False by auto
      qed
      with Some True x t0 show ?thesis by (simp add: fires_def matchesDay_rule [OF assms])
    qed
  qed
qed

text \<open>
  Property C39. The next fire time is the first one. For a schedule as the parser builds it,
  \<open>Next\<close> returns a time strictly after the given one at which the schedule fires, on a
  whole minute, and the schedule fires at no whole minute in between; it returns nothing
  only if the schedule fires at no minute of the next five leap years of days. A schedule fires at the minutes of its hours on the
  days of its months that are in both day lists, or in one of them if neither list has all days.
\<close>

theorem Next_first:
  assumes "wf_cron c"
  shows "case Next c frm of
      Some x \<Rightarrow> \<exists>t. x = int (t * minuteNs) \<and> frm < t * minuteNs \<and> fires c t \<and>
        (\<forall>t'. frm < t' * minuteNs \<longrightarrow> t' < t \<longrightarrow> \<not> fires c t')
    | None \<Rightarrow> \<forall>t. frm < t * minuteNs \<longrightarrow> t div 1440 < (frm div minuteNs + 1) div 1440 + cronMaxSearchDays \<longrightarrow> \<not> fires c t"
proof -
  define e where "e = frm div minuteNs + 1"
  have e: "frm < t * minuteNs \<longleftrightarrow> e \<le> t" for t
    by (simp add: e_def minuteNs_def less_mult_imp_div_less div_less_iff_less_mult Suc_le_eq)
  have day: "e \<le> t \<Longrightarrow> e div 1440 \<le> t div 1440" for t by (rule div_le_mono)
  have least: "case searchDays c (int e) cronMaxSearchDays (e div 1440) of
      Some x \<Rightarrow> int e \<le> x \<and> 0 \<le> x \<and> fires c (nat x) \<and>
        (\<forall>t. e div 1440 \<le> t div 1440 \<longrightarrow> int e \<le> int t \<longrightarrow> int t < x \<longrightarrow> \<not> fires c t)
    | None \<Rightarrow> \<forall>t. e div 1440 \<le> t div 1440 \<longrightarrow> t div 1440 < e div 1440 + cronMaxSearchDays \<longrightarrow> int e \<le> int t \<longrightarrow> \<not> fires c t"
    by (rule searchDays_least [OF assms])
  show ?thesis
  proof (cases "searchDays c (int e) cronMaxSearchDays (e div 1440)")
    case None
    with least day show ?thesis unfolding e by (simp add: Next_def e_def Let_def)
  next
    case (Some x)
    with least have x: "int e \<le> x" "fires c (nat x)"
      "\<forall>t. e div 1440 \<le> t div 1440 \<longrightarrow> int e \<le> int t \<longrightarrow> int t < x \<longrightarrow> \<not> fires c t" by simp_all
    have "Next c frm = Some (int (nat x * minuteNs))"
      using Some x(1) by (simp add: Next_def e_def Let_def)
    then show ?thesis unfolding e using x day by (auto intro!: exI [of _ "nat x"])
  qed
qed

definition sample_cron :: cronSchedule where
  "sample_cron = \<lparr>minutes = [0], hours = [3], dom = rev [1..31], months = rev [1..12], dow = rev [0..6],
     domRestricted = False, dowRestricted = False, sortedMinutes = [0], sortedHours = [3]\<rparr>"

lemma sample_cron_wf: "wf_cron sample_cron"
  by (auto simp: wf_cron_def sample_cron_def)

theorem Next_first_witness:
  "wf_cron sample_cron \<and> Next sample_cron 0 = Some (int (180 * minuteNs)) \<and> fires sample_cron 180 \<and>
   list_all (\<lambda>t. \<not> fires sample_cron t) [1..<180]"
proof -
  have "date 0 = (1970, 1, 1)" by code_simp
  then have d: "matchesDay sample_cron 0" by (simp add: matchesDay_def sample_cron_def weekday_def)
  have "candidates sample_cron 0 = [180]" by (simp add: candidates_def sample_cron_def)
  with d have "searchDays sample_cron 1 (Suc k) 0 = Some 180" for k by simp
  from this [of 1829] have n: "Next sample_cron 0 = Some (int (180 * minuteNs))"
    by (simp add: Next_def cronMaxSearchDays_def)
  have "fires sample_cron 180" "\<forall>t. 0 < t * minuteNs \<longrightarrow> t < 180 \<longrightarrow> \<not> fires sample_cron t"
    using Next_first [OF sample_cron_wf, of 0] n by (auto simp: minuteNs_def)
  then show ?thesis using sample_cron_wf n by (auto simp: list_all_iff minuteNs_def simp del: upt_rec_numeral)
qed

text \<open>
  Property C40. Cron expressions mean what they say. The parser returns on every input, also
  where a step makes the loop variable wrap around, and accepts exactly the expressions of five fields whose
  items are in the grammar of \<open>item_of\<close>. If no step reaches \<open>2 ^ 62\<close>, an accepted
  expression gives exactly the minutes, hours, days, months and week days its items select,
  with 7 read as Sunday, all in range, and the flags and sorted lists that belong to them.
\<close>

theorem ParseCron_meaning:
  "(\<exists>r. ParseCron expr = Some r) \<and>
   ((\<exists>c. ParseCron expr = Some (Inr c)) \<longleftrightarrow> cron_syntax expr) \<and>
   (\<forall>c. ParseCron expr = Some (Inr c) \<longrightarrow> small_steps expr \<longrightarrow> cron_meaning expr c \<and> wf_cron c)"
  using ParseCron_returns ParseCron_accepts ParseCron_accepted by blast

theorem ParseCron_meaning_witness:
  "\<exists>c. ParseCron ''*/20 9-17/4 * * 1,7'' = Some (Inr c) \<and> wf_cron c \<and> sortedMinutes c = [0, 20, 40] \<and>
     sortedHours c = [9, 13, 17] \<and> set (dow c) = {0, 1} \<and> cron_meaning ''*/20 9-17/4 * * 1,7'' c"
proof -
  have "case ParseCron ''*/20 9-17/4 * * 1,7'' of
      Some (Inr c) \<Rightarrow> sortedMinutes c = [0, 20, 40] \<and> sortedHours c = [9, 13, 17] \<and> set (dow c) = {0, 1} | _ \<Rightarrow> False"
    by code_simp
  then obtain c where c: "ParseCron ''*/20 9-17/4 * * 1,7'' = Some (Inr c)" "sortedMinutes c = [0, 20, 40]"
    "sortedHours c = [9, 13, 17]" "set (dow c) = {0, 1}"
    by (auto split: option.splits sum.splits)
  have "small_steps ''*/20 9-17/4 * * 1,7''" by code_simp
  with c ParseCron_meaning [of "''*/20 9-17/4 * * 1,7''"] show ?thesis by blast
qed

text \<open>
  With a step near the largest integer the loop variable wraps around and comes back: the
  field is accepted with minutes it does not select, one of them negative.
\<close>

lemma huge_step_wraps:
  "parseCronField ''2/9223372036854775807'' 0 59 id = Some (Inr [0, - 9223372036854775807, 2])"
proof -
  have "TrimSpace ''2/9223372036854775807'' = ''2/9223372036854775807''" by code_simp
  moreover have "Atoi ''9223372036854775807'' = Some 9223372036854775807" "Atoi ''2'' = Some 2"
    by (simp_all add: Atoi_def is_digit_def)
  moreover have "addRange id 59 9223372036854775807 2 [] = Some [0, - 9223372036854775807, 2]"
    by (simp add: addRange.simps add64_def)
  ultimately show ?thesis
    by (simp add: parseCronField_def parseItem_def parseCronValue_def)
qed

end
