(* ===== verification/Spec2Isabelle.thy ===== *)
theory Spec2Isabelle
  imports Server Cron
begin

text \<open>
  A verification development for RAVEN, a job platform on a message broker written in Go.
  It covers the broker (src/internal/broker) from the bytes on disk to the frames on a
  connection, and the cron expressions of the jobs service (src/services/jobs/cron.go).

  \<^bold>\<open>The program.\<close> A topic has partitions; a partition is an append-only log, stored as
  segments of encoded records with a sparse index. Retention deletes old segments and
  compaction rewrites closed ones. Consumers form groups: a coordinator deals the partitions
  to the members and keeps committed offsets in a file. In cluster mode every partition has
  a leader and followers that fetch its log; the leader commits a record once a majority of the
  replicas counts for it, itself and the live followers it has sent the record to.
  The broker joins these parts behind the operations of the wire protocol, and the server
  reads frames from a connection, checks credentials and grants, and calls the broker.

  \<^bold>\<open>Base.\<close> \<open>Raven_Prelude\<close> has Go's integers as words, results as sums, big-endian
  integers and two interfaces: \<open>counted_codec\<close> (a field that is written and read back out of
  a longer buffer) and \<open>invariant_system\<close> (a step relation with an invariant); a Go panic is a value. \<open>Disk\<close> is the
  directory of files the storage engine works on; every call may fail, and a failing write
  may have written a part. \<open>Go_Text\<close> has the functions of \<open>strings\<close> and \<open>strconv\<close> the parsers
  call.

  \<^bold>\<open>Storage\<close> (src/internal/broker/storage).
  \<^item> \<open>Crc32c\<close>, \<open>Record_Codec\<close> (record.go): the record format. Encoding and decoding are
    inverse, a cut record is reported as truncated and a changed byte as corrupt.
  \<^item> \<open>Record_Stream\<close> (\<open>streamRecords\<close> of partition.go): the chunked scan. It returns on every
    file and equals the parse of the whole file when records are below one chunk; in general
    it delivers a prefix of it, which is the whole unless the callback stops it, an oversized record
    follows, or it panics behind a record of one chunk or more.
  \<^item> \<open>Segment\<close> (segment.go), \<open>Partition\<close> (partition.go), \<open>Partition_Log\<close>: the segments with
    their index, and the partition. \<open>Append\<close> and \<open>Read\<close> refine operations on one list of
    records, errors leave the visible log as it was, and recovery keeps the longest run of
    whole records, so a torn append costs only records of the torn batch.
  \<^item> \<open>Replica\<close> (replica.go): append of a leader's records and truncation to an offset.
  \<^item> \<open>Retention\<close> (retention.go): no fault makes it delete the active segment or a record a
    group still needs; without faults it deletes exactly the segments that the rules name.
  \<^item> \<open>Compaction\<close>, \<open>Compaction_Log\<close> (compaction.go): a pass keeps the keyless records and the
    latest record of each key. \<open>Swap_Recovery\<close>, \<open>Swap_Crash\<close>: a crash at any point of the
    swap leaves the old or the new pair of files; two error cases where it does not.
  \<^item> \<open>Store\<close> (store.go, cleanup.go): topics, routing of keys, and the sweep of the cleaner.

  \<^bold>\<open>Groups\<close> (src/internal/broker/group). \<open>Assignor\<close> (assignor.go): every partition of a
  subscribed topic goes to exactly one member, in shares that differ by at most one.
  \<open>Offsets\<close> (offsets.go): from a well-formed file, a run of commits and a restart at its end give every
  acknowledged offset, and a commit that failed gives the old or the new one. The promise ends with a torn
  line: the next commit is appended to it, is acknowledged, and is skipped at the following start.
  \<open>Coordinator\<close> (coordinator.go): ownership is exclusive in every reachable state. \<open>Commit\<close> is a check and a write, because the
  code releases its mutex in between: the member owned the partition in its generation when it was checked, and
  the write changes that one offset; the group may have moved on, so that a former owner can overwrite the commit of the
  new one.

  \<^bold>\<open>Cluster.\<close> \<open>Cluster\<close> (src/internal/broker/cluster): configuration, failure detector and
  placement. \<open>Replication\<close> (replication.go): the commit rule needs a majority by the leader's own record of the followers'
  progress and never goes back. That record counts records as they are sent, so a committed record may exist on
  the leader only; this is a theorem too. Fetch rounds bring a follower's log to the leader's if the answers fit into frames;
  an answer above the frame cap is lost in every round. The interface \<open>converging_system\<close> carries that argument.

  \<^bold>\<open>Broker and server.\<close> \<open>Protocol\<close> (src/internal/broker/protocol): frames and payloads
  round-trip. \<open>Broker\<close> (broker.go, config.go): what PRODUCE stores FETCH returns, an
  acknowledged \<open>acks=all\<close> is committed in the leader's sense, FETCH shows no uncommitted record, and the cleanup
  keeps what committed groups still read. \<open>Server\<close> (server/server.go, server/auth.go, auth.go):
  a connection as a step relation over its reader, handlers and writer; every frame is accounted for, as answered, in work, queued,
  lost by the one failed write, or given up at shutdown; credentials are exact, and a topic changes only for a principal with the grant. The server knows the broker through the
  interface \<open>topic_backend\<close>, interpreted on the broker's operations.

  \<^bold>\<open>Jobs.\<close> \<open>Cron\<close> (src/services/jobs/cron.go): the parser of cron expressions with the
  64-bit additions of its loop, shown to accept the grammar of \<open>item_of\<close> and to give the values it selects, a Gregorian calendar
  whose successor is shown to be the next
  date, and \<open>Next\<close>, which returns the first time the rule of \<open>fires\<close> allows.

  \<^bold>\<open>Conventions.\<close> Structs are records, errors are values of sums, Go maps are association
  lists. A Go panic is the left side of a sum where a caller can meet it; in the sweep it ends the sweep, and
  in a connection it is no step, since it ends the process. An operation under a mutex is one step; where the
  code releases the mutex or waits, the operation is split or what others do is an
  argument (\<open>others\<close>). The clock, JSON decoders, SHA-256 and network answers are arguments, and the
  properties that depend on them have witnesses with concrete functions.

  \<^bold>\<open>Bounds.\<close> There is no fuel. Two loops that need an argument to end, the scan of a file and
  the loop over the values of a cron field, are partial functions into options, and it is
  proved that they return. Records of 256 KiB and more are excluded where the
  scan of a segment has to be exact. Times before 1970 do not occur in the calendar. Steps of
  \<open>2 ^ 62\<close> and more in a cron field are excluded where the meaning of an expression is stated:
  the loop variable wraps around there.

  \<^bold>\<open>Not modelled.\<close>
  \<^item> Goroutine loops, tickers and shutdown of the broker, sockets, TLS, deadlines as time, and
    metrics: scheduling and I/O around the operations above.
  \<^item> \<open>encoding/json\<close>, \<open>otel\<close>, \<open>prometheus\<close>: third-party or library code whose results are
    arguments. The lines of the offset file are the exception, their JSON is modelled.
  \<^item> The broker client (src/internal/broker/client): connections, pipelining and retries.
  \<^item> The services besides cron (src/services, src/internal/auth, src/internal/audit): their state
    is in Postgres and Redis, and the statements run there. The rate limiter of the gateway
    computes with floating-point numbers.
  \<^item> Entry points, command line, SDK, generated code, benchmarks, deployment files and the web
    console.
\<close>

end
